(* ===== verification/Prelude.thy ===== *)
theory Prelude
  imports Main "HOL-Library.Word" "HOL-Library.Monad_Syntax" "HOL-Library.Multiset"
begin

text \<open>
  Shared vocabulary of the development: the result codes of BIND, C memory objects as byte lists
  with checked loads and stores, the big-endian 16 and 32 bit encodings the code writes byte by
  byte, comparators in the style of the C library (negative, zero, positive) and the contract of
  \<^verbatim>\<open>qsort\<close>.

  A C function that runs into undefined behaviour (a load or a store outside of its memory
  object) or into a failing REQUIRE, INSIST or assert is modelled by \<open>None\<close>; a result code is an
  ordinary value of type \<open>isc_result\<close>.  A theorem that a function returns \<open>Some\<close> therefore says
  that no access leaves its object and that no assertion fails.
\<close>

unbundle bit_operations_syntax

declare add_2_eq_Suc [simp del] add_2_eq_Suc' [simp del]

type_synonym u8 = "8 word"
type_synonym u16 = "16 word"
type_synonym u32 = "32 word"
type_synonym mem = "u8 list"

datatype isc_result =
    ISC_R_SUCCESS
  | ISC_R_NOMEMORY
  | ISC_R_NOMORE
  | ISC_R_NOSPACE
  | ISC_R_FAILURE
  | ISC_R_NOTFOUND
  | ISC_R_NOTIMPLEMENTED
  | DNS_R_SINGLETON
  | DNS_R_NOTEXACT
  | DNS_R_UNCHANGED
  | DNS_R_NXRRSET
  | DNS_R_NEWORIGIN
  | DNS_R_FORMERR
  | ISC_R_UNEXPECTEDEND
  | DNS_R_LABELTOOLONG
  | DNS_R_BADESCAPE
  | DNS_R_EMPTYLABEL
  | DNS_R_BADLABELTYPE
  | DNS_R_BADPOINTER
  | DNS_R_DISALLOWED
  | DNS_R_NAMETOOLONG

named_theorems mem_simps \<open>loads and stores at a position of a concatenation\<close>

section \<open>Memory objects\<close>

text \<open>\<open>p[i]\<close> for an object \<open>m\<close>.\<close>

definition mem_rd :: "mem \<Rightarrow> nat \<Rightarrow> u8 option" where
  "mem_rd m i = (if i < length m then Some (m ! i) else None)"

text \<open>Reading \<open>n\<close> bytes from position \<open>i\<close> (the source of a \<^verbatim>\<open>memcpy\<close>, a region).\<close>

definition mem_blk :: "mem \<Rightarrow> nat \<Rightarrow> nat \<Rightarrow> mem option" where
  "mem_blk m i n = (if i + n \<le> length m then Some (take n (drop i m)) else None)"

text \<open>Storing the bytes \<open>bs\<close> from position \<open>i\<close> on (a \<^verbatim>\<open>memcpy\<close>, or consecutive stores \<open>*p++ = b\<close>).\<close>

definition mem_wr :: "mem \<Rightarrow> nat \<Rightarrow> u8 list \<Rightarrow> mem option" where
  "mem_wr m i bs =
     (if i + length bs \<le> length m then Some (take i m @ bs @ drop (i + length bs) m) else None)"

text \<open>
  The bytes \<open>(n & 0xff00) >> 8, n & 0xff\<close>, and the four bytes of an \<^verbatim>\<open>unsigned int\<close>: conversion to a
  byte drops everything above bit 7, as the masks do.
\<close>

definition put16 :: "nat \<Rightarrow> u8 list" where
  "put16 n = [word_of_nat (n div 256), word_of_nat n]"

definition get16 :: "u8 \<Rightarrow> u8 \<Rightarrow> nat" where
  "get16 a b = unat a * 256 + unat b"

definition put32 :: "nat \<Rightarrow> u8 list" where
  "put32 n = [word_of_nat (n div 16777216), word_of_nat (n div 65536),
              word_of_nat (n div 256), word_of_nat n]"

definition get32 :: "u8 \<Rightarrow> u8 \<Rightarrow> u8 \<Rightarrow> u8 \<Rightarrow> nat" where
  "get32 a b c d = unat a * 16777216 + unat b * 65536 + unat c * 256 + unat d"

definition rd16 :: "mem \<Rightarrow> nat \<Rightarrow> nat option" where
  "rd16 m i = do { a \<leftarrow> mem_rd m i; b \<leftarrow> mem_rd m (i + 1); Some (get16 a b) }"

definition rd32 :: "mem \<Rightarrow> nat \<Rightarrow> nat option" where
  "rd32 m i = do { a \<leftarrow> mem_rd m i; b \<leftarrow> mem_rd m (i + 1); c \<leftarrow> mem_rd m (i + 2);
                   d \<leftarrow> mem_rd m (i + 3); Some (get32 a b c d) }"

text \<open>
  \<^verbatim>\<open>unsigned int\<close> values are natural numbers below $2^{32}$; where the code's arithmetic can leave that
  range the reduction is written out.
\<close>

definition u32_of :: "nat \<Rightarrow> nat" where
  "u32_of n = n mod 4294967296"

definition u32_sub :: "nat \<Rightarrow> nat \<Rightarrow> nat" where
  "u32_sub a b = (a + 4294967296 - b) mod 4294967296"

lemma u32_of_id [simp]: "n < 4294967296 \<Longrightarrow> u32_of n = n"
  by (simp add: u32_of_def)

lemma u32_sub_id [simp]: "b \<le> a \<Longrightarrow> a < 4294967296 \<Longrightarrow> u32_sub a b = a - b"
  using mod_add_self2 [of "a - b" 4294967296] by (simp add: u32_sub_def)

text \<open>
  An allocator: the \<open>k\<close>-th request of a call, of \<open>n\<close> bytes, either fails or returns an object of
  \<open>n\<close> bytes whose contents the caller knows nothing about.
\<close>

type_synonym mctx = "nat \<Rightarrow> nat \<Rightarrow> mem option"

definition mctx_ok :: "mctx \<Rightarrow> bool" where
  "mctx_ok g \<longleftrightarrow> (\<forall>k n m. g k n = Some m \<longrightarrow> length m = n)"

lemma mctx_okD [dest]: "mctx_ok g \<Longrightarrow> g k n = Some m \<Longrightarrow> length m = n"
  by (auto simp: mctx_ok_def)

subsection \<open>Encodings\<close>

lemma length_put16 [simp]: "length (put16 n) = 2"
  by (simp add: put16_def)

lemma length_put32 [simp]: "length (put32 n) = 4"
  by (simp add: put32_def)

lemma unat_byte: "unat (word_of_nat n :: u8) = n mod 256"
  by (simp add: unat_of_nat)

lemma get16_put16: "n < 65536 \<Longrightarrow> get16 (put16 n ! 0) (put16 n ! 1) = n"
  by (simp add: get16_def put16_def unat_byte)

lemma get32_put32:
  assumes "n < 4294967296"
  shows "get32 (put32 n ! 0) (put32 n ! 1) (put32 n ! 2) (put32 n ! 3) = n"
proof -
  define a b c where "a = n div 256" and "b = a div 256" and "c = b div 256"
  have n: "n = a * 256 + n mod 256" and a: "a = b * 256 + a mod 256"
    and b: "b = c * 256 + b mod 256"
    unfolding a_def b_def c_def by simp_all
  have c: "n div 16777216 = c" "n div 65536 = b" "n div 256 = a"
    unfolding a_def b_def c_def by (simp_all add: div_mult2_eq [symmetric])
  have "c mod 256 = c" using assms unfolding c(1) [symmetric] by simp
  then show ?thesis
    using n a b by (simp add: get32_def put32_def unat_byte c)
qed

lemma unat_byte_less: "unat (b :: u8) < 256"
  using unsigned_less [of b] by simp

lemma get16_less: "get16 a b < 65536"
  using unat_byte_less [of a] unat_byte_less [of b] by (simp add: get16_def)

lemma get32_less: "get32 a b c d < 4294967296"
  using unat_byte_less [of a] unat_byte_less [of b] unat_byte_less [of c] unat_byte_less [of d]
  by (simp add: get32_def)

lemma byte_eqI: "n mod 256 = unat b \<Longrightarrow> (word_of_nat n :: u8) = b"
  by (simp add: word_unat_eq_iff unat_byte del: word_of_nat_eq_iff)

lemma put16_get16: "put16 (get16 a b) = [a, b]"
proof -
  have "(unat a * 256 + unat b) div 256 mod 256 = unat a" "(unat a * 256 + unat b) mod 256 = unat b"
    using unat_byte_less [of a] unat_byte_less [of b] by simp_all
  then show ?thesis unfolding put16_def get16_def by (simp only: byte_eqI)
qed

lemma put32_get32: "put32 (get32 a b c d) = [a, b, c, d]"
proof -
  define z y n where "z = unat a * 256 + unat b" and "y = z * 256 + unat c"
    and "n = y * 256 + unat d"
  have lt: "unat a < 256" "unat b < 256" "unat c < 256" "unat d < 256"
    by (simp_all add: unat_byte_less)
  have g: "get32 a b c d = n" by (simp add: get32_def n_def y_def z_def)
  have d: "n div 256 = y" "n mod 256 = unat d" using lt by (simp_all add: n_def)
  have c: "y div 256 = z" "y mod 256 = unat c" using lt by (simp_all add: y_def)
  have b: "z div 256 = unat a" "z mod 256 = unat b" using lt by (simp_all add: z_def)
  have "n div 65536 = n div 256 div 256" "n div 16777216 = n div 256 div 256 div 256"
    by (simp_all add: div_mult2_eq [symmetric])
  then have "n div 65536 mod 256 = unat b" "n div 16777216 mod 256 = unat a"
    using b c d lt by simp_all
  with d c show ?thesis
    unfolding put32_def g by (simp only: byte_eqI)
qed

text \<open>Two and four bytes of unknown contents are the encoding of some number.\<close>

lemma put16_surj: "length bs = 2 \<Longrightarrow> \<exists>n. bs = put16 n"
proof -
  assume "length bs = 2"
  then obtain a b where "bs = [a, b]" by (auto simp: length_Suc_conv numeral_eq_Suc)
  then show ?thesis using put16_get16 by metis
qed

lemma put32_surj: "length bs = 4 \<Longrightarrow> \<exists>n. bs = put32 n"
proof -
  assume "length bs = 4"
  then obtain a b c d where "bs = [a, b, c, d]"
    by (auto simp: length_Suc_conv numeral_eq_Suc)
  then show ?thesis using put32_get32 by metis
qed

lemma concat_put32_surj: "length bs = 4 * n \<Longrightarrow> \<exists>ns. length ns = n \<and> bs = concat (map put32 ns)"
proof (induction n arbitrary: bs)
  case 0
  then show ?case by simp
next
  case (Suc n)
  then obtain ns where ns: "length ns = n" "drop 4 bs = concat (map put32 ns)"
    using Suc.IH [of "drop 4 bs"] by force
  moreover obtain k where "take 4 bs = put32 k" using put32_surj [of "take 4 bs"] Suc.prems by auto
  ultimately have "length (k # ns) = Suc n \<and> bs = concat (map put32 (k # ns))"
    using append_take_drop_id [of 4 bs] by simp
  then show ?case by blast
qed

lemma length_concat_put32 [simp]: "length (concat (map put32 ns)) = 4 * length ns"
  by (induction ns) auto

subsection \<open>Loads and stores in a concatenation\<close>

lemma mem_rd_mid [mem_simps]: "i = length pre \<Longrightarrow> mem_rd (pre @ b # post) i = Some b"
  by (simp add: mem_rd_def)

lemma mem_blk_mid [mem_simps]:
  "i = length pre \<Longrightarrow> n = length bs \<Longrightarrow> mem_blk (pre @ bs @ post) i n = Some bs"
  by (simp add: mem_blk_def)

lemma mem_wr_mid [mem_simps]:
  "i = length pre \<Longrightarrow> length bs = length old \<Longrightarrow> mem_wr (pre @ old @ post) i bs = Some (pre @ bs @ post)"
  by (simp add: mem_wr_def)

lemma rd16_mid [mem_simps]:
  "i = length pre \<Longrightarrow> n < 65536 \<Longrightarrow> rd16 (pre @ put16 n @ post) i = Some n"
  using get16_put16 [of n] by (simp add: rd16_def mem_rd_def nth_append)

lemma rd32_mid [mem_simps]:
  "i = length pre \<Longrightarrow> n < 4294967296 \<Longrightarrow> rd32 (pre @ put32 n @ post) i = Some n"
  using get32_put32 [of n] by (simp add: rd32_def mem_rd_def nth_append)

lemma length_mem_wr: "mem_wr m i bs = Some m' \<Longrightarrow> length m' = length m"
  by (auto simp: mem_wr_def split: if_splits)

lemma length_mem_blk: "mem_blk m i n = Some bs \<Longrightarrow> length bs = n"
  by (auto simp: mem_blk_def split: if_splits)

lemma mem_split: "i + n \<le> length m \<Longrightarrow>
    m = take i m @ take n (drop i m) @ drop (i + n) m"
  by (metis add.commute append_take_drop_id drop_drop)

section \<open>Generic list facts\<close>

text \<open>Replacing the \<open>j\<close>-th block of a concatenation is replacing the \<open>j\<close>-th element.\<close>

lemma concat_map_update:
  assumes "j < length xs"
  shows "concat (map f (xs[j := x])) =
     concat (map f (take j xs)) @ f x @ concat (map f (drop (Suc j) xs))"
  using assms by (simp add: upd_conv_take_nth_drop)

lemma concat_map_nth:
  assumes "j < length xs"
  shows "concat (map f xs) =
     concat (map f (take j xs)) @ f (xs ! j) @ concat (map f (drop (Suc j) xs))"
  using concat_map_update [OF assms, of f "xs ! j"] by simp

lemma sum_list_take_le: "sum_list (map f (take k xs)) \<le> (sum_list (map f xs) :: nat)"
  by (induction xs arbitrary: k) (auto simp: take_Cons split: nat.split)

text \<open>A sum does not depend on the order.\<close>

lemma sum_list_perm: "mset xs = mset ys \<Longrightarrow> (\<Sum>x \<leftarrow> xs. f x) = (\<Sum>x \<leftarrow> ys. f x)" for f :: "'a \<Rightarrow> nat"
  by (metis mset_map sum_mset_sum_list)

end
