(* ===== verification/Comparators.thy ===== *)
theory Comparators
  imports Prelude
begin

text \<open>
  Comparison functions in the style of the C library and the contract of \<^verbatim>\<open>qsort\<close> (ISO C 7.22.5.2):
  for a comparison function that is consistent on the elements of the array, the result is a
  rearrangement of the array in ascending order; nothing is promised about the relative order of
  elements that compare equal, and a comparison function that is inconsistent (\<open>consistent\<close>) makes the
  behaviour undefined.  The code's
  functions take \<^verbatim>\<open>qsort\<close> as an argument; the contract is the locale \<open>c_qsort\<close>, interpreted here by
  a merge sort.
\<close>

section \<open>Consistent comparison functions\<close>

locale cmp_on =
  fixes cmp :: "'a \<Rightarrow> 'a \<Rightarrow> int" and A :: "'a set"
  assumes cmp_refl: "a \<in> A \<Longrightarrow> cmp a a = 0"
    and cmp_neg: "a \<in> A \<Longrightarrow> b \<in> A \<Longrightarrow> cmp a b < 0 \<longleftrightarrow> cmp b a > 0"
    and cmp_trans: "a \<in> A \<Longrightarrow> b \<in> A \<Longrightarrow> c \<in> A \<Longrightarrow> cmp a b \<le> 0 \<Longrightarrow> cmp b c \<le> 0 \<Longrightarrow> cmp a c \<le> 0"
begin

lemma cmp_zero_sym: "a \<in> A \<Longrightarrow> b \<in> A \<Longrightarrow> cmp a b = 0 \<Longrightarrow> cmp b a = 0"
  using cmp_neg [of a b] cmp_neg [of b a] by linarith

lemma cmp_le_total: "a \<in> A \<Longrightarrow> b \<in> A \<Longrightarrow> \<not> cmp a b \<le> 0 \<Longrightarrow> cmp b a \<le> 0"
  using cmp_neg [of b a] by linarith

lemma cmp_less_le_trans:
  assumes "a \<in> A" "b \<in> A" "c \<in> A" "cmp a b < 0" "cmp b c \<le> 0"
  shows "cmp a c < 0"
proof (rule ccontr)
  assume "\<not> cmp a c < 0"
  then have "cmp c a \<le> 0" using cmp_neg [of a c] assms(1,3) by (simp add: not_less)
  then have "cmp b a \<le> 0" using cmp_trans [of b c a] assms by blast
  then show False using assms cmp_neg [of a b] by linarith
qed

lemma cmp_le_less_trans:
  assumes "a \<in> A" "b \<in> A" "c \<in> A" "cmp a b \<le> 0" "cmp b c < 0"
  shows "cmp a c < 0"
proof (rule ccontr)
  assume "\<not> cmp a c < 0"
  then have "cmp c a \<le> 0" using cmp_neg [of a c] assms(1,3) by (simp add: not_less)
  then have "cmp c b \<le> 0" using cmp_trans [of c a b] assms by blast
  then show False using assms cmp_neg [of b c] by linarith
qed

lemma cmp_zero_trans:
  assumes "a \<in> A" "b \<in> A" "c \<in> A" "cmp a b = 0" "cmp b c = 0"
  shows "cmp a c = 0"
proof -
  have "cmp a c \<le> 0" using cmp_trans [of a b c] assms by simp
  moreover have "cmp c a \<le> 0"
    using cmp_trans [of c b a] cmp_zero_sym [of a b] cmp_zero_sym [of b c] assms by simp
  ultimately show ?thesis using cmp_neg [of a c] cmp_neg [of c a] assms by linarith
qed

lemma cmp_zero_less:
  assumes "a \<in> A" "b \<in> A" "c \<in> A" "cmp a b = 0"
  shows "cmp a c < 0 \<longleftrightarrow> cmp b c < 0"
  using cmp_le_less_trans [of b a c] cmp_le_less_trans [of a b c] cmp_zero_sym [of a b] assms by auto

lemma cmp_on_subset: "B \<subseteq> A \<Longrightarrow> cmp_on cmp B"
proof (unfold_locales, goal_cases)
  case (1 a)
  then show ?case using cmp_refl [of a] by blast
next
  case (2 a b)
  then show ?case using cmp_neg [of a b] by blast
next
  case (3 a b c)
  then show ?case using cmp_trans [of a b c] by blast
qed

end

text \<open>Whether a comparison function is consistent on the elements of an array.\<close>

definition consistent :: "('a \<Rightarrow> 'a \<Rightarrow> int) \<Rightarrow> 'a list \<Rightarrow> bool" where
  "consistent cmp xs \<longleftrightarrow>
     (\<forall>a \<in> set xs. cmp a a = 0) \<and> (\<forall>a \<in> set xs. \<forall>b \<in> set xs. cmp a b < 0 \<longleftrightarrow> cmp b a > 0) \<and>
     (\<forall>a \<in> set xs. \<forall>b \<in> set xs. \<forall>c \<in> set xs. cmp a b \<le> 0 \<longrightarrow> cmp b c \<le> 0 \<longrightarrow> cmp a c \<le> 0)"

lemma consistent_iff: "consistent cmp xs \<longleftrightarrow> cmp_on cmp (set xs)"
  unfolding consistent_def cmp_on_def by blast

abbreviation cmp_order :: "('a \<Rightarrow> 'a \<Rightarrow> int) \<Rightarrow> bool" where
  "cmp_order cmp \<equiv> cmp_on cmp UNIV"

abbreviation ascending :: "('a \<Rightarrow> 'a \<Rightarrow> int) \<Rightarrow> 'a list \<Rightarrow> bool" where
  "ascending cmp \<equiv> sorted_wrt (\<lambda>a b. cmp a b \<le> 0)"

abbreviation strictly_ascending :: "('a \<Rightarrow> 'a \<Rightarrow> int) \<Rightarrow> 'a list \<Rightarrow> bool" where
  "strictly_ascending cmp \<equiv> sorted_wrt (\<lambda>a b. cmp a b < 0)"

lemma cmp_order_comp: "cmp_order cmp \<Longrightarrow> cmp_order (\<lambda>a b. cmp (f a) (f b))"
  unfolding cmp_on_def by simp

section \<open>The contract of qsort\<close>

locale c_qsort =
  fixes qs :: "('a \<Rightarrow> 'a \<Rightarrow> int) \<Rightarrow> 'a list \<Rightarrow> 'a list"
  assumes qsort_mset: "cmp_on cmp (set xs) \<Longrightarrow> mset (qs cmp xs) = mset xs"
    and qsort_ascending: "cmp_on cmp (set xs) \<Longrightarrow> ascending cmp (qs cmp xs)"
begin

lemma qsort_set: "cmp_on cmp (set xs) \<Longrightarrow> set (qs cmp xs) = set xs"
  using qsort_mset mset_eq_setD by blast

lemma qsort_length: "cmp_on cmp (set xs) \<Longrightarrow> length (qs cmp xs) = length xs"
  using qsort_mset by (metis size_mset)

end

text \<open>Merge sort: halve, sort both halves, merge; the left element is taken on a tie.\<close>

fun msort_merge :: "('a \<Rightarrow> 'a \<Rightarrow> int) \<Rightarrow> 'a list \<Rightarrow> 'a list \<Rightarrow> 'a list" where
  "msort_merge cmp [] ys = ys"
| "msort_merge cmp xs [] = xs"
| "msort_merge cmp (x # xs) (y # ys) =
     (if cmp x y \<le> 0 then x # msort_merge cmp xs (y # ys) else y # msort_merge cmp (x # xs) ys)"

fun msort :: "('a \<Rightarrow> 'a \<Rightarrow> int) \<Rightarrow> 'a list \<Rightarrow> 'a list" where
  "msort cmp xs =
     (if length xs \<le> 1 then xs
      else msort_merge cmp (msort cmp (take (length xs div 2) xs))
                           (msort cmp (drop (length xs div 2) xs)))"

declare msort.simps [simp del]

lemma mset_msort_merge: "mset (msort_merge cmp xs ys) = mset xs + mset ys"
  by (induction cmp xs ys rule: msort_merge.induct) auto

lemma set_msort_merge: "set (msort_merge cmp xs ys) = set xs \<union> set ys"
  by (induction cmp xs ys rule: msort_merge.induct) auto

lemma mset_msort: "mset (msort cmp xs) = mset xs"
proof (induction cmp xs rule: msort.induct)
  case (1 cmp xs)
  show ?case
  proof (cases "length xs \<le> 1")
    case True
    then show ?thesis by (simp add: msort.simps [of cmp xs])
  next
    case False
    with 1 have "mset (msort cmp xs) =
        mset (take (length xs div 2) xs) + mset (drop (length xs div 2) xs)"
      by (simp add: msort.simps [of cmp xs] mset_msort_merge)
    then show ?thesis by (simp flip: mset_append)
  qed
qed

lemma set_msort: "set (msort cmp xs) = set xs"
  by (rule mset_eq_setD) (rule mset_msort)

lemma ascending_msort_merge:
  "cmp_on cmp (set xs \<union> set ys) \<Longrightarrow> ascending cmp xs \<Longrightarrow> ascending cmp ys \<Longrightarrow>
     ascending cmp (msort_merge cmp xs ys)"
proof (induction cmp xs ys rule: msort_merge.induct)
  case (3 cmp x xs y ys)
  note c = "3.prems"(1)
  show ?case
  proof (cases "cmp x y \<le> 0")
    case True
    have "cmp_on cmp (set xs \<union> set (y # ys))" by (rule cmp_on.cmp_on_subset [OF c]) auto
    then have "ascending cmp (msort_merge cmp xs (y # ys))" using 3 True by simp
    moreover have "\<forall>z \<in> set ys. cmp x z \<le> 0"
      using "3.prems"(3) True cmp_on.cmp_trans [OF c, of x y] by simp
    ultimately show ?thesis using "3.prems"(2) True by (simp add: set_msort_merge ball_Un)
  next
    case False
    have "cmp_on cmp (set (x # xs) \<union> set ys)" by (rule cmp_on.cmp_on_subset [OF c]) auto
    then have "ascending cmp (msort_merge cmp (x # xs) ys)" using 3 False by simp
    moreover have yx: "cmp y x \<le> 0" using cmp_on.cmp_le_total [OF c, of x y] False by simp
    then have "\<forall>z \<in> set xs. cmp y z \<le> 0"
      using "3.prems"(2) cmp_on.cmp_trans [OF c, of y x] by simp
    ultimately show ?thesis using "3.prems"(3) False yx by (simp add: set_msort_merge ball_Un)
  qed
qed auto

lemma ascending_msort: "cmp_on cmp (set xs) \<Longrightarrow> ascending cmp (msort cmp xs)"
proof (induction cmp xs rule: msort.induct)
  case (1 cmp xs)
  show ?case
  proof (cases "length xs \<le> 1")
    case True
    then have "xs = [] \<or> (\<exists>x. xs = [x])"
      by (cases xs) auto
    then show ?thesis by (auto simp: msort.simps [of cmp xs])
  next
    case False
    let ?l = "take (length xs div 2) xs" and ?r = "drop (length xs div 2) xs"
    have u: "set ?l \<union> set ?r = set xs" by (simp flip: set_append)
    have "cmp_on cmp (set ?l)" "cmp_on cmp (set ?r)"
      using u by (auto intro!: cmp_on.cmp_on_subset [OF "1.prems"])
    then have "ascending cmp (msort cmp ?l)" "ascending cmp (msort cmp ?r)"
      using "1.IH" False by simp_all
    then show ?thesis
      using False ascending_msort_merge [of cmp "msort cmp ?l" "msort cmp ?r"] "1.prems" u
      by (simp add: msort.simps [of cmp xs] set_msort)
  qed
qed

interpretation merge_sort: c_qsort msort
  by unfold_locales (simp_all add: mset_msort ascending_msort)

section \<open>Uniqueness of strictly ascending arrangements\<close>

lemma strictly_ascending_distinct:
  "cmp_order cmp \<Longrightarrow> strictly_ascending cmp xs \<Longrightarrow> distinct xs"
proof (induction xs)
  case (Cons a xs)
  then have "cmp a a = 0" by (simp add: cmp_on.cmp_refl)
  with Cons show ?case by force
qed simp

lemma strictly_ascending_unique:
  assumes "cmp_order cmp"
  shows "strictly_ascending cmp xs \<Longrightarrow> strictly_ascending cmp ys \<Longrightarrow> mset xs = mset ys \<Longrightarrow> xs = ys"
proof (induction xs arbitrary: ys)
  case (Cons x xs)
  then obtain y ys' where ys: "ys = y # ys'" by (cases ys) auto
  have "x = y"
  proof (rule ccontr)
    assume "x \<noteq> y"
    then have "x \<in> set ys'" "y \<in> set xs" using mset_eq_setD [OF Cons.prems(3)] ys by auto
    then have "cmp x y < 0" "cmp y x < 0" using Cons.prems(1,2) ys by auto
    then show False using cmp_on.cmp_neg [OF assms, of x y] by simp
  qed
  then show ?case using Cons.IH [of ys'] Cons.prems ys by simp
qed simp

end
