(* ===== verification/Rdata.thy ===== *)
theory Rdata
  imports Comparators
begin

text \<open>
  Resource data: \<^verbatim>\<open>lib/isc/region.c\<close> (comparison of regions), the \<^verbatim>\<open>dns_rdata_t\<close> handle and its basic
  operations of \<^verbatim>\<open>lib/dns/rdata.c\<close>, and the A record of \<^verbatim>\<open>lib/dns/rdata/in_1/a_1.c\<close> that the load
  balancer works on.

  An rdata is a handle to a region: the model carries the bytes of the region, \<open>None\<close> for a null
  \<open>data\<close> pointer.  The field \<open>length\<close> of the C structure is the number of these bytes.  The list
  link of the structure is not represented: lists of rdata are HOL lists.

  The type specific comparison functions are reached through \<^verbatim>\<open>COMPARESWITCH\<close>, a macro that the
  build generates (\<^verbatim>\<open>gen.c\<close> writes \<^verbatim>\<open>code.h\<close>); it is the argument \<open>sw\<close> below, which gives for a class
  and a type the comparison of that type, or \<open>None\<close> where the macro sets \<open>use_default\<close>.  The comparison of a type is total in the model: the assertions
  of the generated functions on the form of the rdata (their lengths, the names in them) are
  not represented.
\<close>

section \<open>Regions\<close>

text \<open>The C library's \<^verbatim>\<open>memcmp\<close> over two blocks of the same length: bytes compare as unsigned.\<close>

fun memcmp :: "u8 list \<Rightarrow> u8 list \<Rightarrow> int" where
  "memcmp (a # as) (b # bs) = (if a = b then memcmp as bs else uint a - uint b)"
| "memcmp _ _ = 0"

lemma memcmp_eq_0: "length a = length b \<Longrightarrow> memcmp a b = 0 \<longleftrightarrow> a = b"
  by (induction a b rule: memcmp.induct) (auto simp: word_uint_eq_iff)

definition isc_region_compare :: "u8 list \<Rightarrow> u8 list \<Rightarrow> int" where
  "isc_region_compare r1 r2 =
     (let l = (if length r1 < length r2 then length r1 else length r2);
          result = memcmp (take l r1) (take l r2)
      in if result \<noteq> 0 then (if result < 0 then - 1 else 1)
         else if length r1 = length r2 then 0
         else if length r1 < length r2 then - 1 else 1)"

lemma isc_region_compare_simps [simp]:
  "isc_region_compare [] [] = 0"
  "isc_region_compare [] (b # bs) = - 1"
  "isc_region_compare (a # as) [] = 1"
  "isc_region_compare (a # as) (b # bs) =
     (if a = b then isc_region_compare as bs else if a < b then - 1 else 1)"
  by (auto simp: isc_region_compare_def Let_def word_less_def word_uint_eq_iff)

lemma isc_region_compare_range: "isc_region_compare a b \<in> {- 1, 0, 1}"
  by (auto simp: isc_region_compare_def Let_def)

lemma isc_region_compare_eq_0: "isc_region_compare a b = 0 \<longleftrightarrow> a = b"
proof (induction a arbitrary: b)
  case Nil
  then show ?case by (cases b) auto
next
  case (Cons x a)
  then show ?case by (cases b) auto
qed

lemma isc_region_compare_swap: "isc_region_compare b a = - isc_region_compare a b"
proof (induction a arbitrary: b)
  case Nil
  then show ?case by (cases b) auto
next
  case (Cons x a)
  then show ?case by (cases b) auto
qed

lemma isc_region_compare_le_trans:
  "isc_region_compare a b \<le> 0 \<Longrightarrow> isc_region_compare b c \<le> 0 \<Longrightarrow> isc_region_compare a c \<le> 0"
proof (induction a arbitrary: b c)
  case Nil
  then show ?case by (cases c) auto
next
  case (Cons x a)
  then obtain y b' where b: "b = y # b'" by (cases b) auto
  with Cons.prems obtain z c' where c: "c = z # c'" by (cases c) auto
  from Cons.prems b c Cons.IH [of b' c'] show ?case by (auto split: if_splits)
qed

interpretation region_order: cmp_on isc_region_compare UNIV
proof (unfold_locales, goal_cases)
  case (1 a)
  show ?case by (simp add: isc_region_compare_eq_0)
next
  case (2 a b)
  show ?case using isc_region_compare_swap [of a b] by linarith
next
  case (3 a b c)
  then show ?case using isc_region_compare_le_trans by blast
qed

section \<open>The rdata handle\<close>

record dns_rdata =
  rd_data :: "u8 list option"
  rd_class :: nat
  rd_type :: nat
  rd_flags :: u32

definition DNS_RDATA_UPDATE :: u32 where "DNS_RDATA_UPDATE = 1"
definition DNS_RDATA_OFFLINE :: u32 where "DNS_RDATA_OFFLINE = 2"

definition dns_rdatatype_a :: nat where "dns_rdatatype_a = 1"
definition dns_rdatatype_rrsig :: nat where "dns_rdatatype_rrsig = 46"

definition rd_bytes :: "dns_rdata \<Rightarrow> u8 list" where
  "rd_bytes r = (case rd_data r of None \<Rightarrow> [] | Some bs \<Rightarrow> bs)"

text \<open>The field \<open>length\<close>.\<close>

definition rd_length :: "dns_rdata \<Rightarrow> nat" where
  "rd_length r = length (rd_bytes r)"

definition dns_rdata_init :: dns_rdata where
  "dns_rdata_init = \<lparr>rd_data = None, rd_class = 0, rd_type = 0, rd_flags = 0\<rparr>"

text \<open>\<^verbatim>\<open>DNS_RDATA_INITIALIZED\<close> and \<^verbatim>\<open>DNS_RDATA_VALIDFLAGS\<close>.\<close>

definition dns_rdata_initialized :: "dns_rdata \<Rightarrow> bool" where
  "dns_rdata_initialized r \<longleftrightarrow>
     rd_data r = None \<and> rd_class r = 0 \<and> rd_type r = 0 \<and> rd_flags r = 0"

definition dns_rdata_validflags :: "dns_rdata \<Rightarrow> bool" where
  "dns_rdata_validflags r \<longleftrightarrow>
     rd_flags r AND NOT (DNS_RDATA_UPDATE OR DNS_RDATA_OFFLINE) = 0"

definition dns_rdata_reset :: "dns_rdata \<Rightarrow> dns_rdata option" where
  "dns_rdata_reset r = (if dns_rdata_validflags r then Some dns_rdata_init else None)"

definition dns_rdata_clone :: "dns_rdata \<Rightarrow> dns_rdata \<Rightarrow> dns_rdata option" where
  "dns_rdata_clone src target =
     (if dns_rdata_initialized target \<and> dns_rdata_validflags src \<and> dns_rdata_validflags target
      then Some \<lparr>rd_data = rd_data src, rd_class = rd_class src, rd_type = rd_type src,
                 rd_flags = rd_flags src\<rparr>
      else None)"

definition dns_rdata_fromregion :: "dns_rdata \<Rightarrow> nat \<Rightarrow> nat \<Rightarrow> u8 list \<Rightarrow> dns_rdata option" where
  "dns_rdata_fromregion rdata rdclass type r =
     (if dns_rdata_initialized rdata \<and> dns_rdata_validflags rdata
      then Some \<lparr>rd_data = Some r, rd_class = rdclass, rd_type = type, rd_flags = 0\<rparr>
      else None)"

lemma dns_rdata_init_initialized [simp]:
  "dns_rdata_initialized dns_rdata_init" "dns_rdata_validflags dns_rdata_init"
  by (simp_all add: dns_rdata_initialized_def dns_rdata_init_def dns_rdata_validflags_def)

lemma dns_rdata_validflags_simps [simp]:
  "dns_rdata_validflags (r\<lparr>rd_flags := 0\<rparr>)"
  "dns_rdata_validflags (r\<lparr>rd_flags := DNS_RDATA_OFFLINE\<rparr>)"
  "dns_rdata_validflags \<lparr>rd_data = d, rd_class = c, rd_type = t, rd_flags = 0\<rparr>"
  "dns_rdata_validflags \<lparr>rd_data = d, rd_class = c, rd_type = t, rd_flags = DNS_RDATA_OFFLINE\<rparr>"
  by (simp_all add: dns_rdata_validflags_def DNS_RDATA_OFFLINE_def DNS_RDATA_UPDATE_def)

section \<open>Comparison\<close>

type_synonym cmpswitch = "nat \<Rightarrow> nat \<Rightarrow> (u8 list \<Rightarrow> u8 list \<Rightarrow> int) option"

text \<open>The result of the comparison, once the assertions hold.\<close>

definition rdata_order :: "cmpswitch \<Rightarrow> dns_rdata \<Rightarrow> dns_rdata \<Rightarrow> int" where
  "rdata_order sw rdata1 rdata2 =
     (if rd_class rdata1 \<noteq> rd_class rdata2
      then (if rd_class rdata1 < rd_class rdata2 then - 1 else 1)
      else if rd_type rdata1 \<noteq> rd_type rdata2
      then (if rd_type rdata1 < rd_type rdata2 then - 1 else 1)
      else case sw (rd_class rdata1) (rd_type rdata1) of
          Some f \<Rightarrow> f (rd_bytes rdata1) (rd_bytes rdata2)
        | None \<Rightarrow> isc_region_compare (rd_bytes rdata1) (rd_bytes rdata2))"

definition dns_rdata_compare :: "cmpswitch \<Rightarrow> dns_rdata \<Rightarrow> dns_rdata \<Rightarrow> int option" where
  "dns_rdata_compare sw rdata1 rdata2 =
     (if rd_data rdata1 \<noteq> None \<and> rd_data rdata2 \<noteq> None \<and>
         dns_rdata_validflags rdata1 \<and> dns_rdata_validflags rdata2
      then Some (rdata_order sw rdata1 rdata2) else None)"

text \<open>
  What the rest of the code relies on: every type specific comparison is a consistent comparison
  function (the canonical order of RFC 4034, section 6.3).
\<close>

definition switch_ok :: "cmpswitch \<Rightarrow> bool" where
  "switch_ok sw \<longleftrightarrow> (\<forall>c t f. sw c t = Some f \<longrightarrow> cmp_order f)"

lemma rdata_order_cmp_order:
  assumes "switch_ok sw"
  shows "cmp_order (rdata_order sw)"
proof -
  define g where "g c t = (case sw c t of Some f \<Rightarrow> f | None \<Rightarrow> isc_region_compare)" for c t
  have g: "cmp_order (g c t)" for c t
    using assms region_order.cmp_on_axioms by (auto simp: g_def switch_ok_def split: option.split)
  have eq: "rdata_order sw a b =
      (if rd_class a \<noteq> rd_class b then (if rd_class a < rd_class b then - 1 else 1)
       else if rd_type a \<noteq> rd_type b then (if rd_type a < rd_type b then - 1 else 1)
       else g (rd_class a) (rd_type a) (rd_bytes a) (rd_bytes b))" for a b
    by (auto simp: rdata_order_def g_def split: option.split)
  show ?thesis
  proof (unfold_locales, goal_cases)
    case (1 a)
    show ?case using cmp_on.cmp_refl [OF g] by (simp add: eq)
  next
    case (2 a b)
    show ?case using cmp_on.cmp_neg [OF g] by (auto simp: eq)
  next
    case (3 a b c)
    then show ?case
      using cmp_on.cmp_trans [OF g, of "rd_bytes a" "rd_bytes b" "rd_bytes c"]
      by (auto simp: eq split: if_splits)
  qed
qed

section \<open>The A record\<close>

definition compare_in_a :: "dns_rdata \<Rightarrow> dns_rdata \<Rightarrow> int option" where
  "compare_in_a rdata1 rdata2 =
     (if rd_type rdata1 = rd_type rdata2 \<and> rd_class rdata1 = rd_class rdata2 \<and>
         rd_type rdata1 = 1 \<and> rd_class rdata1 = 1 \<and> rd_length rdata1 = 4 \<and> rd_length rdata2 = 4
      then Some (isc_region_compare (rd_bytes rdata1) (rd_bytes rdata2)) else None)"

text \<open>
  \<open>tostruct_in_a\<close> gives the address; \<open>uint32_fromregion\<close> reads the four bytes in network order, so
  \<open>in_addr\<close> (in network order in the C structure) is the number they encode.
\<close>

definition tostruct_in_a :: "dns_rdata \<Rightarrow> nat option" where
  "tostruct_in_a rdata =
     (if rd_type rdata = 1 \<and> rd_class rdata = 1 \<and> rd_length rdata = 4
      then rd32 (rd_bytes rdata) 0 else None)"

end
