(* ===== verification/Rdataset.thy ===== *)
theory Rdataset
  imports Rdata
begin

text \<open>
  The rdataset handle of \<^verbatim>\<open>lib/dns/rdataset.c\<close>, with the method tables whose rdata live outside of a
  slab: the lists of \<^verbatim>\<open>lib/dns/rdatalist.c\<close> and question rdatasets.

  The \<open>methods\<close> pointer is the name of the table it points to.  The untyped \<open>private\<close> fields hold
  what the tables store in them: \<open>private1\<close> the list of an rdatalist and \<open>private2\<close> its cursor (the
  index of an element, \<open>None\<close> for a null pointer); \<open>private3\<close> the position of a slab in its memory
  object, \<open>private5\<close> the cursor in it and \<open>privateuint4\<close> the number of rdata beyond the cursor.
  The list link is not represented, and neither is \<open>private7\<close>, which the modelled functions do
  not touch.
\<close>

section \<open>Rdatasets\<close>

datatype rdataset_methods =
    Rdatalist_methods
  | Rdataslab_methods
  | Rbtdb_methods
  | Question_methods

record dns_rdataset =
  rs_magic :: bool
  rs_methods :: "rdataset_methods option"
  rs_class :: nat
  rs_type :: nat
  rs_ttl :: nat
  rs_trust :: nat
  rs_covers :: nat
  rs_attributes :: u32
  rs_count :: u32
  rs_resign :: nat
  rs_private1 :: "dns_rdata list option"
  rs_private2 :: "nat option"
  rs_private3 :: "nat option"
  rs_privateuint4 :: nat
  rs_private5 :: "nat option"
  rs_private6 :: "nat option"

definition DNS_RDATASETATTR_QUESTION :: u32 where "DNS_RDATASETATTR_QUESTION = 0x1"
definition DNS_RDATASETATTR_FIXEDORDER :: u32 where "DNS_RDATASETATTR_FIXEDORDER = 0x400"
definition DNS_RDATASETATTR_RANDOMIZE :: u32 where "DNS_RDATASETATTR_RANDOMIZE = 0x800"
definition DNS_RDATASETATTR_LOADORDER :: u32 where "DNS_RDATASETATTR_LOADORDER = 0x20000"
definition DNS_RDATASETATTR_NEGATIVE :: u32 where "DNS_RDATASETATTR_NEGATIVE = 0x200000"

definition dns_trust_totext :: "nat \<Rightarrow> string" where
  "dns_trust_totext trust =
     (let trustnames = [''none'', ''pending-additional'', ''pending-answer'', ''additional'',
        ''glue'', ''answer'', ''authauthority'', ''authanswer'', ''secure'', ''local'']
      in if trust \<ge> length trustnames then ''bad'' else trustnames ! trust)"

definition dns_rdataset_init :: dns_rdataset where
  "dns_rdataset_init = \<lparr>rs_magic = True, rs_methods = None, rs_class = 0, rs_type = 0, rs_ttl = 0,
     rs_trust = 0, rs_covers = 0, rs_attributes = 0, rs_count = - 1, rs_resign = 0,
     rs_private1 = None, rs_private2 = None, rs_private3 = None, rs_privateuint4 = 0,
     rs_private5 = None, rs_private6 = None\<rparr>"

definition dns_rdataset_invalidate :: "dns_rdataset \<Rightarrow> dns_rdataset option" where
  "dns_rdataset_invalidate r =
     (if rs_magic r \<and> rs_methods r = None
      then Some (r\<lparr>rs_magic := False, rs_class := 0, rs_type := 0, rs_ttl := 0, rs_trust := 0,
                   rs_covers := 0, rs_attributes := 0, rs_count := - 1, rs_private1 := None,
                   rs_private2 := None, rs_private3 := None, rs_privateuint4 := 0,
                   rs_private5 := None\<rparr>)
      else None)"

text \<open>
  The \<open>disassociate\<close> method of a list, of a slab and of a question leaves the rdataset alone; that
  of the database drops a node reference, which lives in the database and not in the rdataset.
\<close>

definition dns_rdataset_disassociate :: "dns_rdataset \<Rightarrow> dns_rdataset option" where
  "dns_rdataset_disassociate r =
     (if rs_magic r \<and> rs_methods r \<noteq> None
      then Some (r\<lparr>rs_methods := None, rs_class := 0, rs_type := 0, rs_ttl := 0, rs_trust := 0,
                   rs_covers := 0, rs_attributes := 0, rs_count := - 1, rs_private1 := None,
                   rs_private2 := None, rs_private3 := None, rs_privateuint4 := 0,
                   rs_private5 := None, rs_private6 := None\<rparr>)
      else None)"

definition dns_rdataset_isassociated :: "dns_rdataset \<Rightarrow> bool option" where
  "dns_rdataset_isassociated r =
     (if rs_magic r then Some (rs_methods r \<noteq> None) else None)"

definition dns_rdataset_makequestion :: "dns_rdataset \<Rightarrow> nat \<Rightarrow> nat \<Rightarrow> dns_rdataset option" where
  "dns_rdataset_makequestion r rdclass type =
     (if rs_magic r \<and> rs_methods r = None
      then Some (r\<lparr>rs_methods := Some Question_methods, rs_class := rdclass, rs_type := type,
                   rs_attributes := rs_attributes r OR DNS_RDATASETATTR_QUESTION\<rparr>)
      else None)"

section \<open>Question rdatasets\<close>

definition question_cursor :: "dns_rdataset \<Rightarrow> (isc_result \<times> dns_rdataset) option" where
  "question_cursor r = Some (ISC_R_NOMORE, r)"

text \<open>\<open>question_current\<close> and \<open>question_count\<close> are never to be called.\<close>

definition question_current :: "dns_rdataset \<Rightarrow> dns_rdata \<Rightarrow> dns_rdata option" where
  "question_current r rdata = None"

definition question_clone :: "dns_rdataset \<Rightarrow> dns_rdataset" where
  "question_clone source = source"

definition question_count :: "dns_rdataset \<Rightarrow> nat option" where
  "question_count r = None"

section \<open>Rdata lists\<close>

record dns_rdatalist =
  rl_class :: nat
  rl_type :: nat
  rl_covers :: nat
  rl_ttl :: nat
  rl_rdata :: "dns_rdata list"

definition dns_rdatalist_init :: dns_rdatalist where
  "dns_rdatalist_init = \<lparr>rl_class = 0, rl_type = 0, rl_covers = 0, rl_ttl = 0, rl_rdata = []\<rparr>"

definition dns_rdatalist_tordataset ::
    "dns_rdatalist \<Rightarrow> dns_rdataset \<Rightarrow> (isc_result \<times> dns_rdataset) option" where
  "dns_rdatalist_tordataset rdatalist r =
     do { assoc \<leftarrow> dns_rdataset_isassociated r;
          if assoc then None
          else Some (ISC_R_SUCCESS,
            r\<lparr>rs_methods := Some Rdatalist_methods, rs_class := rl_class rdatalist,
              rs_type := rl_type rdatalist, rs_covers := rl_covers rdatalist,
              rs_ttl := rl_ttl rdatalist, rs_trust := 0, rs_private1 := Some (rl_rdata rdatalist),
              rs_private2 := None, rs_private3 := None, rs_privateuint4 := 0,
              rs_private5 := None\<rparr>) }"

definition isc_rdatalist_first :: "dns_rdataset \<Rightarrow> (isc_result \<times> dns_rdataset) option" where
  "isc_rdatalist_first r =
     do { l \<leftarrow> rs_private1 r;
          if l = [] then Some (ISC_R_NOMORE, r\<lparr>rs_private2 := None\<rparr>)
          else Some (ISC_R_SUCCESS, r\<lparr>rs_private2 := Some 0\<rparr>) }"

definition isc_rdatalist_next :: "dns_rdataset \<Rightarrow> (isc_result \<times> dns_rdataset) option" where
  "isc_rdatalist_next r =
     (case rs_private2 r of
        None \<Rightarrow> Some (ISC_R_NOMORE, r)
      | Some i \<Rightarrow>
          do { l \<leftarrow> rs_private1 r;
               if Suc i < length l then Some (ISC_R_SUCCESS, r\<lparr>rs_private2 := Some (Suc i)\<rparr>)
               else Some (ISC_R_NOMORE, r\<lparr>rs_private2 := None\<rparr>) })"

definition isc_rdatalist_current :: "dns_rdataset \<Rightarrow> dns_rdata \<Rightarrow> dns_rdata option" where
  "isc_rdatalist_current r rdata =
     do { i \<leftarrow> rs_private2 r; l \<leftarrow> rs_private1 r;
          if i < length l then dns_rdata_clone (l ! i) rdata else None }"

definition isc_rdatalist_clone :: "dns_rdataset \<Rightarrow> dns_rdataset" where
  "isc_rdatalist_clone source = source\<lparr>rs_private2 := None\<rparr>"

definition isc_rdatalist_count :: "dns_rdataset \<Rightarrow> nat option" where
  "isc_rdatalist_count r = do { l \<leftarrow> rs_private1 r; Some (length l) }"

section \<open>The cursor interface\<close>

text \<open>
  What the users of an rdataset rely on: \<open>count\<close> is the number of rdata, and \<open>first\<close>, \<open>next\<close> and
  \<open>current\<close> visit them one by one.  \<open>items r\<close> are the rdata of a valid rdataset in the order of the
  visit and \<open>at r i\<close> says that its cursor is on the \<open>i\<close>-th one.
\<close>

locale rdataset_cursor =
  fixes first :: "'r \<Rightarrow> (isc_result \<times> 'r) option"
    and nxt :: "'r \<Rightarrow> (isc_result \<times> 'r) option"
    and current :: "'r \<Rightarrow> dns_rdata \<Rightarrow> dns_rdata option"
    and count :: "'r \<Rightarrow> nat option"
    and valid :: "'r \<Rightarrow> bool"
    and items :: "'r \<Rightarrow> dns_rdata list"
    and at :: "'r \<Rightarrow> nat \<Rightarrow> bool"
  assumes count_items: "valid r \<Longrightarrow> count r = Some (length (items r))"
    and first_none: "valid r \<Longrightarrow> items r = [] \<Longrightarrow>
          \<exists>r'. first r = Some (ISC_R_NOMORE, r') \<and> valid r' \<and> items r' = items r"
    and first_some: "valid r \<Longrightarrow> items r \<noteq> [] \<Longrightarrow>
          \<exists>r'. first r = Some (ISC_R_SUCCESS, r') \<and> valid r' \<and> items r' = items r \<and> at r' 0"
    and next_some: "valid r \<Longrightarrow> at r i \<Longrightarrow> Suc i < length (items r) \<Longrightarrow>
          \<exists>r'. nxt r = Some (ISC_R_SUCCESS, r') \<and> valid r' \<and> items r' = items r \<and> at r' (Suc i)"
    and next_none: "valid r \<Longrightarrow> at r i \<Longrightarrow> Suc i = length (items r) \<Longrightarrow>
          \<exists>r'. nxt r = Some (ISC_R_NOMORE, r') \<and> valid r' \<and> items r' = items r"
    and current_item: "valid r \<Longrightarrow> at r i \<Longrightarrow> i < length (items r) \<Longrightarrow>
          current r dns_rdata_init = Some (items r ! i)"

definition rdatalist_valid :: "dns_rdataset \<Rightarrow> bool" where
  "rdatalist_valid r \<longleftrightarrow>
     (\<exists>l. rs_private1 r = Some l \<and> (\<forall>x \<in> set l. dns_rdata_validflags x))"

definition rdatalist_items :: "dns_rdataset \<Rightarrow> dns_rdata list" where
  "rdatalist_items r = (case rs_private1 r of None \<Rightarrow> [] | Some l \<Rightarrow> l)"

definition rdatalist_at :: "dns_rdataset \<Rightarrow> nat \<Rightarrow> bool" where
  "rdatalist_at r i \<longleftrightarrow> rs_private2 r = Some i"

interpretation rdatalist_cursor: rdataset_cursor isc_rdatalist_first isc_rdatalist_next
  isc_rdatalist_current isc_rdatalist_count rdatalist_valid rdatalist_items rdatalist_at
  by unfold_locales
    (auto simp: rdatalist_valid_def rdatalist_items_def rdatalist_at_def isc_rdatalist_count_def
      isc_rdatalist_first_def isc_rdatalist_next_def isc_rdatalist_current_def dns_rdata_clone_def)

end
