(* ===== verification/Slab_Layout.thy ===== *)
theory Slab_Layout
  imports Rdataset
begin

text \<open>
  The byte layout of an rdataslab (the format comment at the head of \<^verbatim>\<open>lib/dns/rdataslab.c\<close>, with
  \<^verbatim>\<open>DNS_RDATASET_FIXED\<close>), the predicate that a memory object holds a well-formed slab, and
  \<open>fillin_offsets\<close>, the function every constructor of slabs ends with.

  A record of a slab is a pair of its order field and its payload, the bytes counted by its length
  field (for an RRSIG the meta byte comes first).  \<open>slab_body tbl its\<close> is the slab with offset table
  \<open>tbl\<close> and the records \<open>its\<close> in storage order.
\<close>

section \<open>Layout\<close>

type_synonym item = "nat \<times> u8 list"

definition enc_item :: "item \<Rightarrow> u8 list" where
  "enc_item it = put16 (length (snd it)) @ put16 (fst it) @ snd it"

definition slab_body :: "nat list \<Rightarrow> item list \<Rightarrow> u8 list" where
  "slab_body tbl its =
     put16 (length its) @ concat (map put32 tbl) @ concat (map enc_item its)"

text \<open>The offset of the \<open>i\<close>-th record from the start of the body.\<close>

definition item_off :: "item list \<Rightarrow> nat \<Rightarrow> nat" where
  "item_off its i = 2 + 4 * length its + length (concat (map enc_item (take i its)))"

definition lay :: "u8 list \<Rightarrow> nat list \<Rightarrow> item list \<Rightarrow> u8 list \<Rightarrow> mem" where
  "lay pre tbl its post = pre @ slab_body tbl its @ post"

definition payload_ok :: "nat \<Rightarrow> u8 list \<Rightarrow> bool" where
  "payload_ok type p \<longleftrightarrow> length p < 65536 \<and> (type = dns_rdatatype_rrsig \<longrightarrow> p \<noteq> [])"

text \<open>
  Well-formedness: the table has an entry per record, the order fields are a permutation of the
  table's indices, and the entry that a record's order field selects is the record's offset.
\<close>

definition wf_items :: "nat \<Rightarrow> nat list \<Rightarrow> item list \<Rightarrow> bool" where
  "wf_items type tbl its \<longleftrightarrow>
     length tbl = length its \<and> length its < 65536 \<and> length (slab_body tbl its) < 4294967296 \<and>
     (\<forall>it \<in> set its. payload_ok type (snd it)) \<and>
     distinct (map fst its) \<and>
     (\<forall>i < length its. fst (its ! i) < length its \<and> tbl ! fst (its ! i) = item_off its i)"

text \<open>The object \<open>m\<close> holds a well-formed slab body at position \<open>base\<close>.\<close>

definition slab_at :: "mem \<Rightarrow> nat \<Rightarrow> nat \<Rightarrow> nat list \<Rightarrow> item list \<Rightarrow> bool" where
  "slab_at m base type tbl its \<longleftrightarrow>
     (\<exists>pre post. m = lay pre tbl its post \<and> length pre = base) \<and> wf_items type tbl its"

text \<open>The rdata that a payload stands for.\<close>

definition rdata_of :: "nat \<Rightarrow> nat \<Rightarrow> u8 list \<Rightarrow> dns_rdata" where
  "rdata_of rdclass type p =
     (if type = dns_rdatatype_rrsig
      then \<lparr>rd_data = Some (tl p), rd_class = rdclass, rd_type = type,
            rd_flags = (if hd p AND 1 \<noteq> 0 then DNS_RDATA_OFFLINE else 0)\<rparr>
      else \<lparr>rd_data = Some p, rd_class = rdclass, rd_type = type, rd_flags = 0\<rparr>)"

text \<open>Payloads in storage order (the DNSSEC order) and in the order of the offset table.\<close>

definition stored :: "item list \<Rightarrow> u8 list list" where
  "stored its = map snd its"

definition listed :: "item list \<Rightarrow> u8 list list" where
  "listed its = map (\<lambda>k. the (map_of its k)) [0..<length its]"

lemma length_enc_item [simp]: "length (enc_item it) = 4 + length (snd it)"
  by (simp add: enc_item_def)

lemma length_slab_body:
  "length (slab_body tbl its) = 2 + 4 * length tbl + length (concat (map enc_item its))"
  by (simp add: slab_body_def)

lemma length_lay: "length (lay pre tbl its post) = length pre + length (slab_body tbl its) + length post"
  by (simp add: lay_def)

lemma length_enc_items: "length (concat (map enc_item its)) = (\<Sum>p \<leftarrow> stored its. 4 + length p)"
  by (simp add: length_concat stored_def comp_def)

text \<open>Offsets only depend on the payloads.\<close>

lemma item_off_cong: "stored its = stored its' \<Longrightarrow> item_off its i = item_off its' i"
proof -
  assume eq: "stored its = stored its'"
  then have "length its = length its'" by (metis length_map stored_def)
  moreover have "stored (take i its) = stored (take i its')"
    using eq by (simp add: stored_def take_map [symmetric])
  ultimately show ?thesis
    unfolding item_off_def by (simp add: length_enc_items)
qed

lemma item_off_Suc:
  "i < length its \<Longrightarrow> item_off its (Suc i) = item_off its i + 4 + length (snd (its ! i))"
  by (simp add: item_off_def take_Suc_conv_app_nth)

lemma item_off_pos: "0 < item_off its i"
  by (simp add: item_off_def)

lemma item_off_neq_0 [simp]: "item_off its i \<noteq> 0"
  by (simp add: item_off_def)

lemma item_off_mono: "i < j \<Longrightarrow> j \<le> length its \<Longrightarrow> item_off its i < item_off its j"
proof (induction j)
  case (Suc j)
  then show ?case by (cases "i = j") (auto simp: item_off_Suc)
qed simp

lemma item_off_le:
  "i \<le> length its \<Longrightarrow> length tbl = length its \<Longrightarrow> item_off its i \<le> length (slab_body tbl its)"
proof -
  assume i: "i \<le> length its" "length tbl = length its"
  have "length (concat (map enc_item (take i its))) \<le> length (concat (map enc_item its))"
    using append_take_drop_id [of i its]
    by (metis concat_append le_add1 length_append map_append)
  then show ?thesis using i by (simp add: item_off_def length_slab_body)
qed

lemma item_off_inj: "i < length its \<Longrightarrow> j < length its \<Longrightarrow> item_off its i = item_off its j \<longleftrightarrow> i = j"
  by (metis item_off_mono less_imp_le nat_neq_iff)

section \<open>Reading and writing a laid out slab\<close>

lemma lay_split_table:
  assumes "k < length tbl"
  shows "lay pre tbl its post =
     (pre @ put16 (length its) @ concat (map put32 (take k tbl))) @ put32 (tbl ! k) @
     (concat (map put32 (drop (Suc k) tbl)) @ concat (map enc_item its) @ post)"
  using concat_map_nth [OF assms, of put32] by (simp add: lay_def slab_body_def)

lemma lay_split_item:
  assumes "i < length its"
  shows "lay pre tbl its post =
     (pre @ put16 (length its) @ concat (map put32 tbl) @ concat (map enc_item (take i its))) @
     enc_item (its ! i) @ (concat (map enc_item (drop (Suc i) its)) @ post)"
  using concat_map_nth [OF assms, of enc_item] by (simp add: lay_def slab_body_def)

lemma lay_count: "length its < 65536 \<Longrightarrow> rd16 (lay pre tbl its post) (length pre) = Some (length its)"
  by (simp add: lay_def slab_body_def mem_simps)

lemma lay_table:
  assumes "k < length tbl" "tbl ! k < 4294967296"
  shows "rd32 (lay pre tbl its post) (length pre + 2 + 4 * k) = Some (tbl ! k)"
  unfolding lay_split_table [OF assms(1)] by (rule rd32_mid) (use assms in simp_all)

lemma lay_update_table:
  assumes "k < length tbl"
  shows "mem_wr (lay pre tbl its post) (length pre + (k * 4 + 2)) (put32 v) =
     Some (lay pre (tbl[k := v]) its post)"
proof -
  have "mem_wr (lay pre tbl its post) (length pre + (k * 4 + 2)) (put32 v) =
     Some ((pre @ put16 (length its) @ concat (map put32 (take k tbl))) @ put32 v @
       (concat (map put32 (drop (Suc k) tbl)) @ concat (map enc_item its) @ post))"
    unfolding lay_split_table [OF assms] by (rule mem_wr_mid) (use assms in simp_all)
  then show ?thesis
    using concat_map_update [OF assms, of put32] by (simp add: lay_def slab_body_def)
qed

lemma lay_update_order:
  assumes "i < length its" "length tbl = length its"
  shows "mem_wr (lay pre tbl its post) (length pre + item_off its i + 2) (put16 k) =
     Some (lay pre tbl (its[i := (k, snd (its ! i))]) post)"
proof -
  let ?a = "pre @ put16 (length its) @ concat (map put32 tbl) @ concat (map enc_item (take i its))"
  let ?z = "concat (map enc_item (drop (Suc i) its)) @ post"
  have eq: "lay pre tbl its post =
      (?a @ put16 (length (snd (its ! i)))) @ put16 (fst (its ! i)) @ (snd (its ! i) @ ?z)"
    unfolding lay_split_item [OF assms(1)] by (simp add: enc_item_def)
  have "mem_wr (lay pre tbl its post) (length pre + item_off its i + 2) (put16 k) =
      Some ((?a @ put16 (length (snd (its ! i)))) @ put16 k @ (snd (its ! i) @ ?z))"
    unfolding eq by (rule mem_wr_mid) (use assms in \<open>simp_all add: item_off_def\<close>)
  then show ?thesis
    using concat_map_update [OF assms(1), of enc_item "(k, snd (its ! i))"]
    by (simp add: lay_def slab_body_def enc_item_def)
qed

section \<open>fillin\_offsets\<close>

text \<open>The loop: \<open>offsets\<close> are the entries not yet visited, \<open>j\<close> counts those that were not zero.\<close>

fun fillin_offsets_loop :: "mem \<Rightarrow> nat \<Rightarrow> nat list \<Rightarrow> nat \<Rightarrow> mem option" where
  "fillin_offsets_loop m offsetbase [] j = Some m"
| "fillin_offsets_loop m offsetbase (off # offsets) j =
     (if off = 0 then fillin_offsets_loop m offsetbase offsets j
      else do { m1 \<leftarrow> mem_wr m (offsetbase + (j * 4 + 2)) (put32 off);
                m2 \<leftarrow> mem_wr m1 (offsetbase + off + 2) (put16 j);
                fillin_offsets_loop m2 offsetbase offsets (Suc j) })"

definition fillin_offsets :: "mem \<Rightarrow> nat \<Rightarrow> nat list \<Rightarrow> mem option" where
  "fillin_offsets m offsetbase offsettable = fillin_offsets_loop m offsetbase offsettable 0"

text \<open>Zero entries do not matter.\<close>

lemma fillin_offsets_loop_filter:
  "fillin_offsets_loop m base offs j = fillin_offsets_loop m base (filter (\<lambda>x. x \<noteq> 0) offs) j"
  by (induction offs arbitrary: m j) auto

text \<open>Giving the records with the indices \<open>\<sigma>\<close> the order fields \<open>j, j + 1, \<dots>\<close>\<close>

fun set_orders :: "item list \<Rightarrow> nat list \<Rightarrow> nat \<Rightarrow> item list" where
  "set_orders its [] j = its"
| "set_orders its (i # \<sigma>) j = set_orders (its[i := (j, snd (its ! i))]) \<sigma> (Suc j)"

lemma stored_update [simp]: "stored (its[i := (j, snd (its ! i))]) = stored its"
  by (cases "i < length its")
    (simp_all add: stored_def map_update list_update_beyond list_update_same_conv)

lemma stored_set_orders [simp]: "stored (set_orders its \<sigma> j) = stored its"
  by (induction its \<sigma> j rule: set_orders.induct) auto

lemma length_stored [simp]: "length (stored its) = length its"
  by (simp add: stored_def)

lemma length_set_orders [simp]: "length (set_orders its \<sigma> j) = length its"
  by (induction its \<sigma> j rule: set_orders.induct) auto

lemma set_orders_notin: "i \<notin> set \<sigma> \<Longrightarrow> set_orders its \<sigma> j ! i = its ! i"
  by (induction its \<sigma> j rule: set_orders.induct) auto

lemma set_orders_nth:
  "distinct \<sigma> \<Longrightarrow> set \<sigma> \<subseteq> {..<length its} \<Longrightarrow> k < length \<sigma> \<Longrightarrow>
     set_orders its \<sigma> j ! (\<sigma> ! k) = (j + k, snd (its ! (\<sigma> ! k)))"
proof (induction its \<sigma> j arbitrary: k rule: set_orders.induct)
  case (2 its i \<sigma> j)
  show ?case
  proof (cases k)
    case 0
    then show ?thesis using 2 by (simp add: set_orders_notin)
  next
    case (Suc k')
    then have "\<sigma> ! k' \<noteq> i" using 2 nth_mem [of k' \<sigma>] by auto
    then show ?thesis using 2 Suc by simp
  qed
qed simp

lemma fillin_offsets_loop_lay:
  assumes "length tbl = length its" "set \<sigma> \<subseteq> {..<length its}" "j + length \<sigma> \<le> length its"
  shows "fillin_offsets_loop (lay pre tbl its post) (length pre) (map (item_off its) \<sigma>) j =
     Some (lay pre (take j tbl @ map (item_off its) \<sigma> @ drop (j + length \<sigma>) tbl)
               (set_orders its \<sigma> j) post)"
  using assms
proof (induction \<sigma> arbitrary: tbl its j)
  case Nil
  then show ?case by simp
next
  case (Cons i \<sigma>)
  let ?tbl = "tbl[j := item_off its i]" and ?its = "its[i := (j, snd (its ! i))]"
  have i: "i < length its" "j < length tbl" using Cons.prems by auto
  have off: "item_off ?its = item_off its"
    by (rule ext) (rule item_off_cong, simp)
  have "fillin_offsets_loop (lay pre tbl its post) (length pre) (map (item_off its) (i # \<sigma>)) j =
      fillin_offsets_loop (lay pre ?tbl ?its post) (length pre) (map (item_off ?its) \<sigma>) (Suc j)"
    using i item_off_pos [of its i] Cons.prems(1)
    by (simp add: lay_update_table lay_update_order off)
  also have "\<dots> = Some (lay pre (take (Suc j) ?tbl @ map (item_off ?its) \<sigma> @ drop (Suc j + length \<sigma>) ?tbl)
      (set_orders ?its \<sigma> (Suc j)) post)"
    by (rule Cons.IH) (use Cons.prems in auto)
  finally show ?case
    using i by (simp add: off take_Suc_conv_app_nth)
qed

text \<open>
  \<open>fillin_offsets\<close> on a laid out slab whose table lists, apart from zeros, the offsets of the records
  in the order \<open>\<sigma>\<close>: the offset table becomes that list, and the order fields its inverse.
\<close>

lemma fillin_offsets_lay:
  assumes "length tbl = length its" "set \<sigma> \<subseteq> {..<length its}" "length \<sigma> = length its"
    and "filter (\<lambda>x. x \<noteq> 0) offs = map (item_off its) \<sigma>"
  shows "fillin_offsets (lay pre tbl its post) (length pre) offs =
     Some (lay pre (map (item_off its) \<sigma>) (set_orders its \<sigma> 0) post)"
  using fillin_offsets_loop_lay [of tbl its \<sigma> 0 pre post] assms
  by (simp add: fillin_offsets_def fillin_offsets_loop_filter [of _ _ offs])

text \<open>The slab that comes out is well-formed, and its table lists the payloads in the order \<open>\<sigma>\<close>.\<close>

lemma wf_set_orders:
  assumes "distinct \<sigma>" "set \<sigma> = {..<length its}" "length its < 65536"
    and "\<forall>p \<in> set (stored its). payload_ok type p"
    and "2 + (\<Sum>p \<leftarrow> stored its. 8 + length p) < 4294967296"
  shows "wf_items type (map (item_off its) \<sigma>) (set_orders its \<sigma> 0)" (is "wf_items _ ?tbl ?its")
proof -
  have len: "length \<sigma> = length its"
    using distinct_card [OF assms(1)] assms(2) by simp
  have st: "stored ?its = stored its" by simp
  have nth: "?its ! (\<sigma> ! k) = (k, snd (its ! (\<sigma> ! k)))" if "k < length its" for k
    using set_orders_nth [OF assms(1), of its k 0] assms(2) len that by simp
  have ex: "\<exists>k < length its. i = \<sigma> ! k" if "i < length its" for i
    using that assms(2) len by (metis in_set_conv_nth lessThan_iff)
  have ord: "fst (?its ! i) < length its \<and> ?tbl ! fst (?its ! i) = item_off ?its i"
    if "i < length its" for i
    using ex [OF that] nth len item_off_cong [OF st] by auto
  have "inj_on (\<lambda>i. fst (?its ! i)) {..<length its}"
  proof (rule inj_onI)
    fix a b assume "a \<in> {..<length its}" "b \<in> {..<length its}" "fst (?its ! a) = fst (?its ! b)"
    then show "a = b" using ex [of a] ex [of b] nth by auto
  qed
  then have "distinct (map fst ?its)"
    by (simp add: distinct_conv_nth inj_on_def) blast
  moreover have "length (slab_body ?tbl ?its) = 2 + (\<Sum>p \<leftarrow> stored its. 8 + length p)"
    using len by (simp add: length_slab_body length_enc_items sum_list_addf sum_list_triv)
  moreover have "\<forall>it \<in> set ?its. payload_ok type (snd it)"
    using assms(4) st by (metis image_eqI list.set_map stored_def)
  ultimately show ?thesis
    unfolding wf_items_def using assms(3,5) len ord by (simp del: nth_map)
qed

lemma listed_set_orders:
  assumes "distinct \<sigma>" "set \<sigma> = {..<length its}"
  shows "listed (set_orders its \<sigma> 0) = map (\<lambda>i. snd (its ! i)) \<sigma>"
proof -
  have len: "length \<sigma> = length its" using distinct_card [OF assms(1)] assms(2) by simp
  let ?its = "set_orders its \<sigma> 0"
  have nth: "?its ! (\<sigma> ! k) = (k, snd (its ! (\<sigma> ! k)))" if "k < length its" for k
    using set_orders_nth [OF assms(1), of its k 0] assms(2) len that by simp
  have "inj_on (\<lambda>i. fst (?its ! i)) {..<length its}"
  proof (rule inj_onI)
    fix a b assume ab: "a \<in> {..<length its}" "b \<in> {..<length its}" "fst (?its ! a) = fst (?its ! b)"
    then obtain k l where "k < length its" "a = \<sigma> ! k" "l < length its" "b = \<sigma> ! l"
      using assms(2) len by (metis in_set_conv_nth)
    with ab nth show "a = b" by simp
  qed
  then have d: "distinct (map fst ?its)" by (simp add: distinct_conv_nth inj_on_def) blast
  have "map_of ?its k = Some (snd (its ! (\<sigma> ! k)))" if "k < length its" for k
  proof -
    have "\<sigma> ! k < length its" using that assms(2) len by (metis lessThan_iff nth_mem)
    then have "?its ! (\<sigma> ! k) \<in> set ?its" by (simp add: nth_mem)
    then show ?thesis using d nth [OF that] by (simp add: map_of_is_SomeI)
  qed
  then show ?thesis
    using len by (auto simp: listed_def intro!: nth_equalityI)
qed

section \<open>Offset tables indexed by keys\<close>

text \<open>
  The constructors of slabs collect the offset of each record in a table indexed by a key (the
  position of the record in its source); \<open>put_offs\<close> are these assignments.
\<close>

fun put_offs :: "nat list \<Rightarrow> (nat \<times> nat) list \<Rightarrow> nat list" where
  "put_offs ot [] = ot"
| "put_offs ot ((k, v) # kvs) = put_offs (ot[k := v]) kvs"

text \<open>The elements of \<open>ps\<close> in ascending order of their keys \<open>ks\<close>.\<close>

definition by_key :: "nat list \<Rightarrow> 'a list \<Rightarrow> 'a list" where
  "by_key ks ps = map snd (sort_key fst (zip ks ps))"

lemma length_put_offs [simp]: "length (put_offs ot kvs) = length ot"
  by (induction ot kvs rule: put_offs.induct) auto

lemma put_offs_snoc: "put_offs ot (kvs @ [(k, v)]) = (put_offs ot kvs)[k := v]"
  by (induction ot kvs rule: put_offs.induct) auto

lemma nth_put_offs:
  "distinct (map fst kvs) \<Longrightarrow> k < length ot \<Longrightarrow>
     put_offs ot kvs ! k = (case map_of kvs k of None \<Rightarrow> ot ! k | Some v \<Rightarrow> v)"
proof (induction ot kvs rule: put_offs.induct)
  case (2 ot k' v kvs)
  have "map_of kvs k' = None" using 2(2) by (simp add: map_of_eq_None_iff)
  then show ?case using 2 by (auto split: option.split)
qed simp

lemma filter_keys:
  assumes "distinct ks" "set ks \<subseteq> {..<n}"
  shows "filter (\<lambda>k. k \<in> set ks) [0..<n] = sort ks"
  by (rule sorted_distinct_set_unique) (use assms in \<open>auto simp: sorted_wrt_filter\<close>)

lemma map_fst_sort_key: "map fst (sort_key fst zs) = sort (map fst zs)"
  by (rule properties_for_sort [symmetric]) simp_all

lemma filter_put_offs:
  assumes "distinct ks" "set ks \<subseteq> {..<n}" "length vs = length ks" "0 \<notin> set vs"
  shows "filter (\<lambda>x. x \<noteq> 0) (put_offs (replicate n 0) (zip ks vs)) = by_key ks vs"
proof -
  let ?kvs = "zip ks vs"
  define f where "f k = (case map_of ?kvs k of None \<Rightarrow> 0 | Some v \<Rightarrow> v)" for k
  have fst: "map fst ?kvs = ks" using assms(3) by simp
  have put: "put_offs (replicate n 0) ?kvs = map f [0..<n]"
    by (rule nth_equalityI) (use assms fst in \<open>auto simp: nth_put_offs f_def split: option.split dest: set_zip_leftD\<close>)
  have "f k \<noteq> 0 \<longleftrightarrow> k \<in> set ks" for k
  proof (cases "map_of ?kvs k")
    case None
    then show ?thesis using fst by (metis f_def list.set_map map_of_eq_None_iff option.case(1))
  next
    case (Some v)
    then have "(k, v) \<in> set ?kvs" by (rule map_of_SomeD)
    then have "k \<in> set ks" "v \<in> set vs" by (auto dest: set_zip_leftD set_zip_rightD)
    moreover from this have "v \<noteq> 0" using assms(4) by metis
    ultimately show ?thesis using Some by (simp add: f_def)
  qed
  then have "filter (\<lambda>x. x \<noteq> 0) (map f [0..<n]) = map f (filter (\<lambda>k. k \<in> set ks) [0..<n])"
    by (simp add: filter_map comp_def)
  also have "\<dots> = map f (map fst (sort_key fst ?kvs))"
    by (simp add: filter_keys assms map_fst_sort_key fst)
  also have "\<dots> = map snd (sort_key fst ?kvs)"
  proof -
    have "f (fst kv) = snd kv" if "kv \<in> set ?kvs" for kv
    proof -
      have "map_of ?kvs (fst kv) = Some (snd kv)"
        by (rule map_of_is_SomeI) (use that assms(1) fst in simp_all)
      then show ?thesis by (simp add: f_def)
    qed
    then show ?thesis by simp
  qed
  finally show ?thesis by (simp add: put by_key_def)
qed

lemma mset_by_key: "length ks = length ps \<Longrightarrow> mset (by_key ks ps) = mset ps"
proof -
  assume "length ks = length ps"
  then have "mset ps = mset (map snd (zip ks ps))" by simp
  also have "\<dots> = mset (by_key ks ps)" unfolding by_key_def mset_map mset_sort ..
  finally show ?thesis ..
qed

lemma by_key_perm:
  "set (by_key ks [0..<length ks]) = {..<length ks}"
  "length (by_key ks [0..<length ks]) = length ks" "distinct (by_key ks [0..<length ks])"
proof -
  have perm: "mset (by_key ks [0..<length ks]) = mset [0..<length ks]" by (rule mset_by_key) simp
  show "set (by_key ks [0..<length ks]) = {..<length ks}"
    unfolding mset_eq_setD [OF perm] by (simp add: atLeast0LessThan)
  show "length (by_key ks [0..<length ks]) = length ks"
    unfolding mset_eq_length [OF perm] by simp
  show "distinct (by_key ks [0..<length ks])"
    unfolding mset_eq_imp_distinct_iff [OF perm] by simp
qed

lemma insort_key_map: "(\<And>x. fst (g x) = fst x) \<Longrightarrow> insort_key fst (g x) (map g zs) = map g (insort_key fst x zs)"
  by (induction zs) auto

lemma sort_key_map_fst: "(\<And>x. fst (g x) = fst x) \<Longrightarrow> sort_key fst (map g zs) = map g (sort_key fst zs)"
  by (induction zs) (simp_all add: insort_key_map)

lemma by_key_nth:
  assumes "length ps = length ks"
  shows "by_key ks ps = map (\<lambda>i. ps ! i) (by_key ks [0..<length ks])"
proof -
  let ?g = "\<lambda>(k, i). (k, ps ! i)"
  have "zip ks ps = map ?g (zip ks [0..<length ks])"
    by (rule nth_equalityI) (use assms in auto)
  moreover have "sort_key fst (map ?g zs) = map ?g (sort_key fst zs)" for zs :: "(nat \<times> nat) list"
    by (rule sort_key_map_fst) auto
  ultimately show ?thesis by (simp add: by_key_def split_def)
qed

text \<open>
  How every constructor ends: with a table that maps the key \<open>ks ! i\<close> to the offset of the \<open>i\<close>-th
  record, \<open>fillin_offsets\<close> makes a well-formed slab that lists the payloads in ascending order of
  their keys.
\<close>

lemma fillin_offsets_keys:
  assumes "distinct ks" "set ks \<subseteq> {..<N}" "length ks = length its" "length tbl = length its"
    and "length its < 65536" "\<forall>p \<in> set (stored its). payload_ok type p"
    and "2 + (\<Sum>p \<leftarrow> stored its. 8 + length p) < 4294967296"
    and "ot = put_offs (replicate N 0) (zip ks (map (item_off its) [0..<length its]))"
  obtains tbl' its' where
    "fillin_offsets (lay pre tbl its post) (length pre) ot = Some (lay pre tbl' its' post)"
    "wf_items type tbl' its'" "stored its' = stored its" "listed its' = by_key ks (stored its)"
proof -
  define \<sigma> where "\<sigma> = by_key ks [0..<length ks]"
  have \<sigma>: "set \<sigma> = {..<length its}" "length \<sigma> = length its" and d: "distinct \<sigma>"
    using by_key_perm [of ks] assms(3) by (simp_all add: \<sigma>_def)
  have "filter (\<lambda>x. x \<noteq> 0) ot = by_key ks (map (item_off its) [0..<length its])"
    unfolding assms(8) by (rule filter_put_offs) (use assms(1-4) in auto)
  also have "\<dots> = map (item_off its) \<sigma>"
    using assms(3) \<sigma>(1) by (subst by_key_nth) (auto simp: \<sigma>_def)
  finally have "fillin_offsets (lay pre tbl its post) (length pre) ot =
      Some (lay pre (map (item_off its) \<sigma>) (set_orders its \<sigma> 0) post)"
    using fillin_offsets_lay [of tbl its \<sigma> ot pre post] assms(4) \<sigma> by simp
  moreover have "wf_items type (map (item_off its) \<sigma>) (set_orders its \<sigma> 0)"
    by (rule wf_set_orders) (use assms d \<sigma> in auto)
  moreover have "by_key ks (stored its) = map (\<lambda>i. stored its ! i) \<sigma>"
    unfolding \<sigma>_def by (rule by_key_nth) (simp add: assms(3))
  then have "listed (set_orders its \<sigma> 0) = by_key ks (stored its)"
    using listed_set_orders [OF d \<sigma>(1)] \<sigma>(1) by (simp add: stored_def)
  ultimately show thesis using that by simp
qed

text \<open>The listed payloads, by sorting the records.\<close>

lemma wf_items_keys: "wf_items t tbl its \<Longrightarrow> distinct (map fst its) \<and> (\<forall>it \<in> set its. fst it < length its)"
  unfolding wf_items_def all_set_conv_all_nth by blast

lemma listed_sort_key:
  assumes "distinct (map fst its)" "\<forall>it \<in> set its. fst it < length its"
  shows "listed its = map snd (sort_key fst its)"
proof -
  have sub: "set (map fst its) \<subseteq> {..<length its}" using assms(2) by auto
  have "card (set (map fst its)) = length its" using assms(1) distinct_card by fastforce
  then have set: "set (map fst its) = {..<length its}"
    using card_subset_eq [OF _ sub] by simp
  have "sort (map fst its) = [0..<length its]"
    by (rule sorted_distinct_set_unique) (use assms(1) set in auto)
  then have "map fst (sort_key fst its) = [0..<length its]" by (simp add: map_fst_sort_key)
  then have "listed its = map (\<lambda>k. the (map_of its k)) (map fst (sort_key fst its))" by (simp only: listed_def)
  also have "\<dots> = map (\<lambda>it. the (map_of its (fst it))) (sort_key fst its)" by (simp only: map_map comp_def)
  also have "\<dots> = map snd (sort_key fst its)"
    using assms(1) by (intro map_cong refl) (auto simp: map_of_is_SomeI)
  finally show ?thesis .
qed

lemma mset_listed: "wf_items t tbl its \<Longrightarrow> mset (listed its) = mset (stored its)"
  using wf_items_keys [of t tbl its] by (simp add: listed_sort_key stored_def)

end
