(* ===== verification/Slab_Cursor.thy ===== *)
theory Slab_Cursor
  imports Slab_Layout
begin

text \<open>
  Iteration over a slab: the method table of \<^verbatim>\<open>lib/dns/rdataslab.c\<close> (changed by lb-bind to follow the
  offset table), the two versions of the database's method table in \<^verbatim>\<open>lib/dns/rbtdb.c\<close> (the stock
  one, and the one compiled with \<^verbatim>\<open>LBBIND\<close>), and the dispatch through \<open>rdataset->methods\<close> of
  \<^verbatim>\<open>lib/dns/rdataset.c\<close>.  The argument \<open>m\<close> is the memory object that holds the slab.  Every table
  is an instance of the cursor interface.

  The reader-writer locks of the lb-bind versions are compiled out (\<^verbatim>\<open>LB_LOCKING\<close> is not defined).
  An offset is read with \<open>raw[0] << 24\<close>, where the byte is promoted to \<open>int\<close>.  For offsets of two gigabytes and more
  this shifts into the sign bit, which the C standard leaves undefined; the model has the value that
  compilers give, which is that of the unsigned shift.
\<close>

section \<open>The slab's own methods\<close>

definition rdataset_first :: "mem \<Rightarrow> dns_rdataset \<Rightarrow> (isc_result \<times> dns_rdataset) option" where
  "rdataset_first m r =
     do { raw \<leftarrow> rs_private3 r;
          count \<leftarrow> rd16 m raw;
          if count = 0 then Some (ISC_R_NOMORE, r\<lparr>rs_private5 := None\<rparr>)
          else do { offset \<leftarrow> rd32 m (raw + 2);
                    Some (ISC_R_SUCCESS,
                      r\<lparr>rs_privateuint4 := count - 1, rs_private5 := Some (raw + offset)\<rparr>) } }"

definition rdataset_next :: "mem \<Rightarrow> dns_rdataset \<Rightarrow> (isc_result \<times> dns_rdataset) option" where
  "rdataset_next m r =
     (let count = rs_privateuint4 r in
      if count = 0 then Some (ISC_R_NOMORE, r)
      else do { raw \<leftarrow> rs_private3 r;
                orig_count \<leftarrow> rd16 m raw;
                let current = u32_sub orig_count count;
                offset \<leftarrow> rd32 m (raw + u32_of (2 + current * 4));
                Some (ISC_R_SUCCESS,
                  r\<lparr>rs_privateuint4 := count - 1, rs_private5 := Some (raw + offset)\<rparr>) })"

text \<open>The record at \<open>raw\<close> as an rdata; \<open>DNS_RDATASLAB_OFFLINE\<close> is bit 0 of the meta byte.\<close>

definition slab_rdata_at :: "mem \<Rightarrow> nat \<Rightarrow> nat \<Rightarrow> nat \<Rightarrow> dns_rdata \<Rightarrow> dns_rdata option" where
  "slab_rdata_at m raw rdclass type rdata =
     do { len \<leftarrow> rd16 m raw;
          (if type = dns_rdatatype_rrsig
           then do { meta \<leftarrow> mem_rd m (raw + 4);
                     r \<leftarrow> mem_blk m (raw + 4 + 1) (u32_sub len 1);
                     rdata1 \<leftarrow> dns_rdata_fromregion rdata rdclass type r;
                     Some (rdata1\<lparr>rd_flags := rd_flags rdata1 OR
                             (if meta AND 1 \<noteq> 0 then DNS_RDATA_OFFLINE else 0)\<rparr>) }
           else do { r \<leftarrow> mem_blk m (raw + 4) len;
                     rdata1 \<leftarrow> dns_rdata_fromregion rdata rdclass type r;
                     Some (rdata1\<lparr>rd_flags := rd_flags rdata1 OR 0\<rparr>) }) }"

definition rdataset_current :: "mem \<Rightarrow> dns_rdataset \<Rightarrow> dns_rdata \<Rightarrow> dns_rdata option" where
  "rdataset_current m r rdata =
     do { raw \<leftarrow> rs_private5 r;
          _ \<leftarrow> rd16 m (raw + 2);
          slab_rdata_at m raw (rs_class r) (rs_type r) rdata }"

definition rdataset_clone :: "dns_rdataset \<Rightarrow> dns_rdataset" where
  "rdataset_clone source = source\<lparr>rs_privateuint4 := 0, rs_private5 := None\<rparr>"

definition rdataset_count :: "mem \<Rightarrow> dns_rdataset \<Rightarrow> nat option" where
  "rdataset_count m r = do { raw \<leftarrow> rs_private3 r; rd16 m raw }"

definition dns_rdataslab_tordataset ::
    "nat \<Rightarrow> nat \<Rightarrow> nat \<Rightarrow> nat \<Rightarrow> nat \<Rightarrow> nat \<Rightarrow> dns_rdataset \<Rightarrow> dns_rdataset option" where
  "dns_rdataslab_tordataset slab reservelen rdclass rdtype covers ttl r =
     do { assoc \<leftarrow> dns_rdataset_isassociated r;
          if assoc then None
          else Some (r\<lparr>rs_methods := Some Rdataslab_methods, rs_class := rdclass,
                       rs_type := rdtype, rs_covers := covers, rs_ttl := ttl, rs_trust := 0,
                       rs_private1 := None, rs_private2 := None,
                       rs_private3 := Some (slab + reservelen),
                       rs_privateuint4 := 0, rs_private5 := None\<rparr>) }"

section \<open>The database's methods\<close>

text \<open>The stock version.\<close>

definition loadorder :: "dns_rdataset \<Rightarrow> bool" where
  "loadorder r \<longleftrightarrow> rs_attributes r AND DNS_RDATASETATTR_LOADORDER \<noteq> 0"

definition rbtdb_first :: "mem \<Rightarrow> dns_rdataset \<Rightarrow> (isc_result \<times> dns_rdataset) option" where
  "rbtdb_first m r =
     do { raw \<leftarrow> rs_private3 r;
          count \<leftarrow> rd16 m raw;
          if count = 0 then Some (ISC_R_NOMORE, r\<lparr>rs_private5 := None\<rparr>)
          else Some (ISC_R_SUCCESS,
            r\<lparr>rs_privateuint4 := count - 1,
              rs_private5 := Some (if loadorder r then raw + 2 else raw + (2 + 4 * count))\<rparr>) }"

definition rbtdb_next :: "mem \<Rightarrow> dns_rdataset \<Rightarrow> (isc_result \<times> dns_rdataset) option" where
  "rbtdb_next m r =
     (let count = rs_privateuint4 r in
      if count = 0 then Some (ISC_R_NOMORE, r)
      else do { raw \<leftarrow> rs_private5 r;
                raw1 \<leftarrow> (if loadorder r then Some raw
                         else do { len \<leftarrow> rd16 m raw; Some (raw + len) });
                Some (ISC_R_SUCCESS,
                  r\<lparr>rs_privateuint4 := count - 1, rs_private5 := Some (raw1 + 4)\<rparr>) })"

definition rbtdb_current :: "mem \<Rightarrow> dns_rdataset \<Rightarrow> dns_rdata \<Rightarrow> dns_rdata option" where
  "rbtdb_current m r rdata =
     do { raw \<leftarrow> rs_private5 r;
          raw1 \<leftarrow> (if loadorder r
                   then do { offset \<leftarrow> rd32 m raw; base \<leftarrow> rs_private3 r; Some (base + offset) }
                   else Some raw);
          slab_rdata_at m raw1 (rs_class r) (rs_type r) rdata }"

definition rbtdb_count :: "mem \<Rightarrow> dns_rdataset \<Rightarrow> nat option" where
  "rbtdb_count m r = do { raw \<leftarrow> rs_private3 r; rd16 m raw }"

definition rbtdb_clone :: "dns_rdataset \<Rightarrow> dns_rdataset" where
  "rbtdb_clone source = source\<lparr>rs_privateuint4 := 0, rs_private5 := None\<rparr>"

text \<open>The \<^verbatim>\<open>LBBIND\<close> version follows the offset table, whatever the attributes.\<close>

definition rbtdb_lb_first :: "mem \<Rightarrow> dns_rdataset \<Rightarrow> (isc_result \<times> dns_rdataset) option" where
  "rbtdb_lb_first m r =
     do { raw \<leftarrow> rs_private3 r;
          count \<leftarrow> rd16 m raw;
          if count = 0 then Some (ISC_R_NOMORE, r\<lparr>rs_private5 := None\<rparr>)
          else do { offset \<leftarrow> rd32 m (raw + 2);
                    Some (ISC_R_SUCCESS,
                      r\<lparr>rs_privateuint4 := count - 1, rs_private5 := Some (raw + offset)\<rparr>) } }"

definition rbtdb_lb_next :: "mem \<Rightarrow> dns_rdataset \<Rightarrow> (isc_result \<times> dns_rdataset) option" where
  "rbtdb_lb_next m r =
     (let count = rs_privateuint4 r in
      if count = 0 then Some (ISC_R_NOMORE, r)
      else do { raw \<leftarrow> rs_private3 r;
                orig_count \<leftarrow> rd16 m raw;
                let current = u32_sub orig_count count;
                offset \<leftarrow> rd32 m (raw + u32_of (2 + current * 4));
                Some (ISC_R_SUCCESS,
                  r\<lparr>rs_privateuint4 := count - 1, rs_private5 := Some (raw + offset)\<rparr>) })"

definition rbtdb_lb_current :: "mem \<Rightarrow> dns_rdataset \<Rightarrow> dns_rdata \<Rightarrow> dns_rdata option" where
  "rbtdb_lb_current m r rdata =
     do { raw \<leftarrow> rs_private5 r;
          _ \<leftarrow> rd16 m (raw + 2);
          slab_rdata_at m raw (rs_class r) (rs_type r) rdata }"

definition rbtdb_lb_clone :: "dns_rdataset \<Rightarrow> dns_rdataset" where
  "rbtdb_lb_clone source = source\<lparr>rs_privateuint4 := 0, rs_private5 := None\<rparr>"

definition rbtdb_lb_count :: "mem \<Rightarrow> dns_rdataset \<Rightarrow> nat option" where
  "rbtdb_lb_count m r = do { raw \<leftarrow> rs_private3 r; rd16 m raw }"

section \<open>Dispatch\<close>

text \<open>\<open>lb\<close> says whether the database was compiled with \<^verbatim>\<open>LBBIND\<close>.\<close>

definition dns_rdataset_count :: "bool \<Rightarrow> mem \<Rightarrow> dns_rdataset \<Rightarrow> nat option" where
  "dns_rdataset_count lb m r =
     (if rs_magic r then
        case rs_methods r of
          None \<Rightarrow> None
        | Some Rdatalist_methods \<Rightarrow> isc_rdatalist_count r
        | Some Rdataslab_methods \<Rightarrow> rdataset_count m r
        | Some Rbtdb_methods \<Rightarrow> if lb then rbtdb_lb_count m r else rbtdb_count m r
        | Some Question_methods \<Rightarrow> question_count r
      else None)"

definition dns_rdataset_clone :: "bool \<Rightarrow> dns_rdataset \<Rightarrow> dns_rdataset \<Rightarrow> dns_rdataset option" where
  "dns_rdataset_clone lb source target =
     (if rs_magic source \<and> rs_magic target \<and> rs_methods target = None then
        case rs_methods source of
          None \<Rightarrow> None
        | Some Rdatalist_methods \<Rightarrow> Some (isc_rdatalist_clone source)
        | Some Rdataslab_methods \<Rightarrow> Some (rdataset_clone source)
        | Some Rbtdb_methods \<Rightarrow> Some (if lb then rbtdb_lb_clone source else rbtdb_clone source)
        | Some Question_methods \<Rightarrow> Some (question_clone source)
      else None)"

definition dns_rdataset_first ::
    "bool \<Rightarrow> mem \<Rightarrow> dns_rdataset \<Rightarrow> (isc_result \<times> dns_rdataset) option" where
  "dns_rdataset_first lb m r =
     (if rs_magic r then
        case rs_methods r of
          None \<Rightarrow> None
        | Some Rdatalist_methods \<Rightarrow> isc_rdatalist_first r
        | Some Rdataslab_methods \<Rightarrow> rdataset_first m r
        | Some Rbtdb_methods \<Rightarrow> if lb then rbtdb_lb_first m r else rbtdb_first m r
        | Some Question_methods \<Rightarrow> question_cursor r
      else None)"

definition dns_rdataset_next ::
    "bool \<Rightarrow> mem \<Rightarrow> dns_rdataset \<Rightarrow> (isc_result \<times> dns_rdataset) option" where
  "dns_rdataset_next lb m r =
     (if rs_magic r then
        case rs_methods r of
          None \<Rightarrow> None
        | Some Rdatalist_methods \<Rightarrow> isc_rdatalist_next r
        | Some Rdataslab_methods \<Rightarrow> rdataset_next m r
        | Some Rbtdb_methods \<Rightarrow> if lb then rbtdb_lb_next m r else rbtdb_next m r
        | Some Question_methods \<Rightarrow> question_cursor r
      else None)"

definition dns_rdataset_current ::
    "bool \<Rightarrow> mem \<Rightarrow> dns_rdataset \<Rightarrow> dns_rdata \<Rightarrow> dns_rdata option" where
  "dns_rdataset_current lb m r rdata =
     (if rs_magic r then
        case rs_methods r of
          None \<Rightarrow> None
        | Some Rdatalist_methods \<Rightarrow> isc_rdatalist_current r rdata
        | Some Rdataslab_methods \<Rightarrow> rdataset_current m r rdata
        | Some Rbtdb_methods \<Rightarrow> if lb then rbtdb_lb_current m r rdata else rbtdb_current m r rdata
        | Some Question_methods \<Rightarrow> question_current r rdata
      else None)"

section \<open>Reading a slab back\<close>

text \<open>The abstraction function: the offset table and the records that an object holds.\<close>

fun parse_table :: "mem \<Rightarrow> nat \<Rightarrow> nat \<Rightarrow> nat list option" where
  "parse_table m p 0 = Some []"
| "parse_table m p (Suc n) =
     do { off \<leftarrow> rd32 m p; tbl \<leftarrow> parse_table m (p + 4) n; Some (off # tbl) }"

fun parse_items :: "mem \<Rightarrow> nat \<Rightarrow> nat \<Rightarrow> item list option" where
  "parse_items m p 0 = Some []"
| "parse_items m p (Suc n) =
     do { len \<leftarrow> rd16 m p; k \<leftarrow> rd16 m (p + 2); pl \<leftarrow> mem_blk m (p + 4) len;
          its \<leftarrow> parse_items m (p + 4 + len) n; Some ((k, pl) # its) }"

definition parse_slab :: "mem \<Rightarrow> nat \<Rightarrow> (nat list \<times> item list) option" where
  "parse_slab m base =
     do { n \<leftarrow> rd16 m base; tbl \<leftarrow> parse_table m (base + 2) n;
          its \<leftarrow> parse_items m (base + 2 + 4 * n) n; Some (tbl, its) }"

lemma parse_table_lay:
  "\<forall>x \<in> set tbl. x < 4294967296 \<Longrightarrow> p = length pre \<Longrightarrow>
     parse_table (pre @ concat (map put32 tbl) @ post) p (length tbl) = Some tbl"
proof (induction tbl arbitrary: pre p)
  case (Cons x tbl)
  have "parse_table ((pre @ put32 x) @ concat (map put32 tbl) @ post) (p + 4) (length tbl) = Some tbl"
    by (rule Cons.IH) (use Cons.prems in simp_all)
  moreover have "rd32 (pre @ put32 x @ concat (map put32 tbl) @ post) p = Some x"
    using Cons.prems by (simp add: rd32_mid)
  ultimately show ?case by simp
qed simp

lemma rd_enc_item:
  assumes "p = length pre" "length (snd it) < 65536" "fst it < 65536"
  shows "rd16 (pre @ enc_item it @ post) p = Some (length (snd it))"
    and "rd16 (pre @ enc_item it @ post) (p + 2) = Some (fst it)"
    and "mem_blk (pre @ enc_item it @ post) (p + 4) (length (snd it)) = Some (snd it)"
proof -
  have eq: "pre @ enc_item it @ post =
      (pre @ put16 (length (snd it))) @ put16 (fst it) @ (snd it @ post)"
    "pre @ enc_item it @ post =
      (pre @ put16 (length (snd it)) @ put16 (fst it)) @ snd it @ post"
    by (simp_all add: enc_item_def)
  show "rd16 (pre @ enc_item it @ post) p = Some (length (snd it))"
    using assms by (simp add: enc_item_def rd16_mid)
  show "rd16 (pre @ enc_item it @ post) (p + 2) = Some (fst it)"
    unfolding eq(1) by (rule rd16_mid) (use assms in simp_all)
  show "mem_blk (pre @ enc_item it @ post) (p + 4) (length (snd it)) = Some (snd it)"
    unfolding eq(2) by (rule mem_blk_mid) (use assms in simp_all)
qed

lemma parse_items_lay:
  "\<forall>it \<in> set its. length (snd it) < 65536 \<and> fst it < 65536 \<Longrightarrow> p = length pre \<Longrightarrow>
     parse_items (pre @ concat (map enc_item its) @ post) p (length its) = Some its"
proof (induction its arbitrary: pre p)
  case (Cons it its)
  have "parse_items ((pre @ enc_item it) @ concat (map enc_item its) @ post)
      (p + 4 + length (snd it)) (length its) = Some its"
    by (rule Cons.IH) (use Cons.prems in simp_all)
  then show ?case
    using rd_enc_item [of p pre it "concat (map enc_item its) @ post"] Cons.prems by simp
qed simp

lemma wf_itemsD:
  assumes "wf_items type tbl its"
  shows "length tbl = length its" "length its < 65536"
    and "\<And>i. i < length its \<Longrightarrow> payload_ok type (snd (its ! i))"
    and "\<And>i. i < length its \<Longrightarrow> fst (its ! i) < length its"
    and "\<And>i. i < length its \<Longrightarrow> tbl ! fst (its ! i) = item_off its i"
    and "distinct (map fst its)"
  using assms by (auto simp: wf_items_def)

text \<open>Every index of the table is the order field of one record.\<close>

lemma wf_items_order:
  assumes wf: "wf_items type tbl its" and k: "k < length its"
  obtains i where "i < length its" "fst (its ! i) = k" "tbl ! k = item_off its i"
    "map_of its k = Some (snd (its ! i))"
proof -
  have "set (map fst its) \<subseteq> {..<length its}"
    using wf_itemsD(4) [OF wf] by (force simp: set_conv_nth)
  moreover have "card (set (map fst its)) = length its"
    using distinct_card [OF wf_itemsD(6) [OF wf]] by simp
  ultimately have "set (map fst its) = {..<length its}"
    by (simp add: card_subset_eq)
  then have "k \<in> set (map fst its)" using k by simp
  then obtain i where i: "i < length its" "fst (its ! i) = k"
    by (auto simp: in_set_conv_nth)
  moreover have "map_of its k = Some (snd (its ! i))"
    using wf_itemsD(6) [OF wf] i by (metis map_of_is_SomeI nth_mem prod.collapse)
  ultimately show thesis using that wf_itemsD(5) [OF wf, of i] by simp
qed

lemma wf_table_less:
  assumes "wf_items type tbl its" "x \<in> set tbl"
  shows "x < 4294967296"
proof -
  obtain k where "k < length its" "x = tbl ! k"
    using assms wf_itemsD(1) [OF assms(1)] by (metis in_set_conv_nth)
  then obtain i where "i < length its" "x = item_off its i"
    using wf_items_order [OF assms(1)] by metis
  then show ?thesis
    using item_off_le [of i its tbl] assms(1) by (simp add: wf_items_def)
qed

lemma slab_at_parse:
  assumes "slab_at m base type tbl its"
  shows "parse_slab m base = Some (tbl, its)"
proof -
  obtain pre post where m: "m = lay pre tbl its post" "length pre = base"
    and wf: "wf_items type tbl its"
    using assms by (auto simp: slab_at_def)
  note d = wf_itemsD [OF wf]
  have "rd16 m base = Some (length its)" using lay_count [OF d(2)] m by blast
  moreover have "parse_table m (base + 2) (length its) = Some tbl"
    using parse_table_lay [of tbl "base + 2" "pre @ put16 (length its)" "concat (map enc_item its) @ post"]
      wf_table_less [OF wf] d(1) m by (simp add: lay_def slab_body_def)
  moreover have "\<forall>it \<in> set its. length (snd it) < 65536 \<and> fst it < 65536"
    using d(2,3,4) by (fastforce simp: in_set_conv_nth payload_ok_def)
  then have "parse_items m (base + 2 + 4 * length its) (length its) = Some its"
    using parse_items_lay [of its "base + 2 + 4 * length its"
        "pre @ put16 (length its) @ concat (map put32 tbl)" post] d(1) m
    by (simp add: lay_def slab_body_def)
  ultimately show ?thesis by (simp add: parse_slab_def)
qed

lemma slab_rdata_at_item:
  assumes "slab_at m base type tbl its" "i < length its"
  shows "slab_rdata_at m (base + item_off its i) rdclass type dns_rdata_init =
     Some (rdata_of rdclass type (snd (its ! i)))"
    and "rd16 m (base + item_off its i) = Some (length (snd (its ! i)))"
    and "rd16 m (base + item_off its i + 2) = Some (fst (its ! i))"
proof -
  obtain pre post where m: "m = lay pre tbl its post" "length pre = base"
    and wf: "wf_items type tbl its"
    using assms by (auto simp: slab_at_def)
  note d = wf_itemsD [OF wf]
  let ?p = "snd (its ! i)"
  let ?a = "pre @ put16 (length its) @ concat (map put32 tbl) @ concat (map enc_item (take i its))"
  let ?z = "concat (map enc_item (drop (Suc i) its)) @ post"
  have m': "m = ?a @ enc_item (its ! i) @ ?z" using m lay_split_item [OF assms(2)] by simp
  have a: "length ?a = base + item_off its i"
    using m d(1) by (simp add: item_off_def)
  have ok: "length ?p < 65536" "fst (its ! i) < 65536" "type = dns_rdatatype_rrsig \<longrightarrow> ?p \<noteq> []"
    using d(2) d(3) [of i] d(4) [of i] assms(2) by (auto simp: payload_ok_def)
  note rd = rd_enc_item [OF a [symmetric] ok(1,2), of ?z]
  show r16: "rd16 m (base + item_off its i) = Some (length ?p)"
    and "rd16 m (base + item_off its i + 2) = Some (fst (its ! i))"
    unfolding m' by (rule rd)+
  have meta: "mem_rd m (base + item_off its i + 4) = Some b"
    "mem_blk m (base + item_off its i + 4 + 1) (length bs) = Some bs" if "?p = b # bs" for b bs
  proof -
    have eq: "m = (?a @ put16 (length ?p) @ put16 (fst (its ! i))) @ b # bs @ ?z"
      "m = (?a @ put16 (length ?p) @ put16 (fst (its ! i)) @ [b]) @ bs @ ?z"
      using m' that by (simp_all add: enc_item_def)
    show "mem_rd m (base + item_off its i + 4) = Some b"
      unfolding eq(1) by (rule mem_rd_mid) (use a in simp)
    show "mem_blk m (base + item_off its i + 4 + 1) (length bs) = Some bs"
      unfolding eq(2) by (rule mem_blk_mid) (use a in simp_all)
  qed
  have blk: "mem_blk m (base + item_off its i + 4) (length ?p) = Some ?p"
    unfolding m' by (rule rd)
  show "slab_rdata_at m (base + item_off its i) rdclass type dns_rdata_init =
     Some (rdata_of rdclass type ?p)"
  proof (cases "type = dns_rdatatype_rrsig")
    case True
    then obtain b bs where p: "?p = b # bs" using ok(3) by (cases ?p) auto
    show ?thesis
      using r16 meta [OF p] True p ok(1)
      by (simp add: slab_rdata_at_def dns_rdata_fromregion_def rdata_of_def)
  next
    case False
    then show ?thesis
      using r16 blk by (simp add: slab_rdata_at_def dns_rdata_fromregion_def rdata_of_def)
  qed
qed

section \<open>The methods as cursors\<close>

definition slab_valid :: "mem \<Rightarrow> dns_rdataset \<Rightarrow> bool" where
  "slab_valid m r \<longleftrightarrow>
     (\<exists>base tbl its. rs_private3 r = Some base \<and> slab_at m base (rs_type r) tbl its)"

definition slab_items :: "(item list \<Rightarrow> u8 list list) \<Rightarrow> mem \<Rightarrow> dns_rdataset \<Rightarrow> dns_rdata list" where
  "slab_items view m r =
     (case rs_private3 r of
        None \<Rightarrow> []
      | Some base \<Rightarrow>
          (case parse_slab m base of
             None \<Rightarrow> []
           | Some (tbl, its) \<Rightarrow> map (rdata_of (rs_class r) (rs_type r)) (view its)))"

definition slab_cursor_at :: "(nat \<Rightarrow> nat list \<Rightarrow> item list \<Rightarrow> nat \<Rightarrow> nat) \<Rightarrow> mem \<Rightarrow> dns_rdataset \<Rightarrow> nat \<Rightarrow> bool" where
  "slab_cursor_at loc m r i \<longleftrightarrow>
     (\<exists>base tbl its. rs_private3 r = Some base \<and> parse_slab m base = Some (tbl, its) \<and>
        rs_privateuint4 r = length its - Suc i \<and> rs_private5 r = Some (loc base tbl its i))"

lemma slab_validE:
  assumes "slab_valid m r"
  obtains base tbl its where "rs_private3 r = Some base" "slab_at m base (rs_type r) tbl its"
    "parse_slab m base = Some (tbl, its)" "wf_items (rs_type r) tbl its"
    "rd16 m base = Some (length its)"
    "slab_items view m r = map (rdata_of (rs_class r) (rs_type r)) (view its)"
proof -
  obtain base tbl its where b: "rs_private3 r = Some base" and sl: "slab_at m base (rs_type r) tbl its"
    using assms by (auto simp: slab_valid_def)
  then obtain pre post where m: "m = lay pre tbl its post" "length pre = base"
    and wf: "wf_items (rs_type r) tbl its" by (auto simp: slab_at_def)
  have "rd16 m base = Some (length its)"
    using lay_count [OF wf_itemsD(2) [OF wf]] m by blast
  with that b sl wf slab_at_parse [OF sl] show thesis by (simp add: slab_items_def)
qed

lemma length_listed [simp]: "length (listed its) = length its"
  by (simp add: listed_def)

lemma listed_Nil [simp]: "listed its = [] \<longleftrightarrow> its = []" "stored its = [] \<longleftrightarrow> its = []"
  by (simp_all add: listed_def stored_def)

lemma slab_at_table:
  assumes "slab_at m base type tbl its" "k < length its"
  obtains i where "i < length its" "listed its ! k = snd (its ! i)" "tbl ! k = item_off its i"
    "rd32 m (base + (2 + 4 * k)) = Some (tbl ! k)"
proof -
  obtain pre post where m: "m = lay pre tbl its post" "length pre = base"
    and wf: "wf_items type tbl its" using assms by (auto simp: slab_at_def)
  obtain i where i: "i < length its" "tbl ! k = item_off its i" "map_of its k = Some (snd (its ! i))"
    using wf_items_order [OF wf assms(2)] by metis
  have k: "k < length tbl" using assms(2) wf_itemsD(1) [OF wf] by simp
  have "rd32 m (base + (2 + 4 * k)) = Some (tbl ! k)"
    using lay_table [OF k wf_table_less [OF wf nth_mem [OF k]], of pre its post] m
    by (simp add: add.assoc)
  with that [OF i(1) _ i(2)] i(3) assms(2) show thesis by (simp add: listed_def)
qed

text \<open>The slab's own methods, and those of a database compiled with \<^verbatim>\<open>LBBIND\<close>, follow the table.\<close>

definition table_pos :: "nat \<Rightarrow> nat list \<Rightarrow> item list \<Rightarrow> nat \<Rightarrow> nat" where
  "table_pos base tbl its i = base + tbl ! i"

interpretation slab_cursor: rdataset_cursor "rdataset_first m" "rdataset_next m" "rdataset_current m"
  "rdataset_count m" "slab_valid m" "slab_items listed m" "slab_cursor_at table_pos m" for m
proof (unfold_locales, goal_cases)
  case (1 r)
  then show ?case by (rule slab_validE [where view = listed]) (simp add: rdataset_count_def)
next
  case (2 r)
  from 2(1) show ?case
    by (rule slab_validE [where view = listed])
      (use 2 in \<open>auto simp: rdataset_first_def slab_valid_def slab_items_def\<close>)
next
  case (3 r)
  from 3(1) show ?case
  proof (rule slab_validE [where view = listed], goal_cases)
    case (1 base tbl its)
    then have n: "0 < length its" using 3(2) by simp
    have "rd32 m (base + 2) = Some (tbl ! 0)"
      using slab_at_table [OF 1(2) n] by (metis add.right_neutral mult_0_right)
    with 1 n show ?case
      by (auto simp: rdataset_first_def slab_valid_def slab_items_def slab_cursor_at_def table_pos_def)
  qed
next
  case (4 r i)
  from 4(1) show ?case
  proof (rule slab_validE [where view = listed], goal_cases)
    case (1 base tbl its)
    then have n: "Suc i < length its" using 4(3) by simp
    have u: "rs_privateuint4 r = length its - Suc i"
      using 4(2) 1 by (auto simp: slab_cursor_at_def)
    have "u32_sub (length its) (length its - Suc i) = Suc i"
      using n wf_itemsD(2) [OF 1(4)] by simp
    moreover have "rd32 m (base + (2 + Suc i * 4)) = Some (tbl ! Suc i)"
      using slab_at_table [OF 1(2) n] by (metis mult.commute)
    moreover have "2 + Suc i * 4 < 4294967296" using n wf_itemsD(2) [OF 1(4)] by simp
    ultimately show ?case using 1 n u
      by (auto simp: rdataset_next_def slab_valid_def slab_items_def slab_cursor_at_def table_pos_def)
  qed
next
  case (5 r i)
  from 5(1) show ?case
    by (rule slab_validE [where view = listed])
      (use 5 in \<open>auto simp: rdataset_next_def slab_valid_def slab_cursor_at_def\<close>)
next
  case (6 r i)
  from 6(1) show ?case
  proof (rule slab_validE [where view = listed], goal_cases)
    case (1 base tbl its)
    then have n: "i < length its" using 6(3) by simp
    have p: "rs_private5 r = Some (base + tbl ! i)"
      using 6(2) 1 by (auto simp: slab_cursor_at_def table_pos_def)
    obtain j where j: "j < length its" "listed its ! i = snd (its ! j)" "tbl ! i = item_off its j"
      using slab_at_table [OF 1(2) n] by metis
    show ?case
      using 1 p j n slab_rdata_at_item(1) [OF 1(2) j(1), of "rs_class r"]
        slab_rdata_at_item(3) [OF 1(2) j(1)]
      by (simp add: rdataset_current_def add.assoc)
  qed
qed

interpretation rbtdb_lb_cursor: rdataset_cursor "rbtdb_lb_first m" "rbtdb_lb_next m"
  "rbtdb_lb_current m" "rbtdb_lb_count m" "slab_valid m" "slab_items listed m"
  "slab_cursor_at table_pos m" for m
proof -
  have "rbtdb_lb_first m = rdataset_first m" "rbtdb_lb_next m = rdataset_next m"
    "rbtdb_lb_current m = rdataset_current m" "rbtdb_lb_count m = rdataset_count m"
    by (simp_all add: fun_eq_iff rbtdb_lb_first_def rdataset_first_def rbtdb_lb_next_def rdataset_next_def
        rbtdb_lb_current_def rdataset_current_def rbtdb_lb_count_def rdataset_count_def)
  then show "rdataset_cursor (rbtdb_lb_first m) (rbtdb_lb_next m) (rbtdb_lb_current m)
      (rbtdb_lb_count m) (slab_valid m) (slab_items listed m) (slab_cursor_at table_pos m)"
    using slab_cursor.rdataset_cursor_axioms by simp
qed

text \<open>
  The stock methods walk the records in storage order, or the table when the attribute
  \<^verbatim>\<open>DNS_RDATASETATTR_LOADORDER\<close> is set.
\<close>

definition rbtdb_view :: "dns_rdataset \<Rightarrow> item list \<Rightarrow> u8 list list" where
  "rbtdb_view r = (if loadorder r then listed else stored)"

definition rbtdb_items :: "mem \<Rightarrow> dns_rdataset \<Rightarrow> dns_rdata list" where
  "rbtdb_items m r = slab_items (rbtdb_view r) m r"

definition rbtdb_pos :: "dns_rdataset \<Rightarrow> nat \<Rightarrow> nat list \<Rightarrow> item list \<Rightarrow> nat \<Rightarrow> nat" where
  "rbtdb_pos r base tbl its i =
     (if loadorder r then base + (2 + 4 * i) else base + item_off its i)"

definition rbtdb_at :: "mem \<Rightarrow> dns_rdataset \<Rightarrow> nat \<Rightarrow> bool" where
  "rbtdb_at m r = slab_cursor_at (rbtdb_pos r) m r"

lemma length_rbtdb_view [simp]: "length (rbtdb_view r its) = length its"
  by (simp add: rbtdb_view_def)

lemma loadorder_update [simp]:
  "loadorder (r\<lparr>rs_privateuint4 := u\<rparr>) = loadorder r" "loadorder (r\<lparr>rs_private5 := p\<rparr>) = loadorder r"
  by (simp_all add: loadorder_def)

lemma rbtdb_view_update [simp]:
  "rbtdb_view (r\<lparr>rs_privateuint4 := u\<rparr>) = rbtdb_view r" "rbtdb_view (r\<lparr>rs_private5 := p\<rparr>) = rbtdb_view r"
  "rbtdb_pos (r\<lparr>rs_privateuint4 := u\<rparr>) = rbtdb_pos r" "rbtdb_pos (r\<lparr>rs_private5 := p\<rparr>) = rbtdb_pos r"
  by (simp_all add: rbtdb_view_def rbtdb_pos_def fun_eq_iff)

lemma item_off_0: "item_off its 0 = 2 + 4 * length its"
  by (simp add: item_off_def)

interpretation rbtdb_cursor: rdataset_cursor "rbtdb_first m" "rbtdb_next m" "rbtdb_current m"
  "rbtdb_count m" "slab_valid m" "rbtdb_items m" "rbtdb_at m" for m
proof (unfold_locales, goal_cases)
  case (1 r)
  then show ?case
    by (rule slab_validE [where view = "rbtdb_view r"]) (simp add: rbtdb_count_def rbtdb_items_def)
next
  case (2 r)
  from 2(1) show ?case
  proof (rule slab_validE [where view = "rbtdb_view r"], goal_cases)
    case (1 base tbl its)
    then have "length its = 0" using 2(2) by (metis length_0_conv length_map length_rbtdb_view rbtdb_items_def)
    with 1 show ?case
      by (auto simp: rbtdb_first_def slab_valid_def slab_items_def rbtdb_items_def)
  qed
next
  case (3 r)
  from 3(1) show ?case
  proof (rule slab_validE [where view = "rbtdb_view r"], goal_cases)
    case (1 base tbl its)
    then have "its \<noteq> []" using 3(2) by (auto simp: rbtdb_items_def rbtdb_view_def split: if_splits)
    with 1 show ?case
      by (auto simp: rbtdb_first_def slab_valid_def slab_items_def rbtdb_items_def rbtdb_at_def
          slab_cursor_at_def rbtdb_pos_def item_off_0)
  qed
next
  case (4 r i)
  from 4(1) show ?case
  proof (rule slab_validE [where view = "rbtdb_view r"], goal_cases)
    case (1 base tbl its)
    then have n: "Suc i < length its" using 4(3) by (simp add: rbtdb_items_def)
    have u: "rs_privateuint4 r = length its - Suc i" "rs_private5 r = Some (rbtdb_pos r base tbl its i)"
      using 4(2) 1 by (auto simp: rbtdb_at_def slab_cursor_at_def)
    have "rd16 m (base + item_off its i) = Some (length (snd (its ! i)))"
      using slab_rdata_at_item(2) [OF 1(2), of i] n by simp
    then show ?case using 1 n u
      by (auto simp: rbtdb_next_def slab_valid_def slab_items_def rbtdb_items_def rbtdb_at_def
          slab_cursor_at_def rbtdb_pos_def item_off_Suc)
  qed
next
  case (5 r i)
  from 5(1) show ?case
  proof (rule slab_validE [where view = "rbtdb_view r"], goal_cases)
    case (1 base tbl its)
    then have "Suc i = length its" using 5(3) by (simp add: rbtdb_items_def)
    with 5 1 show ?case
      by (auto simp: rbtdb_next_def slab_valid_def rbtdb_at_def slab_cursor_at_def)
  qed
next
  case (6 r i)
  from 6(1) show ?case
  proof (rule slab_validE [where view = "rbtdb_view r"], goal_cases)
    case (1 base tbl its)
    then have n: "i < length its" using 6(3) by (simp add: rbtdb_items_def)
    have p: "rs_private5 r = Some (rbtdb_pos r base tbl its i)"
      using 6(2) 1 by (auto simp: rbtdb_at_def slab_cursor_at_def)
    obtain j where j: "j < length its" "listed its ! i = snd (its ! j)" "tbl ! i = item_off its j"
      "rd32 m (base + (2 + 4 * i)) = Some (tbl ! i)"
      using slab_at_table [OF 1(2) n] by metis
    show ?case
      using 1 p j n slab_rdata_at_item(1) [OF 1(2) j(1), of "rs_class r"]
        slab_rdata_at_item(1) [OF 1(2) n, of "rs_class r"]
      by (simp add: rbtdb_current_def rbtdb_pos_def rbtdb_items_def rbtdb_view_def stored_def)
  qed
qed

section \<open>The dispatch as a cursor\<close>

definition rds_valid :: "mem \<Rightarrow> dns_rdataset \<Rightarrow> bool" where
  "rds_valid m r \<longleftrightarrow> rs_magic r \<and>
     (case rs_methods r of
        Some Rdatalist_methods \<Rightarrow> rdatalist_valid r
      | Some Rdataslab_methods \<Rightarrow> slab_valid m r
      | Some Rbtdb_methods \<Rightarrow> slab_valid m r
      | _ \<Rightarrow> False)"

definition rds_items :: "bool \<Rightarrow> mem \<Rightarrow> dns_rdataset \<Rightarrow> dns_rdata list" where
  "rds_items lb m r =
     (case rs_methods r of
        Some Rdatalist_methods \<Rightarrow> rdatalist_items r
      | Some Rdataslab_methods \<Rightarrow> slab_items listed m r
      | Some Rbtdb_methods \<Rightarrow> if lb then slab_items listed m r else rbtdb_items m r
      | _ \<Rightarrow> [])"

definition rds_at :: "bool \<Rightarrow> mem \<Rightarrow> dns_rdataset \<Rightarrow> nat \<Rightarrow> bool" where
  "rds_at lb m r i \<longleftrightarrow>
     (case rs_methods r of
        Some Rdatalist_methods \<Rightarrow> rdatalist_at r i
      | Some Rdataslab_methods \<Rightarrow> slab_cursor_at table_pos m r i
      | Some Rbtdb_methods \<Rightarrow> if lb then slab_cursor_at table_pos m r i else rbtdb_at m r i
      | _ \<Rightarrow> False)"

text \<open>Moving a cursor keeps the method table, the class and the type.\<close>

definition same_set :: "dns_rdataset \<Rightarrow> dns_rdataset \<Rightarrow> bool" where
  "same_set r r' \<longleftrightarrow> rs_magic r' = rs_magic r \<and> rs_methods r' = rs_methods r \<and>
     rs_class r' = rs_class r \<and> rs_type r' = rs_type r \<and> rs_private3 r' = rs_private3 r \<and>
     rs_attributes r' = rs_attributes r \<and> rs_ttl r' = rs_ttl r \<and> rs_count r' = rs_count r"

lemmas cursor_defs = isc_rdatalist_first_def isc_rdatalist_next_def rdataset_first_def
  rdataset_next_def rbtdb_first_def rbtdb_next_def rbtdb_lb_first_def rbtdb_lb_next_def
  question_cursor_def

lemma dns_rdataset_first_same:
  "dns_rdataset_first lb m r = Some (res, r') \<Longrightarrow> same_set r r'"
  by (auto simp: dns_rdataset_first_def same_set_def cursor_defs Let_def
      split: if_splits option.splits rdataset_methods.splits bind_splits)

lemma dns_rdataset_next_same:
  "dns_rdataset_next lb m r = Some (res, r') \<Longrightarrow> same_set r r'"
  by (auto simp: dns_rdataset_next_def same_set_def cursor_defs Let_def
      split: if_splits option.splits rdataset_methods.splits bind_splits)

lemmas rds_defs = rds_valid_def rds_items_def rds_at_def same_set_def

interpretation rds_cursor: rdataset_cursor "dns_rdataset_first lb m" "dns_rdataset_next lb m"
  "dns_rdataset_current lb m" "dns_rdataset_count lb m" "rds_valid m" "rds_items lb m" "rds_at lb m"
  for lb m
proof (unfold_locales, goal_cases)
  case (1 r)
  then show ?case
    using rdatalist_cursor.count_items slab_cursor.count_items rbtdb_cursor.count_items
      rbtdb_lb_cursor.count_items
    by (auto simp: dns_rdataset_count_def rds_defs split: option.splits rdataset_methods.splits)
next
  case (2 r)
  have "\<exists>r'. dns_rdataset_first lb m r = Some (ISC_R_NOMORE, r') \<and>
      (same_set r r' \<longrightarrow> rds_valid m r' \<and> rds_items lb m r' = rds_items lb m r)"
    using 2 rdatalist_cursor.first_none [of r] slab_cursor.first_none [of m r]
      rbtdb_cursor.first_none [of m r] rbtdb_lb_cursor.first_none [of m r]
    by (auto simp: dns_rdataset_first_def rds_defs split: option.splits rdataset_methods.splits)
  then show ?case using dns_rdataset_first_same by blast
next
  case (3 r)
  have "\<exists>r'. dns_rdataset_first lb m r = Some (ISC_R_SUCCESS, r') \<and>
      (same_set r r' \<longrightarrow> rds_valid m r' \<and> rds_items lb m r' = rds_items lb m r \<and> rds_at lb m r' 0)"
    using 3 rdatalist_cursor.first_some [of r] slab_cursor.first_some [of m r]
      rbtdb_cursor.first_some [of m r] rbtdb_lb_cursor.first_some [of m r]
    by (auto simp: dns_rdataset_first_def rds_defs split: option.splits rdataset_methods.splits)
  then show ?case using dns_rdataset_first_same by blast
next
  case (4 r i)
  have "\<exists>r'. dns_rdataset_next lb m r = Some (ISC_R_SUCCESS, r') \<and>
      (same_set r r' \<longrightarrow> rds_valid m r' \<and> rds_items lb m r' = rds_items lb m r \<and>
        rds_at lb m r' (Suc i))"
    using 4 rdatalist_cursor.next_some [of r i] slab_cursor.next_some [of m r i]
      rbtdb_cursor.next_some [of m r i] rbtdb_lb_cursor.next_some [of m r i]
    by (auto simp: dns_rdataset_next_def rds_defs split: option.splits rdataset_methods.splits)
  then show ?case using dns_rdataset_next_same by blast
next
  case (5 r i)
  have "\<exists>r'. dns_rdataset_next lb m r = Some (ISC_R_NOMORE, r') \<and>
      (same_set r r' \<longrightarrow> rds_valid m r' \<and> rds_items lb m r' = rds_items lb m r)"
    using 5 rdatalist_cursor.next_none [of r i] slab_cursor.next_none [of m r i]
      rbtdb_cursor.next_none [of m r i] rbtdb_lb_cursor.next_none [of m r i]
    by (auto simp: dns_rdataset_next_def rds_defs split: option.splits rdataset_methods.splits)
  then show ?case using dns_rdataset_next_same by blast
next
  case (6 r i)
  then show ?case
    using rdatalist_cursor.current_item [of r i] slab_cursor.current_item [of m r i]
      rbtdb_cursor.current_item [of m r i] rbtdb_lb_cursor.current_item [of m r i]
    by (auto simp: dns_rdataset_current_def rds_defs split: option.splits rdataset_methods.splits)
qed

end
