(* ===== verification/Slab_Build.thy ===== *)
theory Slab_Build
  imports Slab_Cursor
begin

text \<open>
  Making a slab out of an rdataset, \<open>dns_rdataslab_fromrdataset\<close> of \<^verbatim>\<open>lib/dns/rdataslab.c\<close>: the rdata are
  collected through the cursor of the rdataset, sorted into DNSSEC order with \<^verbatim>\<open>qsort\<close>, freed of
  duplicates and written out, and \<open>fillin_offsets\<close> restores the order in which they came.

  The arguments \<open>sw\<close> (the generated comparison switch), \<open>issingleton\<close> (the generated attributes of the
  types), \<open>qs\<close> (the C library's \<^verbatim>\<open>qsort\<close>) and \<open>mctx\<close> (the allocator) stand for code outside of the sources.
\<close>

section \<open>The steps\<close>

record xrdata =
  x_rdata :: dns_rdata
  x_order :: nat

definition sizeof_xrdata :: nat where "sizeof_xrdata = 48"
definition sizeof_uint :: nat where "sizeof_uint = 4"

definition compare_rdata :: "cmpswitch \<Rightarrow> xrdata \<Rightarrow> xrdata \<Rightarrow> int option" where
  "compare_rdata sw x1 x2 = dns_rdata_compare sw (x_rdata x1) (x_rdata x2)"

text \<open>
  The loop that saves the rdata members into the array \<open>x\<close>; \<open>n\<close> is \<open>nalloc - i\<close> and \<open>result\<close> the result
  of the last \<open>first\<close> or \<open>next\<close>.
\<close>

fun collect_rdatas ::
    "('r \<Rightarrow> dns_rdata \<Rightarrow> dns_rdata option) \<Rightarrow> ('r \<Rightarrow> (isc_result \<times> 'r) option) \<Rightarrow>
     nat \<Rightarrow> isc_result \<Rightarrow> 'r \<Rightarrow> xrdata list \<Rightarrow> (isc_result \<times> 'r \<times> xrdata list) option" where
  "collect_rdatas current nxt 0 result r x = Some (result, r, x)"
| "collect_rdatas current nxt (Suc n) result r x =
     (if result = ISC_R_SUCCESS
      then do { rdata \<leftarrow> current r dns_rdata_init;
                (result', r') \<leftarrow> nxt r;
                collect_rdatas current nxt n result' r'
                  (x @ [\<lparr>x_rdata = rdata, x_order = length x\<rparr>]) }
      else Some (result, r, x))"

text \<open>
  The call of \<^verbatim>\<open>qsort\<close>: sorting two or more elements compares each of them with another one, and the
  comparison asserts that they have data and valid flags.
\<close>

definition comparable :: "dns_rdata \<Rightarrow> bool" where
  "comparable r \<longleftrightarrow> rd_data r \<noteq> None \<and> dns_rdata_validflags r"

definition xrdata_order :: "cmpswitch \<Rightarrow> xrdata \<Rightarrow> xrdata \<Rightarrow> int" where
  "xrdata_order sw a b = rdata_order sw (x_rdata a) (x_rdata b)"

type_synonym qsort = "(xrdata \<Rightarrow> xrdata \<Rightarrow> int) \<Rightarrow> xrdata list \<Rightarrow> xrdata list"

definition qsort_rdatas :: "cmpswitch \<Rightarrow> qsort \<Rightarrow> xrdata list \<Rightarrow> xrdata list option" where
  "qsort_rdatas sw qs x =
     (if 2 \<le> length x \<and> \<not> list_all (\<lambda>e. comparable (x_rdata e)) x then None
      else Some (qs (xrdata_order sw) x))"

text \<open>
  Removal of duplicates: of two neighbours that compare equal the first loses its data and hands its
  order on; the space of the others, but for the last one, is added to \<open>buflen\<close>.
\<close>

definition rr_meta :: "nat \<Rightarrow> nat" where
  "rr_meta type = (if type = dns_rdatatype_rrsig then 1 else 0)"

fun remove_dups ::
    "cmpswitch \<Rightarrow> nat \<Rightarrow> xrdata list \<Rightarrow> nat \<Rightarrow> nat \<Rightarrow> (xrdata list \<times> nat \<times> nat) option" where
  "remove_dups sw type (a # b # x) nitems buflen =
     do { c \<leftarrow> compare_rdata sw a b;
          if c = 0
          then do { (x', nitems', buflen') \<leftarrow>
                      remove_dups sw type
                        ((if x_order a < x_order b then b\<lparr>x_order := x_order a\<rparr> else b) # x)
                        (nitems - 1) buflen;
                    Some (a\<lparr>x_rdata := (x_rdata a)\<lparr>rd_data := None\<rparr>\<rparr> # x', nitems', buflen') }
          else do { (x', nitems', buflen') \<leftarrow>
                      remove_dups sw type (b # x) nitems
                        (u32_of (buflen + (8 + rd_length (x_rdata a)) + rr_meta type));
                    Some (a # x', nitems', buflen') } }"
| "remove_dups sw type x nitems buflen = Some (x, nitems, buflen)"

text \<open>
  Writing a record at \<open>rawbuf\<close>: the length, a gap of two bytes for the order, the meta byte of an RRSIG
  (\<open>|=\<close> keeps the bits that are there) and the data.
\<close>

definition put_rdata :: "nat \<Rightarrow> mem \<Rightarrow> nat \<Rightarrow> dns_rdata \<Rightarrow> (mem \<times> nat) option" where
  "put_rdata type m rawbuf rdata =
     do { m1 \<leftarrow> mem_wr m rawbuf (put16 (rd_length rdata + rr_meta type));
          (m2, rawbuf2) \<leftarrow>
            (if type = dns_rdatatype_rrsig
             then do { old \<leftarrow> mem_rd m1 (rawbuf + 4);
                       m2 \<leftarrow> mem_wr m1 (rawbuf + 4)
                         [old OR (if rd_flags rdata AND DNS_RDATA_OFFLINE \<noteq> 0 then 1 else 0)];
                       Some (m2, rawbuf + 5) }
             else Some (m1, rawbuf + 4));
          m3 \<leftarrow> mem_wr m2 rawbuf2 (rd_bytes rdata);
          Some (m3, rawbuf2 + rd_length rdata) }"

fun write_rdatas ::
    "nat \<Rightarrow> nat \<Rightarrow> xrdata list \<Rightarrow> mem \<Rightarrow> nat \<Rightarrow> nat list \<Rightarrow> (mem \<times> nat list) option" where
  "write_rdatas type offsetbase [] m rawbuf offsettable = Some (m, offsettable)"
| "write_rdatas type offsetbase (e # x) m rawbuf offsettable =
     (if rd_data (x_rdata e) = None
      then write_rdatas type offsetbase x m rawbuf offsettable
      else if x_order e \<ge> length offsettable then None
      else do { (m', rawbuf') \<leftarrow> put_rdata type m rawbuf (x_rdata e);
                write_rdatas type offsetbase x m' rawbuf'
                  (offsettable[x_order e := u32_of (rawbuf - offsetbase)]) })"

section \<open>dns\_rdataslab\_fromrdataset\<close>

text \<open>
  From the sorted array on: the count of the items and the buffer's size, the test for singletons,
  the two allocations (the second and third request of the call) and the writing.
\<close>

definition fromrdataset_fill ::
    "nat \<Rightarrow> xrdata list \<Rightarrow> nat \<Rightarrow> nat \<Rightarrow> mem \<Rightarrow> mem option" where
  "fromrdataset_fill type x nitems reservelen rawbuf =
     do { m1 \<leftarrow> mem_wr rawbuf reservelen (put16 nitems);
          (m2, offsettable) \<leftarrow> write_rdatas type reservelen x m1 (reservelen + 2 + nitems * 4)
                                 (replicate (length x) 0);
          fillin_offsets m2 reservelen offsettable }"

definition fromrdataset_store ::
    "cmpswitch \<Rightarrow> (nat \<Rightarrow> bool) \<Rightarrow> nat \<Rightarrow> xrdata list \<Rightarrow> mctx \<Rightarrow> nat \<Rightarrow>
     (isc_result \<times> mem option) option" where
  "fromrdataset_store sw issingleton type x mctx reservelen =
     do { (x1, nitems, buflen1) \<leftarrow> remove_dups sw type x (length x) (u32_of (reservelen + 2));
          let buflen2 = (if x1 \<noteq> [] then u32_of (buflen1 + (8 + rd_length (x_rdata (last x1))))
                         else buflen1);
          let buflen = u32_of (buflen2 + rr_meta type);
          if nitems > 1 \<and> issingleton type then Some (DNS_R_SINGLETON, None)
          else case mctx 1 buflen of
              None \<Rightarrow> Some (ISC_R_NOMEMORY, None)
            | Some rawbuf \<Rightarrow>
                (case mctx 2 (length x * sizeof_uint) of
                   None \<Rightarrow> Some (ISC_R_NOMEMORY, None)
                 | Some _ \<Rightarrow>
                     do { m \<leftarrow> fromrdataset_fill type x1 nitems reservelen rawbuf;
                          Some (ISC_R_SUCCESS, Some m) }) }"

text \<open>
  The whole function: the result code, the region (the buffer, when it was filled) and the rdataset,
  whose cursor has moved.  \<open>m\<close> is the memory the rdataset reads from.
\<close>

definition dns_rdataslab_fromrdataset ::
    "cmpswitch \<Rightarrow> (nat \<Rightarrow> bool) \<Rightarrow> qsort \<Rightarrow> bool \<Rightarrow> mem \<Rightarrow> dns_rdataset \<Rightarrow> mctx \<Rightarrow> nat \<Rightarrow>
     (isc_result \<times> mem option \<times> dns_rdataset) option" where
  "dns_rdataslab_fromrdataset sw issingleton qs lb m rdataset mctx reservelen =
     do { nalloc \<leftarrow> dns_rdataset_count lb m rdataset;
          if nalloc = 0 \<and> rs_type rdataset \<noteq> 0 then Some (ISC_R_FAILURE, None, rdataset)
          else if nalloc > 65535 then Some (ISC_R_NOSPACE, None, rdataset)
          else if nalloc \<noteq> 0 \<and> mctx 0 (nalloc * sizeof_xrdata) = None
          then Some (ISC_R_NOMEMORY, None, rdataset)
          else do {
            (result1, r1) \<leftarrow> dns_rdataset_first lb m rdataset;
            if result1 \<noteq> ISC_R_SUCCESS \<and> result1 \<noteq> ISC_R_NOMORE then Some (result1, None, r1)
            else do {
              (result2, r2, x) \<leftarrow> collect_rdatas (dns_rdataset_current lb m) (dns_rdataset_next lb m)
                                    nalloc result1 r1 [];
              if result2 \<noteq> ISC_R_NOMORE then Some (result2, None, r2)
              else if length x \<noteq> nalloc then Some (ISC_R_FAILURE, None, r2)
              else do {
                x1 \<leftarrow> qsort_rdatas sw qs x;
                (result, region) \<leftarrow> fromrdataset_store sw issingleton (rs_type r2) x1 mctx reservelen;
                Some (result, region, r2) } } } }"

section \<open>Collecting\<close>

text \<open>The array after the first loop.\<close>

definition indexed :: "dns_rdata list \<Rightarrow> xrdata list" where
  "indexed xs = map (\<lambda>i. \<lparr>x_rdata = xs ! i, x_order = i\<rparr>) [0..<length xs]"

context rdataset_cursor
begin

lemma collect_from:
  "valid r \<Longrightarrow> at r i \<Longrightarrow> length (items r) - i = Suc n \<Longrightarrow> length x = i \<Longrightarrow>
     \<exists>r'. collect_rdatas current nxt (Suc n) ISC_R_SUCCESS r x =
         Some (ISC_R_NOMORE, r', x @ map (\<lambda>j. \<lparr>x_rdata = items r ! j, x_order = j\<rparr>) [i..<length (items r)])"
proof (induction n arbitrary: r i x)
  case 0
  then have i: "Suc i = length (items r)" by simp
  then have "[i..<length (items r)] = [i]" by (metis upt_rec lessI upt_conv_Nil order_refl)
  with next_none [OF 0(1,2) i] current_item [OF 0(1,2)] 0(4) i show ?case by auto
next
  case (Suc n)
  then have i: "Suc i < length (items r)" by simp
  from next_some [OF Suc.prems(1,2) i] obtain r' where
    r': "nxt r = Some (ISC_R_SUCCESS, r')" "valid r'" "items r' = items r" "at r' (Suc i)" by blast
  let ?x = "x @ [\<lparr>x_rdata = items r ! i, x_order = length x\<rparr>]"
  have n: "length (items r') - Suc i = Suc n" using Suc.prems(3) r'(3) by simp
  obtain r'' where "collect_rdatas current nxt (Suc n) ISC_R_SUCCESS r' ?x =
      Some (ISC_R_NOMORE, r'', ?x @ map (\<lambda>j. \<lparr>x_rdata = items r' ! j, x_order = j\<rparr>) [Suc i..<length (items r')])"
    using Suc.IH [OF r'(2,4) n, of ?x] Suc.prems(4) by auto
  moreover have "[i..<length (items r)] = i # [Suc i..<length (items r)]"
    using i by (simp add: upt_conv_Cons)
  moreover have "current r dns_rdata_init = Some (items r ! i)"
    by (rule current_item) (use Suc.prems i in auto)
  ultimately show ?case using r' Suc.prems(4) by (simp del: collect_rdatas.simps) simp
qed

text \<open>A complete iteration yields all the rdata with their positions.\<close>

lemma collect_all:
  assumes "valid r"
  obtains res r1 r2 where "first r = Some (res, r1)" "res = ISC_R_SUCCESS \<or> res = ISC_R_NOMORE"
    "collect_rdatas current nxt (length (items r)) res r1 [] = Some (ISC_R_NOMORE, r2, indexed (items r))"
proof (cases "items r")
  case Nil
  with first_none [OF assms] that show thesis by (auto simp: indexed_def)
next
  case (Cons a l)
  then obtain r1 where r1: "first r = Some (ISC_R_SUCCESS, r1)" "valid r1" "items r1 = items r" "at r1 0"
    using first_some [OF assms] by auto
  then show thesis
    using collect_from [OF r1(2,4), of "length l" "[]"] Cons that by (auto simp: indexed_def)
qed

end

lemma collect_rdatas_same:
  "collect_rdatas (dns_rdataset_current lb m) (dns_rdataset_next lb m) n res r x = Some (res', r', x') \<Longrightarrow>
     same_set r r'"
proof (induction n arbitrary: res r x)
  case (Suc n)
  show ?case
  proof (cases "res = ISC_R_SUCCESS")
    case True
    with Suc.prems obtain res1 r1 x1 where
      *: "dns_rdataset_next lb m r = Some (res1, r1)"
        "collect_rdatas (dns_rdataset_current lb m) (dns_rdataset_next lb m) n res1 r1 x1 = Some (res', r', x')"
      by (auto split: bind_splits)
    have "same_set r r1" by (rule dns_rdataset_next_same [OF *(1)])
    moreover have "same_set r1 r'" by (rule Suc.IH [OF *(2)])
    ultimately show ?thesis by (simp add: same_set_def)
  next
    case False
    with Suc.prems show ?thesis by (simp add: same_set_def)
  qed
qed (simp add: same_set_def)

lemma length_indexed [simp]: "length (indexed xs) = length xs"
  by (simp add: indexed_def)

lemma nth_indexed [simp]: "i < length xs \<Longrightarrow> indexed xs ! i = \<lparr>x_rdata = xs ! i, x_order = i\<rparr>"
  by (simp add: indexed_def)

lemma in_set_indexed: "e \<in> set (indexed xs) \<longleftrightarrow> x_order e < length xs \<and> e = \<lparr>x_rdata = xs ! x_order e, x_order = x_order e\<rparr>"
  by (auto simp: indexed_def image_iff)

section \<open>Removing duplicates\<close>

text \<open>What is left of a sorted array, as a pure function.\<close>

fun survivors :: "(xrdata \<Rightarrow> xrdata \<Rightarrow> int) \<Rightarrow> xrdata list \<Rightarrow> xrdata list" where
  "survivors cmp (a # b # x) =
     (if cmp a b = 0
      then survivors cmp ((if x_order a < x_order b then b\<lparr>x_order := x_order a\<rparr> else b) # x)
      else a # survivors cmp (b # x))"
| "survivors cmp x = x"

definition has_data :: "xrdata \<Rightarrow> bool" where
  "has_data e \<longleftrightarrow> rd_data (x_rdata e) \<noteq> None"

definition space :: "nat \<Rightarrow> xrdata \<Rightarrow> nat" where
  "space type e = 8 + rd_length (x_rdata e) + rr_meta type"

lemma xrdata_order_upd [simp]:
  "xrdata_order sw (a\<lparr>x_order := k\<rparr>) b = xrdata_order sw a b"
  "xrdata_order sw b (a\<lparr>x_order := k\<rparr>) = xrdata_order sw b a"
  by (simp_all add: xrdata_order_def)

lemma has_data_clear [simp]: "\<not> has_data (a\<lparr>x_rdata := (x_rdata a)\<lparr>rd_data := None\<rparr>\<rparr>)"
  by (simp add: has_data_def)

lemma length_survivors: "length (survivors cmp x) \<le> length x"
  by (induction cmp x rule: survivors.induct) auto

lemma survivors_Nil [simp]: "survivors cmp x = [] \<longleftrightarrow> x = []"
  by (induction cmp x rule: survivors.induct) auto

lemma remove_dups_survivors:
  assumes "\<forall>e \<in> set x. comparable (x_rdata e)" "length x \<le> nitems"
    "buflen + (\<Sum>e \<leftarrow> survivors (xrdata_order sw) x. space type e) < 4294967296"
  shows "\<exists>x' buflen'. remove_dups sw type x nitems buflen =
         Some (x', nitems - (length x - length (survivors (xrdata_order sw) x)), buflen') \<and>
       length x' = length x \<and> filter has_data x' = survivors (xrdata_order sw) x \<and>
       buflen' + (if x = [] then 0 else space type (last x')) =
         buflen + (\<Sum>e \<leftarrow> survivors (xrdata_order sw) x. space type e)"
  using assms
proof (induction sw type x nitems buflen rule: remove_dups.induct)
  case (1 sw type a b x nitems buflen)
  let ?cmp = "xrdata_order sw"
  have cmp: "compare_rdata sw a b = Some (?cmp a b)"
    using "1.prems"(1) by (simp add: compare_rdata_def dns_rdata_compare_def comparable_def xrdata_order_def)
  show ?case
  proof (cases "?cmp a b = 0")
    case True
    let ?b = "if x_order a < x_order b then b\<lparr>x_order := x_order a\<rparr> else b"
    let ?S = "survivors ?cmp (?b # x)"
    have "\<forall>e \<in> set (?b # x). comparable (x_rdata e)" using "1.prems"(1) by simp
    moreover have "length (?b # x) \<le> nitems - 1" using "1.prems"(2) by simp
    moreover have "buflen + (\<Sum>e \<leftarrow> ?S. space type e) < 4294967296" using "1.prems"(3) True by simp
    ultimately obtain x' bl where ih: "remove_dups sw type (?b # x) (nitems - 1) buflen =
          Some (x', nitems - 1 - (length (?b # x) - length ?S), bl)"
        "length x' = length (?b # x)" "filter has_data x' = ?S"
        "bl + space type (last x') = buflen + (\<Sum>e \<leftarrow> ?S. space type e)"
      using "1.IH"(1) [OF cmp True] by auto
    have "x' \<noteq> []" using ih(2) by auto
    moreover have "nitems - 1 - (length (?b # x) - length ?S) = nitems - (length (a # b # x) - length ?S)"
      using length_survivors [of ?cmp "?b # x"] by simp
    ultimately show ?thesis
      using ih True cmp by simp
  next
    case False
    let ?S = "survivors ?cmp (b # x)"
    have sp: "u32_of (buflen + (8 + rd_length (x_rdata a)) + rr_meta type) = buflen + space type a"
      using "1.prems"(3) False by (simp add: space_def)
    obtain x' bl where ih: "remove_dups sw type (b # x) nitems (buflen + space type a) =
          Some (x', nitems - (length (b # x) - length ?S), bl)"
        "length x' = length (b # x)" "filter has_data x' = ?S"
        "bl + space type (last x') = buflen + space type a + (\<Sum>e \<leftarrow> ?S. space type e)"
      using "1.IH"(2) [OF cmp False] "1.prems" False sp by auto
    have "x' \<noteq> []" "has_data a" using ih(2) "1.prems"(1) by (auto simp: has_data_def comparable_def)
    then show ?thesis
      using ih False cmp sp by simp
  qed
qed (auto simp: has_data_def comparable_def)


text \<open>
  On an ascending array the survivors are strictly ascending, one for each class of equal rdata,
  with the least order of its class.
\<close>

lemma survivors_rdata: "s \<in> set (survivors cmp x) \<Longrightarrow> \<exists>y \<in> set x. x_rdata s = x_rdata y"
proof (induction cmp x rule: survivors.induct)
  case (1 cmp a b x)
  show ?case
  proof (cases "cmp a b = 0")
    case True
    then show ?thesis using 1 by (fastforce split: if_splits)
  next
    case False
    then show ?thesis using 1 by auto
  qed
qed auto

lemma survivors_ascending:
  assumes "cmp_order (xrdata_order sw)"
  shows "ascending (xrdata_order sw) x \<Longrightarrow> strictly_ascending (xrdata_order sw) (survivors (xrdata_order sw) x)"
proof (induction "xrdata_order sw" x rule: survivors.induct)
  case (1 a b x)
  let ?cmp = "xrdata_order sw"
  show ?case
  proof (cases "?cmp a b = 0")
    case True
    then show ?thesis using 1 by simp
  next
    case False
    then have ab: "?cmp a b < 0" using "1.prems" by simp
    have "?cmp a s < 0" if s: "s \<in> set (survivors ?cmp (b # x))" for s
    proof -
      obtain y where y: "y \<in> set (b # x)" "x_rdata s = x_rdata y" using survivors_rdata [OF s] by blast
      have "?cmp b y \<le> 0"
        using y "1.prems" cmp_on.cmp_refl [OF assms, of b] by auto
      then have "?cmp a y < 0" using cmp_on.cmp_less_le_trans [OF assms, of a b y] ab by simp
      then show ?thesis using y by (simp add: xrdata_order_def)
    qed
    then show ?thesis using 1 False by simp
  qed
qed auto

lemma survivors_cover:
  assumes "cmp_order (xrdata_order sw)"
  shows "y \<in> set x \<Longrightarrow> \<exists>s \<in> set (survivors (xrdata_order sw) x). xrdata_order sw y s = 0 \<and> x_order s \<le> x_order y"
proof (induction "xrdata_order sw" x arbitrary: y rule: survivors.induct)
  case (1 a b x)
  let ?cmp = "xrdata_order sw"
  let ?b = "if x_order a < x_order b then b\<lparr>x_order := x_order a\<rparr> else b"
  show ?case
  proof (cases "?cmp a b = 0")
    case True
    have b: "\<exists>s \<in> set (survivors ?cmp (?b # x)). ?cmp ?b s = 0 \<and> x_order s \<le> x_order ?b"
      by (rule "1.hyps"(1)) (use True in simp_all)
    have ob: "x_order ?b \<le> x_order a" "x_order ?b \<le> x_order b" "?cmp ?b = ?cmp b" by (auto simp: fun_eq_iff)
    consider "y = a" | "y = b" | "y \<in> set x" using "1.prems" by auto
    then have "\<exists>s \<in> set (survivors ?cmp (?b # x)). ?cmp y s = 0 \<and> x_order s \<le> x_order y"
    proof cases
      case 1
      from b obtain s where s: "s \<in> set (survivors ?cmp (?b # x))" "?cmp ?b s = 0" "x_order s \<le> x_order ?b" by blast
      have "?cmp a s = 0" using cmp_on.cmp_zero_trans [OF assms, of a b s] True s(2) ob(3) by simp
      with s ob 1 show ?thesis by (meson order_trans)
    next
      case 2
      with b ob show ?thesis by (metis order_trans)
    next
      case 3
      then show ?thesis using "1.hyps"(1) [OF True, of y] by simp
    qed
    with True show ?thesis by simp
  next
    case False
    then show ?thesis
      using "1.prems" "1.hyps"(2) [OF False, of y] cmp_on.cmp_refl [OF assms, of a] by auto
  qed
qed (auto simp: cmp_on.cmp_refl [OF assms])

lemma survivors_order:
  assumes "cmp_order (xrdata_order sw)"
  shows "s \<in> set (survivors (xrdata_order sw) x) \<Longrightarrow> \<exists>y \<in> set x. xrdata_order sw y s = 0 \<and> x_order s = x_order y"
proof (induction "xrdata_order sw" x rule: survivors.induct)
  case (1 a b x)
  let ?cmp = "xrdata_order sw"
  let ?b = "if x_order a < x_order b then b\<lparr>x_order := x_order a\<rparr> else b"
  show ?case
  proof (cases "?cmp a b = 0")
    case True
    have ob: "x_order ?b = x_order a \<or> x_order ?b = x_order b" "?cmp ?b = ?cmp b" by (auto simp: fun_eq_iff)
    obtain y where y: "y \<in> set (?b # x)" "?cmp y s = 0" "x_order s = x_order y"
      using 1 True by auto
    show ?thesis
    proof (cases "y = ?b")
      case eq: True
      then have "?cmp b s = 0" using y ob by simp
      moreover from this have "?cmp a s = 0" using cmp_on.cmp_zero_trans [OF assms, of a b s] True by simp
      moreover have "x_order s = x_order a \<or> x_order s = x_order b" using eq y(3) ob(1) by simp
      ultimately show ?thesis by auto
    next
      case False
      with y show ?thesis by auto
    qed
  next
    case False
    then show ?thesis using 1 cmp_on.cmp_refl [OF assms, of a] by auto
  qed
qed (auto simp: cmp_on.cmp_refl [OF assms])


section \<open>Slabs under construction\<close>

text \<open>
  The state of every constructor while it writes: behind the reserved bytes \<open>pre\<close> the count \<open>n\<close>, space
  for the offset table, the records \<open>its\<close> written so far and the unwritten \<open>rest\<close>; \<open>rawbuf\<close> is the
  position behind the records and the temporary table has the offset of the \<open>i\<close>-th record at
  \<open>ks ! i\<close>.
\<close>

fun offs_from :: "nat \<Rightarrow> u8 list list \<Rightarrow> nat list" where
  "offs_from p [] = []"
| "offs_from p (pl # pls) = p # offs_from (p + 4 + length pl) pls"

definition building ::
    "nat \<Rightarrow> u8 list \<Rightarrow> nat \<Rightarrow> nat list \<Rightarrow> item list \<Rightarrow> u8 list \<Rightarrow> mem \<Rightarrow> nat \<Rightarrow> nat list \<Rightarrow> bool" where
  "building N pre n ks its rest m rawbuf offsettable \<longleftrightarrow>
     (\<exists>tb. length tb = 4 * n \<and> m = pre @ put16 n @ tb @ concat (map enc_item its) @ rest) \<and>
     rawbuf = length pre + (2 + 4 * n + length (concat (map enc_item its))) \<and>
     length ks = length its \<and>
     offsettable = put_offs (replicate N 0) (zip ks (offs_from (2 + 4 * n) (stored its)))"

lemma length_offs_from [simp]: "length (offs_from p pls) = length pls"
  by (induction p pls rule: offs_from.induct) auto

lemma offs_from_snoc: "offs_from p (pls @ [pl]) = offs_from p pls @ [p + (\<Sum>q \<leftarrow> pls. 4 + length q)]"
  by (induction p pls rule: offs_from.induct) auto

lemma offs_from_item_off: "offs_from (2 + 4 * length its) (stored its) = map (item_off its) [0..<length its]"
proof -
  have "offs_from (item_off its i) (drop i (stored its)) = map (item_off its) [i..<length its]"
    if "i \<le> length its" for i
    using that
  proof (induction "length its - i" arbitrary: i)
    case (Suc n)
    then have i: "i < length its" by simp
    then have "drop i (stored its) = snd (its ! i) # drop (Suc i) (stored its)"
      by (simp add: stored_def Cons_nth_drop_Suc [symmetric])
    moreover have "n = length its - Suc i" using Suc.hyps(2) by simp
    ultimately show ?case
      using Suc.hyps(1) [of "Suc i"] i by (simp add: item_off_Suc upt_conv_Cons)
  qed simp
  from this [of 0] show ?thesis by (simp add: item_off_def)
qed

lemma building_start:
  assumes "length m = length pre + (2 + 4 * n) + k" "take (length pre) m = pre"
  obtains m' where "mem_wr m (length pre) (put16 n) = Some m'"
    "building N pre n [] [] (drop (length pre + 2 + 4 * n) m) m' (length pre + 2 + n * 4) (replicate N 0)"
proof -
  let ?tb = "take (4 * n) (drop (length pre + 2) m)" and ?rest = "drop (length pre + 2 + 4 * n) m"
  have "drop (length pre + 2) m = ?tb @ ?rest"
    using append_take_drop_id [of "4 * n" "drop (length pre + 2) m"] by (simp add: add.commute)
  then have "mem_wr m (length pre) (put16 n) = Some (pre @ put16 n @ ?tb @ ?rest)"
    using assms by (simp add: mem_wr_def)
  then show thesis
    by (rule that) (use assms in \<open>auto simp: building_def\<close>)
qed

text \<open>A record that has been written at \<open>rawbuf\<close> and entered in the table.\<close>

lemma building_step:
  assumes "building N pre n ks its (put16 (length p) @ put16 j @ p @ rest) m rawbuf offsettable"
    and "2 + 4 * n + length (concat (map enc_item its)) < 4294967296"
  shows "building N pre n (ks @ [k]) (its @ [(j, p)]) rest m (rawbuf + 4 + length p)
     (offsettable[k := u32_of (rawbuf - length pre)])"
proof -
  have eq: "length (concat (map enc_item its)) = (\<Sum>q \<leftarrow> stored its. 4 + length q)"
    by (rule length_enc_items)
  show ?thesis
    using assms unfolding building_def
    by (auto simp: enc_item_def stored_def offs_from_snoc put_offs_snoc [symmetric] zip_append
        length_concat comp_def)
qed

lemma building_fillin:
  assumes "building N pre (length its) ks its rest m rawbuf offsettable"
    and "distinct ks" "set ks \<subseteq> {..<N}"
    and "length its < 65536" "\<forall>p \<in> set (stored its). payload_ok type p"
    and "2 + (\<Sum>p \<leftarrow> stored its. 8 + length p) < 4294967296"
  obtains tbl' its' where "fillin_offsets m (length pre) offsettable = Some (lay pre tbl' its' rest)"
    "wf_items type tbl' its'" "stored its' = stored its" "listed its' = by_key ks (stored its)"
proof -
  from assms(1) obtain tb where tb: "length tb = 4 * length its"
    and m: "m = pre @ put16 (length its) @ tb @ concat (map enc_item its) @ rest"
    and ks: "length ks = length its"
    and ot: "offsettable = put_offs (replicate N 0) (zip ks (map (item_off its) [0..<length its]))"
    by (auto simp: building_def offs_from_item_off)
  obtain tbl where tbl: "length tbl = length its" "tb = concat (map put32 tbl)"
    using concat_put32_surj [OF tb] by blast
  have "m = lay pre tbl its rest" using m tbl by (simp add: lay_def slab_body_def)
  then show thesis
    using fillin_offsets_keys [OF assms(2,3) ks tbl(1) assms(4-6) ot, of pre rest] that by metis
qed

section \<open>Writing\<close>

text \<open>The payload that is written for an rdata: the meta byte of an RRSIG has the offline bit set
  when the rdata is flagged; its other bits are those of the allocated memory.\<close>

definition payload_for :: "nat \<Rightarrow> dns_rdata \<Rightarrow> u8 list \<Rightarrow> bool" where
  "payload_for type rdata p \<longleftrightarrow>
     (if type = dns_rdatatype_rrsig
      then \<exists>b. p = b # rd_bytes rdata \<and> (rd_flags rdata AND DNS_RDATA_OFFLINE \<noteq> 0 \<longrightarrow> b AND 1 \<noteq> 0)
      else p = rd_bytes rdata)"

lemma length_payload_for: "payload_for type rdata p \<Longrightarrow> length p = rd_length rdata + rr_meta type"
  by (auto simp: payload_for_def rd_length_def rr_meta_def split: if_splits)

lemma or_1_and_1: "(b OR 1) AND (1 :: u8) \<noteq> 0"
  by (simp add: bit.conj_disj_distrib2)

lemma put_rdata_append:
  assumes "4 + (rd_length rdata + rr_meta type) \<le> length rest"
  obtains j p where "payload_for type rdata p"
    "put_rdata type (a @ rest) (length a) rdata =
       Some (a @ put16 (length p) @ put16 j @ p @ drop (4 + length p) rest, length a + 4 + length p)"
proof -
  define z where "z = drop (4 + (rd_length rdata + rr_meta type)) rest"
  define body where "body = take (rd_length rdata + rr_meta type) (drop 4 rest)"
  have body: "length body = rd_length rdata + rr_meta type" using assms by (simp add: body_def)
  obtain j where j: "take 2 (drop 2 rest) = put16 j" using put16_surj [of "take 2 (drop 2 rest)"] assms by auto
  have rest: "rest = take 2 rest @ put16 j @ body @ z"
  proof -
    have "drop 4 rest = body @ z"
      unfolding body_def z_def using append_take_drop_id [of "rd_length rdata + rr_meta type" "drop 4 rest"]
      by (simp add: add.commute)
    moreover have "drop 2 rest = take 2 (drop 2 rest) @ drop 4 rest"
      using append_take_drop_id [of 2 "drop 2 rest"] by simp
    ultimately show ?thesis using j append_take_drop_id [of 2 rest] by metis
  qed
  have l2: "length (take 2 rest) = 2" using assms by simp
  let ?h = "put16 (rd_length rdata + rr_meta type)"
  have w1: "mem_wr (a @ rest) (length a) ?h = Some (a @ ?h @ put16 j @ body @ z)"
    using mem_wr_mid [of "length a" a ?h "take 2 rest" "put16 j @ body @ z"] l2 rest by simp
  have len: "length (rd_bytes rdata) = rd_length rdata" by (simp add: rd_length_def)
  show thesis
  proof (cases "type = dns_rdatatype_rrsig")
    case False
    then have "length body = rd_length rdata" "rr_meta type = 0" using body by (auto simp: rr_meta_def)
    then have "mem_wr (a @ ?h @ put16 j @ body @ z) (length a + 4) (rd_bytes rdata) =
        Some (a @ ?h @ put16 j @ rd_bytes rdata @ z)"
      using mem_wr_mid [of "length a + 4" "a @ ?h @ put16 j" "rd_bytes rdata" body z] len by simp
    then show thesis
      using w1 False that [of "rd_bytes rdata" j] len
      by (simp add: put_rdata_def payload_for_def z_def rr_meta_def)
  next
    case True
    then have "length body = Suc (rd_length rdata)" and rr: "rr_meta type = 1" using body by (auto simp: rr_meta_def)
    then obtain old data where b: "body = old # data" "length data = rd_length rdata"
      by (auto simp: length_Suc_conv)
    define new where "new = old OR (if rd_flags rdata AND DNS_RDATA_OFFLINE \<noteq> 0 then 1 else 0)"
    have rd: "mem_rd (a @ ?h @ put16 j @ body @ z) (length a + 4) = Some old"
      using mem_rd_mid [of "length a + 4" "a @ ?h @ put16 j" old "data @ z"] b by simp
    have w2: "mem_wr (a @ ?h @ put16 j @ body @ z) (length a + 4) [new] =
        Some (a @ ?h @ put16 j @ new # data @ z)"
      using mem_wr_mid [of "length a + 4" "a @ ?h @ put16 j" "[new]" "[old]" "data @ z"] b by simp
    have w3: "mem_wr (a @ ?h @ put16 j @ new # data @ z) (length a + 5) (rd_bytes rdata) =
        Some (a @ ?h @ put16 j @ new # rd_bytes rdata @ z)"
      using mem_wr_mid [of "length a + 5" "a @ ?h @ put16 j @ [new]" "rd_bytes rdata" data z] b len by simp
    have "payload_for type rdata (new # rd_bytes rdata)"
      using True by (simp add: payload_for_def new_def or_1_and_1)
    moreover have "put_rdata type (a @ rest) (length a) rdata =
        Some (a @ ?h @ put16 j @ new # rd_bytes rdata @ z, length a + 5 + rd_length rdata)"
      using w1 rd w2 w3 True by (simp add: put_rdata_def new_def [symmetric])
    ultimately show thesis
      using that [of "new # rd_bytes rdata" j] len rr by (simp add: z_def add.commute add.left_commute)
  qed
qed


lemma building_length:
  assumes "building N pre n ks its rest m rawbuf offsettable"
  obtains a where "m = a @ rest" "length a = rawbuf" "length offsettable = N"
proof -
  obtain tb where "length tb = 4 * n" "m = pre @ put16 n @ tb @ concat (map enc_item its) @ rest"
    using assms by (auto simp: building_def)
  then show thesis
    by (intro that [of "pre @ put16 n @ tb @ concat (map enc_item its)"])
      (use assms in \<open>auto simp: building_def\<close>)
qed

lemma building_put_rdata:
  assumes "building N pre n ks its rest m rawbuf offsettable"
    and "4 + (rd_length rdata + rr_meta type) \<le> length rest"
    and "2 + 4 * n + length (concat (map enc_item its)) < 4294967296"
  obtains m' j p where "payload_for type rdata p"
    "put_rdata type m rawbuf rdata = Some (m', rawbuf + 4 + length p)"
    "building N pre n (ks @ [k]) (its @ [(j, p)]) (drop (4 + length p) rest) m' (rawbuf + 4 + length p)
       (offsettable[k := u32_of (rawbuf - length pre)])"
proof -
  obtain a where a: "m = a @ rest" "length a = rawbuf" using building_length [OF assms(1)] by metis
  obtain j p where p: "payload_for type rdata p"
    "put_rdata type (a @ rest) (length a) rdata =
       Some (a @ put16 (length p) @ put16 j @ p @ drop (4 + length p) rest, length a + 4 + length p)"
    using put_rdata_append [OF assms(2)] by metis
  have "building N pre n ks its (put16 (length p) @ put16 j @ p @ drop (4 + length p) rest)
      (a @ put16 (length p) @ put16 j @ p @ drop (4 + length p) rest) rawbuf offsettable"
    using assms(1) a(1) by (auto simp: building_def)
  from building_step [OF this assms(3), of k] p a show thesis by (auto intro: that)
qed

lemma write_rdatas_building:
  assumes "building N pre n ks its rest m rawbuf offsettable"
    and "(\<Sum>e \<leftarrow> filter has_data x. 4 + (rd_length (x_rdata e) + rr_meta type)) \<le> length rest"
    and "2 + 4 * n + length (concat (map enc_item its)) +
       (\<Sum>e \<leftarrow> filter has_data x. 4 + (rd_length (x_rdata e) + rr_meta type)) < 4294967296"
    and "\<forall>e \<in> set x. has_data e \<longrightarrow> x_order e < N"
  shows "\<exists>m' ot' its' rawbuf'.
       write_rdatas type (length pre) x m rawbuf offsettable = Some (m', ot') \<and>
       building N pre n (ks @ map x_order (filter has_data x)) (its @ its')
         (drop (\<Sum>e \<leftarrow> filter has_data x. 4 + (rd_length (x_rdata e) + rr_meta type)) rest) m' rawbuf' ot' \<and>
       list_all2 (\<lambda>e. payload_for type (x_rdata e)) (filter has_data x) (stored its')"
  using assms
proof (induction x arbitrary: ks its rest m rawbuf offsettable)
  case Nil
  then show ?case by (intro exI [of _ "[]"] exI conjI) (auto simp: stored_def)
next
  case (Cons e x)
  show ?case
  proof (cases "has_data e")
    case False
    with Cons show ?thesis by (auto simp: has_data_def)
  next
    case True
    have n: "4 + (rd_length (x_rdata e) + rr_meta type) \<le> length rest"
      using Cons.prems(2) True by simp
    obtain m' j p where p: "payload_for type (x_rdata e) p"
      "put_rdata type m rawbuf (x_rdata e) = Some (m', rawbuf + 4 + length p)"
      "building N pre n (ks @ [x_order e]) (its @ [(j, p)]) (drop (4 + length p) rest) m'
         (rawbuf + 4 + length p) (offsettable[x_order e := u32_of (rawbuf - length pre)])"
      using building_put_rdata [OF Cons.prems(1) n, of "x_order e"] Cons.prems(3) by (metis add_lessD1)
    note len = length_payload_for [OF p(1)]
    have fit: "(\<Sum>e \<leftarrow> filter has_data x. 4 + (rd_length (x_rdata e) + rr_meta type)) \<le>
        length (drop (4 + length p) rest)"
      using Cons.prems(2) True len by simp
    obtain m'' ot' its' rawbuf' where ih:
      "write_rdatas type (length pre) x m' (rawbuf + 4 + length p)
         (offsettable[x_order e := u32_of (rawbuf - length pre)]) = Some (m'', ot')"
      "building N pre n ((ks @ [x_order e]) @ map x_order (filter has_data x)) ((its @ [(j, p)]) @ its')
         (drop (\<Sum>e \<leftarrow> filter has_data x. 4 + (rd_length (x_rdata e) + rr_meta type)) (drop (4 + length p) rest))
         m'' rawbuf' ot'"
      "list_all2 (\<lambda>e. payload_for type (x_rdata e)) (filter has_data x) (stored its')"
      using Cons.IH [OF p(3) fit] Cons.prems(3,4) True len by auto
    have "length offsettable = N" using building_length [OF Cons.prems(1)] by metis
    then have "write_rdatas type (length pre) (e # x) m rawbuf offsettable = Some (m'', ot')"
      using ih(1) p(2) True Cons.prems(4) by (auto simp: has_data_def)
    moreover have "list_all2 (\<lambda>e. payload_for type (x_rdata e)) (filter has_data (e # x)) (stored ((j, p) # its'))"
      using ih(3) p(1) True by (simp add: stored_def)
    ultimately show ?thesis
      using ih(2) True len
      by (intro exI [of _ m''] exI [of _ ot'] exI [of _ "(j, p) # its'"] exI [of _ rawbuf'])
        (simp add: add.commute)
  qed
qed

text \<open>
  The end of every constructor that writes rdata: the count, the records of the array's elements
  that have data, and the offsets.  The bytes before and behind the slab do not change.
\<close>

lemma fill_slab:
  assumes x: "filter has_data x = S" and n: "length S < 65536" "length S = n"
    and d: "distinct (map x_order S)" "\<forall>e \<in> set S. x_order e < N"
    and sz: "\<forall>e \<in> set S. rd_length (x_rdata e) + rr_meta type < 65536"
    and m: "base + 2 + (\<Sum>e \<leftarrow> S. space type e) \<le> length m"
    and ov: "2 + (\<Sum>e \<leftarrow> S. space type e) < 4294967296"
  obtains m1 m2 ot tbl its where "mem_wr m base (put16 n) = Some m1"
    "write_rdatas type base x m1 (base + 2 + n * 4) (replicate N 0) = Some (m2, ot)"
    "fillin_offsets m2 base ot = Some (lay (take base m) tbl its (drop (base + 2 + (\<Sum>e \<leftarrow> S. space type e)) m))"
    "wf_items type tbl its" "list_all2 (\<lambda>e. payload_for type (x_rdata e)) S (stored its)"
    "listed its = by_key (map x_order S) (stored its)"
    "ot = put_offs (replicate N 0) (zip (map x_order S) (map (item_off its) [0..<n]))"
    "length (slab_body tbl its) = 2 + (\<Sum>e \<leftarrow> S. space type e)"
proof -
  let ?pre = "take base m" and ?len = "\<lambda>e. rd_length (x_rdata e) + rr_meta type"
  let ?sum = "\<Sum>e \<leftarrow> S. 4 + ?len e"
  have pre: "length ?pre = base" using m by simp
  have sp: "(\<Sum>e \<leftarrow> S. space type e) = 4 * n + ?sum"
    using n(2) by (induction S arbitrary: n) (auto simp: space_def)
  define rest where "rest = drop (base + 2 + 4 * n) m"
  obtain m1 where m1: "mem_wr m base (put16 n) = Some m1"
    "building N ?pre n [] [] rest m1 (base + 2 + n * 4) (replicate N 0)"
    using building_start [of m ?pre n "length m - (base + (2 + 4 * n))" N] pre m sp
    by (auto simp: rest_def)
  have "\<exists>m' ot' its' rawbuf'.
       write_rdatas type (length ?pre) x m1 (base + 2 + n * 4) (replicate N 0) = Some (m', ot') \<and>
       building N ?pre n ([] @ map x_order (filter has_data x)) ([] @ its')
         (drop (\<Sum>e \<leftarrow> filter has_data x. 4 + ?len e) rest) m' rawbuf' ot' \<and>
       list_all2 (\<lambda>e. payload_for type (x_rdata e)) (filter has_data x) (stored its')"
    by (rule write_rdatas_building [OF m1(2)]) (use x m ov sp d(2) in \<open>auto simp: rest_def\<close>)
  then obtain m2 ot its rawbuf' where w:
    "write_rdatas type base x m1 (base + 2 + n * 4) (replicate N 0) = Some (m2, ot)"
    "building N ?pre n (map x_order S) its (drop ?sum rest) m2 rawbuf' ot"
    "list_all2 (\<lambda>e. payload_for type (x_rdata e)) S (stored its)"
    using x pre by auto
  have len: "length its = n" using list_all2_lengthD [OF w(3)] n(2) by simp
  have st: "length (stored its ! i) = ?len (S ! i)" if "i < n" for i
    using length_payload_for list_all2_nthD [OF w(3), of i] that n(2) by metis
  have nn: "\<exists>b. p = b # rd_bytes r" if "payload_for dns_rdatatype_rrsig r p" for r p
    using that by (auto simp: payload_for_def)
  have pok: "\<forall>p \<in> set (stored its). payload_ok type p"
  proof
    fix p assume "p \<in> set (stored its)"
    then obtain i where i: "i < n" "p = stored its ! i" by (metis in_set_conv_nth len length_stored)
    have "length p < 65536" using st [OF i(1)] sz i n(2) by simp
    moreover have "p \<noteq> []" if "type = dns_rdatatype_rrsig"
      using nn list_all2_nthD [OF w(3), of i] i n(2) that by fastforce
    ultimately show "payload_ok type p" by (simp add: payload_ok_def)
  qed
  have "map (\<lambda>p. 8 + length p) (stored its) = map (space type) S"
    by (rule nth_equalityI) (use st len n(2) in \<open>auto simp: space_def\<close>)
  then have sum: "(\<Sum>p \<leftarrow> stored its. 8 + length p) = (\<Sum>e \<leftarrow> S. space type e)" by simp
  have tail: "drop ?sum rest = drop (base + 2 + (\<Sum>e \<leftarrow> S. space type e)) m"
    unfolding rest_def drop_drop sp by (rule arg_cong [of _ _ "\<lambda>k. drop k m"]) simp
  have b': "building N ?pre (length its) (map x_order S) its (drop ?sum rest) m2 rawbuf' ot"
    using w(2) len by simp
  have ks: "set (map x_order S) \<subseteq> {..<N}" "length its < 65536"
    "2 + (\<Sum>p \<leftarrow> stored its. 8 + length p) < 4294967296" using d(2) len n sum ov by auto
  obtain tbl' its' where f: "fillin_offsets m2 base ot = Some (lay ?pre tbl' its' (drop ?sum rest))"
    "wf_items type tbl' its'" "stored its' = stored its" "listed its' = by_key (map x_order S) (stored its)"
    using building_fillin [OF b' d(1) ks(1,2) pok ks(3)] pre by metis
  have "item_off its' = item_off its" by (rule ext) (rule item_off_cong [OF f(3)])
  then have "ot = put_offs (replicate N 0) (zip (map x_order S) (map (item_off its') [0..<n]))"
    using b' offs_from_item_off [of its] len by (simp add: building_def)
  moreover have "length (slab_body tbl' its') = 2 + (\<Sum>e \<leftarrow> S. space type e)"
    using wf_itemsD(1) [OF f(2)] f(3) sum
    by (simp add: length_slab_body length_enc_items sum_list_addf sum_list_triv length_stored [symmetric] del: length_stored)
  ultimately show thesis using that [OF m1(1) w(1)] f w(3) tail by metis
qed

text \<open>The body of the constructor, given the survivors.\<close>

lemma fromrdataset_fill_ok:
  assumes x: "filter has_data x = S" and n: "length S < 65536" "length S = n"
    and d: "distinct (map x_order S)" "\<forall>e \<in> set S. x_order e < length x"
    and sz: "\<forall>e \<in> set S. rd_length (x_rdata e) + rr_meta type < 65536"
    and m: "length m = reservelen + 2 + (\<Sum>e \<leftarrow> S. space type e)"
    and ov: "reservelen + 2 + (\<Sum>e \<leftarrow> S. space type e) < 4294967296"
  obtains m' tbl its where "fromrdataset_fill type x n reservelen m = Some m'"
    "slab_at m' reservelen type tbl its" "length m' = reservelen + length (slab_body tbl its)"
    "list_all2 (\<lambda>e. payload_for type (x_rdata e)) S (stored its)"
    "listed its = by_key (map x_order S) (stored its)"
proof -
  have le: "reservelen + 2 + (\<Sum>e \<leftarrow> S. space type e) \<le> length m" "2 + (\<Sum>e \<leftarrow> S. space type e) < 4294967296"
    using m ov by simp_all
  have tail: "drop (reservelen + 2 + (\<Sum>e \<leftarrow> S. space type e)) m = []" using m by simp
  obtain m1 m2 ot tbl its where f: "mem_wr m reservelen (put16 n) = Some m1"
    "write_rdatas type reservelen x m1 (reservelen + 2 + n * 4) (replicate (length x) 0) = Some (m2, ot)"
    "fillin_offsets m2 reservelen ot = Some (lay (take reservelen m) tbl its [])"
    "wf_items type tbl its" "list_all2 (\<lambda>e. payload_for type (x_rdata e)) S (stored its)"
    "listed its = by_key (map x_order S) (stored its)"
    by (rule fill_slab [OF x n d sz le, unfolded tail])
  show thesis
    by (rule that [of "lay (take reservelen m) tbl its []" tbl its])
      (use f m in \<open>auto simp: fromrdataset_fill_def slab_at_def length_lay\<close>)
qed

section \<open>Correctness\<close>

text \<open>What is kept of the rdata \<open>xs\<close>, and the first occurrence of each class of equal rdata.\<close>

definition kept :: "cmpswitch \<Rightarrow> qsort \<Rightarrow> dns_rdata list \<Rightarrow> xrdata list" where
  "kept sw qs xs = survivors (xrdata_order sw) (qs (xrdata_order sw) (indexed xs))"

definition first_idx :: "('a \<Rightarrow> 'a \<Rightarrow> int) \<Rightarrow> 'a list \<Rightarrow> nat list" where
  "first_idx cmp xs = filter (\<lambda>i. list_all (\<lambda>j. cmp (xs ! j) (xs ! i) \<noteq> 0) [0..<i]) [0..<length xs]"

definition first_occs :: "('a \<Rightarrow> 'a \<Rightarrow> int) \<Rightarrow> 'a list \<Rightarrow> 'a list" where
  "first_occs cmp xs = map (\<lambda>i. xs ! i) (first_idx cmp xs)"

definition buffer_size :: "cmpswitch \<Rightarrow> qsort \<Rightarrow> nat \<Rightarrow> dns_rdata list \<Rightarrow> nat \<Rightarrow> nat" where
  "buffer_size sw qs type xs reservelen = reservelen + 2 + (\<Sum>e \<leftarrow> kept sw qs xs. space type e)"

lemma xrdata_order_cmp_order: "switch_ok sw \<Longrightarrow> cmp_order (xrdata_order sw)"
  unfolding xrdata_order_def by (rule cmp_order_comp) (rule rdata_order_cmp_order)

lemma cmp_order_on: "cmp_order cmp \<Longrightarrow> cmp_on cmp A"
  by (rule cmp_on.cmp_on_subset) auto

lemma qsort_indexed:
  assumes "switch_ok sw" "c_qsort qs"
  shows "set (qs (xrdata_order sw) (indexed xs)) = set (indexed xs)"
    and "length (qs (xrdata_order sw) (indexed xs)) = length xs"
    and "ascending (xrdata_order sw) (qs (xrdata_order sw) (indexed xs))"
  using c_qsort.qsort_set [OF assms(2) cmp_order_on [OF xrdata_order_cmp_order [OF assms(1)]], of "indexed xs"]
    c_qsort.qsort_length [OF assms(2) cmp_order_on [OF xrdata_order_cmp_order [OF assms(1)]], of "indexed xs"]
    c_qsort.qsort_ascending [OF assms(2) cmp_order_on [OF xrdata_order_cmp_order [OF assms(1)]], of "indexed xs"]
  by simp_all

lemma kept_Nil: "switch_ok sw \<Longrightarrow> c_qsort qs \<Longrightarrow> kept sw qs xs = [] \<longleftrightarrow> xs = []"
  using qsort_indexed(2) [of sw qs xs] by (auto simp: kept_def)

lemma kept_facts:
  assumes "switch_ok sw" "c_qsort qs"
  shows "strictly_ascending (xrdata_order sw) (kept sw qs xs)"
    and "e \<in> set (kept sw qs xs) \<Longrightarrow> x_rdata e \<in> set xs"
    and "e \<in> set (kept sw qs xs) \<Longrightarrow> x_order e < length xs \<and> rdata_order sw (xs ! x_order e) (x_rdata e) = 0"
    and "i < length xs \<Longrightarrow> \<exists>e \<in> set (kept sw qs xs). rdata_order sw (xs ! i) (x_rdata e) = 0 \<and> x_order e \<le> i"
proof -
  note c = xrdata_order_cmp_order [OF assms(1)]
  note q = qsort_indexed [OF assms, of xs]
  show "strictly_ascending (xrdata_order sw) (kept sw qs xs)"
    unfolding kept_def by (rule survivors_ascending [OF c q(3)])
  show "x_rdata e \<in> set xs" if "e \<in> set (kept sw qs xs)"
    using survivors_rdata [of e] that q(1) by (fastforce simp: kept_def indexed_def)
  show "x_order e < length xs \<and> rdata_order sw (xs ! x_order e) (x_rdata e) = 0" if e: "e \<in> set (kept sw qs xs)"
  proof -
    obtain y where "y \<in> set (indexed xs)" "xrdata_order sw y e = 0" "x_order e = x_order y"
      using survivors_order [OF c e [unfolded kept_def]] unfolding q(1) by blast
    moreover from this(1) have "x_order y < length xs" "x_rdata y = xs ! x_order y"
      by (auto simp: indexed_def)
    ultimately show ?thesis by (simp add: xrdata_order_def)
  qed
  show "\<exists>e \<in> set (kept sw qs xs). rdata_order sw (xs ! i) (x_rdata e) = 0 \<and> x_order e \<le> i" if "i < length xs"
  proof -
    have "\<lparr>x_rdata = xs ! i, x_order = i\<rparr> \<in> set (qs (xrdata_order sw) (indexed xs))"
      using that q(1) by (simp add: in_set_indexed)
    from survivors_cover [OF c this] show ?thesis by (simp add: kept_def xrdata_order_def)
  qed
qed

lemma strictly_ascending_eq:
  assumes "cmp_order cmp" "strictly_ascending cmp xs" "a \<in> set xs" "b \<in> set xs" "cmp a b = 0"
  shows "a = b"
  using assms(2-4)
proof (induction xs)
  case (Cons x xs)
  have "cmp b a = 0" using cmp_on.cmp_zero_sym [OF assms(1), of a b] assms(5) by simp
  with Cons assms(5) show ?case by auto
qed simp

text \<open>The orders of what is kept are exactly the positions of the first occurrences.\<close>

lemma kept_orders:
  assumes "switch_ok sw" "c_qsort qs"
  shows "distinct (map x_order (kept sw qs xs))"
    and "sort (map x_order (kept sw qs xs)) = first_idx (rdata_order sw) xs"
proof -
  note c = rdata_order_cmp_order [OF assms(1)]
  note k = kept_facts [where xs = xs, OF assms]
  let ?K = "kept sw qs xs" and ?cmp = "rdata_order sw"
  have uniq: "e = e'" if "e \<in> set ?K" "e' \<in> set ?K" "?cmp (x_rdata e) (x_rdata e') = 0" for e e'
    using strictly_ascending_eq [OF xrdata_order_cmp_order [OF assms(1)] k(1)] that
    by (simp add: xrdata_order_def)
  have "inj_on x_order (set ?K)"
  proof (rule inj_onI)
    fix e e' assume e: "e \<in> set ?K" "e' \<in> set ?K" "x_order e = x_order e'"
    then have "?cmp (x_rdata e) (xs ! x_order e) = 0" "?cmp (xs ! x_order e) (x_rdata e') = 0"
      using k(3) [OF e(1)] k(3) [OF e(2)] cmp_on.cmp_zero_sym [OF c, of "xs ! x_order e" "x_rdata e"]
      by auto
    then show "e = e'" using uniq e cmp_on.cmp_zero_trans [OF c, of "x_rdata e" "xs ! x_order e"] by simp
  qed
  moreover have "distinct ?K"
    using strictly_ascending_distinct [OF xrdata_order_cmp_order [OF assms(1)]] k(1) .
  ultimately show d: "distinct (map x_order ?K)" by (simp add: distinct_map)
  have "x_order ` set ?K = {i. i < length xs \<and> (\<forall>j < i. ?cmp (xs ! j) (xs ! i) \<noteq> 0)}"
  proof (intro equalityI subsetI)
    fix i assume "i \<in> x_order ` set ?K"
    then obtain e where e: "e \<in> set ?K" "i = x_order e" by auto
    have "?cmp (xs ! j) (xs ! i) \<noteq> 0" if j: "j < i" for j
    proof
      assume z: "?cmp (xs ! j) (xs ! i) = 0"
      obtain e' where e': "e' \<in> set ?K" "?cmp (xs ! j) (x_rdata e') = 0" "x_order e' \<le> j"
        using k(4) [of j] k(3) [OF e(1)] e j by auto
      have "?cmp (xs ! j) (x_rdata e) = 0"
        using cmp_on.cmp_zero_trans [OF c, of "xs ! j" "xs ! i"] z k(3) [OF e(1)] e by simp
      then have "?cmp (x_rdata e) (x_rdata e') = 0"
        using cmp_on.cmp_zero_sym [OF c, of "xs ! j" "x_rdata e"] e'(2)
          cmp_on.cmp_zero_trans [OF c, of "x_rdata e" "xs ! j" "x_rdata e'"] by simp
      then have "e = e'" using uniq e e' by simp
      then show False using e' e j by simp
    qed
    then show "i \<in> {i. i < length xs \<and> (\<forall>j < i. ?cmp (xs ! j) (xs ! i) \<noteq> 0)}" using k(3) e by auto
  next
    fix i assume i: "i \<in> {i. i < length xs \<and> (\<forall>j < i. ?cmp (xs ! j) (xs ! i) \<noteq> 0)}"
    then obtain e where e: "e \<in> set ?K" "?cmp (xs ! i) (x_rdata e) = 0" "x_order e \<le> i" using k(4) [of i] by auto
    have "?cmp (xs ! x_order e) (xs ! i) = 0"
      using k(3) [OF e(1)] cmp_on.cmp_zero_sym [OF c, of "xs ! i" "x_rdata e"] e(2)
        cmp_on.cmp_zero_trans [OF c, of "xs ! x_order e" "x_rdata e" "xs ! i"] by simp
    then have "x_order e = i" using i e(3) by (metis (mono_tags, lifting) le_neq_implies_less mem_Collect_eq)
    with e show "i \<in> x_order ` set ?K" by auto
  qed
  then have "set (sort (map x_order ?K)) = set (first_idx ?cmp xs)"
    by (auto simp: first_idx_def list_all_iff)
  then show "sort (map x_order ?K) = first_idx ?cmp xs"
    by (intro sorted_distinct_set_unique) (use d in \<open>auto simp: first_idx_def sorted_wrt_filter\<close>)
qed

lemma length_kept: "switch_ok sw \<Longrightarrow> c_qsort qs \<Longrightarrow> length (kept sw qs xs) = length (first_occs (rdata_order sw) xs)"
  using kept_orders(2) [of sw qs xs] by (metis first_occs_def length_map length_sort)


lemma rdata_order_cong:
  assumes "rd_class a = rd_class a'" "rd_type a = rd_type a'" "rd_bytes a = rd_bytes a'"
    and "rd_class b = rd_class b'" "rd_type b = rd_type b'" "rd_bytes b = rd_bytes b'"
  shows "rdata_order sw a b = rdata_order sw a' b'"
  by (simp only: rdata_order_def assms)

lemma rdata_of_fields [simp]: "rd_class (rdata_of c t p) = c" "rd_type (rdata_of c t p) = t"
  by (simp_all add: rdata_of_def)

lemma rd_bytes_payload_for: "payload_for t r p \<Longrightarrow> rd_bytes (rdata_of c t p) = rd_bytes r"
  by (auto simp: payload_for_def rdata_of_def rd_bytes_def split: if_splits)

lemma by_key_self: "by_key ks ks = sort ks"
proof -
  have "map snd (sort_key fst (zip ks ks)) = map fst (sort_key fst (zip ks ks))"
    by (rule map_cong) (auto simp: in_set_zip)
  then show ?thesis by (simp add: by_key_def map_fst_sort_key)
qed

lemma kept_listed:
  assumes "switch_ok sw" "c_qsort qs"
    and "\<forall>r \<in> set xs. rd_class r = c \<and> rd_type r = t"
    and pl: "list_all2 (\<lambda>e. payload_for t (x_rdata e)) (kept sw qs xs) ps"
  shows "list_all2 (\<lambda>a b. rdata_order sw a b = 0)
     (map (rdata_of c t) (by_key (map x_order (kept sw qs xs)) ps)) (first_occs (rdata_order sw) xs)"
    and "strictly_ascending (rdata_order sw) (map (rdata_of c t) ps)"
proof -
  let ?K = "kept sw qs xs"
  let ?ks = "map x_order ?K"
  define \<sigma> where "\<sigma> = by_key ?ks [0..<length ?ks]"
  have len: "length ps = length ?K" using list_all2_lengthD [OF pl] by simp
  have set: "set \<sigma> = {..<length ?K}"
    using by_key_perm(1) [of ?ks] by (simp add: \<sigma>_def)
  note k = kept_facts [where xs = xs, OF assms(1,2)]
  have field: "rdata_order sw (rdata_of c t (ps ! i)) = rdata_order sw (x_rdata (?K ! i))"
    "rdata_order sw a (rdata_of c t (ps ! i)) = rdata_order sw a (x_rdata (?K ! i))"
    if "i < length ?K" for i a
  proof -
    have "x_rdata (?K ! i) \<in> set xs" by (rule k(2)) (use that in simp)
    then show "rdata_order sw (rdata_of c t (ps ! i)) = rdata_order sw (x_rdata (?K ! i))"
      "rdata_order sw a (rdata_of c t (ps ! i)) = rdata_order sw a (x_rdata (?K ! i))"
      using assms(3) rd_bytes_payload_for [OF list_all2_nthD [OF pl that]]
      by (intro ext rdata_order_cong; simp)+
  qed
  have "first_idx (rdata_order sw) xs = map (\<lambda>i. ?ks ! i) \<sigma>"
    unfolding \<sigma>_def kept_orders(2) [OF assms(1,2), symmetric] by_key_self [symmetric]
    by (rule by_key_nth) simp
  then have "first_occs (rdata_order sw) xs = map (\<lambda>i. xs ! x_order (?K ! i)) \<sigma>"
    using set by (simp add: first_occs_def)
  moreover have "by_key ?ks ps = map (\<lambda>i. ps ! i) \<sigma>"
    unfolding \<sigma>_def by (rule by_key_nth) (use len in simp)
  moreover have "rdata_order sw (rdata_of c t (ps ! i)) (xs ! x_order (?K ! i)) = 0" if "i < length ?K" for i
  proof -
    have "rdata_order sw (xs ! x_order (?K ! i)) (x_rdata (?K ! i)) = 0" using k(3) that by simp
    then show ?thesis
      using field(1) [OF that] cmp_on.cmp_zero_sym [OF rdata_order_cmp_order [OF assms(1)]] by simp
  qed
  ultimately show "list_all2 (\<lambda>a b. rdata_order sw a b = 0)
     (map (rdata_of c t) (by_key ?ks ps)) (first_occs (rdata_order sw) xs)"
    using set by (simp add: list_all2_map1 list_all2_map2 list_all2_same)
  show "strictly_ascending (rdata_order sw) (map (rdata_of c t) ps)"
    using k(1) field len by (simp add: sorted_wrt_iff_nth_less xrdata_order_def)
qed

text \<open>The constructor from the sorted array on.\<close>

lemma fromrdataset_store_eq:
  assumes "switch_ok sw" "c_qsort qs" "xs = [] \<longrightarrow> rr_meta type = 0"
    and "\<forall>r \<in> set xs. comparable r"
    and "buffer_size sw qs type xs reservelen < 4294967296"
  obtains x where "length x = length xs" "filter has_data x = kept sw qs xs"
    "fromrdataset_store sw issingleton type (qs (xrdata_order sw) (indexed xs)) mctx reservelen =
       (if length (kept sw qs xs) > 1 \<and> issingleton type then Some (DNS_R_SINGLETON, None)
        else case mctx 1 (buffer_size sw qs type xs reservelen) of
            None \<Rightarrow> Some (ISC_R_NOMEMORY, None)
          | Some rawbuf \<Rightarrow>
              (case mctx 2 (length xs * sizeof_uint) of
                 None \<Rightarrow> Some (ISC_R_NOMEMORY, None)
               | Some _ \<Rightarrow>
                   do { m \<leftarrow> fromrdataset_fill type x (length (kept sw qs xs)) reservelen rawbuf;
                        Some (ISC_R_SUCCESS, Some m) }))"
proof -
  let ?x = "qs (xrdata_order sw) (indexed xs)"
  note q = qsort_indexed [OF assms(1,2), of xs]
  have "\<forall>e \<in> set ?x. comparable (x_rdata e)"
    using assms(4) q(1) by (auto simp: indexed_def)
  moreover have "u32_of (reservelen + 2) + (\<Sum>e \<leftarrow> survivors (xrdata_order sw) ?x. space type e) < 4294967296"
    using assms(5) by (simp add: buffer_size_def kept_def)
  ultimately obtain x bl where r: "remove_dups sw type ?x (length ?x) (u32_of (reservelen + 2)) =
        Some (x, length ?x - (length ?x - length (survivors (xrdata_order sw) ?x)), bl)"
    "length x = length ?x" "filter has_data x = survivors (xrdata_order sw) ?x"
    "bl + (if ?x = [] then 0 else space type (last x)) =
       u32_of (reservelen + 2) + (\<Sum>e \<leftarrow> survivors (xrdata_order sw) ?x. space type e)"
    using remove_dups_survivors [where x = ?x and sw = sw and nitems = "length ?x" and
        buflen = "u32_of (reservelen + 2)" and type = type] by auto
  have n: "length ?x - (length ?x - length (survivors (xrdata_order sw) ?x)) = length (kept sw qs xs)"
    using length_survivors [of "xrdata_order sw" ?x] by (simp add: kept_def)
  have e: "bl + (if x = [] then 0 else space type (last x)) = buffer_size sw qs type xs reservelen"
  proof -
    have "x = [] \<longleftrightarrow> ?x = []" using r(2) by (metis length_0_conv)
    then show ?thesis using r(4) assms(5) by (simp add: buffer_size_def kept_def)
  qed
  have "u32_of ((if x \<noteq> [] then u32_of (bl + (8 + rd_length (x_rdata (last x)))) else bl) + rr_meta type) =
      buffer_size sw qs type xs reservelen"
    using e assms(3,5) q(2) r(2) by (auto simp: space_def split: if_splits)
  then show thesis
    using r(1-3) n q(2)
    by (intro that [of x]) (simp_all add: fromrdataset_store_def kept_def Let_def split: option.split)
qed


text \<open>
  What the constructor is called with: a valid rdataset whose rdata are of its class and type, have
  data and fit the length field, and a total size below $2^{32}$.
\<close>

definition buildable :: "nat \<Rightarrow> nat \<Rightarrow> dns_rdata list \<Rightarrow> nat \<Rightarrow> bool" where
  "buildable c t xs reservelen \<longleftrightarrow>
     list_all (\<lambda>r. rd_class r = c \<and> rd_type r = t \<and> comparable r \<and> rd_length r + rr_meta t < 65536) xs \<and>
     reservelen + 2 + (\<Sum>r \<leftarrow> xs. 8 + rd_length r + rr_meta t) < 4294967296"

lemma survivors_space:
  "(\<Sum>e \<leftarrow> survivors cmp x. space type e) \<le> (\<Sum>e \<leftarrow> x. space type e)"
proof (induction cmp x rule: survivors.induct)
  case (1 cmp a b x)
  have "space type (b\<lparr>x_order := k\<rparr>) = space type b" for k by (simp add: space_def)
  with 1 show ?case by (auto split: if_splits)
qed auto

lemma buffer_size_bound:
  assumes "switch_ok sw" "c_qsort qs" "buildable c t xs reservelen"
  shows "buffer_size sw qs t xs reservelen < 4294967296"
proof -
  let ?x = "qs (xrdata_order sw) (indexed xs)"
  have "mset ?x = mset (indexed xs)"
    by (rule c_qsort.qsort_mset [OF assms(2)]) (rule cmp_order_on [OF xrdata_order_cmp_order [OF assms(1)]])
  then have "(\<Sum>e \<leftarrow> ?x. space t e) = (\<Sum>e \<leftarrow> indexed xs. space t e)"
    by (metis mset_map sum_mset_sum_list)
  also have "map (space t) (indexed xs) = map (\<lambda>r. 8 + rd_length r + rr_meta t) xs"
    by (rule nth_equalityI) (simp_all add: space_def)
  finally show ?thesis
    using survivors_space [of t "xrdata_order sw" ?x] assms(3)
    by (simp add: buffer_size_def kept_def buildable_def)
qed

lemma fromrdataset_eq:
  assumes "rds_valid m rdataset" "xs = rds_items lb m rdataset" "switch_ok sw" "c_qsort qs"
    and "buildable (rs_class rdataset) (rs_type rdataset) xs reservelen"
    and "xs \<noteq> [] \<or> rs_type rdataset = 0" "length xs \<le> 65535"
    and "xs \<noteq> [] \<longrightarrow> mctx 0 (length xs * sizeof_xrdata) \<noteq> None"
  obtains r' where "same_set rdataset r'"
    "dns_rdataslab_fromrdataset sw issingleton qs lb m rdataset mctx reservelen =
       do { (result, region) \<leftarrow> fromrdataset_store sw issingleton (rs_type rdataset)
              (qs (xrdata_order sw) (indexed xs)) mctx reservelen;
            Some (result, region, r') }"
proof -
  obtain res r1 r2 where c: "dns_rdataset_first lb m rdataset = Some (res, r1)"
    "res = ISC_R_SUCCESS \<or> res = ISC_R_NOMORE"
    "collect_rdatas (dns_rdataset_current lb m) (dns_rdataset_next lb m) (length xs) res r1 [] =
       Some (ISC_R_NOMORE, r2, indexed xs)"
    using rds_cursor.collect_all [OF assms(1)] assms(2) by metis
  have same: "same_set rdataset r2"
    using dns_rdataset_first_same [OF c(1)] collect_rdatas_same [OF c(3)] by (simp add: same_set_def)
  have count: "dns_rdataset_count lb m rdataset = Some (length xs)"
    using rds_cursor.count_items [OF assms(1)] assms(2) by simp
  have "qsort_rdatas sw qs (indexed xs) = Some (qs (xrdata_order sw) (indexed xs))"
    using assms(5) by (auto simp: qsort_rdatas_def buildable_def list_all_iff indexed_def)
  moreover have "rs_type r2 = rs_type rdataset" using same by (simp add: same_set_def)
  ultimately show thesis
    using count c assms(6-8) by (intro that [OF same]) (auto simp: dns_rdataslab_fromrdataset_def)
qed

text \<open>The second half of the constructor, with everything that it promises.\<close>

lemma fromrdataset_store_result:
  assumes "switch_ok sw" "c_qsort qs" "mctx_ok mctx" "buildable c t xs reservelen"
    and "xs \<noteq> [] \<or> t = 0" "length xs \<le> 65535"
  obtains region where
    "fromrdataset_store sw issingleton t (qs (xrdata_order sw) (indexed xs)) mctx reservelen =
       Some (if length (first_occs (rdata_order sw) xs) > 1 \<and> issingleton t then (DNS_R_SINGLETON, None)
             else if mctx 1 (buffer_size sw qs t xs reservelen) = None \<or>
                     mctx 2 (length xs * sizeof_uint) = None then (ISC_R_NOMEMORY, None)
             else (ISC_R_SUCCESS, Some region))"
    "mctx 1 (buffer_size sw qs t xs reservelen) = None \<or>
     (\<exists>tbl its. slab_at region reservelen t tbl its \<and>
        length region = reservelen + length (slab_body tbl its) \<and>
        strictly_ascending (rdata_order sw) (map (rdata_of c t) (stored its)) \<and>
        list_all2 (\<lambda>a b. rdata_order sw a b = 0) (map (rdata_of c t) (listed its))
          (first_occs (rdata_order sw) xs))"
proof -
  let ?K = "kept sw qs xs"
  have b: "\<forall>r \<in> set xs. rd_class r = c \<and> rd_type r = t" "\<forall>r \<in> set xs. comparable r"
    "\<forall>r \<in> set xs. rd_length r + rr_meta t < 65536"
    using assms(4) by (auto simp: buildable_def list_all_iff)
  have size: "buffer_size sw qs t xs reservelen < 4294967296" by (rule buffer_size_bound [OF assms(1,2,4)])
  have meta: "xs = [] \<longrightarrow> rr_meta t = 0" using assms(5) by (auto simp: rr_meta_def dns_rdatatype_rrsig_def)
  obtain x where x: "length x = length xs" "filter has_data x = ?K"
    "fromrdataset_store sw issingleton t (qs (xrdata_order sw) (indexed xs)) mctx reservelen =
       (if length ?K > 1 \<and> issingleton t then Some (DNS_R_SINGLETON, None)
        else case mctx 1 (buffer_size sw qs t xs reservelen) of
            None \<Rightarrow> Some (ISC_R_NOMEMORY, None)
          | Some rawbuf \<Rightarrow>
              (case mctx 2 (length xs * sizeof_uint) of
                 None \<Rightarrow> Some (ISC_R_NOMEMORY, None)
               | Some _ \<Rightarrow>
                   do { m \<leftarrow> fromrdataset_fill t x (length ?K) reservelen rawbuf;
                        Some (ISC_R_SUCCESS, Some m) }))"
    using fromrdataset_store_eq [OF assms(1,2) meta b(2) size, of issingleton mctx] by metis
  note k = kept_facts [where xs = xs, OF assms(1,2)] and lk = length_kept [OF assms(1,2), of xs]
  show thesis
  proof (cases "mctx 1 (buffer_size sw qs t xs reservelen)")
    case None
    then show thesis using x(3) lk by (intro that) simp_all
  next
    case (Some buf)
    have "length ?K < 65536"
      using length_survivors [of "xrdata_order sw" "qs (xrdata_order sw) (indexed xs)"]
        qsort_indexed(2) [OF assms(1,2), of xs] assms(6) by (simp add: kept_def)
    moreover have "length buf = reservelen + 2 + (\<Sum>e \<leftarrow> ?K. space t e)"
      using mctx_okD [OF assms(3) Some] by (simp add: buffer_size_def)
    moreover have "\<forall>e \<in> set ?K. x_order e < length x" "\<forall>e \<in> set ?K. rd_length (x_rdata e) + rr_meta t < 65536"
      using k(2,3) x(1) b(3) by auto
    ultimately obtain region tbl its where o: "fromrdataset_fill t x (length ?K) reservelen buf = Some region"
      "slab_at region reservelen t tbl its" "length region = reservelen + length (slab_body tbl its)"
      "list_all2 (\<lambda>e. payload_for t (x_rdata e)) ?K (stored its)"
      "listed its = by_key (map x_order ?K) (stored its)"
      using fromrdataset_fill_ok [OF x(2) _ refl kept_orders(1) [OF assms(1,2)]] size
      unfolding buffer_size_def by metis
    have "slab_at region reservelen t tbl its \<and>
        length region = reservelen + length (slab_body tbl its) \<and>
        strictly_ascending (rdata_order sw) (map (rdata_of c t) (stored its)) \<and>
        list_all2 (\<lambda>a b. rdata_order sw a b = 0) (map (rdata_of c t) (listed its))
          (first_occs (rdata_order sw) xs)"
      using kept_listed [OF assms(1,2) b(1) o(4)] o(2,3,5) by simp
    moreover have "fromrdataset_store sw issingleton t (qs (xrdata_order sw) (indexed xs)) mctx reservelen =
       Some (if length (first_occs (rdata_order sw) xs) > 1 \<and> issingleton t then (DNS_R_SINGLETON, None)
             else if mctx 1 (buffer_size sw qs t xs reservelen) = None \<or>
                     mctx 2 (length xs * sizeof_uint) = None then (ISC_R_NOMEMORY, None)
             else (ISC_R_SUCCESS, Some region))"
      unfolding x(3) Some using o(1) lk by (simp split: option.split)
    ultimately show thesis by (intro that [of region]) blast+
  qed
qed

text \<open>
  C2: \<open>dns_rdataslab_fromrdataset\<close> on a valid rdataset, when the allocations succeed and a singleton
  type has one rdata, succeeds without leaving a buffer and without a failing assertion.  The region
  holds a well-formed slab that fills it exactly; its records are strictly ascending in DNSSEC order
  (so there are no duplicates), and the order of the offset table is that of the first occurrences
  of the rdata in the rdataset.
\<close>

theorem fromrdataset_success:
  assumes "rds_valid m rdataset" "xs = rds_items lb m rdataset" "switch_ok sw" "c_qsort qs" "mctx_ok mctx"
    and "buildable (rs_class rdataset) (rs_type rdataset) xs reservelen"
    and "xs \<noteq> [] \<or> rs_type rdataset = 0" "length xs \<le> 65535"
    and "\<forall>k n. mctx k n \<noteq> None"
    and "\<not> (1 < length (first_occs (rdata_order sw) xs) \<and> issingleton (rs_type rdataset))"
  shows "\<exists>region tbl its r'.
     dns_rdataslab_fromrdataset sw issingleton qs lb m rdataset mctx reservelen =
       Some (ISC_R_SUCCESS, Some region, r') \<and>
     slab_at region reservelen (rs_type rdataset) tbl its \<and>
     length region = reservelen + length (slab_body tbl its) \<and>
     strictly_ascending (rdata_order sw)
       (map (rdata_of (rs_class rdataset) (rs_type rdataset)) (stored its)) \<and>
     list_all2 (\<lambda>a b. rdata_order sw a b = 0)
       (map (rdata_of (rs_class rdataset) (rs_type rdataset)) (listed its))
       (first_occs (rdata_order sw) xs)"
proof -
  have nomem: "xs \<noteq> [] \<longrightarrow> mctx 0 (length xs * sizeof_xrdata) \<noteq> None" using assms(9) by simp
  obtain r' where r': "dns_rdataslab_fromrdataset sw issingleton qs lb m rdataset mctx reservelen =
       do { (result, region) \<leftarrow> fromrdataset_store sw issingleton (rs_type rdataset)
              (qs (xrdata_order sw) (indexed xs)) mctx reservelen;
            Some (result, region, r') }"
    using fromrdataset_eq [where mctx = mctx, OF assms(1-4,6-8) nomem] by metis
  obtain region where "fromrdataset_store sw issingleton (rs_type rdataset)
        (qs (xrdata_order sw) (indexed xs)) mctx reservelen = Some (ISC_R_SUCCESS, Some region)"
    "\<exists>tbl its. slab_at region reservelen (rs_type rdataset) tbl its \<and>
        length region = reservelen + length (slab_body tbl its) \<and>
        strictly_ascending (rdata_order sw)
          (map (rdata_of (rs_class rdataset) (rs_type rdataset)) (stored its)) \<and>
        list_all2 (\<lambda>a b. rdata_order sw a b = 0)
          (map (rdata_of (rs_class rdataset) (rs_type rdataset)) (listed its))
          (first_occs (rdata_order sw) xs)"
    by (rule fromrdataset_store_result [OF assms(3-8), of issingleton])
      (simp only: assms(9,10) simp_thms if_False)
  then show ?thesis unfolding r' by simp
qed

text \<open>
  C3: On every valid rdataset \<open>dns_rdataslab_fromrdataset\<close> returns (no access leaves its object and no
  assertion fails, also when memory runs out), with the result code below, and it hands a region
  over if and only if it succeeds.
\<close>

theorem fromrdataset_result:
  assumes "rds_valid m rdataset" "xs = rds_items lb m rdataset" "switch_ok sw" "c_qsort qs" "mctx_ok mctx"
    and "buildable (rs_class rdataset) (rs_type rdataset) xs reservelen"
  shows "\<exists>result region r'.
     dns_rdataslab_fromrdataset sw issingleton qs lb m rdataset mctx reservelen =
       Some (result, region, r') \<and>
     result =
       (if xs = [] \<and> rs_type rdataset \<noteq> 0 then ISC_R_FAILURE
        else if length xs > 65535 then ISC_R_NOSPACE
        else if xs \<noteq> [] \<and> mctx 0 (length xs * sizeof_xrdata) = None then ISC_R_NOMEMORY
        else if length (first_occs (rdata_order sw) xs) > 1 \<and> issingleton (rs_type rdataset)
        then DNS_R_SINGLETON
        else if mctx 1 (buffer_size sw qs (rs_type rdataset) xs reservelen) = None \<or>
                mctx 2 (length xs * sizeof_uint) = None then ISC_R_NOMEMORY
        else ISC_R_SUCCESS) \<and>
     (region = None \<longleftrightarrow> result \<noteq> ISC_R_SUCCESS)"
proof -
  have count: "dns_rdataset_count lb m rdataset = Some (length xs)"
    using rds_cursor.count_items [OF assms(1)] assms(2) by simp
  consider (empty) "xs = [] \<and> rs_type rdataset \<noteq> 0" | (big) "length xs > 65535"
    | (nomem) "xs \<noteq> []" "length xs \<le> 65535" "mctx 0 (length xs * sizeof_xrdata) = None"
    | (store) "xs \<noteq> [] \<or> rs_type rdataset = 0" "length xs \<le> 65535"
        "xs \<noteq> [] \<longrightarrow> mctx 0 (length xs * sizeof_xrdata) \<noteq> None"
    by (cases "length xs > 65535"; cases "xs = []") auto
  then show ?thesis
  proof cases
    case store
    obtain r' where r': "dns_rdataslab_fromrdataset sw issingleton qs lb m rdataset mctx reservelen =
         do { (result, region) \<leftarrow> fromrdataset_store sw issingleton (rs_type rdataset)
                (qs (xrdata_order sw) (indexed xs)) mctx reservelen;
              Some (result, region, r') }"
      using fromrdataset_eq [where mctx = mctx, OF assms(1-4,6) store] by metis
    obtain region where "fromrdataset_store sw issingleton (rs_type rdataset)
        (qs (xrdata_order sw) (indexed xs)) mctx reservelen =
       Some (if length (first_occs (rdata_order sw) xs) > 1 \<and> issingleton (rs_type rdataset)
             then (DNS_R_SINGLETON, None)
             else if mctx 1 (buffer_size sw qs (rs_type rdataset) xs reservelen) = None \<or>
                     mctx 2 (length xs * sizeof_uint) = None then (ISC_R_NOMEMORY, None)
             else (ISC_R_SUCCESS, Some region))"
      by (rule fromrdataset_store_result [OF assms(3-6) store(1,2), of issingleton])
    moreover have "\<not> (xs = [] \<and> rs_type rdataset \<noteq> 0)" "\<not> length xs > 65535"
      "\<not> (xs \<noteq> [] \<and> mctx 0 (length xs * sizeof_xrdata) = None)" using store by auto
    ultimately show ?thesis unfolding r' by (simp only: if_False bind.bind_lunit) simp
  qed (use count in \<open>auto simp: dns_rdataslab_fromrdataset_def\<close>)
qed


section \<open>Examples\<close>

text \<open>Three A records of which two are equal, in a list; no type specific comparisons, and an
  allocator that never fails.\<close>

definition ex_a :: "u8 list \<Rightarrow> dns_rdata" where
  "ex_a bs = \<lparr>rd_data = Some bs, rd_class = 1, rd_type = 1, rd_flags = 0\<rparr>"

definition ex_rdatas :: "dns_rdata list" where
  "ex_rdatas = [ex_a [10, 0, 0, 2], ex_a [10, 0, 0, 1], ex_a [10, 0, 0, 2]]"

definition ex_rdataset :: dns_rdataset where
  "ex_rdataset = dns_rdataset_init\<lparr>rs_methods := Some Rdatalist_methods, rs_class := 1, rs_type := 1,
     rs_private1 := Some ex_rdatas\<rparr>"

definition ex_sw :: cmpswitch where
  "ex_sw = (\<lambda>c t. None)"

definition ex_mctx :: mctx where
  "ex_mctx = (\<lambda>k n. Some (replicate n 0))"

lemma ex_assms:
  "switch_ok ex_sw" "mctx_ok ex_mctx" "rds_valid m ex_rdataset" "rds_items lb m ex_rdataset = ex_rdatas"
  "buildable 1 1 ex_rdatas 0" "rs_class ex_rdataset = 1" "rs_type ex_rdataset = 1"
  "ex_rdatas \<noteq> []" "length ex_rdatas = 3" "\<exists>y. ex_mctx k n = Some y" "ex_mctx k n \<noteq> None"
  by (simp_all add: switch_ok_def ex_sw_def mctx_ok_def ex_mctx_def rds_valid_def ex_rdataset_def
      rdatalist_valid_def ex_rdatas_def ex_a_def rds_items_def rdatalist_items_def dns_rdataset_init_def
      buildable_def comparable_def rd_length_def rd_bytes_def rr_meta_def dns_rdatatype_rrsig_def)

theorem fromrdataset_success_witness:
  "\<exists>region tbl its r'.
     dns_rdataslab_fromrdataset ex_sw (\<lambda>t. False) msort True [] ex_rdataset ex_mctx 0 =
       Some (ISC_R_SUCCESS, Some region, r') \<and>
     slab_at region 0 1 tbl its \<and> length region = length (slab_body tbl its) \<and>
     strictly_ascending (rdata_order ex_sw) (map (rdata_of 1 1) (stored its)) \<and>
     list_all2 (\<lambda>a b. rdata_order ex_sw a b = 0) (map (rdata_of 1 1) (listed its))
       [ex_a [10, 0, 0, 2], ex_a [10, 0, 0, 1]]"
proof -
  have f: "first_occs (rdata_order ex_sw) ex_rdatas = [ex_a [10, 0, 0, 2], ex_a [10, 0, 0, 1]]"
    by code_simp
  show ?thesis
    using fromrdataset_success [of "[]" ex_rdataset ex_rdatas True ex_sw msort ex_mctx 0 "\<lambda>t. False"]
      merge_sort.c_qsort_axioms
    by (simp add: ex_assms f del: One_nat_def)
qed

theorem fromrdataset_result_witness:
  "\<exists>result region r'.
     dns_rdataslab_fromrdataset ex_sw (\<lambda>t. t = 1) msort True [] ex_rdataset ex_mctx 0 =
       Some (result, region, r') \<and> result = DNS_R_SINGLETON \<and> region = None"
proof -
  have f: "first_occs (rdata_order ex_sw) ex_rdatas = [ex_a [10, 0, 0, 2], ex_a [10, 0, 0, 1]]"
    by code_simp
  show ?thesis
    using fromrdataset_result [of "[]" ex_rdataset ex_rdatas True ex_sw msort ex_mctx 0 "\<lambda>t. t = 1"]
      merge_sort.c_qsort_axioms
    by (simp add: ex_assms f del: One_nat_def)
qed

end
