(* ===== verification/Slab_Read.thy ===== *)
theory Slab_Read
  imports Slab_Build
begin

text \<open>
  The functions of \<^verbatim>\<open>lib/dns/rdataslab.c\<close> that only read slabs: their size, reading the records in
  storage order, the search for an rdata, and the two tests for equality.  A slab is given by its
  position in the memory object, \<open>reservelen\<close> bytes of which come before the slab proper.
\<close>

section \<open>Size\<close>

fun slab_size_loop :: "mem \<Rightarrow> nat \<Rightarrow> nat \<Rightarrow> nat option" where
  "slab_size_loop m 0 current = Some current"
| "slab_size_loop m (Suc n) current =
     do { len \<leftarrow> rd16 m current; slab_size_loop m n (current + 2 + (len + 2)) }"

definition dns_rdataslab_size :: "mem \<Rightarrow> nat \<Rightarrow> nat \<Rightarrow> nat option" where
  "dns_rdataslab_size m slab reservelen =
     do { count \<leftarrow> rd16 m (slab + reservelen);
          current \<leftarrow> slab_size_loop m count (slab + reservelen + 2 + 4 * count);
          Some (u32_of (current - slab)) }"

section \<open>Reading records\<close>

text \<open>
  \<open>rdata_from_slab\<close> gives the rdata, the position of its data and that of the next record.  For an
  RRSIG the source looks for the offline bit right behind the length, where a slab with offset table
  has the high byte of the order field and not the meta byte.
\<close>

definition rdata_from_slab :: "mem \<Rightarrow> nat \<Rightarrow> nat \<Rightarrow> nat \<Rightarrow> dns_rdata \<Rightarrow> (dns_rdata \<times> nat \<times> nat) option" where
  "rdata_from_slab m current rdclass type rdata =
     do { len \<leftarrow> rd16 m current;
          (offline, len', tcurrent) \<leftarrow>
            (if type = dns_rdatatype_rrsig
             then do { b \<leftarrow> mem_rd m (current + 2);
                       Some (b AND 1 \<noteq> 0, u32_sub len 1, current + 3) }
             else Some (False, len, current + 2));
          region \<leftarrow> mem_blk m (tcurrent + 2) len';
          rdata1 \<leftarrow> dns_rdata_fromregion rdata rdclass type region;
          Some (if offline then rdata1\<lparr>rd_flags := rd_flags rdata1 OR DNS_RDATA_OFFLINE\<rparr> else rdata1,
                tcurrent + 2, tcurrent + 2 + len') }"

fun rdata_in_slab_loop ::
    "cmpswitch \<Rightarrow> mem \<Rightarrow> nat \<Rightarrow> nat \<Rightarrow> dns_rdata \<Rightarrow> nat \<Rightarrow> nat \<Rightarrow> dns_rdata \<Rightarrow> bool option" where
  "rdata_in_slab_loop sw m rdclass type rdata 0 current trdata = Some False"
| "rdata_in_slab_loop sw m rdclass type rdata (Suc n) current trdata =
     do { (trdata1, _, current1) \<leftarrow> rdata_from_slab m current rdclass type trdata;
          c \<leftarrow> dns_rdata_compare sw trdata1 rdata;
          if c = 0 then Some True
          else if c > 0 then Some False
          else do { trdata2 \<leftarrow> dns_rdata_reset trdata1;
                    rdata_in_slab_loop sw m rdclass type rdata n current1 trdata2 } }"

definition rdata_in_slab ::
    "cmpswitch \<Rightarrow> mem \<Rightarrow> nat \<Rightarrow> nat \<Rightarrow> nat \<Rightarrow> nat \<Rightarrow> dns_rdata \<Rightarrow> bool option" where
  "rdata_in_slab sw m slab reservelen rdclass type rdata =
     do { count \<leftarrow> rd16 m (slab + reservelen);
          rdata_in_slab_loop sw m rdclass type rdata count (slab + reservelen + 2 + 4 * count)
            dns_rdata_init }"

section \<open>Equality\<close>

fun slab_equal_loop :: "mem \<Rightarrow> mem \<Rightarrow> nat \<Rightarrow> nat \<Rightarrow> nat \<Rightarrow> bool option" where
  "slab_equal_loop m1 m2 0 current1 current2 = Some True"
| "slab_equal_loop m1 m2 (Suc count1) current1 current2 =
     do { length1 \<leftarrow> rd16 m1 current1;
          length2 \<leftarrow> rd16 m2 current2;
          if length1 \<noteq> length2 then Some False
          else do { b1 \<leftarrow> mem_blk m1 (current1 + 4) length1;
                    b2 \<leftarrow> mem_blk m2 (current2 + 4) length1;
                    if memcmp b1 b2 \<noteq> 0 then Some False
                    else slab_equal_loop m1 m2 count1 (current1 + 4 + length1) (current2 + 4 + length1) } }"

definition dns_rdataslab_equal :: "mem \<Rightarrow> nat \<Rightarrow> mem \<Rightarrow> nat \<Rightarrow> nat \<Rightarrow> bool option" where
  "dns_rdataslab_equal m1 slab1 m2 slab2 reservelen =
     do { count1 \<leftarrow> rd16 m1 (slab1 + reservelen);
          count2 \<leftarrow> rd16 m2 (slab2 + reservelen);
          if count1 \<noteq> count2 then Some False
          else slab_equal_loop m1 m2 count1 (slab1 + reservelen + 2 + 4 * count1)
                 (slab2 + reservelen + 2 + 4 * count2) }"

fun slab_equalx_loop ::
    "cmpswitch \<Rightarrow> mem \<Rightarrow> mem \<Rightarrow> nat \<Rightarrow> nat \<Rightarrow> nat \<Rightarrow> nat \<Rightarrow> nat \<Rightarrow> dns_rdata \<Rightarrow> dns_rdata \<Rightarrow> bool option" where
  "slab_equalx_loop sw m1 m2 rdclass type 0 current1 current2 rdata1 rdata2 = Some True"
| "slab_equalx_loop sw m1 m2 rdclass type (Suc count1) current1 current2 rdata1 rdata2 =
     do { (rdata1a, _, current1a) \<leftarrow> rdata_from_slab m1 current1 rdclass type rdata1;
          (rdata2a, _, current2a) \<leftarrow> rdata_from_slab m2 current2 rdclass type rdata2;
          c \<leftarrow> dns_rdata_compare sw rdata1a rdata2a;
          if c \<noteq> 0 then Some False
          else do { rdata1b \<leftarrow> dns_rdata_reset rdata1a;
                    rdata2b \<leftarrow> dns_rdata_reset rdata2a;
                    slab_equalx_loop sw m1 m2 rdclass type count1 current1a current2a rdata1b rdata2b } }"

definition dns_rdataslab_equalx ::
    "cmpswitch \<Rightarrow> mem \<Rightarrow> nat \<Rightarrow> mem \<Rightarrow> nat \<Rightarrow> nat \<Rightarrow> nat \<Rightarrow> nat \<Rightarrow> bool option" where
  "dns_rdataslab_equalx sw m1 slab1 m2 slab2 reservelen rdclass type =
     do { count1 \<leftarrow> rd16 m1 (slab1 + reservelen);
          count2 \<leftarrow> rd16 m2 (slab2 + reservelen);
          if count1 \<noteq> count2 then Some False
          else slab_equalx_loop sw m1 m2 rdclass type count1 (slab1 + reservelen + 2 + 4 * count1)
                 (slab2 + reservelen + 2 + 4 * count2) dns_rdata_init dns_rdata_init }"

section \<open>Records of a well-formed slab\<close>

text \<open>The rdata that \<open>rdata_from_slab\<close> makes of a record: as \<open>rdata_of\<close>, but for the flag.\<close>

definition rdata_read :: "nat \<Rightarrow> nat \<Rightarrow> item \<Rightarrow> dns_rdata" where
  "rdata_read c t it =
     (rdata_of c t (snd it))\<lparr>rd_flags :=
        (if t = dns_rdatatype_rrsig \<and> (word_of_nat (fst it div 256) :: u8) AND 1 \<noteq> 0
         then DNS_RDATA_OFFLINE else 0)\<rparr>"

lemma rdata_read_fields [simp]:
  "rd_class (rdata_read c t it) = c" "rd_type (rdata_read c t it) = t"
  "rd_bytes (rdata_read c t it) = rd_bytes (rdata_of c t (snd it))"
  "rd_data (rdata_read c t it) = rd_data (rdata_of c t (snd it))"
  by (simp_all add: rdata_read_def rd_bytes_def)

lemma comparable_rdata_read [simp]: "comparable (rdata_read c t it)"
  by (simp add: comparable_def rdata_read_def rdata_of_def)

lemma comparable_rdata_of [simp]: "comparable (rdata_of c t p)"
  by (simp add: comparable_def rdata_of_def)

lemma dns_rdata_reset_read [simp]: "dns_rdata_reset (rdata_read c t it) = Some dns_rdata_init"
  using comparable_rdata_read [of c t it] by (simp add: dns_rdata_reset_def comparable_def)

lemma rdata_order_read:
  "rdata_order sw (rdata_read c t it) = rdata_order sw (rdata_of c t (snd it))"
  "rdata_order sw a (rdata_read c t it) = rdata_order sw a (rdata_of c t (snd it))"
  by (intro ext rdata_order_cong; simp)+

lemma dns_rdata_compare_comparable:
  "comparable a \<Longrightarrow> comparable b \<Longrightarrow> dns_rdata_compare sw a b = Some (rdata_order sw a b)"
  by (simp add: comparable_def dns_rdata_compare_def)

text \<open>The surroundings of a record.\<close>

lemma slab_at_item:
  assumes "slab_at m base t tbl its" "i < length its"
  obtains a z where "m = a @ enc_item (its ! i) @ z" "length a = base + item_off its i"
    "length (snd (its ! i)) < 65536" "fst (its ! i) < 65536" "t = dns_rdatatype_rrsig \<longrightarrow> snd (its ! i) \<noteq> []"
proof -
  obtain pre post where m: "m = lay pre tbl its post" "length pre = base"
    and wf: "wf_items t tbl its" using assms(1) by (auto simp: slab_at_def)
  note d = wf_itemsD [OF wf]
  show thesis
  proof (rule that)
    show "m = (pre @ put16 (length its) @ concat (map put32 tbl) @ concat (map enc_item (take i its))) @
        enc_item (its ! i) @ (concat (map enc_item (drop (Suc i) its)) @ post)"
      using m lay_split_item [OF assms(2)] by simp
  qed (use m d(1,2) d(3) [of i] d(4) [of i] assms(2) in \<open>auto simp: item_off_def payload_ok_def\<close>)
qed

lemma slab_at_count: "slab_at m base t tbl its \<Longrightarrow> rd16 m base = Some (length its)"
  using lay_count by (auto simp: slab_at_def wf_items_def)

lemma rdata_from_slab_item:
  assumes "slab_at m base t tbl its" "i < length its"
  shows "rdata_from_slab m (base + item_off its i) c t dns_rdata_init =
     Some (rdata_read c t (its ! i), base + item_off its i + 4 + rr_meta t, base + item_off its (Suc i))"
proof -
  obtain a z where m: "m = a @ enc_item (its ! i) @ z" and a: "length a = base + item_off its i"
    and ok: "length (snd (its ! i)) < 65536" "fst (its ! i) < 65536"
      "t = dns_rdatatype_rrsig \<longrightarrow> snd (its ! i) \<noteq> []"
    using slab_at_item [OF assms] by metis
  note rd = rd_enc_item [OF a [symmetric] ok(1,2), of z]
  let ?p = "snd (its ! i)" and ?pos = "base + item_off its i"
  have r16: "rd16 m ?pos = Some (length ?p)" unfolding m by (rule rd)
  have nxt: "base + item_off its (Suc i) = ?pos + 4 + length ?p"
    using assms(2) by (simp add: item_off_Suc)
  show ?thesis
  proof (cases "t = dns_rdatatype_rrsig")
    case False
    have "mem_blk m (?pos + 4) (length ?p) = Some ?p" unfolding m by (rule rd)
    then have "mem_blk m (4 + ?pos) (length ?p) = Some ?p" by (simp add: add.commute)
    then show ?thesis
      using False r16 nxt
      by (simp add: rdata_from_slab_def dns_rdata_fromregion_def rdata_read_def rdata_of_def rr_meta_def)
  next
    case True
    then obtain b bs where p: "?p = b # bs" using ok(3) by (cases ?p) auto
    have "m = (a @ put16 (length ?p)) @ word_of_nat (fst (its ! i) div 256) # (word_of_nat (fst (its ! i)) # ?p @ z)"
      using m by (simp add: enc_item_def put16_def [of "fst (its ! i)"])
    then have mr: "mem_rd m (?pos + 2) = Some (word_of_nat (fst (its ! i) div 256))"
      using mem_rd_mid [of "?pos + 2" "a @ put16 (length ?p)"] a by simp
    have "m = (a @ put16 (length ?p) @ put16 (fst (its ! i)) @ [b]) @ bs @ z"
      using m p by (simp add: enc_item_def)
    then have "mem_blk m (5 + ?pos) (length bs) = Some bs"
      using mem_blk_mid [of "5 + ?pos" "a @ put16 (length ?p) @ put16 (fst (its ! i)) @ [b]" "length bs" bs z] a
      by simp
    then show ?thesis
      using True r16 mr nxt p ok(1)
      by (simp add: rdata_from_slab_def dns_rdata_fromregion_def rdata_read_def rdata_of_def rr_meta_def)
  qed
qed


section \<open>Correctness\<close>

lemma item_off_start: "base + 2 + 4 * length its = base + item_off its 0"
  by (simp add: item_off_def)

lemma item_off_length: "length tbl = length its \<Longrightarrow> item_off its (length its) = length (slab_body tbl its)"
  by (simp add: item_off_def length_slab_body)

lemma slab_size_loop_items:
  assumes "slab_at m base t tbl its"
  shows "length its = i + n \<Longrightarrow> slab_size_loop m n (base + item_off its i) = Some (base + item_off its (i + n))"
proof (induction n arbitrary: i)
  case (Suc n)
  have i: "i < length its" using Suc.prems by simp
  have off: "base + item_off its i + 2 + (length (snd (its ! i)) + 2) = base + item_off its (Suc i)"
    using i by (simp add: item_off_Suc)
  show ?case
    unfolding slab_size_loop.simps slab_rdata_at_item(2) [OF assms i] bind.bind_lunit off
    using Suc.IH [of "Suc i"] Suc.prems by simp
qed simp

text \<open>
  C20: \<open>dns_rdataslab_size\<close> of a well-formed slab reads only bytes of the slab and is the number of
  bytes that the reserved area and the slab take.
\<close>

theorem size_correct:
  assumes "slab_at m (slab + reservelen) t tbl its" "reservelen + length (slab_body tbl its) < 4294967296"
  shows "dns_rdataslab_size m slab reservelen = Some (reservelen + length (slab_body tbl its))"
proof -
  have "length tbl = length its" using assms(1) by (auto simp: slab_at_def wf_items_def)
  then have "slab_size_loop m (length its) (slab + reservelen + 2 + 4 * length its) =
      Some (slab + (reservelen + length (slab_body tbl its)))"
    using slab_size_loop_items [OF assms(1), of 0 "length its"]
    unfolding item_off_start by (simp add: item_off_length add.assoc)
  then show ?thesis using assms(2) slab_at_count [OF assms(1)] by (simp add: dns_rdataslab_size_def)
qed

lemma rdata_in_slab_loop_items:
  assumes "slab_at m base t tbl its" "cmp_order (rdata_order sw)"
    "strictly_ascending (rdata_order sw) (map (rdata_of c t) (stored its))" "comparable rdata"
  shows "length its = i + n \<Longrightarrow>
     rdata_in_slab_loop sw m c t rdata n (base + item_off its i) dns_rdata_init =
       Some (\<exists>p \<in> set (drop i (stored its)). rdata_order sw (rdata_of c t p) rdata = 0)"
proof (induction n arbitrary: i)
  case (Suc n)
  let ?p = "stored its ! i" and ?cmp = "rdata_order sw"
  have i: "i < length its" "i < length (stored its)" using Suc.prems by simp_all
  have dr: "drop i (stored its) = ?p # drop (Suc i) (stored its)"
    using i(2) by (simp add: Cons_nth_drop_Suc)
  have p: "snd (its ! i) = ?p" using i(1) by (simp add: stored_def)
  have later: "?cmp (rdata_of c t ?p) (rdata_of c t q) < 0" if "q \<in> set (drop (Suc i) (stored its))" for q
  proof -
    have "strictly_ascending ?cmp (map (rdata_of c t) (drop i (stored its)))"
      using sorted_wrt_drop [OF assms(3), of i] by (simp add: drop_map)
    then show ?thesis using that by (simp add: dr)
  qed
  have big: "?cmp (rdata_of c t q) rdata \<noteq> 0"
    if "q \<in> set (drop (Suc i) (stored its))" "?cmp (rdata_of c t ?p) rdata > 0" for q
  proof
    assume z: "?cmp (rdata_of c t q) rdata = 0"
    have "?cmp (rdata_of c t ?p) rdata < 0"
      using cmp_on.cmp_less_le_trans [OF assms(2), of "rdata_of c t ?p" "rdata_of c t q" rdata]
        later [OF that(1)] z by simp
    with that(2) show False by simp
  qed
  show ?case
    using rdata_from_slab_item [OF assms(1) i(1), of c] Suc.IH [of "Suc i"] Suc.prems big assms(4)
    by (auto simp: dns_rdata_compare_comparable rdata_order_read p dr)
qed simp

text \<open>
  C19: In a slab whose records are in DNSSEC order, \<open>rdata_in_slab\<close> finds an rdata exactly when one of
  the records compares equal to it: stopping at the first greater record loses nothing.
\<close>

theorem rdata_in_slab_correct:
  assumes "slab_at m (slab + reservelen) t tbl its" "switch_ok sw"
    "strictly_ascending (rdata_order sw) (map (rdata_of c t) (stored its))" "comparable rdata"
  shows "rdata_in_slab sw m slab reservelen c t rdata =
     Some (\<exists>p \<in> set (stored its). rdata_order sw (rdata_of c t p) rdata = 0)"
  using rdata_in_slab_loop_items [OF assms(1) rdata_order_cmp_order [OF assms(2)] assms(3,4), of 0 "length its"]
    slab_at_count [OF assms(1)]
  unfolding rdata_in_slab_def by (simp only: item_off_start bind.bind_lunit drop_0 add_0)

lemma slab_equal_loop_items:
  assumes "slab_at m1 base1 t tbl1 its1" "slab_at m2 base2 t tbl2 its2" "length its1 = length its2"
  shows "length its1 = i + n \<Longrightarrow>
     slab_equal_loop m1 m2 n (base1 + item_off its1 i) (base2 + item_off its2 i) =
       Some (drop i (stored its1) = drop i (stored its2))"
proof (induction n arbitrary: i)
  case (Suc n)
  have i: "i < length its1" "i < length its2" using Suc.prems assms(3) by simp_all
  let ?p = "stored its1 ! i" and ?q = "stored its2 ! i"
  have dr: "drop i (stored its1) = ?p # drop (Suc i) (stored its1)"
    "drop i (stored its2) = ?q # drop (Suc i) (stored its2)"
    using i by (simp_all add: Cons_nth_drop_Suc)
  have pq: "snd (its1 ! i) = ?p" "snd (its2 ! i) = ?q" using i by (simp_all add: stored_def)
  have blk: "mem_blk m (base + item_off its i + 4) (length (snd (its ! i))) = Some (snd (its ! i))"
    if sl: "slab_at m base t tbl its" and j: "i < length its" for m base tbl its
  proof -
    obtain a z where m: "m = a @ enc_item (its ! i) @ z" and a: "length a = base + item_off its i"
      and ok: "length (snd (its ! i)) < 65536" "fst (its ! i) < 65536" using slab_at_item [OF sl j] by metis
    show ?thesis unfolding m by (rule rd_enc_item [OF a [symmetric] ok])
  qed
  have off: "base1 + item_off its1 i + 4 + length ?p = base1 + item_off its1 (Suc i)"
    "base2 + item_off its2 i + 4 + length ?q = base2 + item_off its2 (Suc i)"
    using i pq by (simp_all add: item_off_Suc)
  have ih: "slab_equal_loop m1 m2 n (base1 + item_off its1 i + 4 + length ?p)
      (base2 + item_off its2 i + 4 + length ?q) =
    Some (drop (Suc i) (stored its1) = drop (Suc i) (stored its2))"
    unfolding off using Suc.IH [of "Suc i"] Suc.prems by simp
  note r = slab_rdata_at_item(2) [OF assms(1) i(1)] slab_rdata_at_item(2) [OF assms(2) i(2)]
    blk [OF assms(1) i(1)] blk [OF assms(2) i(2)]
  show ?case
  proof (cases "length ?p = length ?q")
    case True
    then show ?thesis using ih r by (simp add: dr pq memcmp_eq_0)
  next
    case False
    then show ?thesis using r by (auto simp: dr pq)
  qed
qed (use assms(3) in simp)

text \<open>
  \<open>dns_rdataslab_equal\<close> on two well-formed slabs is true exactly when they store the same payloads in
  the same order; offsets and order fields do not matter.
\<close>

lemma slab_equal_ok:
  assumes "slab_at m1 (slab1 + reservelen) t tbl1 its1" "slab_at m2 (slab2 + reservelen) t tbl2 its2"
  shows "dns_rdataslab_equal m1 slab1 m2 slab2 reservelen = Some (stored its1 = stored its2)"
proof (cases "length its1 = length its2")
  case True
  have "slab_equal_loop m1 m2 (length its1) (slab1 + reservelen + 2 + 4 * length its1)
      (slab2 + reservelen + 2 + 4 * length its2) = Some (stored its1 = stored its2)"
    unfolding item_off_start using slab_equal_loop_items [OF assms True, of 0 "length its1"] by simp
  then show ?thesis
    using slab_at_count [OF assms(1)] slab_at_count [OF assms(2)] True
    by (simp add: dns_rdataslab_equal_def)
next
  case False
  then have "stored its1 \<noteq> stored its2" by (metis length_stored)
  with False show ?thesis
    using slab_at_count [OF assms(1)] slab_at_count [OF assms(2)] by (simp add: dns_rdataslab_equal_def)
qed

lemma slab_equalx_loop_items:
  assumes "slab_at m1 base1 t tbl1 its1" "slab_at m2 base2 t tbl2 its2" "length its1 = length its2"
  shows "length its1 = i + n \<Longrightarrow>
     slab_equalx_loop sw m1 m2 c t n (base1 + item_off its1 i) (base2 + item_off its2 i)
       dns_rdata_init dns_rdata_init =
       Some (list_all2 (\<lambda>p q. rdata_order sw (rdata_of c t p) (rdata_of c t q) = 0)
         (drop i (stored its1)) (drop i (stored its2)))"
proof (induction n arbitrary: i)
  case (Suc n)
  have i: "i < length its1" "i < length its2" using Suc.prems assms(3) by simp_all
  have dr: "drop i (stored its1) = snd (its1 ! i) # drop (Suc i) (stored its1)"
    "drop i (stored its2) = snd (its2 ! i) # drop (Suc i) (stored its2)"
    using i by (simp_all add: stored_def Cons_nth_drop_Suc [symmetric])
  show ?case
    using rdata_from_slab_item [OF assms(1) i(1), of c] rdata_from_slab_item [OF assms(2) i(2), of c]
      Suc.IH [of "Suc i"] Suc.prems
    by (simp add: dns_rdata_compare_comparable rdata_order_read dr)
qed (use assms(3) in simp)

text \<open>\<open>dns_rdataslab_equalx\<close> compares the records one by one in DNSSEC order.\<close>

lemma slab_equalx_ok:
  assumes "slab_at m1 (slab1 + reservelen) t tbl1 its1" "slab_at m2 (slab2 + reservelen) t tbl2 its2"
  shows "dns_rdataslab_equalx sw m1 slab1 m2 slab2 reservelen c t =
     Some (list_all2 (\<lambda>p q. rdata_order sw (rdata_of c t p) (rdata_of c t q) = 0) (stored its1) (stored its2))"
proof (cases "length its1 = length its2")
  case True
  have "slab_equalx_loop sw m1 m2 c t (length its1) (slab1 + reservelen + 2 + 4 * length its1)
      (slab2 + reservelen + 2 + 4 * length its2) dns_rdata_init dns_rdata_init =
    Some (list_all2 (\<lambda>p q. rdata_order sw (rdata_of c t p) (rdata_of c t q) = 0) (stored its1) (stored its2))"
    unfolding item_off_start using slab_equalx_loop_items [OF assms True, of 0 "length its1"] by simp
  then show ?thesis
    using slab_at_count [OF assms(1)] slab_at_count [OF assms(2)] True
    by (simp add: dns_rdataslab_equalx_def)
next
  case False
  then have "\<not> list_all2 P (stored its1) (stored its2)" for P
    using list_all2_lengthD [of P "stored its1" "stored its2"] by auto
  with False show ?thesis
    using slab_at_count [OF assms(1)] slab_at_count [OF assms(2)] by (simp add: dns_rdataslab_equalx_def)
qed

text \<open>
  C21: On two well-formed slabs \<open>dns_rdataslab_equal\<close> is true exactly when they store the same payloads in the
  same order, whatever their offset tables and order fields are, and \<open>dns_rdataslab_equalx\<close> exactly when they have as
  many records and these are, one by one, equal in DNSSEC order.
\<close>

theorem equality_tests_correct:
  assumes "slab_at m1 (slab1 + reservelen) t tbl1 its1" "slab_at m2 (slab2 + reservelen) t tbl2 its2"
  shows "dns_rdataslab_equal m1 slab1 m2 slab2 reservelen = Some (stored its1 = stored its2) \<and>
    dns_rdataslab_equalx sw m1 slab1 m2 slab2 reservelen c t =
      Some (list_all2 (\<lambda>p q. rdata_order sw (rdata_of c t p) (rdata_of c t q) = 0) (stored its1) (stored its2))"
  using slab_equal_ok [OF assms] slab_equalx_ok [OF assms] by blast


section \<open>Examples\<close>

text \<open>A slab with two A records behind three reserved bytes.\<close>

definition ex_its :: "item list" where
  "ex_its = [(1, [10, 0, 0, 1]), (0, [10, 0, 0, 2])]"

definition ex_tbl :: "nat list" where
  "ex_tbl = [18, 10]"

definition ex_slab :: mem where
  "ex_slab = lay [0, 0, 0] ex_tbl ex_its [7]"

lemma ex_slab_at: "slab_at ex_slab 3 1 ex_tbl ex_its"
proof -
  have "wf_items 1 ex_tbl ex_its"
    by (simp add: wf_items_def ex_tbl_def ex_its_def payload_ok_def dns_rdatatype_rrsig_def
        length_slab_body item_off_def less_Suc_eq)
  moreover have "length [0, 0, 0 :: u8] = 3" by simp
  ultimately show ?thesis unfolding slab_at_def ex_slab_def by blast
qed

lemma ex_slab_ascending: "strictly_ascending (rdata_order ex_sw) (map (rdata_of 1 1) (stored ex_its))"
  by code_simp

theorem size_correct_witness: "dns_rdataslab_size ex_slab 0 3 = Some 29"
  using size_correct [of ex_slab 0 3 1 ex_tbl ex_its] ex_slab_at
  by (simp add: length_slab_body ex_tbl_def ex_its_def)

theorem rdata_in_slab_correct_witness:
  "rdata_in_slab ex_sw ex_slab 0 3 1 1 (ex_a [10, 0, 0, 2]) = Some True \<and>
   rdata_in_slab ex_sw ex_slab 0 3 1 1 (ex_a [10, 0, 0, 0]) = Some False"
proof -
  have c: "comparable (ex_a bs)" for bs by (simp add: comparable_def ex_a_def)
  have "(\<exists>p \<in> set (stored ex_its). rdata_order ex_sw (rdata_of 1 1 p) (ex_a [10, 0, 0, 2]) = 0)"
    "\<not> (\<exists>p \<in> set (stored ex_its). rdata_order ex_sw (rdata_of 1 1 p) (ex_a [10, 0, 0, 0]) = 0)"
    by code_simp+
  then show ?thesis
    using rdata_in_slab_correct [of ex_slab 0 3 1 ex_tbl ex_its ex_sw 1] ex_slab_at ex_slab_ascending c
      ex_assms(1) by simp
qed

theorem equality_tests_correct_witness:
  "dns_rdataslab_equal ex_slab 0 ex_slab 0 3 = Some True \<and> dns_rdataslab_equalx ex_sw ex_slab 0 ex_slab 0 3 1 1 = Some True"
proof -
  have "list_all2 (\<lambda>p q. rdata_order ex_sw (rdata_of 1 1 p) (rdata_of 1 1 q) = 0) (stored ex_its) (stored ex_its)"
    by code_simp
  then show ?thesis
    using equality_tests_correct [of ex_slab 0 3 1 ex_tbl ex_its ex_slab 0 ex_tbl ex_its ex_sw 1] ex_slab_at by simp
qed

end
