(* ===== verification/Float32.thy ===== *)
theory Float32
  imports Prelude
begin

text \<open>
  The C type \<^verbatim>\<open>float\<close> (IEEE 754 binary32, rounding to nearest, ties to even), as far as
  \<^verbatim>\<open>bin/named/profiler.c\<close> uses it: loads from memory, multiplication, addition, subtraction and the
  conversion to \<^verbatim>\<open>int\<close>.

  A finite value is represented by the integer that it is a multiple of $2^{-149}$, the least positive
  \<^verbatim>\<open>float\<close>.  The two zeros are one value: nothing that the program does tells them apart.
\<close>

section \<open>Values and rounding\<close>

datatype f32 = NaN | Inf bool | Fin int

definition f32_of_bits :: "u32 \<Rightarrow> f32" where
  "f32_of_bits w =
     (let n = unat w; neg = n div 2147483648 = 1; e = n div 8388608 mod 256; f = n mod 8388608;
          v = (if e = 0 then int f else int (8388608 + f) * 2 ^ (e - 1))
      in if e = 255 then (if f = 0 then Inf neg else NaN) else Fin (if neg then - v else v))"

text \<open>The number of binary digits.\<close>

fun bitlen :: "nat \<Rightarrow> nat" where
  "bitlen n = (if n = 0 then 0 else Suc (bitlen (n div 2)))"

declare bitlen.simps [simp del]

text \<open>
  The magnitude of the \<^verbatim>\<open>float\<close> next to \<open>a / 2 ^ k\<close> when the exponent is not bounded above: the
  significand has 24 digits, and its unit is at least $1$ (the least positive \<^verbatim>\<open>float\<close>).
\<close>

definition round_mag :: "nat \<Rightarrow> nat \<Rightarrow> nat" where
  "round_mag a k =
     (let e = bitlen a - (24 + k); u = 2 ^ (k + e); q = a div u; r = a mod u
      in (if 2 * r > u \<or> (2 * r = u \<and> odd q) then q + 1 else q) * 2 ^ e)"

definition f32_round :: "int \<Rightarrow> nat \<Rightarrow> f32" where
  "f32_round n k =
     (let v = round_mag (nat \<bar>n\<bar>) k
      in if v \<ge> 2 ^ 277 then Inf (n < 0) else Fin (if n < 0 then - int v else int v))"

fun f32_neg :: "f32 \<Rightarrow> f32" where
  "f32_neg NaN = NaN"
| "f32_neg (Inf s) = Inf (\<not> s)"
| "f32_neg (Fin v) = Fin (- v)"

fun f32_add :: "f32 \<Rightarrow> f32 \<Rightarrow> f32" where
  "f32_add NaN b = NaN"
| "f32_add a NaN = NaN"
| "f32_add (Inf s) (Inf t) = (if s = t then Inf s else NaN)"
| "f32_add (Inf s) (Fin v) = Inf s"
| "f32_add (Fin v) (Inf s) = Inf s"
| "f32_add (Fin v) (Fin w) = f32_round (v + w) 0"

definition f32_sub :: "f32 \<Rightarrow> f32 \<Rightarrow> f32" where
  "f32_sub a b = f32_add a (f32_neg b)"

fun f32_mul :: "f32 \<Rightarrow> f32 \<Rightarrow> f32" where
  "f32_mul NaN b = NaN"
| "f32_mul a NaN = NaN"
| "f32_mul (Inf s) (Inf t) = Inf (s \<noteq> t)"
| "f32_mul (Inf s) (Fin v) = (if v = 0 then NaN else Inf (s \<noteq> (v < 0)))"
| "f32_mul (Fin v) (Inf s) = (if v = 0 then NaN else Inf (s \<noteq> (v < 0)))"
| "f32_mul (Fin v) (Fin w) = f32_round (v * w) 149"

text \<open>Conversion to \<^verbatim>\<open>int\<close> drops the fraction; it is undefined when the rest does not fit.\<close>

fun f32_to_int :: "f32 \<Rightarrow> int option" where
  "f32_to_int (Fin v) =
     (let t = sgn v * (\<bar>v\<bar> div 2 ^ 149) in if - 2147483648 \<le> t \<and> t < 2147483648 then Some t else None)"
| "f32_to_int _ = None"

text \<open>The \<^verbatim>\<open>float\<close> with the integral value \<open>n\<close>, for small \<open>n\<close>.\<close>

definition f32_nat :: "nat \<Rightarrow> f32" where
  "f32_nat n = Fin (int n * 2 ^ 149)"

section \<open>Facts about rounding\<close>

lemma bitlen_0 [simp]: "bitlen 0 = 0"
  by (simp add: bitlen.simps)

lemma bitlen_bounds: "0 < n \<Longrightarrow> 2 ^ (bitlen n - 1) \<le> n \<and> n < 2 ^ bitlen n \<and> 0 < bitlen n"
proof (induction n rule: bitlen.induct)
  case (1 n)
  show ?case
  proof (cases "n = 1")
    case True
    then show ?thesis by (simp add: bitlen.simps)
  next
    case False
    with "1.prems" have n: "0 < n div 2" "n \<noteq> 0" by auto
    have ih: "2 ^ (bitlen (n div 2) - 1) \<le> n div 2" "n div 2 < 2 ^ bitlen (n div 2)" "0 < bitlen (n div 2)"
      using "1.IH" [OF n(2,1)] by auto
    have "bitlen n = Suc (bitlen (n div 2))" using n(2) by (simp add: bitlen.simps [of n])
    moreover have "(2 :: nat) ^ bitlen (n div 2) = 2 * 2 ^ (bitlen (n div 2) - 1)"
      using ih(3) by (cases "bitlen (n div 2)") auto
    moreover have "2 * (n div 2) \<le> n" "n < 2 * (n div 2) + 2" by presburger+
    ultimately have "2 ^ bitlen (n div 2) \<le> n" "n < 2 * 2 ^ bitlen (n div 2)"
      using ih by linarith+
    with \<open>bitlen n = Suc (bitlen (n div 2))\<close> show ?thesis by simp
  qed
qed

lemma bitlen_le: "n < 2 ^ m \<Longrightarrow> bitlen n \<le> m"
proof (rule ccontr)
  assume a: "n < 2 ^ m" "\<not> bitlen n \<le> m"
  then have "0 < n" by (cases "n = 0") auto
  then have "2 ^ (bitlen n - 1) \<le> n" using bitlen_bounds by blast
  moreover have "(2 :: nat) ^ m \<le> 2 ^ (bitlen n - 1)" using a by (intro power_increasing) auto
  ultimately show False using a(1) by linarith
qed

lemma round_mag_0 [simp]: "round_mag 0 k = 0"
  by (simp add: round_mag_def Let_def)

text \<open>Rounding stays between powers of two.\<close>

lemma round_mag_upper:
  assumes "a < 2 ^ (m + k)"
  shows "round_mag a k \<le> 2 ^ m"
proof -
  define e where "e = bitlen a - (24 + k)"
  define q where "q = a div 2 ^ (k + e)"
  have b: "bitlen a \<le> m + k" by (rule bitlen_le) (rule assms)
  have v: "round_mag a k \<le> (q + 1) * 2 ^ e"
    unfolding round_mag_def Let_def e_def [symmetric] q_def [symmetric] by simp
  show ?thesis
  proof (cases "e \<le> m")
    case True
    have "(2::nat) ^ (m + k) = 2 ^ (m - e) * 2 ^ (k + e)" using True by (simp flip: power_add)
    then have "q < 2 ^ (m - e)" unfolding q_def using assms by (simp add: less_mult_imp_div_less)
    then have "(q + 1) * 2 ^ e \<le> 2 ^ (m - e) * 2 ^ e" by (intro mult_right_mono) auto
    also have "\<dots> = 2 ^ m" using True by (simp flip: power_add)
    finally show ?thesis using v by simp
  next
    case False
    then have "e = 0" using b by (simp add: e_def)
    with False show ?thesis by simp
  qed
qed

lemma round_mag_lower:
  assumes "2 ^ (m + k) \<le> a"
  shows "2 ^ m \<le> round_mag a k"
proof -
  define e where "e = bitlen a - (24 + k)"
  define q where "q = a div 2 ^ (k + e)"
  have a0: "0 < a" using assms by (metis gr_zeroI not_le zero_less_numeral zero_less_power)
  note bb = bitlen_bounds [OF a0]
  have v: "q * 2 ^ e \<le> round_mag a k"
    unfolding round_mag_def Let_def e_def [symmetric] q_def [symmetric] by simp
  define b where "b = bitlen a - 1"
  have b: "2 ^ b \<le> a" "a < 2 ^ (b + 1)" using bb by (auto simp: b_def)
  have mb: "m + k \<le> b"
  proof (rule ccontr)
    assume "\<not> m + k \<le> b"
    then have "(2::nat) ^ (b + 1) \<le> 2 ^ (m + k)" by (intro power_increasing) auto
    with assms b(2) show False by linarith
  qed
  have eb: "e \<le> b - k" using bb by (simp add: e_def b_def)
  then have "k + e \<le> b" using mb by simp
  then have "(2::nat) ^ b = 2 ^ (b - k - e) * 2 ^ (k + e)" by (simp flip: power_add)
  then have "2 ^ (b - k - e) \<le> q" unfolding q_def using b(1)
    by (metis div_le_mono nonzero_mult_div_cancel_right power_not_zero zero_neq_numeral)
  then have "2 ^ (b - k - e) * 2 ^ e \<le> q * 2 ^ e" by simp
  moreover have "(2::nat) ^ (b - k - e) * 2 ^ e = 2 ^ (b - k)" using eb by (simp flip: power_add)
  moreover have "(2::nat) ^ m \<le> 2 ^ (b - k)" using mb by (intro power_increasing) auto
  ultimately show ?thesis using v by linarith
qed

lemma f32_round_uminus: "f32_round (- n) k = f32_neg (f32_round n k)"
  by (simp add: f32_round_def Let_def)

lemma f32_to_int_neg:
  "f32_to_int a = Some i \<Longrightarrow> i \<noteq> - 2147483648 \<Longrightarrow> f32_to_int (f32_neg a) = Some (- i)"
  by (cases a) (auto simp: Let_def split: if_splits)

lemma f32_sub_swap: "f32_sub b a = f32_neg (f32_sub a b)"
proof (cases "\<exists>v w. a = Fin v \<and> b = Fin w")
  case True
  then obtain v w where "a = Fin v" "b = Fin w" by auto
  then show ?thesis using f32_round_uminus [of "v - w" 0] by (simp add: f32_sub_def)
next
  case False
  then show ?thesis by (cases a; cases b) (auto simp: f32_sub_def)
qed

text \<open>A value with at most 24 significant digits is not rounded.\<close>

lemma round_mag_exact:
  assumes "c < 2 ^ 24"
  shows "round_mag (c * 2 ^ (m + k)) k = c * 2 ^ m"
proof -
  define e where "e = bitlen (c * 2 ^ (m + k)) - (24 + k)"
  have "c * 2 ^ (m + k) < 2 ^ (24 + (m + k))" unfolding power_add [of 2 24] by (rule mult_strict_right_mono) (use assms in auto)
  then have "bitlen (c * 2 ^ (m + k)) \<le> 24 + (m + k)" by (rule bitlen_le)
  then have em: "e \<le> m" by (simp add: e_def)
  then have eq: "c * 2 ^ (m + k) = (c * 2 ^ (m - e)) * 2 ^ (k + e)" by (simp flip: power_add)
  have "c * 2 ^ (m + k) div 2 ^ (k + e) = c * 2 ^ (m - e)" "c * 2 ^ (m + k) mod 2 ^ (k + e) = 0"
    unfolding eq by simp_all
  moreover have "c * 2 ^ (m - e) * 2 ^ e = c * 2 ^ m" using em by (simp flip: power_add)
  ultimately show ?thesis by (simp add: round_mag_def Let_def e_def [symmetric])
qed

lemma f32_round_exact:
  assumes "c < 2 ^ 24" "m < 250"
  shows "f32_round (int c * 2 ^ (m + k)) k = Fin (int c * 2 ^ m)"
proof -
  have "c * 2 ^ m < 2 ^ 24 * 2 ^ m" using assms(1) by simp
  also have "(2 :: nat) ^ 24 * 2 ^ m = 2 ^ (24 + m)" by (simp only: power_add)
  also have "\<dots> \<le> (2 :: nat) ^ 277" by (rule power_increasing) (use assms(2) in simp_all)
  finally have "\<not> 2 ^ 277 \<le> c * 2 ^ m" by linarith
  moreover have "\<bar>int c * 2 ^ (m + k)\<bar> = int (c * 2 ^ (m + k))" by (simp add: abs_mult)
  ultimately show ?thesis
    unfolding f32_round_def Let_def by (simp add: round_mag_exact [OF assms(1)] del: of_nat_mult of_nat_power)
      (simp add: not_less)
qed

lemma f32_round_pow2: "m < 250 \<Longrightarrow> f32_round (2 ^ (m + k)) k = Fin (2 ^ m)"
  using f32_round_exact [of 1 m k] by simp

lemma f32_round_0: "f32_round 0 k = Fin 0"
  by (simp add: f32_round_def)

end
