(* ===== verification/Slab_Balance.thy ===== *)
theory Slab_Balance
  imports Slab_Read Float32
begin

text \<open>
  What lb-bind adds to \<^verbatim>\<open>lib/dns/rdataslab.c\<close>: \<open>dns_rdataslab_transformrdataset\<close> rewrites a slab in place
  and records the offset of each rdata in the profiler's array, and \<open>dns_rdataslab_sort_fromrdataset\<close>
  permutes the offset table of a slab into the order of that array.

  The functions change the memory object of the slab, so they return it.
\<close>

section \<open>Definitions\<close>

text \<open>\<^verbatim>\<open>ns_profiler_a_node_t\<close> of \<^verbatim>\<open>lib/dns/include/dns/types.h\<close>.\<close>

record a_node =
  in_addr :: nat
  offset :: nat
  cpu_load :: f32
  io_load :: f32
  net_load :: f32

text \<open>The loop of the sorter: \<open>i\<close> counts up from 0, \<open>n\<close> are the iterations left.\<close>

fun sort_fromrdataset_loop :: "mem \<Rightarrow> nat \<Rightarrow> a_node list \<Rightarrow> nat \<Rightarrow> nat \<Rightarrow> mem option" where
  "sort_fromrdataset_loop m base addr_stats i 0 = Some m"
| "sort_fromrdataset_loop m base addr_stats i (Suc n) =
     (if i < length addr_stats then
        do { m1 \<leftarrow> mem_wr m (base + 2 + i * 4) (put32 (offset (addr_stats ! i)));
             m2 \<leftarrow> mem_wr m1 (base + offset (addr_stats ! i) + 2) (put16 i);
             sort_fromrdataset_loop m2 base addr_stats (Suc i) n }
      else None)"

definition dns_rdataslab_sort_fromrdataset ::
    "mem \<Rightarrow> dns_rdataset \<Rightarrow> a_node list \<Rightarrow> (isc_result \<times> mem \<times> dns_rdataset) option" where
  "dns_rdataslab_sort_fromrdataset m rdataset addr_stats =
     do { base \<leftarrow> rs_private3 rdataset;
          nitems \<leftarrow> rd16 m base;
          m' \<leftarrow> sort_fromrdataset_loop m base addr_stats 0 nitems;
          Some (ISC_R_SUCCESS, m', rdataset\<lparr>rs_privateuint4 := 0, rs_private5 := None\<rparr>) }"

text \<open>
  The transformation.  \<open>malloc\<close> is the allocator, its requests numbered as in the code: the array, a copy
  of each rdata, the table.  The results of \<open>malloc\<close> are used unchecked: copying to, or writing through a
  null pointer is undefined.  A copy of no bytes may have a null pointer, and then is not written.
\<close>

fun copy_rdatas ::
    "('r \<Rightarrow> dns_rdata \<Rightarrow> dns_rdata option) \<Rightarrow> ('r \<Rightarrow> (isc_result \<times> 'r) option) \<Rightarrow> mctx \<Rightarrow>
     nat \<Rightarrow> isc_result \<Rightarrow> 'r \<Rightarrow> xrdata list \<Rightarrow> (isc_result \<times> 'r \<times> xrdata list) option" where
  "copy_rdatas current nxt malloc 0 result r x = Some (result, r, x)"
| "copy_rdatas current nxt malloc (Suc n) result r x =
     (if result = ISC_R_SUCCESS
      then do { tmp_rdata \<leftarrow> current r dns_rdata_init;
                data \<leftarrow> (case malloc (Suc (length x)) (rd_length tmp_rdata) of
                            None \<Rightarrow> if rd_length tmp_rdata = 0 then Some None else None
                          | Some _ \<Rightarrow> Some (Some (rd_bytes tmp_rdata)));
                (result', r') \<leftarrow> nxt r;
                copy_rdatas current nxt malloc n result' r'
                  (x @ [\<lparr>x_rdata = \<lparr>rd_data = data, rd_class = rd_class tmp_rdata,
                                      rd_type = rd_type tmp_rdata, rd_flags = rd_flags tmp_rdata\<rparr>,
                         x_order = length x\<rparr>]) }
      else Some (result, r, x))"

fun transform_write ::
    "nat \<Rightarrow> nat \<Rightarrow> xrdata list \<Rightarrow> nat \<Rightarrow> mem \<Rightarrow> nat \<Rightarrow> nat list \<Rightarrow> a_node list \<Rightarrow>
     (mem \<times> nat list \<times> a_node list) option" where
  "transform_write type offsetbase [] i m rawbuf offsettable addr_stats =
     Some (m, offsettable, addr_stats)"
| "transform_write type offsetbase (e # x) i m rawbuf offsettable addr_stats =
     (if rd_data (x_rdata e) = None
      then transform_write type offsetbase x (Suc i) m rawbuf offsettable addr_stats
      else if i \<ge> length offsettable \<or> i \<ge> length addr_stats then None
      else do { (m', rawbuf') \<leftarrow> put_rdata type m rawbuf (x_rdata e);
                transform_write type offsetbase x (Suc i) m' rawbuf'
                  (offsettable[i := u32_of (rawbuf - offsetbase)])
                  (addr_stats[i := (addr_stats ! i)\<lparr>offset := u32_of (rawbuf - offsetbase)\<rparr>]) })"

definition transform_store ::
    "mctx \<Rightarrow> mem \<Rightarrow> dns_rdataset \<Rightarrow> nat \<Rightarrow> xrdata list \<Rightarrow> a_node list \<Rightarrow>
     (isc_result \<times> mem \<times> dns_rdataset \<times> a_node list) option" where
  "transform_store malloc m rdataset nitems x addr_stats =
     do { rawbuf \<leftarrow> rs_private3 rdataset;
          _ \<leftarrow> malloc (Suc nitems) (nitems * sizeof_uint);
          m1 \<leftarrow> mem_wr m rawbuf (put16 nitems);
          (m2, offsettable, addr_stats') \<leftarrow>
            transform_write (rs_type rdataset) rawbuf x 0 m1 (rawbuf + 2 + nitems * 4)
              (replicate nitems 0) addr_stats;
          m3 \<leftarrow> fillin_offsets m2 rawbuf offsettable;
          Some (ISC_R_SUCCESS, m3,
                rdataset\<lparr>rs_methods := Some Rdataslab_methods, rs_privateuint4 := 0,
                         rs_private5 := None\<rparr>, addr_stats') }"

definition dns_rdataslab_transformrdataset ::
    "bool \<Rightarrow> mctx \<Rightarrow> mem \<Rightarrow> dns_rdataset \<Rightarrow> a_node list \<Rightarrow>
     (isc_result \<times> mem \<times> dns_rdataset \<times> a_node list) option" where
  "dns_rdataslab_transformrdataset lb malloc m rdataset addr_stats =
     do { nitems \<leftarrow> dns_rdataset_count lb m rdataset;
          if nitems = 0 then Some (ISC_R_SUCCESS, m, rdataset, addr_stats)
          else do {
            (result1, r1) \<leftarrow> dns_rdataset_first lb m rdataset;
            if result1 \<noteq> ISC_R_SUCCESS \<and> result1 \<noteq> ISC_R_NOMORE
            then Some (result1, m, r1, addr_stats)
            else do {
              _ \<leftarrow> (if result1 = ISC_R_SUCCESS then malloc 0 (nitems * sizeof_xrdata) else Some []);
              (result2, r2, x) \<leftarrow> copy_rdatas (dns_rdataset_current lb m) (dns_rdataset_next lb m) malloc
                                    nitems result1 r1 [];
              if result2 \<noteq> ISC_R_NOMORE then Some (result2, m, r2, addr_stats)
              else if length x \<noteq> nitems then Some (ISC_R_FAILURE, m, r2, addr_stats)
              else transform_store malloc m r2 nitems x addr_stats } } }"

section \<open>The sorter\<close>

lemma sort_loop_fillin:
  assumes "0 \<notin> set (map offset ns)"
  shows "i + n = length ns \<Longrightarrow>
     sort_fromrdataset_loop m base ns i n = fillin_offsets_loop m base (map offset (drop i ns)) i"
proof (induction n arbitrary: i m)
  case (Suc n)
  have i: "i < length ns" using Suc.prems by simp
  then have "offset (ns ! i) \<noteq> 0" using assms by (metis length_map nth_map nth_mem)
  moreover have "drop i ns = ns ! i # drop (Suc i) ns" using i by (simp add: Cons_nth_drop_Suc)
  moreover have eq: "base + 2 + i * 4 = base + (i * 4 + 2)" by simp
  ultimately show ?case unfolding sort_fromrdataset_loop.simps eq using Suc i by simp
qed simp

text \<open>
  The offsets of the array are those of the records, in some order: what \<open>transformrdataset\<close>
  establishes and sorting the array keeps.
\<close>

definition offsets_of :: "item list \<Rightarrow> a_node list \<Rightarrow> bool" where
  "offsets_of its ns \<longleftrightarrow> mset (map offset ns) = mset (map (item_off its) [0..<length its])"

lemma offsets_ofE:
  assumes "offsets_of its ns"
  obtains \<sigma> where "distinct \<sigma>" "set \<sigma> = {..<length its}" "map offset ns = map (item_off its) \<sigma>"
proof -
  define \<sigma> where "\<sigma> = map (inv_into {..<length its} (item_off its)) (map offset ns)"
  have inj: "inj_on (item_off its) {..<length its}" by (rule inj_onI) (simp add: item_off_inj)
  have set: "set (map offset ns) = item_off its ` {..<length its}"
    using mset_eq_setD [OF assms [unfolded offsets_of_def]] by (simp add: atLeast0LessThan)
  have "mset \<sigma> = image_mset (inv_into {..<length its} (item_off its)) (mset (map offset ns))"
    unfolding \<sigma>_def by (rule mset_map)
  also have "\<dots> = mset (map (\<lambda>i. inv_into {..<length its} (item_off its) (item_off its i)) [0..<length its])"
    unfolding assms [unfolded offsets_of_def] by (simp flip: mset_map add: comp_def)
  also have "map (\<lambda>i. inv_into {..<length its} (item_off its) (item_off its i)) [0..<length its] = [0..<length its]"
    by (rule map_idI) (simp add: inv_into_f_f [OF inj])
  finally have perm: "mset \<sigma> = mset [0..<length its]" .
  have "set \<sigma> = {..<length its}" using mset_eq_setD [OF perm] by (simp add: atLeast0LessThan)
  moreover have "distinct \<sigma>" using mset_eq_imp_distinct_iff [OF perm] by simp
  moreover have "item_off its (inv_into {..<length its} (item_off its) (offset x)) = offset x" if "x \<in> set ns" for x
    using set that by (intro f_inv_into_f) auto
  then have "map offset ns = map (item_off its) \<sigma>" by (simp add: \<sigma>_def)
  ultimately show thesis using that by blast
qed


lemma sort_fromrdataset_ok:
  assumes "rs_private3 rdataset = Some base" "slab_at m base t tbl its" "offsets_of its ns"
  shows "\<exists>m' its'.
     dns_rdataslab_sort_fromrdataset m rdataset ns =
       Some (ISC_R_SUCCESS, m', rdataset\<lparr>rs_privateuint4 := 0, rs_private5 := None\<rparr>) \<and>
     slab_at m' base t (map offset ns) its' \<and> stored its' = stored its \<and>
     (\<forall>k < length its. \<forall>i < length its. offset (ns ! k) = item_off its i \<longrightarrow> listed its' ! k = stored its ! i) \<and>
     take base m' = take base m \<and>
     drop (base + length (slab_body tbl its)) m' = drop (base + length (slab_body tbl its)) m"
proof -
  obtain pre post where m: "m = lay pre tbl its post" "length pre = base" and wf: "wf_items t tbl its"
    using assms(2) by (auto simp: slab_at_def)
  note d = wf_itemsD [OF wf]
  obtain \<sigma> where \<sigma>: "distinct \<sigma>" "set \<sigma> = {..<length its}" "map offset ns = map (item_off its) \<sigma>"
    by (rule offsets_ofE [OF assms(3)])
  have "length \<sigma> = length its" using distinct_card [OF \<sigma>(1)] \<sigma>(2) by simp
  moreover have "length ns = length \<sigma>" using \<sigma>(3) by (metis length_map)
  ultimately have len: "length \<sigma> = length its" "length ns = length its" by simp_all
  let ?its = "set_orders its \<sigma> 0"
  let ?m = "lay pre (map (item_off its) \<sigma>) ?its post"
  have "0 \<notin> set (map offset ns)" unfolding \<sigma>(3) using item_off_pos [of its] by auto
  from sort_loop_fillin [OF this, of 0 "length ns" m base]
  have "sort_fromrdataset_loop m base ns 0 (length its) = fillin_offsets m base (map (item_off its) \<sigma>)"
    using \<sigma>(3) len by (simp add: fillin_offsets_def)
  also have "\<dots> = Some ?m"
    unfolding m(1) m(2) [symmetric]
  proof (rule fillin_offsets_lay [OF d(1) _ len(1)])
    show "filter (\<lambda>x. x \<noteq> 0) (map (item_off its) \<sigma>) = map (item_off its) \<sigma>"
      by (rule filter_True) (simp add: item_off_pos)
  qed (simp add: \<sigma>(2))
  finally have run: "dns_rdataslab_sort_fromrdataset m rdataset ns =
      Some (ISC_R_SUCCESS, ?m, rdataset\<lparr>rs_privateuint4 := 0, rs_private5 := None\<rparr>)"
    using assms(1) slab_at_count [OF assms(2)] by (simp add: dns_rdataslab_sort_fromrdataset_def)
  have "wf_items t (map (item_off its) \<sigma>) ?its"
  proof (rule wf_set_orders [OF \<sigma>(1,2) d(2)])
    show "\<forall>p \<in> set (stored its). payload_ok t p" using wf by (auto simp: wf_items_def stored_def)
    have "length (slab_body tbl its) = 2 + (\<Sum>p \<leftarrow> stored its. 8 + length p)"
      using d(1) by (simp add: length_slab_body length_enc_items sum_list_addf sum_list_triv)
    then show "2 + (\<Sum>p \<leftarrow> stored its. 8 + length p) < 4294967296" using wf by (simp add: wf_items_def)
  qed
  then have "slab_at ?m base t (map offset ns) ?its" using m(2) \<sigma>(3) by (auto simp: slab_at_def)
  moreover have "listed ?its ! k = stored its ! i"
    if "k < length its" "i < length its" "offset (ns ! k) = item_off its i" for k i
  proof -
    have "\<sigma> ! k < length its" using that(1) \<sigma>(2) len by (metis lessThan_iff nth_mem)
    moreover have "item_off its (\<sigma> ! k) = item_off its i"
      using that len by (metis \<sigma>(3) nth_map)
    ultimately have "\<sigma> ! k = i" using item_off_inj that(2) by blast
    then show ?thesis
      using that len by (simp add: listed_set_orders [OF \<sigma>(1,2)] stored_def)
  qed
  moreover have "take base ?m = take base m" using m by (simp add: lay_def)
  moreover have "length (slab_body (map (item_off its) \<sigma>) ?its) = length (slab_body tbl its)"
    using d(1) len by (simp add: length_slab_body length_enc_items)
  then have "drop (base + length (slab_body tbl its)) ?m = drop (base + length (slab_body tbl its)) m"
    using m by (simp add: lay_def)
  ultimately show ?thesis using run by auto
qed

text \<open>
  C4: On a well-formed slab and an array with the offsets of its records, in whatever order,
  \<open>dns_rdataslab_sort_fromrdataset\<close> stays inside of the slab and makes the offset table the array's order:
  afterwards the slab is well-formed, stores the same payloads, and lists at position \<open>k\<close> the record
  whose offset the \<open>k\<close>-th element of the array has.  Nothing outside of the slab changes.
\<close>

theorem sort_fromrdataset_correct:
  assumes "rs_private3 rdataset = Some base" "slab_at m base t tbl its" "offsets_of its ns"
  shows "\<exists>m' its'.
     dns_rdataslab_sort_fromrdataset m rdataset ns =
       Some (ISC_R_SUCCESS, m', rdataset\<lparr>rs_privateuint4 := 0, rs_private5 := None\<rparr>) \<and>
     slab_at m' base t (map offset ns) its' \<and> stored its' = stored its \<and>
     (\<forall>k < length its. \<forall>i < length its. offset (ns ! k) = item_off its i \<longrightarrow> listed its' ! k = stored its ! i) \<and>
     take base m' = take base m \<and>
     drop (base + length (slab_body tbl its)) m' = drop (base + length (slab_body tbl its)) m"
  by (rule sort_fromrdataset_ok [OF assms])

section \<open>The transformation\<close>

text \<open>Copying an rdata that has data changes nothing.\<close>

definition copied :: "xrdata \<Rightarrow> xrdata" where
  "copied e = e\<lparr>x_rdata := (x_rdata e)\<lparr>rd_data := Some (rd_bytes (x_rdata e))\<rparr>\<rparr>"

lemma copied_id: "has_data e \<Longrightarrow> copied e = e"
  by (cases e) (auto simp: copied_def has_data_def rd_bytes_def)

lemma copied_make: "copied \<lparr>x_rdata = d, x_order = k\<rparr> =
    \<lparr>x_rdata = \<lparr>rd_data = Some (rd_bytes d), rd_class = rd_class d, rd_type = rd_type d, rd_flags = rd_flags d\<rparr>,
     x_order = k\<rparr>"
  by (cases d) (simp add: copied_def)

lemma copy_rdatas_collect:
  assumes "\<forall>k n. malloc k n \<noteq> None"
  shows "copy_rdatas current nxt malloc n res r (map copied x) =
     map_option (\<lambda>(res', r', x'). (res', r', map copied x')) (collect_rdatas current nxt n res r x)"
proof (induction n arbitrary: res r x)
  case (Suc n)
  have malloc: "(case malloc k l of None \<Rightarrow> a | Some z \<Rightarrow> b) = b" for k l and a b :: "'z"
    using assms [rule_format, of k l] by (cases "malloc k l") auto
  show ?case
  proof (cases "res = ISC_R_SUCCESS")
    case True
    have step: "copy_rdatas current nxt malloc n res' r' (map copied x @ [\<lparr>x_rdata =
          \<lparr>rd_data = Some (rd_bytes d), rd_class = rd_class d, rd_type = rd_type d, rd_flags = rd_flags d\<rparr>,
          x_order = length x\<rparr>]) =
        map_option (\<lambda>(res', r', x'). (res', r', map copied x'))
          (collect_rdatas current nxt n res' r' (x @ [\<lparr>x_rdata = d, x_order = length x\<rparr>]))" for d res' r'
      using Suc.IH [of res' r' "x @ [\<lparr>x_rdata = d, x_order = length x\<rparr>]"]
      by (simp add: copied_make)
    show ?thesis
      using True by (cases "current r dns_rdata_init"; cases "nxt r") (auto simp: malloc step)
  next
    case False
    then show ?thesis by simp
  qed
qed simp

lemma write_rdatas_other:
  "write_rdatas type base x m rawbuf ot = Some (m', ot') \<Longrightarrow>
     length ot' = length ot \<and> (\<forall>j. j \<notin> x_order ` set x \<longrightarrow> ot' ! j = ot ! j)"
proof (induction x arbitrary: m rawbuf ot)
  case (Cons e x)
  show ?case
  proof (cases "rd_data (x_rdata e) = None")
    case True
    with Cons show ?thesis by auto
  next
    case False
    with Cons.prems obtain m1 raw1 where "write_rdatas type base x m1 raw1 (ot[x_order e := u32_of (rawbuf - base)]) = Some (m', ot')"
      by (auto split: if_splits bind_splits)
    from Cons.IH [OF this] show ?thesis by auto
  qed
qed auto

lemma transform_write_eq:
  "write_rdatas type base x m rawbuf ot = Some (m', ot') \<Longrightarrow>
     \<forall>k < length x. x_order (x ! k) = i + k \<and> has_data (x ! k) \<Longrightarrow> i + length x \<le> length ns \<Longrightarrow>
     transform_write type base x i m rawbuf ot ns =
       Some (m', ot', map (\<lambda>j. if i \<le> j \<and> j < i + length x then (ns ! j)\<lparr>offset := ot' ! j\<rparr> else ns ! j) [0..<length ns])"
proof (induction x arbitrary: i m rawbuf ot ns)
  case Nil
  have "ns = map (\<lambda>j. ns ! j) [0..<length ns]" by (simp add: map_nth)
  moreover have "(\<lambda>j. if i \<le> j \<and> j < i then (ns ! j)\<lparr>offset := ot' ! j\<rparr> else ns ! j) = (\<lambda>j. ns ! j)" by auto
  ultimately show ?case using Nil by simp
next
  case (Cons e x)
  have e: "x_order e = i" "rd_data (x_rdata e) \<noteq> None"
    using Cons.prems(2) by (auto simp: has_data_def)
  have ks: "\<forall>k < length x. x_order (x ! k) = Suc i + k \<and> has_data (x ! k)"
    using Cons.prems(2) by auto
  let ?ot = "ot[i := u32_of (rawbuf - base)]" and ?ns = "ns[i := (ns ! i)\<lparr>offset := u32_of (rawbuf - base)\<rparr>]"
  have "i < length ot" using Cons.prems(1) e by (simp split: if_splits)
  moreover obtain m1 raw1 where "put_rdata type m rawbuf (x_rdata e) = Some (m1, raw1)"
    using Cons.prems(1) e by (cases "put_rdata type m rawbuf (x_rdata e)") (simp_all split: if_splits prod.splits)
  ultimately have w: "i < length ot" "put_rdata type m rawbuf (x_rdata e) = Some (m1, raw1)"
    "write_rdatas type base x m1 raw1 ?ot = Some (m', ot')"
    using Cons.prems(1) e by (simp_all split: if_splits)
  have "i \<notin> x_order ` set x"
  proof
    assume "i \<in> x_order ` set x"
    then obtain k where "k < length x" "x_order (x ! k) = i" by (metis imageE in_set_conv_nth)
    with ks show False by simp
  qed
  then have oi: "ot' ! i = u32_of (rawbuf - base)" using write_rdatas_other [OF w(3)] w(1) by auto
  have "transform_write type base (e # x) i m rawbuf ot ns = transform_write type base x (Suc i) m1 raw1 ?ot ?ns"
    using w(1,2) e Cons.prems(3) by auto
  also have "\<dots> =
      Some (m', ot', map (\<lambda>j. if Suc i \<le> j \<and> j < Suc i + length x then (?ns ! j)\<lparr>offset := ot' ! j\<rparr> else ?ns ! j) [0..<length ?ns])"
    by (rule Cons.IH [OF w(3) ks]) (use Cons.prems(3) in simp)
  also have "map (\<lambda>j. if Suc i \<le> j \<and> j < Suc i + length x then (?ns ! j)\<lparr>offset := ot' ! j\<rparr> else ?ns ! j) [0..<length ?ns] =
      map (\<lambda>j. if i \<le> j \<and> j < i + length (e # x) then (ns ! j)\<lparr>offset := ot' ! j\<rparr> else ns ! j) [0..<length ns]"
  proof (rule nth_equalityI)
    fix j assume "j < length (map (\<lambda>j. if Suc i \<le> j \<and> j < Suc i + length x then (?ns ! j)\<lparr>offset := ot' ! j\<rparr> else ?ns ! j) [0..<length ?ns])"
    then show "map (\<lambda>j. if Suc i \<le> j \<and> j < Suc i + length x then (?ns ! j)\<lparr>offset := ot' ! j\<rparr> else ?ns ! j) [0..<length ?ns] ! j =
      map (\<lambda>j. if i \<le> j \<and> j < i + length (e # x) then (ns ! j)\<lparr>offset := ot' ! j\<rparr> else ns ! j) [0..<length ns] ! j"
      using oi by (cases "j = i") auto
  qed simp
  finally show ?case .
qed


text \<open>The rdata of an rdataset that lives in a slab.\<close>

lemma rds_items_slab:
  assumes "rds_valid m r" "rs_methods r = Some Rdataslab_methods \<or> rs_methods r = Some Rbtdb_methods"
    and "rs_private3 r = Some base" "slab_at m base (rs_type r) tbl its"
  obtains ps where "rds_items lb m r = map (rdata_of (rs_class r) (rs_type r)) ps" "mset ps = mset (stored its)"
proof -
  have p: "parse_slab m base = Some (tbl, its)" by (rule slab_at_parse [OF assms(4)])
  have "mset (listed its) = mset (stored its)" using assms(4) by (auto simp: slab_at_def mset_listed)
  then show thesis
    using assms(2,3) p
    by (intro that [of "if rs_methods r = Some Rbtdb_methods \<and> \<not> lb then rbtdb_view r its else listed its"])
      (auto simp: rds_items_def slab_items_def rbtdb_items_def rbtdb_view_def)
qed

lemma rdata_of_length: "payload_ok t p \<Longrightarrow> rd_length (rdata_of c t p) + rr_meta t = length p"
  by (auto simp: rd_length_def rd_bytes_def rdata_of_def rr_meta_def payload_ok_def)

lemma put_offs_upt: "length vs = n \<Longrightarrow> put_offs (replicate n 0) (zip [0..<n] vs) = vs"
proof (rule nth_equalityI)
  fix i assume n: "length vs = n" and "i < length (put_offs (replicate n 0) (zip [0..<n] vs))"
  then have i: "i < n" by simp
  have "(i, vs ! i) \<in> set (zip [0..<n] vs)" using i n by (auto simp: in_set_zip intro!: exI [of _ i])
  then have "map_of (zip [0..<n] vs) i = Some (vs ! i)" using n by (intro map_of_is_SomeI) auto
  then show "put_offs (replicate n 0) (zip [0..<n] vs) ! i = vs ! i" using i n by (simp add: nth_put_offs)
qed simp

lemma by_key_upt: "length ps = n \<Longrightarrow> by_key [0..<n] ps = ps"
proof -
  assume n: "length ps = n"
  have "sort_key fst (zip [0..<n] ps) = zip [0..<n] ps" using n by (intro sort_key_id_if_sorted) simp
  then show ?thesis using n by (simp add: by_key_def)
qed

definition renumbered :: "item list \<Rightarrow> a_node list \<Rightarrow> a_node list" where
  "renumbered its ns = map (\<lambda>j. (ns ! j)\<lparr>offset := item_off its j\<rparr>) [0..<length ns]"

lemma transform_store_ok:
  assumes "rs_private3 r = Some base" "length xs < 65536" "\<forall>d \<in> set xs. rd_data d \<noteq> None"
    and "\<forall>d \<in> set xs. rd_length d + rr_meta (rs_type r) < 65536"
    and "base + 2 + (\<Sum>d \<leftarrow> xs. 8 + rd_length d + rr_meta (rs_type r)) \<le> length m"
    and "2 + (\<Sum>d \<leftarrow> xs. 8 + rd_length d + rr_meta (rs_type r)) < 4294967296"
    and "length ns = length xs" "\<forall>k n. malloc k n \<noteq> None"
  obtains m' tbl its where
    "transform_store malloc m r (length xs) (indexed xs) ns =
       Some (ISC_R_SUCCESS, m', r\<lparr>rs_methods := Some Rdataslab_methods, rs_privateuint4 := 0, rs_private5 := None\<rparr>,
             renumbered its ns)"
    "slab_at m' base (rs_type r) tbl its" "list_all2 (payload_for (rs_type r)) xs (stored its)"
    "listed its = stored its" "take base m' = take base m"
    "drop (base + 2 + (\<Sum>d \<leftarrow> xs. 8 + rd_length d + rr_meta (rs_type r))) m' =
     drop (base + 2 + (\<Sum>d \<leftarrow> xs. 8 + rd_length d + rr_meta (rs_type r))) m"
proof -
  let ?t = "rs_type r" and ?x = "indexed xs" and ?n = "length xs"
  let ?sum = "\<Sum>d \<leftarrow> xs. 8 + rd_length d + rr_meta ?t"
  have fil: "filter has_data ?x = ?x"
    using assms(3) by (intro filter_True) (auto simp: indexed_def has_data_def)
  have ord: "map x_order ?x = [0..<?n]" by (rule nth_equalityI) simp_all
  have "map (space ?t) ?x = map (\<lambda>d. 8 + rd_length d + rr_meta ?t) xs"
    by (rule nth_equalityI) (simp_all add: space_def)
  then have sum: "(\<Sum>e \<leftarrow> ?x. space ?t e) = ?sum" by simp
  have fs: "length ?x < 65536" "length ?x = ?n" "distinct (map x_order ?x)" "\<forall>e \<in> set ?x. x_order e < ?n"
    "\<forall>e \<in> set ?x. rd_length (x_rdata e) + rr_meta ?t < 65536"
    "base + 2 + (\<Sum>e \<leftarrow> ?x. space ?t e) \<le> length m" "2 + (\<Sum>e \<leftarrow> ?x. space ?t e) < 4294967296"
    using assms(2,4-6) by (simp_all add: ord sum) (auto simp: indexed_def)
  obtain m1 m2 ot tbl its where f: "mem_wr m base (put16 ?n) = Some m1"
    "write_rdatas ?t base ?x m1 (base + 2 + ?n * 4) (replicate ?n 0) = Some (m2, ot)"
    "fillin_offsets m2 base ot = Some (lay (take base m) tbl its (drop (base + 2 + ?sum) m))"
    "wf_items ?t tbl its" "list_all2 (\<lambda>e. payload_for ?t (x_rdata e)) ?x (stored its)"
    "listed its = by_key [0..<?n] (stored its)"
    "ot = put_offs (replicate ?n 0) (zip [0..<?n] (map (item_off its) [0..<?n]))"
    "length (slab_body tbl its) = 2 + ?sum"
    by (rule fill_slab [OF fil fs, unfolded sum ord])
  have len: "length (stored its) = ?n" using list_all2_lengthD [OF f(5)] by simp
  have ot: "ot = map (item_off its) [0..<?n]" unfolding f(7) by (rule put_offs_upt) simp
  have "transform_write ?t base ?x 0 m1 (base + 2 + ?n * 4) (replicate ?n 0) ns =
      Some (m2, ot, map (\<lambda>j. if 0 \<le> j \<and> j < 0 + length ?x then (ns ! j)\<lparr>offset := ot ! j\<rparr> else ns ! j) [0..<length ns])"
    by (rule transform_write_eq [OF f(2)]) (use assms(3,7) in \<open>auto simp: has_data_def\<close>)
  also have "map (\<lambda>j. if 0 \<le> j \<and> j < 0 + length ?x then (ns ! j)\<lparr>offset := ot ! j\<rparr> else ns ! j) [0..<length ns] =
      renumbered its ns"
    using ot assms(7) by (simp add: renumbered_def)
  finally have w: "transform_write ?t base ?x 0 m1 (base + 2 + ?n * 4) (replicate ?n 0) ns =
      Some (m2, ot, renumbered its ns)" .
  obtain tab where "malloc (Suc ?n) (?n * sizeof_uint) = Some tab" using assms(8) by blast
  then have run: "transform_store malloc m r ?n ?x ns = Some (ISC_R_SUCCESS,
      lay (take base m) tbl its (drop (base + 2 + ?sum) m),
      r\<lparr>rs_methods := Some Rdataslab_methods, rs_privateuint4 := 0, rs_private5 := None\<rparr>, renumbered its ns)"
    using assms(1) f(1,3) w by (simp add: transform_store_def)
  have pl: "list_all2 (payload_for ?t) xs (stored its)"
    using f(5) len by (simp add: list_all2_conv_all_nth)
  have "listed its = stored its" unfolding f(6) by (rule by_key_upt) (rule len)
  moreover have "slab_at (lay (take base m) tbl its (drop (base + 2 + ?sum) m)) base ?t tbl its"
    using f(4) assms(5) by (auto simp: slab_at_def)
  ultimately show thesis
    by (intro that [OF run _ pl]) (use f(8) assms(5) in \<open>auto simp: lay_def\<close>)
qed

lemma transformrdataset_ok:
  assumes "rds_valid m r" "rs_methods r = Some Rdataslab_methods \<or> rs_methods r = Some Rbtdb_methods"
    and "rs_private3 r = Some base" "slab_at m base (rs_type r) tbl its" "its \<noteq> []"
    and "length ns = length its" "\<forall>k n. malloc k n \<noteq> None"
  shows "\<exists>m' r' tbl' its'.
     dns_rdataslab_transformrdataset lb malloc m r ns =
       Some (ISC_R_SUCCESS, m', r', renumbered its' ns) \<and>
     rs_methods r' = Some Rdataslab_methods \<and> rs_private3 r' = Some base \<and>
     rs_magic r' = rs_magic r \<and> rs_class r' = rs_class r \<and> rs_type r' = rs_type r \<and>
     slab_at m' base (rs_type r) tbl' its' \<and>
     list_all2 (payload_for (rs_type r)) (rds_items lb m r) (stored its') \<and>
     listed its' = stored its' \<and> offsets_of its' (renumbered its' ns) \<and>
     take base m' = take base m \<and>
     drop (base + length (slab_body tbl its)) m' = drop (base + length (slab_body tbl its)) m"
proof -
  let ?t = "rs_type r" and ?c = "rs_class r" and ?xs = "rds_items lb m r"
  obtain pre post where m: "m = lay pre tbl its post" "length pre = base" and wf: "wf_items ?t tbl its"
    using assms(4) by (auto simp: slab_at_def)
  note d = wf_itemsD [OF wf]
  obtain ps where ps: "?xs = map (rdata_of ?c ?t) ps" "mset ps = mset (stored its)"
    using rds_items_slab [OF assms(1-4)] by metis
  have ok: "\<forall>p \<in> set ps. payload_ok ?t p"
    using mset_eq_setD [OF ps(2)] wf by (auto simp: wf_items_def stored_def)
  have len: "length ?xs = length its" using mset_eq_length [OF ps(2)] by (simp add: ps(1))
  have "map (\<lambda>d. 8 + rd_length d + rr_meta ?t) ?xs = map (\<lambda>p. 8 + length p) ps"
    unfolding ps(1) map_map using ok rdata_of_length [of ?t _ ?c] by (intro map_cong) auto
  moreover have "(\<Sum>p \<leftarrow> ps. 8 + length p) = (\<Sum>p \<leftarrow> stored its. 8 + length p)"
    unfolding sum_mset_sum_list [symmetric] mset_map ps(2) ..
  ultimately have "(\<Sum>d \<leftarrow> ?xs. 8 + rd_length d + rr_meta ?t) = (\<Sum>p \<leftarrow> stored its. 8 + length p)" by simp
  then have sum: "2 + (\<Sum>d \<leftarrow> ?xs. 8 + rd_length d + rr_meta ?t) = length (slab_body tbl its)"
    using d(1) by (simp add: length_slab_body length_enc_items sum_list_addf sum_list_triv)
  obtain res r1 r2 where c: "dns_rdataset_first lb m r = Some (res, r1)"
    "res = ISC_R_SUCCESS \<or> res = ISC_R_NOMORE"
    "collect_rdatas (dns_rdataset_current lb m) (dns_rdataset_next lb m) (length ?xs) res r1 [] =
       Some (ISC_R_NOMORE, r2, indexed ?xs)"
    using rds_cursor.collect_all [OF assms(1)] by metis
  have same: "same_set r r2"
    using dns_rdataset_first_same [OF c(1)] collect_rdatas_same [OF c(3)] by (simp add: same_set_def)
  have data: "\<forall>x \<in> set ?xs. rd_data x \<noteq> None" by (simp add: ps(1) rdata_of_def)
  then have "map copied (indexed ?xs) = indexed ?xs"
    by (intro map_idI copied_id) (auto simp: indexed_def has_data_def)
  then have cp: "copy_rdatas (dns_rdataset_current lb m) (dns_rdataset_next lb m) malloc (length ?xs) res r1 [] =
      Some (ISC_R_NOMORE, r2, indexed ?xs)"
    using copy_rdatas_collect [OF assms(7), of "dns_rdataset_current lb m" "dns_rdataset_next lb m" _ res r1 "[]"]
      c(3) by simp
  have r2: "rs_private3 r2 = Some base" "rs_type r2 = ?t" "rs_magic r2 = rs_magic r" "rs_class r2 = ?c"
    using same assms(3) by (auto simp: same_set_def)
  have st2: "\<forall>d \<in> set ?xs. rd_length d + rr_meta ?t < 65536"
    unfolding ps(1) using ok by (auto simp: rdata_of_length payload_ok_def)
  have fit: "base + length (slab_body tbl its) \<le> length m" "length (slab_body tbl its) < 4294967296"
    using m wf by (simp_all add: length_lay wf_items_def)
  have st: "length ?xs < 65536" "base + 2 + (\<Sum>d \<leftarrow> ?xs. 8 + rd_length d + rr_meta ?t) \<le> length m"
    "2 + (\<Sum>d \<leftarrow> ?xs. 8 + rd_length d + rr_meta ?t) < 4294967296" "length ns = length ?xs"
    using fit sum len d(2) assms(6) by linarith+
  obtain m' tbl' its' where t:
    "transform_store malloc m r2 (length ?xs) (indexed ?xs) ns =
       Some (ISC_R_SUCCESS, m', r2\<lparr>rs_methods := Some Rdataslab_methods, rs_privateuint4 := 0, rs_private5 := None\<rparr>,
             renumbered its' ns)"
    "slab_at m' base ?t tbl' its'" "list_all2 (payload_for ?t) ?xs (stored its')"
    "listed its' = stored its'" "take base m' = take base m"
    "drop (base + 2 + (\<Sum>d \<leftarrow> ?xs. 8 + rd_length d + rr_meta ?t)) m' =
     drop (base + 2 + (\<Sum>d \<leftarrow> ?xs. 8 + rd_length d + rr_meta ?t)) m"
    by (rule transform_store_ok [OF r2(1), unfolded r2(2), OF st(1) data st2 st(2-4) assms(7)])
  obtain a where "malloc 0 (length ?xs * sizeof_xrdata) = Some a" using assms(7) by blast
  then have "dns_rdataslab_transformrdataset lb malloc m r ns = transform_store malloc m r2 (length ?xs) (indexed ?xs) ns"
    using rds_cursor.count_items [OF assms(1)] c(1,2) cp len assms(5)
    by (auto simp: dns_rdataslab_transformrdataset_def)
  moreover have "offsets_of its' (renumbered its' ns)"
    using list_all2_lengthD [OF t(3)] st(4) by (simp add: offsets_of_def renumbered_def comp_def)
  moreover have "drop (base + length (slab_body tbl its)) m' = drop (base + length (slab_body tbl its)) m"
    using t(6) sum by (simp add: add.assoc)
  ultimately show ?thesis using t r2 by auto
qed

text \<open>
  C5: \<open>dns_rdataslab_transformrdataset\<close> on an rdataset that lives in a well-formed, non-empty slab
  rewrites the slab in place without leaving it.  Afterwards the slab is well-formed, has the rdata
  in the order in which the rdataset's cursor visited them, lists them in the order in which it
  stores them, and the offset of the \<open>j\<close>-th is in the \<open>j\<close>-th element of the array, which is as
  \<open>dns_rdataslab_sort_fromrdataset\<close> wants it.  The rdataset has the slab's methods, and nothing outside
  of the slab changes.
\<close>

theorem transformrdataset_correct:
  assumes "rds_valid m r" "rs_methods r = Some Rdataslab_methods \<or> rs_methods r = Some Rbtdb_methods"
    and "rs_private3 r = Some base" "slab_at m base (rs_type r) tbl its" "its \<noteq> []"
    and "length ns = length its" "\<forall>k n. malloc k n \<noteq> None"
  shows "\<exists>m' r' tbl' its'.
     dns_rdataslab_transformrdataset lb malloc m r ns =
       Some (ISC_R_SUCCESS, m', r', renumbered its' ns) \<and>
     rs_methods r' = Some Rdataslab_methods \<and> rs_private3 r' = Some base \<and>
     rs_magic r' = rs_magic r \<and> rs_class r' = rs_class r \<and> rs_type r' = rs_type r \<and>
     slab_at m' base (rs_type r) tbl' its' \<and>
     list_all2 (payload_for (rs_type r)) (rds_items lb m r) (stored its') \<and>
     listed its' = stored its' \<and> offsets_of its' (renumbered its' ns) \<and>
     take base m' = take base m \<and>
     drop (base + length (slab_body tbl its)) m' = drop (base + length (slab_body tbl its)) m"
  by (rule transformrdataset_ok [OF assms])

section \<open>Examples\<close>

definition ex_node :: "nat \<Rightarrow> a_node" where
  "ex_node off = \<lparr>in_addr = 0, offset = off, cpu_load = Fin 0, io_load = Fin 0, net_load = Fin 0\<rparr>"

definition ex_slab_set :: dns_rdataset where
  "ex_slab_set = dns_rdataset_init\<lparr>rs_methods := Some Rdataslab_methods, rs_class := 1, rs_type := 1,
     rs_private3 := Some 3\<rparr>"

lemma ex_slab_set: "rs_private3 ex_slab_set = Some 3" "rs_type ex_slab_set = 1"
  "rs_methods ex_slab_set = Some Rdataslab_methods" "rds_valid ex_slab ex_slab_set"
  using ex_slab_at
  by (auto simp: ex_slab_set_def dns_rdataset_init_def rds_valid_def slab_valid_def)

text \<open>The array in the order 10, 18: the record at 10 comes first.\<close>

theorem sort_fromrdataset_correct_witness:
  "\<exists>m' its'. dns_rdataslab_sort_fromrdataset ex_slab ex_slab_set [ex_node 10, ex_node 18] =
       Some (ISC_R_SUCCESS, m', ex_slab_set\<lparr>rs_privateuint4 := 0, rs_private5 := None\<rparr>) \<and>
     slab_at m' 3 1 [10, 18] its' \<and> listed its' ! 0 = [10, 0, 0, 1] \<and> listed its' ! 1 = [10, 0, 0, 2]"
proof -
  have off: "item_off ex_its 0 = 10" "item_off ex_its 1 = 18" "length ex_its = 2"
    by (simp_all add: item_off_def ex_its_def)
  have "offsets_of ex_its [ex_node 10, ex_node 18]"
    using off by (simp add: offsets_of_def ex_node_def numeral_2_eq_2)
  from sort_fromrdataset_correct [OF ex_slab_set(1) ex_slab_at this] obtain m' its' where
    "dns_rdataslab_sort_fromrdataset ex_slab ex_slab_set [ex_node 10, ex_node 18] =
       Some (ISC_R_SUCCESS, m', ex_slab_set\<lparr>rs_privateuint4 := 0, rs_private5 := None\<rparr>)"
    "slab_at m' 3 1 [10, 18] its'"
    and l: "\<forall>k < length ex_its. \<forall>i < length ex_its.
      offset ([ex_node 10, ex_node 18] ! k) = item_off ex_its i \<longrightarrow> listed its' ! k = stored ex_its ! i"
    by (auto simp: ex_node_def)
  moreover have "listed its' ! 0 = stored ex_its ! 0" "listed its' ! 1 = stored ex_its ! 1"
    using l off by (simp_all add: ex_node_def)
  ultimately show ?thesis by (auto simp: stored_def ex_its_def)
qed

theorem transformrdataset_correct_witness:
  "\<exists>m' r' tbl' its'.
     dns_rdataslab_transformrdataset True ex_mctx ex_slab ex_slab_set [ex_node 0, ex_node 0] =
       Some (ISC_R_SUCCESS, m', r', renumbered its' [ex_node 0, ex_node 0]) \<and>
     slab_at m' 3 1 tbl' its' \<and> listed its' = stored its' \<and> rs_methods r' = Some Rdataslab_methods"
proof -
  have "ex_its \<noteq> []" "length [ex_node 0, ex_node 0] = length ex_its" "\<forall>k n. ex_mctx k n \<noteq> None"
    by (simp_all add: ex_its_def ex_mctx_def)
  from transformrdataset_correct [OF ex_slab_set(4) disjI1 [OF ex_slab_set(3)] ex_slab_set(1)
      _ this, unfolded ex_slab_set(2), OF ex_slab_at, of True]
  show ?thesis by blast
qed

end
