(* ===== verification/Profiler.thy ===== *)
theory Profiler
  imports Slab_Balance
begin

text \<open>
  The profiler of \<^verbatim>\<open>bin/named/profiler.c\<close>: at start-up it registers every rdataset with more than one
  record, then it polls the workers behind the addresses again and again and sorts each rdataset by
  the load they report.

  MD5 (OpenSSL) is the argument \<open>md5sum\<close>, \<^verbatim>\<open>qsort\<close> the argument \<open>qs\<close>, and the network is a record of what
  the calls \<^verbatim>\<open>connect\<close>, \<^verbatim>\<open>write\<close> and \<^verbatim>\<open>recv\<close> give.  C strings are lists of bytes without the final zero.  A call
  that ends the process (\<^verbatim>\<open>error\<close> calls \<^verbatim>\<open>exit\<close>) gives \<open>Exited\<close>.  The locks are compiled out, as in the
  rest of the development.  Each registered rdataset has its slab in a memory object of its own.

  \<^verbatim>\<open>qsort\<close> is undefined for a comparison function that is undefined or inconsistent on the loads at hand
  (\<open>qsort_nodes\<close>).  \<open>md5sum\<close> stands for \<^verbatim>\<open>md5_digest\<close>: the unchecked \<^verbatim>\<open>malloc\<close> of its 16 bytes is taken to succeed.  So is
  \<^verbatim>\<open>gethostbyname\<close> on the dotted address that \<^verbatim>\<open>connectToServer\<close> is given, which otherwise ends the process.  Waiting
  between the rounds (\<^verbatim>\<open>nanosleep\<close>, with an assertion that no signal interrupts it) is not represented.
\<close>

section \<open>Definitions\<close>

datatype 'a run = Exited | Ran 'a

subsection \<open>Loads\<close>

definition CPU :: f32 where "CPU = Fin (2 ^ 148)"
definition IO :: f32 where "IO = Fin (2 ^ 147)"
definition NET :: f32 where "NET = Fin (2 ^ 147)"

definition CALC_LOAD :: "a_node \<Rightarrow> f32" where
  "CALC_LOAD x =
     f32_add (f32_add (f32_mul (cpu_load x) CPU) (f32_mul (io_load x) IO)) (f32_mul (net_load x) NET)"

definition cmp :: "a_node \<Rightarrow> a_node \<Rightarrow> int option" where
  "cmp a b =
     (let s_a = CALC_LOAD a; s_b = CALC_LOAD b in f32_to_int (f32_sub s_a s_b))"

subsection \<open>Talking to a worker\<close>

text \<open>A \<^verbatim>\<open>float\<close> in memory, least significant byte first (the profiler is for x86: it reads the time stamp
  counter).\<close>

definition f32_load :: "mem \<Rightarrow> nat \<Rightarrow> f32 option" where
  "f32_load m i =
     do { bs \<leftarrow> mem_blk m i 4;
          Some (f32_of_bits (word_of_nat (get32 (bs ! 3) (bs ! 2) (bs ! 1) (bs ! 0)))) }"

text \<open>The comparison of the digests, \<open>n\<close> bytes from position \<open>i\<close> on.\<close>

fun same_digest :: "u8 list \<Rightarrow> u8 list \<Rightarrow> nat \<Rightarrow> nat \<Rightarrow> bool option" where
  "same_digest a b i 0 = Some True"
| "same_digest a b i (Suc n) =
     (if i < length a \<and> i < length b
      then if a ! i \<noteq> b ! i then Some False else same_digest a b (Suc i) n
      else None)"

definition parse_response :: "(u8 list \<Rightarrow> u8 list) \<Rightarrow> mem \<Rightarrow> a_node \<Rightarrow> (int \<times> mem \<times> a_node) option" where
  "parse_response md5sum response currnode =
     do { io \<leftarrow> f32_load response 0;
          cpu \<leftarrow> f32_load response 4;
          net \<leftarrow> f32_load response 8;
          let currnode' = currnode\<lparr>io_load := io, cpu_load := cpu, net_load := net\<rparr>;
          msg_digest \<leftarrow> mem_blk response 12 16;
          response' \<leftarrow> mem_wr response 12 [0];
          input \<leftarrow> mem_blk response' 0 12;
          same \<leftarrow> same_digest msg_digest (md5sum input) 0 16;
          Some (if same then 0 else - 1, response', currnode') }"

datatype reply = WriteError | Received "u8 list"

record network =
  nw_connect :: "nat \<Rightarrow> u8 list \<Rightarrow> nat \<Rightarrow> bool"
  nw_exchange :: "nat \<Rightarrow> u8 list \<Rightarrow> reply"

text \<open>
  The request, in a buffer of 256 bytes: \<^verbatim>\<open>strncat\<close> copies the digest up to its first zero byte.  The answer
  goes to a buffer of 42 bytes; \<open>recv\<close> gives at most 28, none when it fails.
\<close>

definition request_text :: "(u8 list \<Rightarrow> u8 list) \<Rightarrow> u8 list \<Rightarrow> u8 list \<Rightarrow> u8 list option" where
  "request_text md5sum orig_message ip =
     (let message = orig_message @ [35] @ ip @ [35] @ takeWhile (\<lambda>b. b \<noteq> 0) (take 16 (md5sum orig_message))
      in if length message < 256 then Some message else None)"

definition sendMessage ::
    "(u8 list \<Rightarrow> u8 list) \<Rightarrow> network \<Rightarrow> mem option \<Rightarrow> u8 list \<Rightarrow> u8 list \<Rightarrow> nat \<Rightarrow> mem option run option" where
  "sendMessage md5sum nw malloced orig_message ip sockfd =
     do { message \<leftarrow> request_text md5sum orig_message ip;
          case nw_exchange nw sockfd message of
            WriteError \<Rightarrow> Some Exited
          | Received bs \<Rightarrow>
              do { response \<leftarrow> malloced;
                   response1 \<leftarrow> mem_wr response 0 (take 28 bs);
                   response2 \<leftarrow> mem_wr response1 28 [0];
                   Some (Ran (if bs = [] then None else Some response2)) } }"

text \<open>\<open>inet_ntoa\<close>, and the strings of the source.\<close>

definition dec_byte :: "nat \<Rightarrow> u8 list" where
  "dec_byte n =
     (if n < 10 then [word_of_nat (48 + n)]
      else if n < 100 then [word_of_nat (48 + n div 10), word_of_nat (48 + n mod 10)]
      else [word_of_nat (48 + n div 100), word_of_nat (48 + n div 10 mod 10), word_of_nat (48 + n mod 10)])"

definition inet_ntoa :: "nat \<Rightarrow> u8 list" where
  "inet_ntoa a =
     dec_byte (a div 16777216 mod 256) @ [46] @ dec_byte (a div 65536 mod 256) @ [46] @
     dec_byte (a div 256 mod 256) @ [46] @ dec_byte (a mod 256)"

definition worker_ip :: "u8 list" where
  "worker_ip = [49, 57, 50, 46, 49, 54, 56, 46, 49, 46, 50, 48, 49]"

definition REQSTATS :: "u8 list" where
  "REQSTATS = [82, 69, 81, 83, 84, 65, 84, 83]"

definition down :: "a_node \<Rightarrow> a_node" where
  "down nd = nd\<lparr>cpu_load := f32_nat 255, io_load := f32_nat 255, net_load := f32_nat 255\<rparr>"

text \<open>The loop over the workers: \<open>n\<close> are left, from index \<open>i\<close> on.\<close>

fun poll_loop ::
    "(u8 list \<Rightarrow> u8 list) \<Rightarrow> network \<Rightarrow> mctx \<Rightarrow> nat \<Rightarrow> nat \<Rightarrow> a_node list \<Rightarrow> a_node list run option" where
  "poll_loop md5sum nw malloc i 0 stats = Some (Ran stats)"
| "poll_loop md5sum nw malloc i (Suc n) stats =
     (if i \<ge> length stats then None
      else let ip2 = inet_ntoa (in_addr (stats ! i)) in
           if \<not> nw_connect nw i worker_ip 2113
           then poll_loop md5sum nw malloc (Suc i) n (stats[i := down (stats ! i)])
           else case sendMessage md5sum nw (malloc i 42) REQSTATS ip2 i of
               None \<Rightarrow> None
             | Some Exited \<Rightarrow> Some Exited
             | Some (Ran None) \<Rightarrow> poll_loop md5sum nw malloc (Suc i) n (stats[i := down (stats ! i)])
             | Some (Ran (Some response)) \<Rightarrow>
                 (case parse_response md5sum response (stats ! i) of
                    None \<Rightarrow> None
                  | Some (rc, _, nd) \<Rightarrow>
                      poll_loop md5sum nw malloc (Suc i) n (stats[i := (if rc \<noteq> 0 then down nd else nd)])))"

subsection \<open>The registered rdatasets\<close>

record node =
  nd_mem :: mem
  nd_rdataset :: dns_rdataset
  nd_stats :: "a_node list"
  nd_naddrs :: int

definition ns_profiler_poll_workers ::
    "(u8 list \<Rightarrow> u8 list) \<Rightarrow> network \<Rightarrow> mctx \<Rightarrow> node \<Rightarrow> node run option" where
  "ns_profiler_poll_workers md5sum nw malloc cur =
     (case poll_loop md5sum nw malloc 0 (nat (nd_naddrs cur)) (nd_stats cur) of
        None \<Rightarrow> None
      | Some Exited \<Rightarrow> Some Exited
      | Some (Ran stats) \<Rightarrow> Some (Ran (cur\<lparr>nd_stats := stats\<rparr>)))"

text \<open>
  \<^verbatim>\<open>qsort\<close> on the first \<open>n\<close> elements.  The comparison function must be defined on them and order them
  consistently; otherwise the behaviour of \<^verbatim>\<open>qsort\<close> is undefined (ISO C 7.22.5).
\<close>

type_synonym node_qsort = "(a_node \<Rightarrow> a_node \<Rightarrow> int) \<Rightarrow> a_node list \<Rightarrow> a_node list"

definition qsort_nodes :: "node_qsort \<Rightarrow> nat \<Rightarrow> a_node list \<Rightarrow> a_node list option" where
  "qsort_nodes qs n stats =
     (if n \<le> length stats \<and> (\<forall>a \<in> set (take n stats). \<forall>b \<in> set (take n stats). cmp a b \<noteq> None) \<and>
         consistent (\<lambda>a b. the (cmp a b)) (take n stats)
      then Some (qs (\<lambda>a b. the (cmp a b)) (take n stats) @ drop n stats) else None)"

text \<open>What the update does for one registered rdataset, for all, and again and again.\<close>

definition update_node ::
    "node_qsort \<Rightarrow> (u8 list \<Rightarrow> u8 list) \<Rightarrow> network \<Rightarrow> mctx \<Rightarrow> node \<Rightarrow> node run option" where
  "update_node qs md5sum nw malloc cur =
     (if nd_naddrs cur > 0 then
        case ns_profiler_poll_workers md5sum nw malloc cur of
          None \<Rightarrow> None
        | Some Exited \<Rightarrow> Some Exited
        | Some (Ran cur1) \<Rightarrow>
            do { stats \<leftarrow> qsort_nodes qs (nat (nd_naddrs cur1)) (nd_stats cur1);
                 (_, m, rdataset) \<leftarrow> dns_rdataslab_sort_fromrdataset (nd_mem cur1) (nd_rdataset cur1) stats;
                 Some (Ran (cur1\<lparr>nd_stats := stats, nd_mem := m, nd_rdataset := rdataset\<rparr>)) }
      else Some (Ran cur))"

fun update_nodes ::
    "node_qsort \<Rightarrow> (u8 list \<Rightarrow> u8 list) \<Rightarrow> (nat \<Rightarrow> network) \<Rightarrow> (nat \<Rightarrow> mctx) \<Rightarrow> nat \<Rightarrow> node list \<Rightarrow> node list run option" where
  "update_nodes qs md5sum nw malloc k [] = Some (Ran [])"
| "update_nodes qs md5sum nw malloc k (cur # rest) =
     (case update_node qs md5sum (nw k) (malloc k) cur of
        None \<Rightarrow> None
      | Some Exited \<Rightarrow> Some Exited
      | Some (Ran cur1) \<Rightarrow>
          (case update_nodes qs md5sum nw malloc (Suc k) rest of
             None \<Rightarrow> None
           | Some Exited \<Rightarrow> Some Exited
           | Some (Ran rest1) \<Rightarrow> Some (Ran (cur1 # rest1))))"

inductive ns_profiler_update_addrs :: "node_qsort \<Rightarrow> (u8 list \<Rightarrow> u8 list) \<Rightarrow> node list \<Rightarrow> node list \<Rightarrow> bool"
  for qs md5sum list_g where
  start: "ns_profiler_update_addrs qs md5sum list_g list_g"
| round: "ns_profiler_update_addrs qs md5sum list_g l \<Longrightarrow>
     update_nodes qs md5sum nw malloc 0 l = Some (Ran l') \<Longrightarrow>
     ns_profiler_update_addrs qs md5sum list_g l'"

text \<open>
  Registration.  The node and the array are the first two requests to \<open>malloc\<close>, whose results are used unchecked; the
  array is zeroed.  The result of the transformation is ignored.
\<close>

definition zero_node :: a_node where
  "zero_node = \<lparr>in_addr = 0, offset = 0, cpu_load = Fin 0, io_load = Fin 0, net_load = Fin 0\<rparr>"

definition sizeof_a_node :: nat where "sizeof_a_node = 20"

partial_function (option) address_loop ::
    "bool \<Rightarrow> mem \<Rightarrow> isc_result \<Rightarrow> dns_rdataset \<Rightarrow> nat \<Rightarrow> int \<Rightarrow> a_node list \<Rightarrow> (a_node list \<times> int) option" where
  "address_loop lb m result r i naddrs stats =
     (if result = ISC_R_SUCCESS
      then do { rdata \<leftarrow> dns_rdataset_current lb m r dns_rdata_init;
                if rd_type rdata = dns_rdatatype_a
                then do { addr \<leftarrow> tostruct_in_a rdata;
                          if i \<ge> length stats then None
                          else do { (result', r') \<leftarrow> dns_rdataset_next lb m r;
                                    address_loop lb m result' r' (Suc i) naddrs
                                      (stats[i := (stats ! i)\<lparr>in_addr := addr\<rparr>]) } }
                else do { (result', r') \<leftarrow> dns_rdataset_next lb m r;
                          address_loop lb m result' r' i (naddrs - 1) stats } }
      else Some (stats, naddrs))"

declare address_loop.simps [code]

definition register_rdataset ::
    "bool \<Rightarrow> mctx \<Rightarrow> nat \<Rightarrow> mem \<Rightarrow> dns_rdataset \<Rightarrow> node list \<Rightarrow> node list option" where
  "register_rdataset lb malloc sizeof_node m rdataset list_g =
     do { cnt \<leftarrow> dns_rdataset_count lb m rdataset;
          if cnt > 1
          then do { _ \<leftarrow> malloc 0 sizeof_node;
                    rdataset0 \<leftarrow> dns_rdataset_clone lb rdataset dns_rdataset_init;
                    _ \<leftarrow> malloc 1 (cnt * sizeof_a_node);
                    (_, m', rdataset', stats) \<leftarrow>
                      dns_rdataslab_transformrdataset lb (\<lambda>k. malloc (k + 2)) m rdataset (replicate cnt zero_node);
                    (result, r1) \<leftarrow> dns_rdataset_first lb m' rdataset';
                    (stats', naddrs) \<leftarrow> address_loop lb m' result r1 0 (int cnt) stats;
                    Some (\<lparr>nd_mem = m', nd_rdataset = rdataset0, nd_stats = stats', nd_naddrs = naddrs\<rparr> # list_g) }
          else Some list_g }"

text \<open>The scan of the thread: the rdatasets that its iterators come to, one after the other.\<close>

fun register_all ::
    "bool \<Rightarrow> (nat \<Rightarrow> mctx) \<Rightarrow> nat \<Rightarrow> nat \<Rightarrow> (mem \<times> dns_rdataset) list \<Rightarrow> node list \<Rightarrow> node list option" where
  "register_all lb malloc sizeof_node k [] list_g = Some list_g"
| "register_all lb malloc sizeof_node k ((m, rdataset) # rds) list_g =
     do { list_g' \<leftarrow> register_rdataset lb (malloc k) sizeof_node m rdataset list_g;
          register_all lb malloc sizeof_node (Suc k) rds list_g' }"

section \<open>The comparison of loads\<close>

text \<open>Loads that are far from overflow, and two nodes whose loads are equal or at least one apart.\<close>

definition sane :: "f32 \<Rightarrow> bool" where
  "sane f \<longleftrightarrow> (\<exists>v. f = Fin v \<and> \<bar>v\<bar> \<le> 2 ^ 170)"

definition sane_node :: "a_node \<Rightarrow> bool" where
  "sane_node nd \<longleftrightarrow> sane (cpu_load nd) \<and> sane (io_load nd) \<and> sane (net_load nd)"

definition load_of :: "a_node \<Rightarrow> int" where
  "load_of nd = (case CALC_LOAD nd of Fin v \<Rightarrow> v | _ \<Rightarrow> 0)"

definition separated :: "a_node set \<Rightarrow> bool" where
  "separated A \<longleftrightarrow> (\<forall>a \<in> A. \<forall>b \<in> A. load_of a = load_of b \<or> \<bar>load_of a - load_of b\<bar> \<ge> 2 ^ 149)"

lemma f32_round_bound:
  assumes "\<bar>n\<bar> < 2 ^ (m + k)" "m < 277"
  obtains v where "f32_round n k = Fin v" "\<bar>v\<bar> \<le> 2 ^ m" "v < 0 \<longrightarrow> n < 0" "0 < v \<longrightarrow> 0 < n"
proof -
  let ?v = "round_mag (nat \<bar>n\<bar>) k"
  have a: "nat \<bar>n\<bar> < 2 ^ (m + k)" using assms(1) by (simp add: nat_less_iff)
  have up: "?v \<le> 2 ^ m" by (rule round_mag_upper [OF a])
  moreover have "(2 :: nat) ^ m < 2 ^ 277" using assms(2) by (intro power_strict_increasing) auto
  ultimately have "\<not> 2 ^ 277 \<le> ?v" by linarith
  then have "f32_round n k = Fin (if n < 0 then - int ?v else int ?v)" by (simp add: f32_round_def)
  moreover have "int ?v \<le> 2 ^ m" using up by (metis of_nat_le_iff of_nat_numeral of_nat_power)
  moreover have "0 < n" if "0 \<le> n" "0 < round_mag (nat n) k" using that by (cases "n = 0") auto
  ultimately show thesis by (intro that [of "if n < 0 then - int ?v else int ?v"]) (auto simp: not_less)
qed

lemma sane_mul:
  assumes "sane f" "w = 2 ^ 148 \<or> w = 2 ^ 147"
  obtains v where "f32_mul f (Fin w) = Fin v" "\<bar>v\<bar> \<le> 2 ^ 170"
proof -
  obtain x where x: "f = Fin x" "\<bar>x\<bar> \<le> 2 ^ 170" using assms(1) by (auto simp: sane_def)
  have "\<bar>x * w\<bar> \<le> 2 ^ 170 * 2 ^ 148"
    unfolding abs_mult using x(2) assms(2) by (intro mult_mono) auto
  also have "\<dots> < (2 :: int) ^ (170 + 149)" by simp
  finally obtain v where "f32_round (x * w) 149 = Fin v" "\<bar>v\<bar> \<le> 2 ^ 170"
    using f32_round_bound [of "x * w" 170 149] by auto
  then show thesis using x that by simp
qed

lemma sane_load:
  assumes "sane_node nd"
  shows "CALC_LOAD nd = Fin (load_of nd)" "\<bar>load_of nd\<bar> \<le> 2 ^ 173"
proof -
  obtain c i n where c: "f32_mul (cpu_load nd) CPU = Fin c" "\<bar>c\<bar> \<le> 2 ^ 170"
    and i: "f32_mul (io_load nd) IO = Fin i" "\<bar>i\<bar> \<le> 2 ^ 170"
    and n: "f32_mul (net_load nd) NET = Fin n" "\<bar>n\<bar> \<le> 2 ^ 170"
    using assms unfolding sane_node_def CPU_def IO_def NET_def by (metis sane_mul)
  have "\<bar>c + i\<bar> < 2 ^ (172 + 0)" using c(2) i(2) by simp
  then obtain s where s: "f32_round (c + i) 0 = Fin s" "\<bar>s\<bar> \<le> 2 ^ 172" by (rule f32_round_bound) simp_all
  have "\<bar>s + n\<bar> < 2 ^ (173 + 0)" using s(2) n(2) by simp
  then obtain l where l: "f32_round (s + n) 0 = Fin l" "\<bar>l\<bar> \<le> 2 ^ 173" by (rule f32_round_bound) simp_all
  have "CALC_LOAD nd = Fin l" using c(1) i(1) n(1) s(1) l(1) by (simp add: CALC_LOAD_def)
  then show "CALC_LOAD nd = Fin (load_of nd)" "\<bar>load_of nd\<bar> \<le> 2 ^ 173" using l(2) by (simp_all add: load_of_def)
qed

text \<open>The comparison is defined, and its sign is right when the loads are at least one apart.\<close>

lemma cmp_sane:
  assumes "sane_node a" "sane_node b"
  obtains t where "cmp a b = Some t" "load_of a = load_of b \<longrightarrow> t = 0" "t < 0 \<longrightarrow> load_of a < load_of b"
    "2 ^ 149 \<le> load_of b - load_of a \<longrightarrow> t < 0" "2 ^ 149 \<le> load_of a - load_of b \<longrightarrow> 0 < t"
    "0 < t \<longrightarrow> load_of b < load_of a"
proof -
  note l = sane_load [OF assms(1)] sane_load [OF assms(2)]
  let ?d = "load_of a - load_of b"
  have bd: "\<bar>?d\<bar> < 2 ^ (175 + 0)" using l by simp
  then obtain v where v: "f32_round ?d 0 = Fin v" "\<bar>v\<bar> \<le> 2 ^ 175" "v < 0 \<longrightarrow> ?d < 0" "0 < v \<longrightarrow> 0 < ?d"
    by (rule f32_round_bound) simp_all
  define t where "t = sgn v * (\<bar>v\<bar> div 2 ^ 149)"
  have "\<bar>v\<bar> div 2 ^ 149 \<le> 2 ^ 175 div 2 ^ 149" using v(2) by (intro zdiv_mono1) auto
  then have t: "- 2147483648 \<le> t" "t < 2147483648" by (auto simp: t_def sgn_if)
  have "f32_to_int (Fin v) = Some t" using t by (simp add: t_def Let_def)
  then have c: "cmp a b = Some t" using l(1,3) v(1) by (simp add: cmp_def f32_sub_def)
  have lower: "2 ^ 149 \<le> \<bar>v\<bar>" if "2 ^ 149 \<le> \<bar>?d\<bar>"
  proof -
    have "(2 :: nat) ^ (149 + 0) \<le> nat \<bar>?d\<bar>" using that by (simp add: le_nat_iff)
    then have "2 ^ 149 \<le> round_mag (nat \<bar>?d\<bar>) 0" by (rule round_mag_lower)
    then have "(2 :: int) ^ 149 \<le> int (round_mag (nat \<bar>?d\<bar>) 0)"
      by (metis of_nat_le_iff of_nat_numeral of_nat_power)
    moreover have "\<bar>v\<bar> = int (round_mag (nat \<bar>?d\<bar>) 0)"
      using v(1) by (auto simp: f32_round_def Let_def split: if_splits)
    ultimately show ?thesis by simp
  qed
  have quot: "2 ^ 149 \<le> \<bar>v\<bar> \<Longrightarrow> 0 < \<bar>v\<bar> div 2 ^ 149" by (simp add: pos_imp_zdiv_pos_iff)
  show thesis
  proof (rule that [OF c])
    show "load_of a = load_of b \<longrightarrow> t = 0" using v by (auto simp: t_def)
    show "t < 0 \<longrightarrow> load_of a < load_of b" "0 < t \<longrightarrow> load_of b < load_of a"
      using v(3,4) by (auto simp: t_def sgn_if split: if_splits)
    show "2 ^ 149 \<le> load_of b - load_of a \<longrightarrow> t < 0"
      using lower quot v(4) by (auto simp: t_def sgn_if split: if_splits)
    show "2 ^ 149 \<le> load_of a - load_of b \<longrightarrow> 0 < t"
      using lower quot v(3) by (auto simp: t_def sgn_if split: if_splits)
  qed
qed

lemma cmp_signs:
  assumes "separated A" "\<forall>x \<in> A. sane_node x" "a \<in> A" "b \<in> A"
  shows "the (cmp a b) < 0 \<longleftrightarrow> load_of a < load_of b" "the (cmp a b) > 0 \<longleftrightarrow> load_of b < load_of a" "cmp a b \<noteq> None"
proof -
  have s: "sane_node a" "sane_node b" using assms(2-4) by auto
  have sep: "load_of a = load_of b \<or> 2 ^ 149 \<le> \<bar>load_of a - load_of b\<bar>"
    using assms(1,3,4) by (auto simp: separated_def)
  obtain t where t: "cmp a b = Some t" "load_of a = load_of b \<longrightarrow> t = 0" "t < 0 \<longrightarrow> load_of a < load_of b"
    "2 ^ 149 \<le> load_of b - load_of a \<longrightarrow> t < 0" "2 ^ 149 \<le> load_of a - load_of b \<longrightarrow> 0 < t"
    "0 < t \<longrightarrow> load_of b < load_of a"
    by (rule cmp_sane [OF s])
  show "the (cmp a b) < 0 \<longleftrightarrow> load_of a < load_of b" "the (cmp a b) > 0 \<longleftrightarrow> load_of b < load_of a" "cmp a b \<noteq> None"
    using t sep by auto
qed

lemma cmp_separated_on:
  assumes "separated A" "\<forall>x \<in> A. sane_node x"
  shows "cmp_on (\<lambda>a b. the (cmp a b)) A"
proof (unfold_locales, goal_cases)
  case (1 a)
  then show ?case using cmp_signs(1,2) [OF assms 1 1] by linarith
next
  case (2 a b)
  then show ?case using cmp_signs [OF assms 2] cmp_signs [OF assms 2(2,1)] by blast
next
  case (3 a b c)
  then show ?case
    using cmp_signs(2) [OF assms, of a b] cmp_signs(2) [OF assms, of b c] cmp_signs(2) [OF assms, of a c] by linarith
qed

section \<open>Polling\<close>

text \<open>
  What a poll may do to a node: the worker counts as down, or the loads come from 12 bytes that are followed by their
  digest, in a message that begins with the bytes received (the rest of a short message is what was in the buffer).
\<close>

definition authentic :: "(u8 list \<Rightarrow> u8 list) \<Rightarrow> u8 list \<Rightarrow> a_node \<Rightarrow> a_node \<Rightarrow> bool" where
  "authentic md5sum msg nd nd' \<longleftrightarrow> length msg = 28 \<and> drop 12 msg = md5sum (take 12 msg) \<and>
     (\<exists>io cpu net. f32_load msg 0 = Some io \<and> f32_load msg 4 = Some cpu \<and> f32_load msg 8 = Some net \<and>
        nd' = nd\<lparr>io_load := io, cpu_load := cpu, net_load := net\<rparr>)"

definition polled :: "(u8 list \<Rightarrow> u8 list) \<Rightarrow> network \<Rightarrow> a_node \<Rightarrow> a_node \<Rightarrow> bool" where
  "polled md5sum nw nd nd' \<longleftrightarrow> nd' = down nd \<or>
     (\<exists>sockfd req bs msg. nw_exchange nw sockfd req = Received bs \<and> bs \<noteq> [] \<and>
        take (length bs) msg = take 28 bs \<and> authentic md5sum msg nd nd')"

lemma polled_fields: "polled md5sum nw nd nd' \<Longrightarrow> in_addr nd' = in_addr nd \<and> offset nd' = offset nd"
  by (auto simp: polled_def authentic_def down_def)

lemma same_digest_take:
  "i + n \<le> length a \<Longrightarrow> i + n \<le> length b \<Longrightarrow> same_digest a b i n = Some (take n (drop i a) = take n (drop i b))"
proof (induction n arbitrary: i)
  case (Suc n)
  then have "drop i a = a ! i # drop (Suc i) a" "drop i b = b ! i # drop (Suc i) b"
    by (simp_all add: Cons_nth_drop_Suc)
  then show ?case using Suc by simp
qed simp

lemma f32_load_take: "i + 4 \<le> n \<Longrightarrow> n \<le> length m \<Longrightarrow> f32_load (take n m) i = f32_load m i"
  by (simp add: f32_load_def mem_blk_def drop_take min_absorb2)

lemma f32_load_Some: "i + 4 \<le> length m \<Longrightarrow> \<exists>f. f32_load m i = Some f"
  by (simp add: f32_load_def mem_blk_def)

lemma parse_response_ok:
  assumes "28 \<le> length response" "\<And>x. length (md5sum x) = 16"
  obtains rc response' nd' where "parse_response md5sum response nd = Some (rc, response', nd')"
    "(if rc \<noteq> 0 then down nd' else nd') = down nd \<or> authentic md5sum (take 28 response) nd (if rc \<noteq> 0 then down nd' else nd')"
proof -
  obtain io cpu net where l: "f32_load response 0 = Some io" "f32_load response 4 = Some cpu" "f32_load response 8 = Some net"
    using f32_load_Some [of 0 response] f32_load_Some [of 4 response] f32_load_Some [of 8 response] assms(1) by auto
  let ?nd = "nd\<lparr>io_load := io, cpu_load := cpu, net_load := net\<rparr>" and ?msg = "take 28 response"
  let ?dig = "take 16 (drop 12 response)" and ?in = "take 12 response"
  let ?r = "take 12 response @ [0] @ drop 13 response"
  have w: "mem_wr response 12 [0] = Some ?r" "mem_blk ?r 0 12 = Some ?in" "mem_blk response 12 16 = Some ?dig"
    using assms(1) by (simp_all add: mem_wr_def mem_blk_def)
  have sd: "same_digest ?dig (md5sum ?in) 0 16 = Some (?dig = md5sum ?in)"
    using same_digest_take [of 0 16 ?dig "md5sum ?in"] assms by simp
  have p: "parse_response md5sum response nd = Some (if ?dig = md5sum ?in then 0 else - 1, ?r, ?nd)"
    using l w sd by (simp add: parse_response_def)
  show thesis
  proof (rule that [OF p], cases "?dig = md5sum ?in")
    case True
    have "drop 12 ?msg = md5sum (take 12 ?msg)" using True by (simp add: drop_take min_def)
    moreover have "f32_load ?msg 0 = Some io" "f32_load ?msg 4 = Some cpu" "f32_load ?msg 8 = Some net"
      using l assms(1) by (simp_all add: f32_load_take)
    moreover have "length ?msg = 28" using assms(1) by simp
    ultimately have "authentic md5sum ?msg nd ?nd" unfolding authentic_def by blast
    then show "(if (if ?dig = md5sum ?in then 0 else - 1 :: int) \<noteq> 0 then down ?nd else ?nd) = down nd \<or>
        authentic md5sum ?msg nd (if (if ?dig = md5sum ?in then 0 else - 1 :: int) \<noteq> 0 then down ?nd else ?nd)"
      using True by simp
  qed (simp add: down_def)
qed

lemma length_dec_byte: "length (dec_byte n) \<le> 3"
  by (simp add: dec_byte_def)

lemma request_text_fits:
  assumes "\<And>x. length (md5sum x) = 16"
  shows "\<exists>msg. request_text md5sum REQSTATS (inet_ntoa a) = Some msg"
proof -
  have "length (inet_ntoa a) \<le> 15"
    using length_dec_byte [of "a div 16777216 mod 256"] length_dec_byte [of "a div 65536 mod 256"]
      length_dec_byte [of "a div 256 mod 256"] length_dec_byte [of "a mod 256"] by (simp add: inet_ntoa_def)
  moreover have "length (takeWhile (\<lambda>b. b \<noteq> 0) (take 16 (md5sum REQSTATS))) \<le> 16"
    using length_takeWhile_le [of "\<lambda>b. b \<noteq> 0" "take 16 (md5sum REQSTATS)"] assms by simp
  ultimately show ?thesis by (simp add: request_text_def REQSTATS_def Let_def)
qed

lemma sendMessage_ok:
  assumes "\<And>x. length (md5sum x) = 16" "length buf = 42"
  shows "sendMessage md5sum nw (Some buf) REQSTATS (inet_ntoa a) i = Some Exited \<or>
     sendMessage md5sum nw (Some buf) REQSTATS (inet_ntoa a) i = Some (Ran None) \<or>
     (\<exists>response req bs. sendMessage md5sum nw (Some buf) REQSTATS (inet_ntoa a) i = Some (Ran (Some response)) \<and>
        length response = 42 \<and> nw_exchange nw i req = Received bs \<and> bs \<noteq> [] \<and>
        take (length bs) (take 28 response) = take 28 bs)"
proof -
  obtain msg where msg: "request_text md5sum REQSTATS (inet_ntoa a) = Some msg"
    using request_text_fits [of md5sum a] assms(1) by blast
  show ?thesis
  proof (cases "nw_exchange nw i msg")
    case WriteError
    then show ?thesis using msg by (simp add: sendMessage_def)
  next
    case (Received bs)
    let ?r1 = "take 28 bs @ drop (length (take 28 bs)) buf"
    have w: "mem_wr buf 0 (take 28 bs) = Some ?r1" "mem_wr ?r1 28 [0] = Some (take 28 ?r1 @ [0] @ drop 29 ?r1)"
      using assms(2) by (simp_all add: mem_wr_def)
    define r2 where "r2 = take 28 ?r1 @ [0] @ drop 29 ?r1"
    have r2: "take (length bs) (take 28 r2) = take 28 bs" "length r2 = 42"
      unfolding r2_def using assms(2) by (cases "length bs \<le> 28"; simp)+
    have "sendMessage md5sum nw (Some buf) REQSTATS (inet_ntoa a) i = Some (Ran (if bs = [] then None else Some r2))"
      using msg w Received by (simp add: sendMessage_def r2_def)
    then show ?thesis using r2 Received by (cases "bs = []") auto
  qed
qed

text \<open>Polling returns (or ends the process) and changes each node it visits as allowed.\<close>

lemma poll_loop_ok:
  assumes md5sum: "\<And>x. length (md5sum x) = 16" and "mctx_ok malloc" "\<And>k n. malloc k n \<noteq> None"
  shows "i + n \<le> length stats \<Longrightarrow>
     poll_loop md5sum nw malloc i n stats = Some Exited \<or>
     (\<exists>stats'. poll_loop md5sum nw malloc i n stats = Some (Ran stats') \<and> length stats' = length stats \<and>
        (\<forall>j < length stats. if i \<le> j \<and> j < i + n then polled md5sum nw (stats ! j) (stats' ! j) else stats' ! j = stats ! j))"
proof (induction n arbitrary: i stats)
  case 0
  then show ?case by auto
next
  case (Suc n)
  have i: "i < length stats" using Suc.prems by simp
  have step: "poll_loop md5sum nw malloc (Suc i) n (stats[i := x]) = Some Exited \<or>
     (\<exists>stats'. poll_loop md5sum nw malloc (Suc i) n (stats[i := x]) = Some (Ran stats') \<and> length stats' = length stats \<and>
        (\<forall>j < length stats. if i \<le> j \<and> j < i + Suc n then polled md5sum nw (stats ! j) (stats' ! j) else stats' ! j = stats ! j))"
    if x: "polled md5sum nw (stats ! i) x" for x
  proof -
    have "poll_loop md5sum nw malloc (Suc i) n (stats[i := x]) = Some Exited \<or>
     (\<exists>stats'. poll_loop md5sum nw malloc (Suc i) n (stats[i := x]) = Some (Ran stats') \<and> length stats' = length stats \<and>
        (\<forall>j < length stats. if Suc i \<le> j \<and> j < Suc i + n then polled md5sum nw (stats[i := x] ! j) (stats' ! j)
           else stats' ! j = stats[i := x] ! j))"
      using Suc.IH [of "Suc i" "stats[i := x]"] Suc.prems by simp
    moreover have "(if i \<le> j \<and> j < i + Suc n then polled md5sum nw (stats ! j) (s ! j) else s ! j = stats ! j)"
      if "if Suc i \<le> j \<and> j < Suc i + n then polled md5sum nw (stats[i := x] ! j) (s ! j) else s ! j = stats[i := x] ! j"
        "j < length stats" for j s
      using that x i by (cases "j = i") (auto split: if_splits)
    ultimately show ?thesis by blast
  qed
  have dn: "polled md5sum nw (stats ! i) (down (stats ! i))" by (simp add: polled_def)
  obtain buf where buf: "malloc i 42 = Some buf" "length buf = 42" using assms(2,3) by (metis mctx_okD option.exhaust)
  consider (refused) "\<not> nw_connect nw i worker_ip 2113"
    | (ended) "nw_connect nw i worker_ip 2113" "sendMessage md5sum nw (malloc i 42) REQSTATS (inet_ntoa (in_addr (stats ! i))) i = Some Exited"
    | (none) "nw_connect nw i worker_ip 2113" "sendMessage md5sum nw (malloc i 42) REQSTATS (inet_ntoa (in_addr (stats ! i))) i = Some (Ran None)"
    | (some) response req bs where "nw_connect nw i worker_ip 2113"
        "sendMessage md5sum nw (malloc i 42) REQSTATS (inet_ntoa (in_addr (stats ! i))) i = Some (Ran (Some response))"
        "length response = 42" "nw_exchange nw i req = Received bs" "bs \<noteq> []" "take (length bs) (take 28 response) = take 28 bs"
    using sendMessage_ok [where md5sum = md5sum and nw = nw and a = "in_addr (stats ! i)" and i = i, OF md5sum buf(2)] buf(1) by metis
  then show ?case
  proof cases
    case refused
    then show ?thesis using step [OF dn] i by simp
  next
    case none
    then show ?thesis using step [OF dn] i by simp
  next
    case some
    obtain rc response' nd' where p: "parse_response md5sum response (stats ! i) = Some (rc, response', nd')"
      "(if rc \<noteq> 0 then down nd' else nd') = down (stats ! i) \<or>
       authentic md5sum (take 28 response) (stats ! i) (if rc \<noteq> 0 then down nd' else nd')"
      by (rule parse_response_ok [of response md5sum "stats ! i"]) (use some(3) md5sum in auto)
    have "polled md5sum nw (stats ! i) (if rc \<noteq> 0 then down nd' else nd')"
      using p(2) some(4-6) unfolding polled_def by blast
    then show ?thesis using step p(1) some(1,2) i by simp
  qed (use i in simp)
qed


text \<open>Whatever the workers answer, polling keeps addresses and offsets.\<close>

lemma poll_loop_keeps:
  "poll_loop md5sum nw malloc i n stats = Some (Ran stats') \<Longrightarrow>
     map (\<lambda>x. (in_addr x, offset x)) stats' = map (\<lambda>x. (in_addr x, offset x)) stats"
proof (induction n arbitrary: i stats)
  case (Suc n)
  have upd: "map (\<lambda>x. (in_addr x, offset x)) (stats[i := y]) = map (\<lambda>x. (in_addr x, offset x)) stats"
    if "in_addr y = in_addr (stats ! i)" "offset y = offset (stats ! i)" for y
  proof (cases "i < length stats")
    case True
    then have "(in_addr y, offset y) = map (\<lambda>x. (in_addr x, offset x)) stats ! i" using that by simp
    then show ?thesis by (simp only: map_update list_update_id)
  qed (simp add: list_update_beyond)
  have keep: "in_addr nd = in_addr x \<and> offset nd = offset x"
    if "parse_response md5sum response x = Some (rc, response', nd)" for response x rc response' nd
    using that by (auto simp: parse_response_def split: bind_splits)
  have dn: "in_addr (down x) = in_addr x" "offset (down x) = offset x" for x by (simp_all add: down_def)
  show ?case
    using Suc.prems Suc.IH upd keep dn
    by (auto simp: Let_def split: if_splits option.splits run.splits prod.splits)
qed simp

section \<open>The registered rdatasets\<close>

text \<open>
  The invariant of a registered rdataset of addresses: its slab is well-formed, the array has an element for each record
  with the record's offset, and the record at that offset is the element's address.
\<close>

definition node_inv :: "node \<Rightarrow> nat list \<Rightarrow> item list \<Rightarrow> bool" where
  "node_inv nd tbl its \<longleftrightarrow>
     (\<exists>base. rs_private3 (nd_rdataset nd) = Some base \<and> slab_at (nd_mem nd) base dns_rdatatype_a tbl its) \<and>
     rs_type (nd_rdataset nd) = dns_rdatatype_a \<and>
     nd_naddrs nd = int (length its) \<and> length (nd_stats nd) = length its \<and> offsets_of its (nd_stats nd) \<and>
     (\<forall>x \<in> set (nd_stats nd). \<forall>i < length its. offset x = item_off its i \<longrightarrow> snd (its ! i) = put32 (in_addr x))"

lemma offsets_of_index:
  assumes "offsets_of its ns" "x \<in> set ns"
  obtains i where "i < length its" "offset x = item_off its i"
proof -
  have "offset x \<in> set (map offset ns)" using assms(2) by simp
  then have "offset x \<in> set (map (item_off its) [0..<length its])"
    using mset_eq_setD [OF assms(1) [unfolded offsets_of_def]] by simp
  then show thesis using that by auto
qed

lemma node_inv_stats:
  assumes "node_inv nd tbl its" "mset (map (\<lambda>x. (in_addr x, offset x)) ns) = mset (map (\<lambda>x. (in_addr x, offset x)) (nd_stats nd))"
  shows "length ns = length its" "offsets_of its ns"
    "\<forall>x \<in> set ns. \<forall>i < length its. offset x = item_off its i \<longrightarrow> snd (its ! i) = put32 (in_addr x)"
proof -
  have inv: "length (nd_stats nd) = length its" "offsets_of its (nd_stats nd)"
    "\<forall>x \<in> set (nd_stats nd). \<forall>i < length its. offset x = item_off its i \<longrightarrow> snd (its ! i) = put32 (in_addr x)"
    using assms(1) by (auto simp: node_inv_def)
  show "length ns = length its" using mset_eq_length [OF assms(2)] inv(1) by simp
  have "mset (map snd (map (\<lambda>x. (in_addr x, offset x)) ns)) = mset (map snd (map (\<lambda>x. (in_addr x, offset x)) (nd_stats nd)))"
    unfolding mset_map [of snd] assms(2) ..
  then show "offsets_of its ns" using inv(2) by (simp add: offsets_of_def comp_def)
  show "\<forall>x \<in> set ns. \<forall>i < length its. offset x = item_off its i \<longrightarrow> snd (its ! i) = put32 (in_addr x)"
  proof (intro ballI allI impI)
    fix x i assume x: "x \<in> set ns" "i < length its" "offset x = item_off its i"
    have "(in_addr x, offset x) \<in> set (map (\<lambda>x. (in_addr x, offset x)) (nd_stats nd))"
      using mset_eq_setD [OF assms(2)] x(1) by auto
    then obtain y where "y \<in> set (nd_stats nd)" "in_addr y = in_addr x" "offset y = offset x" by auto
    then show "snd (its ! i) = put32 (in_addr x)" using inv(3) x(2,3) by metis
  qed
qed

text \<open>Sorting the rdataset by an array with the same elements.\<close>

lemma sort_node:
  assumes inv: "node_inv nd tbl its"
    and ms: "mset (map (\<lambda>x. (in_addr x, offset x)) ns) = mset (map (\<lambda>x. (in_addr x, offset x)) (nd_stats nd))"
  obtains m r its' where "dns_rdataslab_sort_fromrdataset (nd_mem nd) (nd_rdataset nd) ns = Some (ISC_R_SUCCESS, m, r)"
    "node_inv (nd\<lparr>nd_stats := ns, nd_mem := m, nd_rdataset := r\<rparr>) (map offset ns) its'"
    "stored its' = stored its" "listed its' = map (\<lambda>x. put32 (in_addr x)) ns"
    "r = (nd_rdataset nd)\<lparr>rs_privateuint4 := 0, rs_private5 := None\<rparr>"
proof -
  note ns = node_inv_stats [OF inv ms]
  obtain base where base: "rs_private3 (nd_rdataset nd) = Some base" "slab_at (nd_mem nd) base dns_rdatatype_a tbl its"
    and na: "nd_naddrs nd = int (length its)" and ty: "rs_type (nd_rdataset nd) = dns_rdatatype_a"
    using inv by (auto simp: node_inv_def)
  let ?r = "(nd_rdataset nd)\<lparr>rs_privateuint4 := 0, rs_private5 := None\<rparr>"
  obtain m its' where s: "dns_rdataslab_sort_fromrdataset (nd_mem nd) (nd_rdataset nd) ns = Some (ISC_R_SUCCESS, m, ?r)"
    "slab_at m base dns_rdatatype_a (map offset ns) its'" "stored its' = stored its"
    "\<forall>k < length its. \<forall>i < length its. offset (ns ! k) = item_off its i \<longrightarrow> listed its' ! k = stored its ! i"
    using sort_fromrdataset_ok [OF base ns(2)] by blast
  have len: "length its' = length its" using s(3) by (metis length_map stored_def)
  have off: "item_off its' i = item_off its i" for i using s(3) by (rule item_off_cong)
  have snd: "snd (its' ! i) = snd (its ! i)" if "i < length its" for i
    using s(3) that len by (metis nth_map stored_def)
  have "node_inv (nd\<lparr>nd_stats := ns, nd_mem := m, nd_rdataset := ?r\<rparr>) (map offset ns) its'"
    using s(2) base na ty ns len off snd by (simp add: node_inv_def offsets_of_def cong: map_cong)
  moreover have "listed its' = map (\<lambda>x. put32 (in_addr x)) ns"
  proof (rule nth_equalityI)
    show "length (listed its') = length (map (\<lambda>x. put32 (in_addr x)) ns)" using len ns(1) by simp
    fix k assume "k < length (listed its')"
    then have k: "k < length its" "ns ! k \<in> set ns" using len ns(1) by simp_all
    obtain i where i: "i < length its" "offset (ns ! k) = item_off its i" by (rule offsets_of_index [OF ns(2) k(2)])
    then have "listed its' ! k = snd (its ! i)" using s(4) k(1) by (simp add: stored_def)
    then show "listed its' ! k = map (\<lambda>x. put32 (in_addr x)) ns ! k" using ns(1,3) i k by simp
  qed
  ultimately show thesis using that s(1,3) by blast
qed

lemma update_node_inv:
  assumes inv: "node_inv nd tbl its" "its \<noteq> []"
    and poll: "poll_loop md5sum nw malloc 0 (length its) (nd_stats nd) = Some (Ran polls)"
    and loads: "\<forall>x \<in> set polls. sane_node x" "separated (set polls)" and qs: "c_qsort qs"
  obtains nd' its' where "update_node qs md5sum nw malloc nd = Some (Ran nd')" "node_inv nd' (map offset (nd_stats nd')) its'"
    "stored its' = stored its" "listed its' = map (\<lambda>x. put32 (in_addr x)) (nd_stats nd')"
    "nd_stats nd' = qs (\<lambda>a b. the (cmp a b)) polls"
    "nd_rdataset nd' = (nd_rdataset nd)\<lparr>rs_privateuint4 := 0, rs_private5 := None\<rparr>"
proof -
  let ?ns = "qs (\<lambda>a b. the (cmp a b)) polls"
  have on: "cmp_on (\<lambda>a b. the (cmp a b)) (set polls)" by (rule cmp_separated_on [OF loads(2,1)])
  have na: "nd_naddrs nd = int (length its)" "length (nd_stats nd) = length its" "length polls = length its"
    using inv(1) poll_loop_keeps [OF poll] by (auto simp: node_inv_def dest: map_eq_imp_length_eq)
  have "mset (map (\<lambda>x. (in_addr x, offset x)) ?ns) = mset (map (\<lambda>x. (in_addr x, offset x)) polls)"
    using c_qsort.qsort_mset [OF qs on] by simp
  also have "\<dots> = mset (map (\<lambda>x. (in_addr x, offset x)) (nd_stats nd))"
    unfolding poll_loop_keeps [OF poll] ..
  finally have ms: "mset (map (\<lambda>x. (in_addr x, offset x)) ?ns) = mset (map (\<lambda>x. (in_addr x, offset x)) (nd_stats nd))" .
  obtain m r its' where
    s: "dns_rdataslab_sort_fromrdataset (nd_mem nd) (nd_rdataset nd) ?ns = Some (ISC_R_SUCCESS, m, r)"
    "node_inv (nd\<lparr>nd_stats := ?ns, nd_mem := m, nd_rdataset := r\<rparr>) (map offset ?ns) its'"
    "stored its' = stored its" "listed its' = map (\<lambda>x. put32 (in_addr x)) ?ns"
    "r = (nd_rdataset nd)\<lparr>rs_privateuint4 := 0, rs_private5 := None\<rparr>"
    by (rule sort_node [OF inv(1) ms])
  have "qsort_nodes qs (length its) polls = Some ?ns"
    using na(3) on cmp_signs(3) [OF loads(2,1)] by (simp add: qsort_nodes_def consistent_iff)
  then have "update_node qs md5sum nw malloc nd = Some (Ran (nd\<lparr>nd_stats := ?ns, nd_mem := m, nd_rdataset := r\<rparr>))"
    using poll na inv(2) s(1) by (simp add: update_node_def ns_profiler_poll_workers_def)
  then show thesis using that s(2-5) by simp
qed

section \<open>Registration\<close>

lemma tostruct_in_a_bytes:
  assumes "rd_type d = dns_rdatatype_a" "rd_class d = 1" "rd_length d = 4"
  obtains a where "tostruct_in_a d = Some a" "put32 a = rd_bytes d"
proof -
  obtain w x y z where b: "rd_bytes d = [w, x, y, z]"
    using assms(3) by (auto simp: rd_length_def length_Suc_conv numeral_eq_Suc)
  have "tostruct_in_a d = Some (get32 w x y z)"
    using assms b by (simp add: tostruct_in_a_def dns_rdatatype_a_def rd32_def mem_rd_def)
  then show thesis using that b put32_get32 by metis
qed

definition with_addrs :: "a_node list \<Rightarrow> dns_rdata list \<Rightarrow> a_node list" where
  "with_addrs stats ds = map (\<lambda>(x, d). x\<lparr>in_addr := the (tostruct_in_a d)\<rparr>) (zip stats ds)"

text \<open>The loop fills in the addresses of an rdataset of addresses, and counts down for any other.\<close>

lemma address_loop_a:
  assumes "\<forall>d \<in> set xs. rd_type d = dns_rdatatype_a \<and> rd_class d = 1 \<and> rd_length d = 4"
  shows "rds_valid m r \<Longrightarrow> rds_items lb m r = xs \<Longrightarrow> rds_at lb m r i \<Longrightarrow> length xs = Suc (i + n) \<Longrightarrow>
     length stats = length xs \<Longrightarrow>
     address_loop lb m ISC_R_SUCCESS r i na stats = Some (take i stats @ with_addrs (drop i stats) (drop i xs), na)"
proof (induction n arbitrary: i r stats)
  case (0 i r stats)
  have i: "i < length xs" using 0 by simp
  obtain a where a: "tostruct_in_a (xs ! i) = Some a" using assms i tostruct_in_a_bytes by (metis nth_mem)
  obtain r' where "dns_rdataset_next lb m r = Some (ISC_R_NOMORE, r')"
    using rds_cursor.next_none [OF 0(1,3)] 0(2,4) by auto
  moreover have "drop i xs = [xs ! i]" "drop i stats = [stats ! i]" "stats[i := y] = take i stats @ [y]" for y
    using 0(4,5) by (simp_all add: Cons_nth_drop_Suc [symmetric] upd_conv_take_nth_drop)
  ultimately show ?case
    using rds_cursor.current_item [OF 0(1,3)] 0(2,5) i a assms
    by (simp add: address_loop.simps [of _ _ ISC_R_SUCCESS] address_loop.simps [of _ _ ISC_R_NOMORE] with_addrs_def)
next
  case (Suc n i r stats)
  have i: "i < length xs" using Suc.prems by simp
  obtain a where a: "tostruct_in_a (xs ! i) = Some a" using assms i tostruct_in_a_bytes by (metis nth_mem)
  obtain r' where r': "dns_rdataset_next lb m r = Some (ISC_R_SUCCESS, r')" "rds_valid m r'" "rds_items lb m r' = xs" "rds_at lb m r' (Suc i)"
    using rds_cursor.next_some [OF Suc.prems(1,3)] Suc.prems(2,4) by auto
  let ?stats = "stats[i := (stats ! i)\<lparr>in_addr := a\<rparr>]"
  have "address_loop lb m ISC_R_SUCCESS r i na stats = address_loop lb m ISC_R_SUCCESS r' (Suc i) na ?stats"
    using rds_cursor.current_item [OF Suc.prems(1,3)] Suc.prems(2,5) i a assms r'(1)
    by (subst address_loop.simps) simp
  also have "\<dots> = Some (take (Suc i) ?stats @ with_addrs (drop (Suc i) ?stats) (drop (Suc i) xs), na)"
    by (rule Suc.IH [OF r'(2-4)]) (use Suc.prems in simp_all)
  also have "take (Suc i) ?stats @ with_addrs (drop (Suc i) ?stats) (drop (Suc i) xs) =
      take i stats @ with_addrs (drop i stats) (drop i xs)"
    using i Suc.prems(5) a
    by (simp add: with_addrs_def Cons_nth_drop_Suc [symmetric] take_Suc_conv_app_nth)
  finally show ?case .
qed

lemma address_loop_other:
  assumes "\<forall>d \<in> set xs. rd_type d \<noteq> dns_rdatatype_a"
  shows "rds_valid m r \<Longrightarrow> rds_items lb m r = xs \<Longrightarrow> rds_at lb m r i \<Longrightarrow> length xs = Suc (i + n) \<Longrightarrow>
     address_loop lb m ISC_R_SUCCESS r j na stats = Some (stats, na - int (Suc n))"
proof (induction n arbitrary: i r na)
  case (0 i r)
  obtain r' where "dns_rdataset_next lb m r = Some (ISC_R_NOMORE, r')"
    using rds_cursor.next_none [OF 0(1,3)] 0(2,4) by auto
  then show ?case
    using rds_cursor.current_item [OF 0(1,3)] 0(2,4) assms
    by (simp add: address_loop.simps [of _ _ ISC_R_SUCCESS] address_loop.simps [of _ _ ISC_R_NOMORE])
next
  case (Suc n i r)
  obtain r' where r': "dns_rdataset_next lb m r = Some (ISC_R_SUCCESS, r')" "rds_valid m r'" "rds_items lb m r' = xs" "rds_at lb m r' (Suc i)"
    using rds_cursor.next_some [OF Suc.prems(1,3)] Suc.prems(2,4) by auto
  have "address_loop lb m ISC_R_SUCCESS r j na stats = address_loop lb m ISC_R_SUCCESS r' j (na - 1) stats"
    using rds_cursor.current_item [OF Suc.prems(1,3)] Suc.prems(2,4) assms r'(1)
    by (subst address_loop.simps) simp
  also have "\<dots> = Some (stats, na - 1 - int (Suc n))"
    by (rule Suc.IH [OF r'(2-4)]) (use Suc.prems in simp)
  finally show ?case by simp
qed

lemma register_transform:
  assumes "rds_valid m r" "rs_methods r = Some Rdataslab_methods \<or> rs_methods r = Some Rbtdb_methods"
    and "rs_private3 r = Some base" "slab_at m base (rs_type r) tbl its" "1 < length its" "\<And>k n. malloc k n \<noteq> None"
  obtains m' tbl' its' r1 where
    "slab_at m' base (rs_type r) tbl' its'" "list_all2 (payload_for (rs_type r)) (rds_items lb m r) (stored its')"
    "listed its' = stored its'" "length its' = length its"
    "rds_valid m' r1" "rds_items lb m' r1 = map (rdata_of (rs_class r) (rs_type r)) (stored its')" "rds_at lb m' r1 0"
    "offsets_of its' (renumbered its' (replicate (length its) zero_node))"
    "register_rdataset lb malloc sizeof_node m r list_g =
       do { (stats', naddrs) \<leftarrow> address_loop lb m' ISC_R_SUCCESS r1 0 (int (length its))
              (renumbered its' (replicate (length its) zero_node));
            Some (\<lparr>nd_mem = m', nd_rdataset = r\<lparr>rs_privateuint4 := 0, rs_private5 := None\<rparr>,
                   nd_stats = stats', nd_naddrs = naddrs\<rparr> # list_g) }"
proof -
  let ?ns = "replicate (length its) zero_node"
  have ne: "its \<noteq> []" "length ?ns = length its" "\<forall>k n. malloc (k + 2) n \<noteq> None" using assms(5,6) by auto
  obtain m' r' tbl' its' where t:
    "dns_rdataslab_transformrdataset lb (\<lambda>k. malloc (k + 2)) m r ?ns = Some (ISC_R_SUCCESS, m', r', renumbered its' ?ns)"
    "rs_methods r' = Some Rdataslab_methods" "rs_private3 r' = Some base"
    "rs_magic r' = rs_magic r" "rs_class r' = rs_class r" "rs_type r' = rs_type r"
    "slab_at m' base (rs_type r) tbl' its'" "list_all2 (payload_for (rs_type r)) (rds_items lb m r) (stored its')"
    "listed its' = stored its'" "offsets_of its' (renumbered its' ?ns)"
    using transformrdataset_ok [where malloc = "\<lambda>k. malloc (k + 2)" and lb = lb, OF assms(1-4) ne] by blast
  obtain ps where ps: "rds_items lb m r = map (rdata_of (rs_class r) (rs_type r)) ps" "mset ps = mset (stored its)"
    using rds_items_slab [OF assms(1-4)] by metis
  have cnt: "length (rds_items lb m r) = length its" using mset_eq_length [OF ps(2)] ps(1) by (simp add: stored_def)
  then have len: "length its' = length its" using list_all2_lengthD [OF t(8)] by (simp add: stored_def)
  have mg: "rs_magic r" using assms(1) by (simp add: rds_valid_def)
  have v: "rds_valid m' r'" using t mg by (auto simp: rds_valid_def slab_valid_def)
  have items: "rds_items lb m' r' = map (rdata_of (rs_class r) (rs_type r)) (stored its')"
    using t slab_at_parse [OF t(7)] by (simp add: rds_items_def slab_items_def)
  then have "rds_items lb m' r' \<noteq> []" using len assms(5) by (auto simp: stored_def)
  then obtain r1 where r1: "dns_rdataset_first lb m' r' = Some (ISC_R_SUCCESS, r1)" "rds_valid m' r1"
      "rds_items lb m' r1 = rds_items lb m' r'" "rds_at lb m' r1 0"
    using rds_cursor.first_some [OF v] by blast
  have cl: "dns_rdataset_clone lb r dns_rdataset_init = Some (r\<lparr>rs_privateuint4 := 0, rs_private5 := None\<rparr>)"
    using assms(2) mg
    by (auto simp: dns_rdataset_clone_def rdataset_clone_def rbtdb_clone_def rbtdb_lb_clone_def dns_rdataset_init_def)
  obtain a b where "malloc 0 sizeof_node = Some a" "malloc 1 (length its * sizeof_a_node) = Some b" using assms(6) by blast
  then have "register_rdataset lb malloc sizeof_node m r list_g =
       do { (stats', naddrs) \<leftarrow> address_loop lb m' ISC_R_SUCCESS r1 0 (int (length its)) (renumbered its' ?ns);
            Some (\<lparr>nd_mem = m', nd_rdataset = r\<lparr>rs_privateuint4 := 0, rs_private5 := None\<rparr>,
                   nd_stats = stats', nd_naddrs = naddrs\<rparr> # list_g) }"
    using rds_cursor.count_items [OF assms(1), of lb] cnt assms(5) cl t(1) r1(1) by (simp add: register_rdataset_def)
  then show thesis by (rule that [OF t(7,8,9) len r1(2) r1(3) [unfolded items] r1(4) t(10)])
qed

lemma register_addresses:
  assumes "rds_valid m r" "rs_methods r = Some Rdataslab_methods \<or> rs_methods r = Some Rbtdb_methods"
    and "rs_private3 r = Some base" "slab_at m base (rs_type r) tbl its" "1 < length its" "\<And>k n. malloc k n \<noteq> None"
    and a: "rs_type r = dns_rdatatype_a" "rs_class r = 1" "\<forall>p \<in> set (stored its). length p = 4"
  obtains nd tbl' its' where "register_rdataset lb malloc sizeof_node m r list_g = Some (nd # list_g)"
    "node_inv nd tbl' its'" "listed its' = map rd_bytes (rds_items lb m r)"
    "nd_rdataset nd = r\<lparr>rs_privateuint4 := 0, rs_private5 := None\<rparr>"
    "map (\<lambda>x. put32 (in_addr x)) (nd_stats nd) = map rd_bytes (rds_items lb m r)"
proof -
  let ?xs = "rds_items lb m r" and ?ns = "replicate (length its) zero_node"
  obtain m' tbl' its' r1 where g:
    "slab_at m' base (rs_type r) tbl' its'" "list_all2 (payload_for (rs_type r)) ?xs (stored its')"
    "listed its' = stored its'" "length its' = length its"
    "rds_valid m' r1" "rds_items lb m' r1 = map (rdata_of (rs_class r) (rs_type r)) (stored its')" "rds_at lb m' r1 0"
    "offsets_of its' (renumbered its' ?ns)"
    "register_rdataset lb malloc sizeof_node m r list_g =
       do { (stats', naddrs) \<leftarrow> address_loop lb m' ISC_R_SUCCESS r1 0 (int (length its)) (renumbered its' ?ns);
            Some (\<lparr>nd_mem = m', nd_rdataset = r\<lparr>rs_privateuint4 := 0, rs_private5 := None\<rparr>,
                   nd_stats = stats', nd_naddrs = naddrs\<rparr> # list_g) }"
    by (rule register_transform [where malloc = malloc, OF assms(1-6)])
  let ?ds = "map (rdata_of 1 dns_rdatatype_a) (stored its')" and ?st = "renumbered its' ?ns"
  have st: "stored its' = map rd_bytes ?xs"
    using g(2) a(1) by (auto simp: list_all2_conv_all_nth payload_for_def dns_rdatatype_a_def dns_rdatatype_rrsig_def intro!: nth_equalityI)
  have bytes: "rd_bytes (rdata_of c dns_rdatatype_a p) = p" for c p
    by (simp add: rdata_of_def rd_bytes_def dns_rdatatype_a_def dns_rdatatype_rrsig_def)
  obtain ps where ps: "?xs = map (rdata_of (rs_class r) (rs_type r)) ps" "mset ps = mset (stored its)"
    using rds_items_slab [OF assms(1-4)] by metis
  have "stored its' = ps" unfolding st ps(1) a(1) by (simp add: comp_def bytes)
  then have "set (stored its') = set (stored its)" using mset_eq_setD [OF ps(2)] by simp
  then have p4: "\<forall>p \<in> set (stored its'). length p = 4" using a(3) by simp
  have ds: "\<forall>d \<in> set ?ds. rd_type d = dns_rdatatype_a \<and> rd_class d = 1 \<and> rd_length d = 4"
    using p4 by (auto simp: rd_length_def bytes)
  have len: "length ?st = length its'" "length ?ds = length its'" using g(4) by (simp_all add: renumbered_def stored_def)
  have "address_loop lb m' ISC_R_SUCCESS r1 0 (int (length its)) ?st = Some (with_addrs ?st ?ds, int (length its))"
    using address_loop_a [OF ds g(5) g(6) [unfolded a(1,2)] g(7), of "length its' - 1" ?st "int (length its)"] len g(4) assms(5)
    by simp
  then have reg: "register_rdataset lb malloc sizeof_node m r list_g =
      Some (\<lparr>nd_mem = m', nd_rdataset = r\<lparr>rs_privateuint4 := 0, rs_private5 := None\<rparr>,
             nd_stats = with_addrs ?st ?ds, nd_naddrs = int (length its)\<rparr> # list_g)"
    by (simp add: g(9))
  have nth: "with_addrs ?st ?ds ! j = zero_node\<lparr>offset := item_off its' j, in_addr := the (tostruct_in_a (?ds ! j))\<rparr>"
    if "j < length its'" for j
    using that len g(4) by (simp add: with_addrs_def renumbered_def)
  have ad: "put32 (the (tostruct_in_a (?ds ! j))) = stored its' ! j" if "j < length its'" for j
  proof -
    have d: "?ds ! j \<in> set ?ds" using that len(2) by (metis nth_mem)
    obtain x where "tostruct_in_a (?ds ! j) = Some x" "put32 x = rd_bytes (?ds ! j)"
      by (rule tostruct_in_a_bytes [of "?ds ! j"]) (use ds d in auto)
    then show ?thesis using that len(2) by (simp add: bytes)
  qed
  have lw: "length (with_addrs ?st ?ds) = length its'" using len by (simp add: with_addrs_def)
  have offs: "map offset (with_addrs ?st ?ds) = map (item_off its') [0..<length its']"
    by (rule nth_equalityI) (use lw nth in simp_all)
  have addrs: "map (\<lambda>x. put32 (in_addr x)) (with_addrs ?st ?ds) = stored its'"
    by (rule nth_equalityI) (use lw nth ad in \<open>simp_all add: stored_def\<close>)
  have "snd (its' ! i) = put32 (in_addr x)"
    if x: "x \<in> set (with_addrs ?st ?ds)" "i < length its'" "offset x = item_off its' i" for x i
  proof -
    obtain j where j: "j < length its'" "x = with_addrs ?st ?ds ! j" using x(1) lw by (metis in_set_conv_nth)
    then have "j = i" using nth [OF j(1)] x(2,3) item_off_inj by auto
    then show ?thesis using nth [OF j(1)] ad [OF j(1)] j by (simp add: stored_def)
  qed
  then have "node_inv \<lparr>nd_mem = m', nd_rdataset = r\<lparr>rs_privateuint4 := 0, rs_private5 := None\<rparr>,
      nd_stats = with_addrs ?st ?ds, nd_naddrs = int (length its)\<rparr> tbl' its'"
    using g(1,4) assms(3) a(1) lw offs by (auto simp: node_inv_def offsets_of_def)
  then show thesis using that [OF reg] g(3) st addrs by simp
qed

section \<open>Rounds\<close>

lemma update_node_keeps:
  assumes qs: "c_qsort qs" and inv: "node_inv nd tbl its"
    and up: "update_node qs md5sum nw malloc nd = Some (Ran nd')"
  shows "\<exists>tbl' its'. node_inv nd' tbl' its' \<and> stored its' = stored its"
proof (cases "nd_naddrs nd > 0")
  case False
  then show ?thesis using up inv by (auto simp: update_node_def)
next
  case True
  then obtain polls stats m r where p: "poll_loop md5sum nw malloc 0 (nat (nd_naddrs nd)) (nd_stats nd) = Some (Ran polls)"
    and q: "qsort_nodes qs (nat (nd_naddrs nd)) polls = Some stats"
    and s: "dns_rdataslab_sort_fromrdataset (nd_mem nd) (nd_rdataset nd) stats = Some r"
    and nd': "nd' = nd\<lparr>nd_stats := stats, nd_mem := fst (snd r), nd_rdataset := snd (snd r)\<rparr>"
    using up by (auto simp: update_node_def ns_profiler_poll_workers_def split: option.splits run.splits bind_splits)
  have pm: "map (\<lambda>x. (in_addr x, offset x)) polls = map (\<lambda>x. (in_addr x, offset x)) (nd_stats nd)"
    by (rule poll_loop_keeps [OF p])
  let ?n = "nat (nd_naddrs nd)"
  have "stats = qs (\<lambda>a b. the (cmp a b)) (take ?n polls) @ drop ?n polls" "cmp_on (\<lambda>a b. the (cmp a b)) (set (take ?n polls))"
    using q by (auto simp: qsort_nodes_def consistent_iff split: if_splits)
  then have "mset stats = mset (take ?n polls) + mset (drop ?n polls)" by (simp add: c_qsort.qsort_mset [OF qs])
  also have "\<dots> = mset polls" by (simp flip: mset_append)
  finally have "mset (map (\<lambda>x. (in_addr x, offset x)) stats) = mset (map (\<lambda>x. (in_addr x, offset x)) polls)" by simp
  then have ms: "mset (map (\<lambda>x. (in_addr x, offset x)) stats) = mset (map (\<lambda>x. (in_addr x, offset x)) (nd_stats nd))"
    unfolding pm .
  obtain m r' its' where "dns_rdataslab_sort_fromrdataset (nd_mem nd) (nd_rdataset nd) stats = Some (ISC_R_SUCCESS, m, r')"
    "node_inv (nd\<lparr>nd_stats := stats, nd_mem := m, nd_rdataset := r'\<rparr>) (map offset stats) its'" "stored its' = stored its"
    by (rule sort_node [OF inv ms])
  then show ?thesis using s nd' by auto
qed



text \<open>One round for a registered rdataset, when the loads can be compared.\<close>

lemma update_node_sorted:
  assumes inv: "node_inv nd tbl its" "its \<noteq> []"
    and poll: "poll_loop md5sum nw malloc 0 (length its) (nd_stats nd) = Some (Ran polls)"
    and "\<forall>x \<in> set polls. sane_node x" "separated (set polls)" "c_qsort qs"
  obtains nd' its' where "update_node qs md5sum nw malloc nd = Some (Ran nd')" "node_inv nd' (map offset (nd_stats nd')) its'"
    "mset (nd_stats nd') = mset polls" "sorted (map load_of (nd_stats nd'))"
    "stored its' = stored its" "listed its' = map (\<lambda>x. put32 (in_addr x)) (nd_stats nd')"
    "nd_rdataset nd' = (nd_rdataset nd)\<lparr>rs_privateuint4 := 0, rs_private5 := None\<rparr>"
proof -
  let ?c = "\<lambda>a b. the (cmp a b)"
  have on: "cmp_on ?c (set polls)" using assms(4,5) by (simp add: cmp_separated_on)
  note q = c_qsort.qsort_mset [OF assms(6) on] c_qsort.qsort_ascending [OF assms(6) on]
  obtain nd' its' where u: "update_node qs md5sum nw malloc nd = Some (Ran nd')" "node_inv nd' (map offset (nd_stats nd')) its'"
    "stored its' = stored its" "listed its' = map (\<lambda>x. put32 (in_addr x)) (nd_stats nd')" "nd_stats nd' = qs ?c polls"
    "nd_rdataset nd' = (nd_rdataset nd)\<lparr>rs_privateuint4 := 0, rs_private5 := None\<rparr>"
    by (rule update_node_inv [OF assms])
  have "sorted_wrt (\<lambda>a b. load_of a \<le> load_of b) (qs ?c polls)"
  proof (rule sorted_wrt_mono_rel [OF _ q(2)])
    fix x y assume "x \<in> set (qs ?c polls)" "y \<in> set (qs ?c polls)" "?c x y \<le> 0"
    then show "load_of x \<le> load_of y"
      using cmp_signs(2) [OF assms(5,4), of x y] mset_eq_setD [OF q(1)] by (simp add: not_less [symmetric])
  qed
  then have "sorted (map load_of (nd_stats nd'))" unfolding u(5) by (simp add: sorted_map)
  then show thesis using that u q(1) by simp
qed

text \<open>
  What a handle of the database on the slab of a node lists, with the methods of either build: in the load-balancing build, and
  for handles with the load order attribute in the other build, the order of the table; otherwise the order of storage.
\<close>

lemma node_items:
  assumes "node_inv nd tbl its" "rs_methods r = Some Rbtdb_methods" "rs_type r = dns_rdatatype_a" "rs_private3 r = rs_private3 (nd_rdataset nd)"
  shows "rds_items lb (nd_mem nd) r =
    map (rdata_of (rs_class r) dns_rdatatype_a) (if lb \<or> loadorder r then listed its else stored its)"
proof -
  obtain base where "rs_private3 r = Some base" "slab_at (nd_mem nd) base dns_rdatatype_a tbl its"
    using assms(1,4) by (auto simp: node_inv_def)
  then show ?thesis
    using assms(2,3) slab_at_parse [of "nd_mem nd" base dns_rdatatype_a tbl its]
    by (simp add: rds_items_def slab_items_def rbtdb_items_def rbtdb_view_def)
qed

text \<open>
  C6: A round sorts: when the loads that the poll of a registered rdataset brings are far from overflow and pairwise equal or
  at least one apart, the update polls, sorts and rewrites without undefined behaviour, and the array holds exactly the polled
  addresses in ascending order of their load.  Afterwards a handle on the rdataset lists them in this order when the database is
  compiled with \<^verbatim>\<open>LBBIND\<close>, or has its own methods and the handle the attribute \<^verbatim>\<open>DNS_RDATASETATTR_LOADORDER\<close>; a handle without the
  attribute still lists them in the order of storage under the database's own methods.
\<close>

theorem update_sorts_by_load:
  assumes inv: "node_inv nd tbl its" "its \<noteq> []"
    and meth: "rs_methods (nd_rdataset nd) = Some Rbtdb_methods"
    and poll: "poll_loop md5sum nw malloc 0 (length its) (nd_stats nd) = Some (Ran polls)"
    and "\<forall>x \<in> set polls. sane_node x" "separated (set polls)" "c_qsort qs"
  shows "\<exists>nd' tbl' its'. update_node qs md5sum nw malloc nd = Some (Ran nd') \<and> node_inv nd' tbl' its' \<and>
     mset (nd_stats nd') = mset polls \<and> sorted (map load_of (nd_stats nd')) \<and>
     (\<forall>lb attrs. rds_items lb (nd_mem nd') ((nd_rdataset nd')\<lparr>rs_attributes := attrs\<rparr>) =
        map (rdata_of (rs_class (nd_rdataset nd)) dns_rdatatype_a)
          (if lb \<or> attrs AND DNS_RDATASETATTR_LOADORDER \<noteq> 0 then map (\<lambda>x. put32 (in_addr x)) (nd_stats nd') else stored its))"
proof -
  obtain nd' its' where u: "update_node qs md5sum nw malloc nd = Some (Ran nd')" "node_inv nd' (map offset (nd_stats nd')) its'"
    "mset (nd_stats nd') = mset polls" "sorted (map load_of (nd_stats nd'))"
    "stored its' = stored its" "listed its' = map (\<lambda>x. put32 (in_addr x)) (nd_stats nd')"
    "nd_rdataset nd' = (nd_rdataset nd)\<lparr>rs_privateuint4 := 0, rs_private5 := None\<rparr>"
    by (rule update_node_sorted [OF inv poll assms(5-7)])
  have "rs_type (nd_rdataset nd) = dns_rdatatype_a" using inv(1) by (auto simp: node_inv_def)
  then have "rds_items lb (nd_mem nd') ((nd_rdataset nd')\<lparr>rs_attributes := attrs\<rparr>) =
        map (rdata_of (rs_class (nd_rdataset nd)) dns_rdatatype_a)
          (if lb \<or> attrs AND DNS_RDATASETATTR_LOADORDER \<noteq> 0 then map (\<lambda>x. put32 (in_addr x)) (nd_stats nd') else stored its)" for lb attrs
    using node_items [OF u(2), of "(nd_rdataset nd')\<lparr>rs_attributes := attrs\<rparr>" lb] u(5-7) meth by (simp add: loadorder_def)
  then show ?thesis using u(1-4) by blast
qed

text \<open>
  C16: Polling, for every behaviour of the network: it returns or the process ends (a failed write), no access leaves a buffer,
  and each node it visits either gets the loads of a worker that is down or loads read from a message that begins with bytes
  received from the worker and carries its own digest; address and offset stay.
\<close>

theorem poll_workers_correct:
  assumes "\<And>x. length (md5sum x) = 16" "mctx_ok malloc" "\<And>k n. malloc k n \<noteq> None"
    and "nd_naddrs cur = int (length (nd_stats cur))"
  shows "ns_profiler_poll_workers md5sum nw malloc cur = Some Exited \<or>
     (\<exists>stats. ns_profiler_poll_workers md5sum nw malloc cur = Some (Ran (cur\<lparr>nd_stats := stats\<rparr>)) \<and>
        list_all2 (polled md5sum nw) (nd_stats cur) stats \<and>
        map (\<lambda>x. (in_addr x, offset x)) stats = map (\<lambda>x. (in_addr x, offset x)) (nd_stats cur))"
  using poll_loop_ok [where md5sum = md5sum and malloc = malloc and nw = nw and i = 0 and n = "length (nd_stats cur)"
      and stats = "nd_stats cur", OF assms(1-3)] assms(4)
  by (auto simp: ns_profiler_poll_workers_def list_all2_conv_all_nth dest: poll_loop_keeps)

text \<open>
  The loads that a round can bring: those of a worker that is down and those of the answers.  Honest workers answer with whole
  messages and loads far from overflow, or not at all, and any two of the loads are equal or at least one apart.
\<close>

definition reported :: "network \<Rightarrow> a_node set" where
  "reported nw = range down \<union>
     {nd. \<exists>sockfd req bs. nw_exchange nw sockfd req = Received bs \<and> f32_load bs 0 = Some (io_load nd) \<and>
        f32_load bs 4 = Some (cpu_load nd) \<and> f32_load bs 8 = Some (net_load nd)}"

definition honest :: "network \<Rightarrow> bool" where
  "honest nw \<longleftrightarrow> (\<forall>sockfd req bs. nw_exchange nw sockfd req = Received bs \<longrightarrow> bs = [] \<or>
     (28 \<le> length bs \<and> (\<forall>i \<in> {0, 4, 8}. \<exists>f. f32_load bs i = Some f \<and> sane f))) \<and> separated (reported nw)"

lemma sane_down: "sane_node (down nd)"
  by (simp add: sane_node_def down_def sane_def f32_nat_def)

lemma polled_sane:
  assumes "honest nw" "polled md5sum nw nd nd'"
  shows "sane_node nd' \<and> nd' \<in> reported nw"
proof (cases "nd' = down nd")
  case False
  then obtain sockfd req bs msg where e: "nw_exchange nw sockfd req = Received bs" "bs \<noteq> []"
      "take (length bs) msg = take 28 bs" "authentic md5sum msg nd nd'"
    using assms(2) by (auto simp: polled_def)
  have h: "28 \<le> length bs" "\<forall>i \<in> {0, 4, 8}. \<exists>f. f32_load bs i = Some f \<and> sane f"
    using assms(1) e(1,2) by (auto simp: honest_def)
  have "length msg = 28" using e(4) by (simp add: authentic_def)
  then have "msg = take 28 bs" using e(3) h(1) by simp
  then have same: "f32_load msg 0 = f32_load bs 0" "f32_load msg 4 = f32_load bs 4" "f32_load msg 8 = f32_load bs 8"
    using h(1) by (simp_all add: f32_load_take)
  obtain io cpu net where "f32_load bs 0 = Some io" "sane io" "f32_load bs 4 = Some cpu" "sane cpu"
      "f32_load bs 8 = Some net" "sane net" using h(2) by blast
  moreover from this have "nd' = nd\<lparr>io_load := io, cpu_load := cpu, net_load := net\<rparr>" using e(4) same by (auto simp: authentic_def)
  ultimately show ?thesis using e(1) by (auto simp: sane_node_def reported_def)
qed (simp add: sane_down reported_def)

lemma separated_subset: "separated A \<Longrightarrow> B \<subseteq> A \<Longrightarrow> separated B"
  unfolding separated_def by blast

text \<open>Nodes that a round can handle, and a round for one of them.\<close>

definition registered :: "node \<Rightarrow> bool" where
  "registered nd \<longleftrightarrow> nd_naddrs nd \<le> 0 \<or> (\<exists>tbl its. node_inv nd tbl its)"

lemma update_node_defined:
  assumes md5sum: "\<And>x. length (md5sum x) = 16" and malloc: "mctx_ok malloc" "\<And>i n. malloc i n \<noteq> None"
    and qs: "c_qsort qs" and nw: "honest nw" and nd: "registered nd"
  shows "update_node qs md5sum nw malloc nd = Some Exited \<or> (\<exists>nd'. update_node qs md5sum nw malloc nd = Some (Ran nd'))"
proof (cases "nd_naddrs nd \<le> 0")
  case True
  then show ?thesis by (simp add: update_node_def)
next
  case False
  then obtain tbl its where inv: "node_inv nd tbl its" using nd by (auto simp: registered_def)
  then have len: "nd_naddrs nd = int (length its)" "length (nd_stats nd) = length its" by (simp_all add: node_inv_def)
  then have ne: "its \<noteq> []" using False by auto
  from poll_loop_ok [where md5sum = md5sum and malloc = malloc and nw = nw and i = 0 and n = "length its"
      and stats = "nd_stats nd", OF md5sum malloc] len
  consider (ended) "poll_loop md5sum nw malloc 0 (length its) (nd_stats nd) = Some Exited"
    | (ran) polls where "poll_loop md5sum nw malloc 0 (length its) (nd_stats nd) = Some (Ran polls)"
        "length polls = length its" "\<forall>j < length its. polled md5sum nw (nd_stats nd ! j) (polls ! j)"
    by auto
  then show ?thesis
  proof cases
    case ended
    then show ?thesis using False len by (simp add: update_node_def ns_profiler_poll_workers_def)
  next
    case ran
    have s: "sane_node a \<and> a \<in> reported nw" if "a \<in> set polls" for a
      using that ran(2,3) polled_sane [OF nw] by (metis in_set_conv_nth)
    have "separated (reported nw)" using nw by (simp add: honest_def)
    then have sep: "separated (set polls)" by (rule separated_subset) (use s in blast)
    obtain nd' where "update_node qs md5sum nw malloc nd = Some (Ran nd')"
      by (rule update_node_inv [OF inv ne ran(1) _ sep qs]) (use s in blast)+
    then show ?thesis by blast
  qed
qed

lemma update_node_registered:
  assumes "c_qsort qs" "registered nd" "update_node qs md5sum nw malloc nd = Some (Ran nd')"
  shows "registered nd'"
proof (cases "nd_naddrs nd \<le> 0")
  case True
  then show ?thesis using assms(3) by (simp add: update_node_def registered_def)
next
  case False
  then obtain tbl its where "node_inv nd tbl its" using assms(2) by (auto simp: registered_def)
  then show ?thesis using update_node_keeps [where qs = qs, OF assms(1) _ assms(3)] by (auto simp: registered_def)
qed

lemma update_nodes_registered:
  assumes "c_qsort qs"
  shows "update_nodes qs md5sum nw malloc k l = Some (Ran l') \<Longrightarrow> \<forall>nd \<in> set l. registered nd \<Longrightarrow> \<forall>nd \<in> set l'. registered nd"
proof (induction l arbitrary: k l')
  case (Cons nd l)
  then obtain nd1 l1 where u: "update_node qs md5sum (nw k) (malloc k) nd = Some (Ran nd1)"
    "update_nodes qs md5sum nw malloc (Suc k) l = Some (Ran l1)" "l' = nd1 # l1"
    by (auto split: option.splits run.splits)
  then show ?case using Cons.IH [OF u(2)] Cons.prems(2) update_node_registered [where qs = qs, OF assms _ u(1)] by auto
qed simp

lemma update_nodes_defined:
  assumes md5sum: "\<And>x. length (md5sum x) = 16" and malloc: "\<And>k. mctx_ok (malloc k)" "\<And>k i n. malloc k i n \<noteq> None"
    and qs: "c_qsort qs" and nw: "\<And>k. honest (nw k)"
  shows "\<forall>nd \<in> set l. registered nd \<Longrightarrow>
     update_nodes qs md5sum nw malloc k l = Some Exited \<or> (\<exists>l'. update_nodes qs md5sum nw malloc k l = Some (Ran l'))"
proof (induction l arbitrary: k)
  case (Cons nd l)
  have "update_node qs md5sum (nw k) (malloc k) nd = Some Exited \<or>
      (\<exists>nd'. update_node qs md5sum (nw k) (malloc k) nd = Some (Ran nd'))"
    using update_node_defined [where qs = qs and md5sum = md5sum and nw = "nw k" and malloc = "malloc k" and nd = nd,
        OF md5sum malloc qs nw] Cons.prems by simp
  moreover have "update_nodes qs md5sum nw malloc (Suc k) l = Some Exited \<or>
      (\<exists>l'. update_nodes qs md5sum nw malloc (Suc k) l = Some (Ran l'))"
    using Cons.IH [of "Suc k"] Cons.prems by simp
  ultimately show ?case by auto
qed simp

text \<open>
  C9: A round over all registered rdatasets never runs into undefined behaviour when allocations succeed and the workers are
  honest (whole messages with loads far from overflow, any two of them, or of a worker that is down, equal or at least one
  apart): it finishes, or a failed write ends the process.
\<close>

theorem update_round_defined:
  assumes md5sum: "\<And>x. length (md5sum x) = 16" and malloc: "\<And>k. mctx_ok (malloc k)" "\<And>k i n. malloc k i n \<noteq> None"
    and qs: "c_qsort qs" and nw: "\<And>k. honest (nw k)"
    and l: "\<forall>nd \<in> set l. nd_naddrs nd \<le> 0 \<or> (\<exists>tbl its. node_inv nd tbl its)"
  shows "update_nodes qs md5sum nw malloc k l = Some Exited \<or> (\<exists>l'. update_nodes qs md5sum nw malloc k l = Some (Ran l'))"
  by (rule update_nodes_defined [where qs = qs and malloc = malloc, OF md5sum malloc qs nw]) (use l in \<open>simp add: registered_def\<close>)

text \<open>A network where no write fails never ends the process.\<close>

lemma poll_loop_runs:
  assumes "\<And>sockfd req. nw_exchange nw sockfd req \<noteq> WriteError"
  shows "poll_loop md5sum nw malloc i n stats \<noteq> Some Exited"
proof (induction n arbitrary: i stats)
  case (Suc n)
  have "sendMessage md5sum nw buf msg ip k \<noteq> Some Exited" for buf msg ip k
    using assms by (auto simp: sendMessage_def split: bind_splits reply.splits)
  then show ?case using Suc.IH by (auto simp: Let_def split: option.splits run.splits)
qed simp

lemma update_nodes_runs:
  assumes "\<And>k sockfd req. nw_exchange (nw k) sockfd req \<noteq> WriteError"
  shows "update_nodes qs md5sum nw malloc k l \<noteq> Some Exited"
proof (induction l arbitrary: k)
  case (Cons nd l)
  have "update_node qs md5sum (nw k) (malloc k) nd \<noteq> Some Exited"
    using poll_loop_runs [where nw = "nw k", OF assms]
    by (auto simp: update_node_def ns_profiler_poll_workers_def split: bind_splits option.splits run.splits)
  then show ?case using Cons.IH by (auto split: option.splits run.splits)
qed simp

text \<open>
  C10: The profiler goes on for ever: in every state that its update thread reaches without undefined behaviour, with whatever
  answers so far, if the workers are honest in the next round (as for C9), allocations succeed and no write fails, that round
  finishes and gives a state that it reaches.
\<close>

theorem update_progress:
  assumes md5sum: "\<And>x. length (md5sum x) = 16" and malloc: "\<And>k. mctx_ok (malloc k)" "\<And>k i n. malloc k i n \<noteq> None"
    and qs: "c_qsort qs" and nw: "\<And>k. honest (nw k)" "\<And>k sockfd req. nw_exchange (nw k) sockfd req \<noteq> WriteError"
    and list_g: "\<forall>nd \<in> set list_g. nd_naddrs nd \<le> 0 \<or> (\<exists>tbl its. node_inv nd tbl its)"
    and reached: "ns_profiler_update_addrs qs md5sum list_g l"
  shows "\<exists>l'. update_nodes qs md5sum nw malloc 0 l = Some (Ran l') \<and> ns_profiler_update_addrs qs md5sum list_g l'"
proof -
  have "\<forall>nd \<in> set l. registered nd"
    using reached
  proof induction
    case start
    then show ?case using list_g by (simp add: registered_def)
  next
    case (round l nw malloc l')
    then show ?case using update_nodes_registered [where qs = qs, OF qs] by blast
  qed
  then obtain l' where "update_nodes qs md5sum nw malloc 0 l = Some (Ran l')"
    using update_nodes_defined [where qs = qs and md5sum = md5sum and nw = nw and malloc = malloc and k = 0, OF md5sum malloc qs nw(1)]
      update_nodes_runs [where nw = nw, OF nw(2)] by blast
  then show ?thesis using ns_profiler_update_addrs.round [OF reached] by blast
qed

section \<open>The comparison function\<close>

text \<open>
  C17: On loads far from overflow the comparison function for \<^verbatim>\<open>qsort\<close> is defined and antisymmetric; a negative result means a
  smaller load, and loads at least one apart are told apart.
\<close>

theorem cmp_antisymmetric:
  assumes "sane_node a" "sane_node b"
  shows "\<exists>t. cmp a b = Some t \<and> cmp b a = Some (- t) \<and> (t < 0 \<longrightarrow> load_of a < load_of b) \<and>
     (load_of a + 2 ^ 149 \<le> load_of b \<longrightarrow> t < 0)"
proof -
  obtain t where t: "cmp a b = Some t" "t < 0 \<longrightarrow> load_of a < load_of b" "2 ^ 149 \<le> load_of b - load_of a \<longrightarrow> t < 0"
    by (rule cmp_sane [OF assms])
  obtain t' where "cmp b a = Some t'" by (rule cmp_sane [OF assms(2,1)])
  have "t \<noteq> - 2147483648"
  proof
    assume "t = - 2147483648"
    then have "f32_to_int (f32_sub (CALC_LOAD a) (CALC_LOAD b)) = Some (- 2147483648)" using t(1) by (simp add: cmp_def)
    moreover note l = sane_load [OF assms(1)] sane_load [OF assms(2)]
    have "\<bar>load_of a - load_of b\<bar> < 2 ^ (175 + 0)" using l by simp
    then obtain v where v: "f32_round (load_of a - load_of b) 0 = Fin v" "\<bar>v\<bar> \<le> 2 ^ 175"
      by (rule f32_round_bound) simp_all
    ultimately have "sgn v * (\<bar>v\<bar> div 2 ^ 149) = - 2147483648"
      using l v(1) by (simp add: f32_sub_def Let_def split: if_splits)
    moreover have "\<bar>v\<bar> div 2 ^ 149 \<le> 2 ^ 175 div 2 ^ 149" using v(2) by (intro zdiv_mono1) auto
    ultimately show False by (auto simp: sgn_if split: if_splits)
  qed
  then have "cmp b a = Some (- t)"
    using t(1) f32_to_int_neg [of "f32_sub (CALC_LOAD a) (CALC_LOAD b)" t] f32_sub_swap [of "CALC_LOAD b" "CALC_LOAD a"]
    by (simp add: cmp_def)
  then show ?thesis using t by auto
qed

text \<open>A worker with a CPU load and nothing else.\<close>

definition cpu_node :: "nat \<Rightarrow> a_node" where
  "cpu_node n = zero_node\<lparr>cpu_load := f32_nat n\<rparr>"

lemma cpu_node_load:
  "CALC_LOAD (cpu_node 0) = Fin 0" "CALC_LOAD (cpu_node 1) = Fin (2 ^ 148)" "CALC_LOAD (cpu_node 2) = Fin (2 ^ 149)"
proof -
  have z: "f32_mul (Fin 0) w = Fin 0" if "w = IO \<or> w = NET \<or> w = CPU" for w
    using that f32_round_0 [of 149] by (auto simp: IO_def NET_def CPU_def)
  have add: "f32_add (f32_add (Fin v) (Fin 0)) (Fin 0) = Fin v" if "v = 0 \<or> v = 2 ^ m" "m < 250" for v m
  proof -
    have "f32_round v 0 = Fin v" using that f32_round_pow2 [of m 0] f32_round_0 by auto
    then show ?thesis by simp
  qed
  have load: "CALC_LOAD (cpu_node n) = f32_add (f32_add (f32_mul (f32_nat n) CPU) (Fin 0)) (Fin 0)" for n
    using z by (simp add: CALC_LOAD_def cpu_node_def zero_node_def)
  show "CALC_LOAD (cpu_node 0) = Fin 0"
    unfolding load using z [of CPU] add [of 0 0] by (simp add: f32_nat_def)
  have m1: "f32_mul (f32_nat 1) CPU = Fin (2 ^ 148)"
    using f32_round_pow2 [of 148 149] by (simp add: f32_nat_def CPU_def)
  show "CALC_LOAD (cpu_node 1) = Fin (2 ^ 148)"
    unfolding load m1 by (rule add [of _ 148]) simp_all
  have m2: "f32_mul (f32_nat 2) CPU = Fin (2 ^ 149)"
    using f32_round_pow2 [of 149 149] by (simp add: f32_nat_def CPU_def)
  show "CALC_LOAD (cpu_node 2) = Fin (2 ^ 149)"
    unfolding load m2 by (rule add [of _ 149]) simp_all
qed

text \<open>
  C18: The comparison function is not a consistent one: with CPU loads of 0, 1 and 2 it takes the first worker for as loaded as the
  second and the second for as loaded as the third, but not the first for as loaded as the third, because the difference of the
  loads is cut to an integer.  The C standard promises nothing about \<^verbatim>\<open>qsort\<close> with such a function.
\<close>

theorem cmp_inconsistent:
  "cmp (cpu_node 0) (cpu_node 1) = Some 0 \<and> cmp (cpu_node 1) (cpu_node 2) = Some 0 \<and>
   cmp (cpu_node 0) (cpu_node 2) = Some (- 1) \<and>
   \<not> cmp_on (\<lambda>a b. the (cmp a b)) {cpu_node 0, cpu_node 1, cpu_node 2}"
proof -
  have s: "f32_sub (Fin 0) (Fin (2 ^ m)) = Fin (- (2 ^ m))" if "m < 250" for m
    using f32_round_uminus [of "2 ^ m" 0] f32_round_pow2 [OF that, of 0] by (simp add: f32_sub_def)
  have "f32_round (- (2 ^ 148)) 0 = Fin (- (2 ^ 148))"
    using f32_round_uminus [of "2 ^ 148" 0] f32_round_pow2 [of 148 0] by simp
  then have s2: "f32_sub (Fin (2 ^ 148)) (Fin (2 ^ 149)) = Fin (- (2 ^ 148))" by (simp add: f32_sub_def)
  have c: "cmp (cpu_node 0) (cpu_node 1) = Some 0" "cmp (cpu_node 1) (cpu_node 2) = Some 0"
    "cmp (cpu_node 0) (cpu_node 2) = Some (- 1)"
    unfolding cmp_def cpu_node_load Let_def using s [of 148] s [of 149] s2 by simp_all
  have "cmp (cpu_node 2) (cpu_node 0) = Some 1"
    using c(3) f32_to_int_neg [of "f32_sub (Fin 0) (Fin (2 ^ 149))" "- 1"] f32_sub_swap [of "Fin (2 ^ 149)" "Fin 0"]
    unfolding cmp_def cpu_node_load Let_def by simp
  moreover have "cmp (cpu_node 2) (cpu_node 1) = Some 0"
    using c(2) f32_to_int_neg [of "f32_sub (Fin (2 ^ 148)) (Fin (2 ^ 149))" 0] f32_sub_swap [of "Fin (2 ^ 149)" "Fin (2 ^ 148)"]
    unfolding cmp_def cpu_node_load Let_def by simp
  moreover have "cmp (cpu_node 1) (cpu_node 0) = Some 0"
    using c(1) f32_to_int_neg [of "f32_sub (Fin 0) (Fin (2 ^ 148))" 0] f32_sub_swap [of "Fin (2 ^ 148)" "Fin 0"]
    unfolding cmp_def cpu_node_load Let_def by simp
  ultimately have "\<not> cmp_on (\<lambda>a b. the (cmp a b)) {cpu_node 0, cpu_node 1, cpu_node 2}"
    using cmp_on.cmp_trans [of "\<lambda>a b. the (cmp a b)" "{cpu_node 0, cpu_node 1, cpu_node 2}" "cpu_node 2" "cpu_node 1" "cpu_node 0"]
    by auto
  with c show ?thesis by blast
qed

text \<open>
  C8: Registration of an rdataset with more than one address: the node is well-formed, the array holds the addresses in the order
  in which the rdataset lists them, and the rewritten slab lists the same addresses in the same order.
\<close>

theorem register_correct:
  assumes "rds_valid m r" "rs_methods r = Some Rdataslab_methods \<or> rs_methods r = Some Rbtdb_methods"
    and "rs_private3 r = Some base" "slab_at m base (rs_type r) tbl its" "1 < length its" "\<And>k n. malloc k n \<noteq> None"
    and "rs_type r = dns_rdatatype_a" "rs_class r = 1" "\<forall>p \<in> set (stored its). length p = 4"
  shows "\<exists>nd tbl' its'. register_rdataset lb malloc sizeof_node m r list_g = Some (nd # list_g) \<and>
     node_inv nd tbl' its' \<and> listed its' = map rd_bytes (rds_items lb m r) \<and>
     map (\<lambda>x. put32 (in_addr x)) (nd_stats nd) = map rd_bytes (rds_items lb m r)"
  by (rule register_addresses [where malloc = malloc, OF assms]) blast

text \<open>
  An rdataset of any other type is registered with no addresses, so the update never polls for it.
\<close>

lemma register_other_type:
  assumes "rds_valid m r" "rs_methods r = Some Rdataslab_methods \<or> rs_methods r = Some Rbtdb_methods"
    and "rs_private3 r = Some base" "slab_at m base (rs_type r) tbl its" "1 < length its" "\<And>k n. malloc k n \<noteq> None"
    and "rs_type r \<noteq> dns_rdatatype_a"
  shows "\<exists>nd. register_rdataset lb malloc sizeof_node m r list_g = Some (nd # list_g) \<and> nd_naddrs nd = 0 \<and>
     update_node qs md5sum nw malloc' nd = Some (Ran nd)"
proof -
  obtain m' tbl' its' r1 where g: "length its' = length its" "rds_valid m' r1"
    "rds_items lb m' r1 = map (rdata_of (rs_class r) (rs_type r)) (stored its')" "rds_at lb m' r1 0"
    "register_rdataset lb malloc sizeof_node m r list_g =
       do { (stats', naddrs) \<leftarrow> address_loop lb m' ISC_R_SUCCESS r1 0 (int (length its))
              (renumbered its' (replicate (length its) zero_node));
            Some (\<lparr>nd_mem = m', nd_rdataset = r\<lparr>rs_privateuint4 := 0, rs_private5 := None\<rparr>,
                   nd_stats = stats', nd_naddrs = naddrs\<rparr> # list_g) }"
    by (rule register_transform [where malloc = malloc, OF assms(1-6)])
  have t: "\<forall>d \<in> set (map (rdata_of (rs_class r) (rs_type r)) (stored its')). rd_type d \<noteq> dns_rdatatype_a"
    using assms(7) by auto
  have "address_loop lb m' ISC_R_SUCCESS r1 0 (int (length its)) (renumbered its' (replicate (length its) zero_node)) =
      Some (renumbered its' (replicate (length its) zero_node), int (length its) - int (Suc (length its - 1)))"
    by (rule address_loop_other [OF t g(2-4)]) (use g(1) assms(5) in \<open>simp add: stored_def\<close>)
  then show ?thesis using g(5) assms(5) by (simp add: update_node_def)
qed

section \<open>Examples\<close>

text \<open>
  The addresses 10.0.0.1 and 10.0.0.2 in the slab of the earlier examples, a digest that is always zero, and a network where
  the first worker is down and the second one is idle.
\<close>

definition ex_md5 :: "u8 list \<Rightarrow> u8 list" where
  "ex_md5 = (\<lambda>x. replicate 16 0)"

definition ex_nw :: network where
  "ex_nw = \<lparr>nw_connect = (\<lambda>i ip port. i \<noteq> 0), nw_exchange = (\<lambda>i req. Received (replicate 28 0))\<rparr>"

definition ex_stats :: "a_node list" where
  "ex_stats = [zero_node\<lparr>in_addr := 167772161, offset := 10\<rparr>, zero_node\<lparr>in_addr := 167772162, offset := 18\<rparr>]"

definition ex_db_set :: dns_rdataset where
  "ex_db_set = dns_rdataset_init\<lparr>rs_methods := Some Rbtdb_methods, rs_class := 1, rs_type := 1, rs_private3 := Some 3\<rparr>"

definition ex_nd :: node where
  "ex_nd = \<lparr>nd_mem = ex_slab, nd_rdataset = ex_db_set, nd_stats = ex_stats, nd_naddrs = 2\<rparr>"

lemma ex_its_facts: "length ex_its = 2" "item_off ex_its 0 = 10" "item_off ex_its (Suc 0) = 18" "ex_its \<noteq> []"
  by (simp_all add: ex_its_def item_off_def)

lemma ex_node_inv: "node_inv ex_nd ex_tbl ex_its"
proof -
  have "slab_at ex_slab 3 dns_rdatatype_a ex_tbl ex_its" using ex_slab_at by (simp add: dns_rdatatype_a_def)
  moreover have "offsets_of ex_its ex_stats"
    by (simp add: offsets_of_def ex_its_facts ex_stats_def numeral_2_eq_2)
  moreover have "snd (ex_its ! i) = put32 (in_addr x)"
    if "x \<in> set ex_stats" "i < length ex_its" "offset x = item_off ex_its i" for x i
  proof -
    have "i = 0 \<or> i = 1" using that(2) ex_its_facts(1) by auto
    then show ?thesis using that by (auto simp: ex_stats_def ex_its_facts) (simp_all add: ex_its_def put32_def)
  qed
  ultimately show ?thesis
    by (auto simp: node_inv_def ex_nd_def ex_db_set_def dns_rdatatype_a_def ex_its_facts ex_stats_def)
qed

lemma ex_env: "length (ex_md5 x) = 16" "ex_mctx k n \<noteq> None" "mctx_ok ex_mctx"
  using ex_assms(2) by (simp_all add: ex_md5_def ex_mctx_def)

lemma ex_poll_two:
  "poll_loop ex_md5 ex_nw ex_mctx 0 2 [a, b] = Some (Ran [down a, b\<lparr>io_load := Fin 0, cpu_load := Fin 0, net_load := Fin 0\<rparr>])"
proof -
  have f: "f32_load (replicate n 0) i = Some (Fin 0)" if "i + 4 \<le> n" for n i
    using that by (simp add: f32_load_def mem_blk_def get32_def f32_of_bits_def min_def)
  have w: "mem_wr (replicate n 0) i (replicate k 0) = Some (replicate n 0)" if "i + k \<le> n" for n i k
    using that by (simp add: mem_wr_def min_def flip: replicate_add)
  obtain msg where "request_text ex_md5 REQSTATS (inet_ntoa (in_addr b)) = Some msg"
    using request_text_fits [of ex_md5 "in_addr b"] ex_env(1) by blast
  then have send: "sendMessage ex_md5 ex_nw (ex_mctx 1 42) REQSTATS (inet_ntoa (in_addr b)) 1 = Some (Ran (Some (replicate 42 0)))"
    using w [of 0 28 42] w [of 28 1 42] by (simp add: sendMessage_def ex_nw_def ex_mctx_def)
  have parse: "parse_response ex_md5 (replicate 42 0) b =
      Some (0, replicate 42 0, b\<lparr>io_load := Fin 0, cpu_load := Fin 0, net_load := Fin 0\<rparr>)"
    using same_digest_take [of 0 16 "replicate 16 0 :: u8 list" "replicate 16 0"] w [of 12 1 42]
    by (simp add: parse_response_def f mem_blk_def ex_md5_def)
  show ?thesis
    using send parse by (simp add: numeral_2_eq_2 ex_nw_def)
qed

lemma ex_poll: "poll_loop ex_md5 ex_nw ex_mctx 0 (length ex_its) ex_stats = Some (Ran [down (ex_stats ! 0), ex_stats ! 1])"
  using ex_poll_two by (simp add: ex_its_facts ex_stats_def zero_node_def)

lemma f32_exact:
  "c < 2 ^ 24 \<Longrightarrow> f32_mul (f32_nat c) CPU = Fin (int c * 2 ^ 148)"
  "c < 2 ^ 24 \<Longrightarrow> f32_mul (f32_nat c) IO = Fin (int c * 2 ^ 147)"
  "c < 2 ^ 24 \<Longrightarrow> f32_mul (f32_nat c) NET = Fin (int c * 2 ^ 147)"
  using f32_round_exact [of c 148 149] f32_round_exact [of c 147 149]
  by (simp_all add: f32_nat_def CPU_def IO_def NET_def mult.commute)

lemma down_load: "load_of (down nd) = 255 * 2 ^ 149"
proof -
  have "f32_round (255 * 2 ^ 148 + 255 * 2 ^ 147) 0 = Fin (765 * 2 ^ 147)" using f32_round_exact [of 765 147 0] by simp
  moreover have "f32_round (765 * 2 ^ 147 + 255 * 2 ^ 147) 0 = Fin (255 * 2 ^ 149)" using f32_round_exact [of 255 149 0] by simp
  moreover have "f32_mul (f32_nat 255) CPU = Fin (255 * 2 ^ 148)" "f32_mul (f32_nat 255) IO = Fin (255 * 2 ^ 147)"
    "f32_mul (f32_nat 255) NET = Fin (255 * 2 ^ 147)" using f32_exact [of 255] by simp_all
  ultimately have "CALC_LOAD (down nd) = Fin (255 * 2 ^ 149)" by (simp add: CALC_LOAD_def down_def)
  then show ?thesis by (simp add: load_of_def)
qed

lemma idle_load: "cpu_load nd = Fin 0 \<Longrightarrow> io_load nd = Fin 0 \<Longrightarrow> net_load nd = Fin 0 \<Longrightarrow> load_of nd = 0 \<and> sane_node nd"
  using f32_round_0 [of 149] f32_round_0 [of 0]
  by (simp add: load_of_def CALC_LOAD_def CPU_def IO_def NET_def sane_node_def sane_def)

lemma ex_loads:
  assumes "cpu_load nd = Fin 0" "io_load nd = Fin 0" "net_load nd = Fin 0"
  shows "\<forall>x \<in> set [down nd', nd]. sane_node x" "separated (set [down nd', nd])"
proof -
  have i: "load_of nd = 0 \<and> sane_node nd" by (rule idle_load [OF assms])
  show "\<forall>x \<in> set [down nd', nd]. sane_node x" using i sane_down by simp
  show "separated (set [down nd', nd])" using i by (simp add: separated_def down_load)
qed

lemma ex_polls:
  "\<forall>x \<in> set [down (ex_stats ! 0), ex_stats ! 1]. sane_node x" "separated (set [down (ex_stats ! 0), ex_stats ! 1])"
  by (rule ex_loads; simp add: ex_stats_def zero_node_def)+

theorem update_sorts_by_load_witness:
  "\<exists>nd'. update_node msort ex_md5 ex_nw ex_mctx ex_nd = Some (Ran nd') \<and> sorted (map load_of (nd_stats nd')) \<and>
     mset (nd_stats nd') = mset [down (ex_stats ! 0), ex_stats ! 1] \<and>
     (\<forall>lb. rds_items lb (nd_mem nd') ((nd_rdataset nd')\<lparr>rs_attributes := DNS_RDATASETATTR_LOADORDER\<rparr>) =
       map (rdata_of (rs_class (nd_rdataset ex_nd)) dns_rdatatype_a) (map (\<lambda>x. put32 (in_addr x)) (nd_stats nd')))"
proof -
  have "rs_methods (nd_rdataset ex_nd) = Some Rbtdb_methods" "nd_stats ex_nd = ex_stats"
    by (simp_all add: ex_nd_def ex_db_set_def)
  then obtain nd' where u: "update_node msort ex_md5 ex_nw ex_mctx ex_nd = Some (Ran nd')"
    "mset (nd_stats nd') = mset [down (ex_stats ! 0), ex_stats ! 1]" "sorted (map load_of (nd_stats nd'))"
    and l: "\<forall>lb attrs. rds_items lb (nd_mem nd') ((nd_rdataset nd')\<lparr>rs_attributes := attrs\<rparr>) =
        map (rdata_of (rs_class (nd_rdataset ex_nd)) dns_rdatatype_a)
          (if lb \<or> attrs AND DNS_RDATASETATTR_LOADORDER \<noteq> 0 then map (\<lambda>x. put32 (in_addr x)) (nd_stats nd') else stored ex_its)"
    using update_sorts_by_load [OF ex_node_inv ex_its_facts(4) _ _ ex_polls merge_sort.c_qsort_axioms,
        of ex_md5 ex_nw ex_mctx] ex_poll by auto
  have "DNS_RDATASETATTR_LOADORDER AND DNS_RDATASETATTR_LOADORDER \<noteq> 0" by (simp add: DNS_RDATASETATTR_LOADORDER_def)
  then have "rds_items lb (nd_mem nd') ((nd_rdataset nd')\<lparr>rs_attributes := DNS_RDATASETATTR_LOADORDER\<rparr>) =
      map (rdata_of (rs_class (nd_rdataset ex_nd)) dns_rdatatype_a) (map (\<lambda>x. put32 (in_addr x)) (nd_stats nd'))" for lb
    unfolding l [rule_format] by (simp only: disj_not1 simp_thms if_True)
  then show ?thesis using u by blast
qed

theorem poll_workers_correct_witness:
  "ns_profiler_poll_workers ex_md5 ex_nw ex_mctx ex_nd = Some Exited \<or>
   (\<exists>stats. ns_profiler_poll_workers ex_md5 ex_nw ex_mctx ex_nd = Some (Ran (ex_nd\<lparr>nd_stats := stats\<rparr>)) \<and>
      list_all2 (polled ex_md5 ex_nw) (nd_stats ex_nd) stats)"
  using poll_workers_correct [of ex_md5 ex_mctx ex_nd ex_nw] ex_env by (auto simp: ex_nd_def ex_stats_def)

lemma ex_honest: "honest ex_nw"
proof -
  have "f32_load (replicate 28 0) i = Some (Fin 0)" if "i + 4 \<le> 28" for i
    using that by (simp add: f32_load_def mem_blk_def get32_def f32_of_bits_def min_def)
  then have z: "f32_load (replicate 28 0) 0 = Some (Fin 0)" "f32_load (replicate 28 0) 4 = Some (Fin 0)"
      "f32_load (replicate 28 0) 8 = Some (Fin 0)" by simp_all
  have e: "nw_exchange ex_nw sockfd req = Received bs \<longleftrightarrow> bs = replicate 28 0" for sockfd req bs
    unfolding ex_nw_def by auto
  have l: "load_of nd = 0 \<or> load_of nd = 255 * 2 ^ 149" if "nd \<in> reported ex_nw" for nd
  proof (cases "nd \<in> range down")
    case False
    then have "io_load nd = Fin 0" "cpu_load nd = Fin 0" "net_load nd = Fin 0" using that z by (auto simp: reported_def e)
    then show ?thesis using idle_load [of nd] by simp
  qed (auto simp: down_load)
  have "separated (reported ex_nw)"
    unfolding separated_def
  proof (intro ballI)
    fix a b assume "a \<in> reported ex_nw" "b \<in> reported ex_nw"
    then show "load_of a = load_of b \<or> 2 ^ 149 \<le> \<bar>load_of a - load_of b\<bar>" using l [of a] l [of b] by auto
  qed
  then show ?thesis using z unfolding honest_def e by (simp add: sane_def)
qed

theorem update_round_defined_witness:
  "update_nodes msort ex_md5 (\<lambda>k. ex_nw) (\<lambda>k. ex_mctx) 0 [ex_nd] = Some Exited \<or>
   (\<exists>l'. update_nodes msort ex_md5 (\<lambda>k. ex_nw) (\<lambda>k. ex_mctx) 0 [ex_nd] = Some (Ran l'))"
  using update_round_defined [of ex_md5 "\<lambda>k. ex_mctx" msort "\<lambda>k. ex_nw" "[ex_nd]" 0] ex_env ex_honest ex_node_inv merge_sort.c_qsort_axioms
  by auto

theorem update_progress_witness:
  "\<exists>l'. update_nodes msort ex_md5 (\<lambda>k. ex_nw) (\<lambda>k. ex_mctx) 0 [ex_nd] = Some (Ran l') \<and>
     ns_profiler_update_addrs msort ex_md5 [ex_nd] l'"
proof -
  have "nw_exchange ex_nw sockfd req \<noteq> WriteError" for sockfd req by (simp add: ex_nw_def)
  moreover have "\<forall>nd \<in> set [ex_nd]. nd_naddrs nd \<le> 0 \<or> (\<exists>tbl its. node_inv nd tbl its)" using ex_node_inv by auto
  ultimately show ?thesis
    using update_progress [of ex_md5 "\<lambda>k. ex_mctx" msort "\<lambda>k. ex_nw" "[ex_nd]" "[ex_nd]"] ex_env ex_honest merge_sort.c_qsort_axioms
      ns_profiler_update_addrs.start by blast
qed


theorem cmp_antisymmetric_witness:
  "\<exists>t. cmp (ex_stats ! 1) (down (ex_stats ! 0)) = Some t \<and> cmp (down (ex_stats ! 0)) (ex_stats ! 1) = Some (- t) \<and> t < 0"
proof -
  have i: "load_of (ex_stats ! 1) = 0 \<and> sane_node (ex_stats ! 1)" by (rule idle_load) (simp_all add: ex_stats_def zero_node_def)
  then show ?thesis
    using cmp_antisymmetric [of "ex_stats ! 1" "down (ex_stats ! 0)"] sane_down by (auto simp: down_load)
qed

lemma ex_db_set_facts:
  "rds_valid ex_slab ex_db_set" "rs_methods ex_db_set = Some Rbtdb_methods" "rs_private3 ex_db_set = Some 3"
  "rs_type ex_db_set = 1" "rs_class ex_db_set = 1"
  using ex_slab_at by (auto simp: ex_db_set_def dns_rdataset_init_def rds_valid_def slab_valid_def)

theorem register_correct_witness:
  "\<exists>nd tbl' its'. register_rdataset True ex_mctx 200 ex_slab ex_db_set [] = Some [nd] \<and> node_inv nd tbl' its' \<and>
     listed its' = map rd_bytes (rds_items True ex_slab ex_db_set)"
proof -
  have "slab_at ex_slab 3 (rs_type ex_db_set) ex_tbl ex_its" using ex_slab_at ex_db_set_facts by simp
  moreover have "1 < length ex_its" "\<forall>p \<in> set (stored ex_its). length p = 4" by (simp_all add: ex_its_def stored_def)
  ultimately show ?thesis
    using register_correct [OF ex_db_set_facts(1) disjI2 [OF ex_db_set_facts(2)] ex_db_set_facts(3),
        of ex_tbl ex_its ex_mctx True 200 "[]"] ex_env(2) ex_db_set_facts by (auto simp: dns_rdatatype_a_def)
qed

text \<open>The same slab as two records of type 2.\<close>

lemma register_other_type_ex:
  "\<exists>nd. register_rdataset True ex_mctx 200 ex_slab (ex_db_set\<lparr>rs_type := 2\<rparr>) [] = Some [nd] \<and> nd_naddrs nd = 0"
proof -
  let ?r = "ex_db_set\<lparr>rs_type := 2\<rparr>"
  have sl: "slab_at ex_slab 3 2 ex_tbl ex_its"
    using ex_slab_at by (auto simp: slab_at_def wf_items_def payload_ok_def dns_rdatatype_rrsig_def)
  then have "rds_valid ex_slab ?r" by (auto simp: ex_db_set_def dns_rdataset_init_def rds_valid_def slab_valid_def)
  moreover have "rs_methods ?r = Some Rbtdb_methods" "rs_private3 ?r = Some 3" "rs_type ?r = 2" "1 < length ex_its"
    using ex_db_set_facts by (simp_all add: ex_its_def)
  ultimately show ?thesis
    using register_other_type [of ex_slab ?r 3 ex_tbl ex_its ex_mctx True 200 "[]" msort ex_md5 ex_nw ex_mctx] sl ex_env(2)
    by (auto simp: dns_rdatatype_a_def)
qed

end
