(* ===== verification/Slab_Merge.thy ===== *)
theory Slab_Merge
  imports Slab_Read
begin

text \<open>
  \<open>dns_rdataslab_merge\<close> of \<^verbatim>\<open>lib/dns/rdataslab.c\<close>: the union of an old and a new slab, in a new buffer.
  The memory objects of the two slabs are \<open>om\<close> and \<open>nm\<close>; the slabs begin at \<open>oslab\<close> and \<open>nslab\<close>.
\<close>

section \<open>Definitions\<close>

definition DNS_RDATASLAB_FORCE :: u32 where "DNS_RDATASLAB_FORCE = 1"
definition DNS_RDATASLAB_EXACT :: u32 where "DNS_RDATASLAB_EXACT = 2"

text \<open>What the loops do not change.\<close>

record merge_ctx =
  mc_sw :: cmpswitch
  mc_om :: mem
  mc_oslab :: nat
  mc_nm :: mem
  mc_nslab :: nat
  mc_reservelen :: nat
  mc_class :: nat
  mc_type :: nat
  mc_ocount :: nat
  mc_oncount :: nat

definition in_old :: "merge_ctx \<Rightarrow> dns_rdata \<Rightarrow> bool option" where
  "in_old c rdata =
     rdata_in_slab (mc_sw c) (mc_om c) (mc_oslab c) (mc_reservelen c) (mc_class c) (mc_type c) rdata"

text \<open>The length of the old slab's data.\<close>

fun merge_olength :: "mem \<Rightarrow> nat \<Rightarrow> nat \<Rightarrow> nat \<Rightarrow> nat option" where
  "merge_olength m 0 ocurrent olength = Some olength"
| "merge_olength m (Suc n) ocurrent olength =
     do { len \<leftarrow> rd16 m ocurrent;
          merge_olength m n (ocurrent + 2 + (len + 2)) (u32_of (olength + (len + 8))) }"

text \<open>The length and the number of the new slab's rdata that the old slab does not have.\<close>

fun merge_newlength :: "merge_ctx \<Rightarrow> nat \<Rightarrow> nat \<Rightarrow> nat \<Rightarrow> nat \<Rightarrow> nat \<Rightarrow> (nat \<times> nat \<times> nat) option" where
  "merge_newlength c 0 ncurrent tlength tcount nncount = Some (tlength, tcount, nncount)"
| "merge_newlength c (Suc n) ncurrent tlength tcount nncount =
     do { (nrdata, _, ncurrent') \<leftarrow>
            rdata_from_slab (mc_nm c) ncurrent (mc_class c) (mc_type c) dns_rdata_init;
          old \<leftarrow> in_old c nrdata;
          if old then merge_newlength c n ncurrent' tlength tcount nncount
          else merge_newlength c n ncurrent'
                 (u32_of (tlength + (rd_length nrdata + 8) + rr_meta (mc_type c)))
                 (tcount + 1) (nncount + 1) }"

text \<open>A record of the old or of the new slab: its rdata, the position of its data, its order and the
  position of the next record; \<open>count\<close> bounds the order.\<close>

record mrec =
  mr_rdata :: dns_rdata
  mr_data :: nat
  mr_order :: nat
  mr_next :: nat

definition read_record :: "merge_ctx \<Rightarrow> mem \<Rightarrow> nat \<Rightarrow> nat \<Rightarrow> dns_rdata \<Rightarrow> mrec option" where
  "read_record c m cnt current rdata =
     do { order \<leftarrow> rd16 m (current + 2);
          if order \<ge> cnt then None
          else do { (rdata', data, next) \<leftarrow> rdata_from_slab m current (mc_class c) (mc_type c) rdata;
                    Some \<lparr>mr_rdata = rdata', mr_data = data, mr_order = order, mr_next = next\<rparr> } }"

text \<open>The next record of the new slab that the old slab does not have: a \<^verbatim>\<open>do ... while\<close> loop without
  a bound of its own.\<close>

partial_function (option) next_new :: "merge_ctx \<Rightarrow> nat \<Rightarrow> dns_rdata \<Rightarrow> mrec option" where
  "next_new c ncurrent nrdata =
     do { nrdata1 \<leftarrow> dns_rdata_reset nrdata;
          r \<leftarrow> read_record c (mc_nm c) (mc_oncount c) ncurrent nrdata1;
          old \<leftarrow> in_old c (mr_rdata r);
          if old then next_new c (mr_next r) (mr_rdata r) else Some r }"

declare next_new.simps [code]

text \<open>Copying a record to the target: the length, a gap for the order, and the data, which for an
  RRSIG begin one byte earlier.\<close>

definition copy_record :: "nat \<Rightarrow> mem \<Rightarrow> mrec \<Rightarrow> mem \<Rightarrow> nat \<Rightarrow> (mem \<times> nat) option" where
  "copy_record type src r tm tcurrent =
     (let len = rd_length (mr_rdata r) + rr_meta type in
      do { tm1 \<leftarrow> mem_wr tm tcurrent (put16 len);
           bs \<leftarrow> mem_blk src (mr_data r - rr_meta type) len;
           tm2 \<leftarrow> mem_wr tm1 (tcurrent + 4) bs;
           Some (tm2, tcurrent + 4 + len) })"

text \<open>The state of the main loop: \<open>ms_oleft\<close> is \<open>ocount - oadded\<close> and \<open>ms_nleft\<close> is \<open>ncount - nadded\<close>; the records
  are those at hand.\<close>

record merge_state =
  ms_oleft :: nat
  ms_orec :: mrec
  ms_nleft :: nat
  ms_nrec :: mrec
  ms_tmem :: mem
  ms_tcurrent :: nat
  ms_offsettable :: "nat list"

definition merge_from_old :: "merge_ctx \<Rightarrow> merge_state \<Rightarrow> merge_state option" where
  "merge_from_old c s =
     (if mr_order (ms_orec s) \<ge> length (ms_offsettable s) then None
      else do {
        (tm, tc) \<leftarrow> copy_record (mc_type c) (mc_om c) (ms_orec s) (ms_tmem s) (ms_tcurrent s);
        let s1 = s\<lparr>ms_offsettable := (ms_offsettable s)[mr_order (ms_orec s) := u32_of (ms_tcurrent s - mc_reservelen c)],
                   ms_tmem := tm, ms_tcurrent := tc, ms_oleft := ms_oleft s - 1\<rparr>;
        if ms_oleft s1 > 0
        then do { rdata \<leftarrow> dns_rdata_reset (mr_rdata (ms_orec s1));
                  r \<leftarrow> read_record c (mc_om c) (mc_ocount c) (mr_next (ms_orec s1)) rdata;
                  Some (s1\<lparr>ms_orec := r\<rparr>) }
        else Some s1 })"

definition merge_from_new :: "merge_ctx \<Rightarrow> merge_state \<Rightarrow> merge_state option" where
  "merge_from_new c s =
     (if mc_ocount c + mr_order (ms_nrec s) \<ge> length (ms_offsettable s) then None
      else do {
        (tm, tc) \<leftarrow> copy_record (mc_type c) (mc_nm c) (ms_nrec s) (ms_tmem s) (ms_tcurrent s);
        let s1 = s\<lparr>ms_offsettable := (ms_offsettable s)[mc_ocount c + mr_order (ms_nrec s) :=
                                    u32_of (ms_tcurrent s - mc_reservelen c)],
                   ms_tmem := tm, ms_tcurrent := tc, ms_nleft := ms_nleft s - 1\<rparr>;
        if ms_nleft s1 > 0
        then do { r \<leftarrow> next_new c (mr_next (ms_nrec s1)) (mr_rdata (ms_nrec s1));
                  Some (s1\<lparr>ms_nrec := r\<rparr>) }
        else Some s1 })"

definition merge_fromold :: "merge_ctx \<Rightarrow> merge_state \<Rightarrow> bool option" where
  "merge_fromold c s =
     (if ms_oleft s = 0 then Some False
      else if ms_nleft s = 0 then Some True
      else do { n \<leftarrow> dns_rdata_compare (mc_sw c) (mr_rdata (ms_orec s)) (mr_rdata (ms_nrec s)); Some (n < 0) })"

definition merge_step :: "merge_ctx \<Rightarrow> merge_state \<Rightarrow> merge_state option" where
  "merge_step c s =
     do { fromold \<leftarrow> merge_fromold c s; if fromold then merge_from_old c s else merge_from_new c s }"

lemma merge_step_decreases:
  assumes "0 < ms_oleft s \<or> 0 < ms_nleft s" "merge_step c s = Some s'"
  shows "ms_oleft s' + ms_nleft s' < ms_oleft s + ms_nleft s"
  using assms
  by (auto simp: merge_step_def merge_fromold_def merge_from_old_def merge_from_new_def Let_def
      split: if_splits bind_splits)

function merge_loop :: "merge_ctx \<Rightarrow> merge_state \<Rightarrow> merge_state option" where
  "merge_loop c s =
     (if 0 < ms_oleft s \<or> 0 < ms_nleft s
      then (case merge_step c s of None \<Rightarrow> None | Some s' \<Rightarrow> merge_loop c s')
      else Some s)"
  by pat_completeness auto

termination
  by (relation "measure (\<lambda>(c, s). ms_oleft s + ms_nleft s)") (auto intro!: merge_step_decreases)

declare merge_loop.simps [simp del]

text \<open>Filling the target: the reserved area comes from the new slab.\<close>

definition merge_fill :: "merge_ctx \<Rightarrow> nat \<Rightarrow> nat \<Rightarrow> nat \<Rightarrow> mem \<Rightarrow> mctx \<Rightarrow> (isc_result \<times> mem option) option" where
  "merge_fill c tlength tcount ncount tstart mctx =
     do { hdr \<leftarrow> mem_blk (mc_nm c) (mc_nslab c) (mc_reservelen c);
          tm1 \<leftarrow> mem_wr tstart 0 hdr;
          tm2 \<leftarrow> mem_wr tm1 (mc_reservelen c) (put16 tcount);
          case mctx 1 ((mc_ocount c + mc_oncount c) * sizeof_uint) of
            None \<Rightarrow> Some (ISC_R_NOMEMORY, None)
          | Some _ \<Rightarrow>
              do { orec0 \<leftarrow> read_record c (mc_om c) (mc_ocount c)
                              (mc_oslab c + mc_reservelen c + 2 + 4 * mc_ocount c) dns_rdata_init;
                   nrec0 \<leftarrow> (if ncount > 0
                             then next_new c (mc_nslab c + mc_reservelen c + 2 + 4 * mc_oncount c) dns_rdata_init
                             else Some orec0);
                   s \<leftarrow> merge_loop c \<lparr>ms_oleft = mc_ocount c, ms_orec = orec0, ms_nleft = ncount, ms_nrec = nrec0,
                          ms_tmem = tm2, ms_tcurrent = mc_reservelen c + 2 + tcount * 4,
                          ms_offsettable = replicate (mc_ocount c + mc_oncount c) 0\<rparr>;
                   tm \<leftarrow> fillin_offsets (ms_tmem s) (mc_reservelen c) (ms_offsettable s);
                   if ms_tcurrent s \<noteq> tlength then None
                   else Some (ISC_R_SUCCESS, Some tm) } }"

definition dns_rdataslab_merge ::
    "cmpswitch \<Rightarrow> (nat \<Rightarrow> bool) \<Rightarrow> mem \<Rightarrow> nat \<Rightarrow> mem \<Rightarrow> nat \<Rightarrow> nat \<Rightarrow> mctx \<Rightarrow> nat \<Rightarrow> nat \<Rightarrow> u32 \<Rightarrow>
     (isc_result \<times> mem option) option" where
  "dns_rdataslab_merge sw issingleton om oslab nm nslab reservelen mctx rdclass type flags =
     do { ocount \<leftarrow> rd16 om (oslab + reservelen);
          ncount \<leftarrow> rd16 nm (nslab + reservelen);
          if \<not> (ocount > 0 \<and> ncount > 0) then None
          else do {
            let c = \<lparr>mc_sw = sw, mc_om = om, mc_oslab = oslab, mc_nm = nm, mc_nslab = nslab,
                     mc_reservelen = reservelen, mc_class = rdclass, mc_type = type,
                     mc_ocount = ocount, mc_oncount = ncount\<rparr>;
            olength \<leftarrow> merge_olength om ocount (oslab + reservelen + 2 + 4 * ocount) 0;
            (tlength, tcount, nncount) \<leftarrow>
              merge_newlength c ncount (nslab + reservelen + 2 + 4 * ncount)
                (u32_of (reservelen + 2 + olength)) ocount 0;
            if flags AND DNS_RDATASLAB_EXACT \<noteq> 0 \<and> tcount \<noteq> nncount + ocount
            then Some (DNS_R_NOTEXACT, None)
            else if nncount = 0 \<and> flags AND DNS_RDATASLAB_FORCE = 0 then Some (DNS_R_UNCHANGED, None)
            else if tcount > 1 \<and> issingleton type then Some (DNS_R_SINGLETON, None)
            else if tcount > 65535 then Some (ISC_R_NOSPACE, None)
            else case mctx 0 tlength of
                None \<Rightarrow> Some (ISC_R_NOMEMORY, None)
              | Some tstart \<Rightarrow> merge_fill c tlength tcount nncount tstart mctx } }"


section \<open>Records of the two slabs\<close>

text \<open>The order of payloads, and the situation of a merge: two well-formed slabs in DNSSEC order.\<close>

definition pcmp :: "merge_ctx \<Rightarrow> u8 list \<Rightarrow> u8 list \<Rightarrow> int" where
  "pcmp c p q = rdata_order (mc_sw c) (rdata_of (mc_class c) (mc_type c) p) (rdata_of (mc_class c) (mc_type c) q)"

definition merge_ok :: "merge_ctx \<Rightarrow> item list \<Rightarrow> item list \<Rightarrow> bool" where
  "merge_ok c os ns \<longleftrightarrow> switch_ok (mc_sw c) \<and>
     (\<exists>tbl. slab_at (mc_om c) (mc_oslab c + mc_reservelen c) (mc_type c) tbl os) \<and>
     (\<exists>tbl. slab_at (mc_nm c) (mc_nslab c + mc_reservelen c) (mc_type c) tbl ns) \<and>
     strictly_ascending (pcmp c) (stored os) \<and> strictly_ascending (pcmp c) (stored ns) \<and>
     mc_ocount c = length os \<and> mc_oncount c = length ns"

definition isnew :: "merge_ctx \<Rightarrow> item list \<Rightarrow> item \<Rightarrow> bool" where
  "isnew c os it \<longleftrightarrow> \<not> (\<exists>p \<in> set (stored os). pcmp c p (snd it) = 0)"

definition mrec_of :: "merge_ctx \<Rightarrow> nat \<Rightarrow> item list \<Rightarrow> nat \<Rightarrow> mrec" where
  "mrec_of c base its i =
     \<lparr>mr_rdata = rdata_read (mc_class c) (mc_type c) (its ! i),
      mr_data = base + item_off its i + 4 + rr_meta (mc_type c),
      mr_order = fst (its ! i), mr_next = base + item_off its (Suc i)\<rparr>"

lemma pcmp_order: "switch_ok (mc_sw c) \<Longrightarrow> cmp_order (pcmp c)"
  unfolding pcmp_def by (rule cmp_order_comp) (rule rdata_order_cmp_order)

lemma strictly_ascending_map: "strictly_ascending cmp (map f xs) = strictly_ascending (\<lambda>a b. cmp (f a) (f b)) xs"
  by (simp add: sorted_wrt_map)

lemma in_old_item:
  assumes "merge_ok c os ns"
  shows "in_old c (rdata_read (mc_class c) (mc_type c) it) = Some (\<not> isnew c os it)"
proof -
  obtain tbl where sl: "slab_at (mc_om c) (mc_oslab c + mc_reservelen c) (mc_type c) tbl os"
    and sw: "switch_ok (mc_sw c)" and asc: "strictly_ascending (pcmp c) (stored os)"
    using assms by (auto simp: merge_ok_def)
  have asc': "strictly_ascending (rdata_order (mc_sw c)) (map (rdata_of (mc_class c) (mc_type c)) (stored os))"
    using asc by (simp add: strictly_ascending_map pcmp_def [abs_def])
  show ?thesis
    using rdata_in_slab_loop_items [OF sl rdata_order_cmp_order [OF sw] asc' comparable_rdata_read, of 0 "length os"]
      slab_at_count [OF sl]
    unfolding in_old_def rdata_in_slab_def
    by (simp only: item_off_start bind.bind_lunit drop_0 add_0 rdata_order_read isnew_def pcmp_def simp_thms)
qed

lemma read_record_item:
  assumes "slab_at m base (mc_type c) tbl its" "i < length its"
  shows "read_record c m (length its) (base + item_off its i) dns_rdata_init = Some (mrec_of c base its i)"
proof -
  have "fst (its ! i) < length its" using assms by (auto simp: slab_at_def wf_items_def)
  then show ?thesis
    using slab_rdata_at_item(3) [OF assms] rdata_from_slab_item [OF assms, of "mc_class c"]
    by (simp add: read_record_def mrec_of_def)
qed

lemma slab_at_payload: "slab_at m base t tbl its \<Longrightarrow> i < length its \<Longrightarrow> payload_ok t (snd (its ! i))"
  by (auto simp: slab_at_def wf_items_def)

lemma rd_length_read: "payload_ok t (snd it) \<Longrightarrow> rd_length (rdata_read c t it) + rr_meta t = length (snd it)"
  by (auto simp: rd_length_def rr_meta_def payload_ok_def rdata_of_def rd_bytes_def)

lemma next_new_item:
  assumes "merge_ok c os ns"
  shows "filter (isnew c os) (drop j ns) = it # rest \<Longrightarrow> dns_rdata_validflags rd \<Longrightarrow>
     \<exists>k < length ns. ns ! k = it \<and> rest = filter (isnew c os) (drop (Suc k) ns) \<and>
       next_new c (mc_nslab c + mc_reservelen c + item_off ns j) rd =
         Some (mrec_of c (mc_nslab c + mc_reservelen c) ns k)"
proof (induction "length ns - j" arbitrary: j rd)
  case 0
  then show ?case by simp
next
  case (Suc n)
  obtain tbl where sl: "slab_at (mc_nm c) (mc_nslab c + mc_reservelen c) (mc_type c) tbl ns"
    and cnt: "mc_oncount c = length ns" using assms by (auto simp: merge_ok_def)
  have j: "j < length ns" using Suc.hyps(2) by simp
  have dr: "drop j ns = ns ! j # drop (Suc j) ns" using j by (simp add: Cons_nth_drop_Suc)
  have rec: "read_record c (mc_nm c) (mc_oncount c) (mc_nslab c + mc_reservelen c + item_off ns j) dns_rdata_init =
      Some (mrec_of c (mc_nslab c + mc_reservelen c) ns j)"
    unfolding cnt by (rule read_record_item [OF sl j])
  have reset: "dns_rdata_reset rd = Some dns_rdata_init" using Suc.prems(2) by (simp add: dns_rdata_reset_def)
  have old: "in_old c (mr_rdata (mrec_of c (mc_nslab c + mc_reservelen c) ns j)) = Some (\<not> isnew c os (ns ! j))"
    using in_old_item [OF assms] by (simp add: mrec_of_def)
  show ?case
  proof (cases "isnew c os (ns ! j)")
    case True
    then have "next_new c (mc_nslab c + mc_reservelen c + item_off ns j) rd =
        Some (mrec_of c (mc_nslab c + mc_reservelen c) ns j)"
      by (subst next_new.simps) (simp add: reset rec old)
    then show ?thesis using True Suc.prems(1) dr j by auto
  next
    case False
    have v: "dns_rdata_validflags (mr_rdata (mrec_of c (mc_nslab c + mc_reservelen c) ns j))"
      using comparable_rdata_read by (simp add: mrec_of_def comparable_def)
    have f: "filter (isnew c os) (drop (Suc j) ns) = it # rest" using Suc.prems(1) dr False by simp
    have "next_new c (mc_nslab c + mc_reservelen c + item_off ns j) rd =
        next_new c (mr_next (mrec_of c (mc_nslab c + mc_reservelen c) ns j))
          (mr_rdata (mrec_of c (mc_nslab c + mc_reservelen c) ns j))"
      using False by (subst next_new.simps) (simp add: reset rec old)
    also have "mr_next (mrec_of c (mc_nslab c + mc_reservelen c) ns j) =
        mc_nslab c + mc_reservelen c + item_off ns (Suc j)" by (simp add: mrec_of_def)
    finally show ?thesis using Suc.hyps(1) [OF _ f v] Suc.hyps(2) by simp
  qed
qed

section \<open>Lengths\<close>

lemma merge_olength_items:
  assumes "slab_at m base t tbl its"
  shows "length its = i + n \<Longrightarrow> acc + (\<Sum>p \<leftarrow> drop i (stored its). 8 + length p) < 4294967296 \<Longrightarrow>
     merge_olength m n (base + item_off its i) acc = Some (acc + (\<Sum>p \<leftarrow> drop i (stored its). 8 + length p))"
proof (induction n arbitrary: i acc)
  case (Suc n)
  have i: "i < length its" using Suc.prems by simp
  have dr: "drop i (stored its) = snd (its ! i) # drop (Suc i) (stored its)"
    using i by (simp add: stored_def Cons_nth_drop_Suc [symmetric])
  have off: "base + item_off its i + 2 + (length (snd (its ! i)) + 2) = base + item_off its (Suc i)"
    using i by (simp add: item_off_Suc)
  have u: "u32_of (acc + (length (snd (its ! i)) + 8)) = acc + (length (snd (its ! i)) + 8)"
    using Suc.prems(2) dr by simp
  show ?case
    unfolding merge_olength.simps slab_rdata_at_item(2) [OF assms i] bind.bind_lunit off u
    using Suc.IH [of "Suc i" "acc + (length (snd (its ! i)) + 8)"] Suc.prems dr by simp
qed simp

lemma merge_newlength_items:
  assumes "merge_ok c os ns"
  shows "length ns = j + n \<Longrightarrow>
     len0 + (\<Sum>it \<leftarrow> filter (isnew c os) (drop j ns). 8 + length (snd it)) < 4294967296 \<Longrightarrow>
     merge_newlength c n (mc_nslab c + mc_reservelen c + item_off ns j) len0 tc nn =
       Some (len0 + (\<Sum>it \<leftarrow> filter (isnew c os) (drop j ns). 8 + length (snd it)),
             tc + length (filter (isnew c os) (drop j ns)), nn + length (filter (isnew c os) (drop j ns)))"
proof (induction n arbitrary: j len0 tc nn)
  case (Suc n)
  obtain tbl where sl: "slab_at (mc_nm c) (mc_nslab c + mc_reservelen c) (mc_type c) tbl ns"
    using assms by (auto simp: merge_ok_def)
  have j: "j < length ns" using Suc.prems by simp
  have dr: "drop j ns = ns ! j # drop (Suc j) ns" using j by (simp add: Cons_nth_drop_Suc)
  note rd = rdata_from_slab_item [OF sl j, of "mc_class c"]
  note len = rd_length_read [OF slab_at_payload [OF sl j], of "mc_class c"]
  show ?case
  proof (cases "isnew c os (ns ! j)")
    case True
    have u: "u32_of (len0 + (rd_length (rdata_read (mc_class c) (mc_type c) (ns ! j)) + 8) + rr_meta (mc_type c)) =
        len0 + (8 + length (snd (ns ! j)))"
      using Suc.prems(2) True dr len by simp
    show ?thesis
      using rd in_old_item [OF assms, of "ns ! j"] True u dr Suc.prems
        Suc.IH [of "Suc j" "len0 + (8 + length (snd (ns ! j)))" "tc + 1" "nn + 1"]
      by simp
  next
    case False
    then show ?thesis
      using rd in_old_item [OF assms, of "ns ! j"] dr Suc.prems Suc.IH [of "Suc j" len0 tc nn] by simp
  qed
qed simp


section \<open>Copying\<close>

lemma building_copy:
  assumes b: "building N pre n ks its rest m rawbuf ot" and r: "4 + length p \<le> length rest"
    and ov: "2 + 4 * n + length (concat (map enc_item its)) < 4294967296"
  obtains m1 m2 j where "mem_wr m rawbuf (put16 (length p)) = Some m1" "mem_wr m1 (rawbuf + 4) p = Some m2"
    "building N pre n (ks @ [k]) (its @ [(j, p)]) (drop (4 + length p) rest) m2 (rawbuf + 4 + length p)
       (ot[k := u32_of (rawbuf - length pre)])"
proof -
  obtain a where a: "m = a @ rest" "length a = rawbuf" using building_length [OF b] by metis
  define z where "z = drop (4 + length p) rest"
  obtain j where j: "take 2 (drop 2 rest) = put16 j" using put16_surj [of "take 2 (drop 2 rest)"] r by auto
  define body where "body = take (length p) (drop 4 rest)"
  have "drop 4 rest = body @ z"
    unfolding body_def z_def using append_take_drop_id [of "length p" "drop 4 rest"] by (simp add: add.commute)
  moreover have "drop 2 rest = take 2 (drop 2 rest) @ drop 4 rest"
    using append_take_drop_id [of 2 "drop 2 rest"] by simp
  ultimately have rest: "rest = take 2 rest @ put16 j @ body @ z"
    using j append_take_drop_id [of 2 rest] by metis
  have l: "length (take 2 rest) = 2" "length body = length p" using r by (simp_all add: body_def)
  have w1: "mem_wr m rawbuf (put16 (length p)) = Some (a @ put16 (length p) @ put16 j @ body @ z)"
  proof -
    have m: "m = a @ take 2 rest @ (put16 j @ body @ z)"
      unfolding a(1) by (rule arg_cong [OF rest, of "\<lambda>r. a @ r"])
    show ?thesis unfolding m by (rule mem_wr_mid) (simp_all only: a(2) l(1) length_put16)
  qed
  have w2: "mem_wr (a @ put16 (length p) @ put16 j @ body @ z) (rawbuf + 4) p =
      Some (a @ put16 (length p) @ put16 j @ p @ z)"
  proof -
    have "mem_wr ((a @ put16 (length p) @ put16 j) @ body @ z) (rawbuf + 4) p =
        Some ((a @ put16 (length p) @ put16 j) @ p @ z)"
      by (rule mem_wr_mid) (simp_all add: a(2) l(2))
    then show ?thesis by (simp only: append_assoc)
  qed
  have "building N pre n ks its (put16 (length p) @ put16 j @ p @ z)
      (a @ put16 (length p) @ put16 j @ p @ z) rawbuf ot"
    using b a(1) by (auto simp: building_def)
  from building_step [OF this ov, of k] show thesis
    by (rule that [OF w1 w2, unfolded z_def [symmetric]])
qed

lemma mem_blk_item:
  assumes "slab_at m base t tbl its" "i < length its"
  shows "mem_blk m (base + item_off its i + 4) (length (snd (its ! i))) = Some (snd (its ! i))"
proof -
  obtain a z where m: "m = a @ enc_item (its ! i) @ z" and a: "length a = base + item_off its i"
    and ok: "length (snd (its ! i)) < 65536" "fst (its ! i) < 65536" using slab_at_item [OF assms] by metis
  show ?thesis unfolding m by (rule rd_enc_item [OF a [symmetric] ok])
qed

lemma copy_record_item:
  assumes sl: "slab_at src base (mc_type c) tbl its" and i: "i < length its"
    and b: "building N pre n ks done rest tm tc ot" "4 + length (snd (its ! i)) \<le> length rest"
      "2 + 4 * n + length (concat (map enc_item done)) < 4294967296"
  obtains tm' j where
    "copy_record (mc_type c) src (mrec_of c base its i) tm tc = Some (tm', tc + 4 + length (snd (its ! i)))"
    "building N pre n (ks @ [k]) (done @ [(j, snd (its ! i))]) (drop (4 + length (snd (its ! i))) rest) tm'
       (tc + 4 + length (snd (its ! i))) (ot[k := u32_of (tc - length pre)])"
proof -
  note len = rd_length_read [OF slab_at_payload [OF sl i], of "mc_class c"]
  obtain m1 m2 j where w: "mem_wr tm tc (put16 (length (snd (its ! i)))) = Some m1"
    "mem_wr m1 (tc + 4) (snd (its ! i)) = Some m2"
    "building N pre n (ks @ [k]) (done @ [(j, snd (its ! i))]) (drop (4 + length (snd (its ! i))) rest) m2
       (tc + 4 + length (snd (its ! i))) (ot[k := u32_of (tc - length pre)])"
    by (rule building_copy [OF b])
  have pos: "mr_data (mrec_of c base its i) - rr_meta (mc_type c) = base + item_off its i + 4"
    by (simp add: mrec_of_def)
  have "copy_record (mc_type c) src (mrec_of c base its i) tm tc = Some (m2, tc + 4 + length (snd (its ! i)))"
    unfolding copy_record_def Let_def pos
    using len w(1,2) mem_blk_item [OF sl i] by (simp add: mrec_of_def)
  then show thesis using w(3) by (rule that)
qed

section \<open>The main loop\<close>

text \<open>The merge on lists: each record with the key under which its offset is entered.\<close>

fun list_merge :: "merge_ctx \<Rightarrow> item list \<Rightarrow> item list \<Rightarrow> item list" where
  "list_merge c (o' # os) (n # ns) =
     (if pcmp c (snd o') (snd n) < 0 then o' # list_merge c os (n # ns)
      else (mc_ocount c + fst n, snd n) # list_merge c (o' # os) ns)"
| "list_merge c os [] = os"
| "list_merge c [] (n # ns) = (mc_ocount c + fst n, snd n) # list_merge c [] ns"

text \<open>
  The invariant: \<open>kps\<close> are the records written so far with their keys, \<open>i\<close> is the index of the old
  record at hand, and \<open>nl\<close> are the new records still to be written, the first of them at hand.
\<close>

definition merge_inv ::
    "merge_ctx \<Rightarrow> item list \<Rightarrow> item list \<Rightarrow> u8 list \<Rightarrow> nat \<Rightarrow> item list \<Rightarrow> nat \<Rightarrow> item list \<Rightarrow> merge_state \<Rightarrow> bool" where
  "merge_inv c os ns pre n kps i nl s \<longleftrightarrow>
     i \<le> length os \<and> ms_oleft s = length os - i \<and>
     (i < length os \<longrightarrow> ms_orec s = mrec_of c (mc_oslab c + mc_reservelen c) os i) \<and>
     ms_nleft s = length nl \<and>
     (nl \<noteq> [] \<longrightarrow> (\<exists>k < length ns. ms_nrec s = mrec_of c (mc_nslab c + mc_reservelen c) ns k \<and>
        nl = ns ! k # filter (isnew c os) (drop (Suc k) ns))) \<and>
     (\<exists>its rest. stored its = map snd kps \<and>
        length rest = (\<Sum>it \<leftarrow> drop i os @ nl. 4 + length (snd it)) \<and>
        building (length os + length ns) pre n (map fst kps) its rest (ms_tmem s) (ms_tcurrent s) (ms_offsettable s))"

definition merge_bound :: "nat \<Rightarrow> item list \<Rightarrow> bool" where
  "merge_bound n its \<longleftrightarrow> 2 + 4 * n + (\<Sum>it \<leftarrow> its. 4 + length (snd it)) < 4294967296"

lemma merge_bound_enc:
  "stored its = map snd kps \<Longrightarrow> length (concat (map enc_item its)) = (\<Sum>it \<leftarrow> kps. 4 + length (snd it))"
  by (simp add: length_enc_items comp_def)

lemma merge_old_step:
  assumes ok: "merge_ok c os ns" and inv: "merge_inv c os ns pre n kps i nl s" and i: "i < length os"
    and bd: "merge_bound n kps" and pre: "length pre = mc_reservelen c"
  shows "\<exists>s'. merge_from_old c s = Some s' \<and> merge_inv c os ns pre n (kps @ [os ! i]) (Suc i) nl s'"
proof -
  obtain tbl where sl: "slab_at (mc_om c) (mc_oslab c + mc_reservelen c) (mc_type c) tbl os"
    and cnt: "mc_ocount c = length os" using ok by (auto simp: merge_ok_def)
  let ?p = "snd (os ! i)" and ?base = "mc_oslab c + mc_reservelen c"
  obtain its rest where b: "stored its = map snd kps"
      "length rest = (\<Sum>it \<leftarrow> drop i os @ nl. 4 + length (snd it))"
      "building (length os + length ns) pre n (map fst kps) its rest (ms_tmem s) (ms_tcurrent s) (ms_offsettable s)"
    and o: "ms_orec s = mrec_of c ?base os i" "ms_oleft s = length os - i"
    using inv i by (auto simp: merge_inv_def)
  have dr: "drop i os = os ! i # drop (Suc i) os" using i by (simp add: Cons_nth_drop_Suc)
  have fit: "4 + length ?p \<le> length rest" using b(2) dr by simp
  have ov: "2 + 4 * n + length (concat (map enc_item its)) < 4294967296"
    using bd merge_bound_enc [OF b(1)] by (simp add: merge_bound_def)
  obtain tm' j where cp: "copy_record (mc_type c) (mc_om c) (ms_orec s) (ms_tmem s) (ms_tcurrent s) =
        Some (tm', ms_tcurrent s + 4 + length ?p)"
    "building (length os + length ns) pre n (map fst kps @ [fst (os ! i)]) (its @ [(j, ?p)])
       (drop (4 + length ?p) rest) tm' (ms_tcurrent s + 4 + length ?p)
       ((ms_offsettable s)[fst (os ! i) := u32_of (ms_tcurrent s - length pre)])"
    unfolding o(1) by (rule copy_record_item [OF sl i b(3) fit ov])
  have ord: "mr_order (ms_orec s) = fst (os ! i)" "fst (os ! i) < length os"
    using o(1) sl i by (auto simp: mrec_of_def slab_at_def wf_items_def)
  have tab: "length (ms_offsettable s) = length os + length ns" using building_length [OF b(3)] by metis
  define s1 where "s1 = s\<lparr>ms_offsettable := (ms_offsettable s)[mr_order (ms_orec s) := u32_of (ms_tcurrent s - mc_reservelen c)],
      ms_tmem := tm', ms_tcurrent := ms_tcurrent s + 4 + length ?p, ms_oleft := ms_oleft s - 1\<rparr>"
  have ex: "\<exists>its rest. stored its = map snd (kps @ [os ! i]) \<and>
      length rest = (\<Sum>it \<leftarrow> drop (Suc i) os @ nl. 4 + length (snd it)) \<and>
      building (length os + length ns) pre n (map fst (kps @ [os ! i])) its rest (ms_tmem s1) (ms_tcurrent s1) (ms_offsettable s1)"
    by (rule exI [of _ "its @ [(j, ?p)]"], rule exI [of _ "drop (4 + length ?p) rest"])
      (use cp(2) b(1,2) dr ord pre in \<open>simp add: s1_def stored_def\<close>)
  show ?thesis
  proof (cases "Suc i < length os")
    case True
    have rr: "read_record c (mc_om c) (mc_ocount c) (mr_next (ms_orec s1)) dns_rdata_init =
        Some (mrec_of c ?base os (Suc i))"
      using read_record_item [OF sl True] o(1) cnt by (simp add: s1_def mrec_of_def)
    have "merge_from_old c s = Some (s1\<lparr>ms_orec := mrec_of c ?base os (Suc i)\<rparr>)"
      using cp(1) ord tab o True rr
      by (simp add: merge_from_old_def s1_def [symmetric]) (simp add: s1_def mrec_of_def)
    then show ?thesis
      using inv ex True o by (auto simp: merge_inv_def s1_def)
  next
    case False
    then have "merge_from_old c s = Some s1"
      using cp(1) ord tab o by (simp add: merge_from_old_def s1_def)
    then show ?thesis
      using inv ex False i o by (auto simp: merge_inv_def s1_def)
  qed
qed

lemma merge_new_step:
  assumes ok: "merge_ok c os ns" and inv: "merge_inv c os ns pre n kps i (it # nl) s"
    and bd: "merge_bound n kps" and pre: "length pre = mc_reservelen c"
  shows "\<exists>s'. merge_from_new c s = Some s' \<and>
     merge_inv c os ns pre n (kps @ [(mc_ocount c + fst it, snd it)]) i nl s'"
proof -
  let ?base = "mc_nslab c + mc_reservelen c"
  obtain tbl where sl: "slab_at (mc_nm c) ?base (mc_type c) tbl ns"
    and cnt: "mc_ocount c = length os" using ok by (auto simp: merge_ok_def)
  obtain k where k: "k < length ns" "ms_nrec s = mrec_of c ?base ns k" "it = ns ! k"
      "nl = filter (isnew c os) (drop (Suc k) ns)"
    using inv by (auto simp: merge_inv_def)
  let ?p = "snd (ns ! k)" and ?k = "mc_ocount c + fst (ns ! k)"
  obtain its rest where b: "stored its = map snd kps"
      "length rest = (\<Sum>it \<leftarrow> drop i os @ it # nl. 4 + length (snd it))"
      "building (length os + length ns) pre n (map fst kps) its rest (ms_tmem s) (ms_tcurrent s) (ms_offsettable s)"
    using inv by (auto simp: merge_inv_def)
  have fit: "4 + length ?p \<le> length rest" using b(2) k(3) by simp
  have ov: "2 + 4 * n + length (concat (map enc_item its)) < 4294967296"
    using bd merge_bound_enc [OF b(1)] by (simp add: merge_bound_def)
  obtain tm' j where cp: "copy_record (mc_type c) (mc_nm c) (ms_nrec s) (ms_tmem s) (ms_tcurrent s) =
        Some (tm', ms_tcurrent s + 4 + length ?p)"
    "building (length os + length ns) pre n (map fst kps @ [?k]) (its @ [(j, ?p)])
       (drop (4 + length ?p) rest) tm' (ms_tcurrent s + 4 + length ?p)
       ((ms_offsettable s)[?k := u32_of (ms_tcurrent s - length pre)])"
    unfolding k(2) by (rule copy_record_item [OF sl k(1) b(3) fit ov])
  have ord: "mr_order (ms_nrec s) = fst (ns ! k)" "fst (ns ! k) < length ns"
    using k(1,2) sl by (auto simp: mrec_of_def slab_at_def wf_items_def)
  have tab: "length (ms_offsettable s) = length os + length ns" using building_length [OF b(3)] by metis
  define s1 where "s1 = s\<lparr>ms_offsettable := (ms_offsettable s)[?k := u32_of (ms_tcurrent s - mc_reservelen c)],
      ms_tmem := tm', ms_tcurrent := ms_tcurrent s + 4 + length ?p, ms_nleft := ms_nleft s - 1\<rparr>"
  have ex: "\<exists>its rest. stored its = map snd (kps @ [(mc_ocount c + fst it, snd it)]) \<and>
      length rest = (\<Sum>it \<leftarrow> drop i os @ nl. 4 + length (snd it)) \<and>
      building (length os + length ns) pre n (map fst (kps @ [(mc_ocount c + fst it, snd it)])) its rest
        (ms_tmem s1) (ms_tcurrent s1) (ms_offsettable s1)"
    by (rule exI [of _ "its @ [(j, ?p)]"], rule exI [of _ "drop (4 + length ?p) rest"])
      (use cp(2) b(1,2) k(3) pre in \<open>simp add: s1_def stored_def\<close>)
  have ms_nleft: "ms_nleft s = Suc (length nl)" using inv by (auto simp: merge_inv_def)
  show ?thesis
  proof (cases nl)
    case (Cons it' nl')
    have f: "filter (isnew c os) (drop (Suc k) ns) = it' # nl'" using k(4) Cons by simp
    have v: "dns_rdata_validflags (mr_rdata (ms_nrec s))"
      using comparable_rdata_read k(2) by (simp add: mrec_of_def comparable_def)
    obtain k' where k': "k' < length ns" "ns ! k' = it'" "nl' = filter (isnew c os) (drop (Suc k') ns)"
        "next_new c (?base + item_off ns (Suc k)) (mr_rdata (ms_nrec s)) = Some (mrec_of c ?base ns k')"
      using next_new_item [OF ok f v] by blast
    have nn: "next_new c (mr_next (ms_nrec s)) (mr_rdata (ms_nrec s)) = Some (mrec_of c ?base ns k')"
      using k'(4) k(2) by (simp add: mrec_of_def)
    have "merge_from_new c s = Some (s1\<lparr>ms_nrec := mrec_of c ?base ns k'\<rparr>)"
      using cp(1) ord tab nn ms_nleft Cons cnt by (simp add: merge_from_new_def s1_def)
    then show ?thesis
      using inv ex k' Cons ms_nleft by (auto simp: merge_inv_def s1_def)
  next
    case Nil
    then have "merge_from_new c s = Some s1"
      using cp(1) ord tab ms_nleft cnt by (simp add: merge_from_new_def s1_def)
    then show ?thesis
      using inv ex Nil ms_nleft by (auto simp: merge_inv_def s1_def)
  qed
qed

lemma merge_fromold_inv:
  assumes inv: "merge_inv c os ns pre n kps i nl s"
  shows "merge_fromold c s = Some (i < length os \<and> (nl = [] \<or> pcmp c (snd (os ! i)) (snd (hd nl)) < 0))"
proof (cases "i < length os \<and> nl \<noteq> []")
  case True
  then obtain k where "ms_nrec s = mrec_of c (mc_nslab c + mc_reservelen c) ns k" "hd nl = ns ! k"
    using inv by (auto simp: merge_inv_def)
  moreover have "ms_orec s = mrec_of c (mc_oslab c + mc_reservelen c) os i"
    using inv True by (auto simp: merge_inv_def)
  ultimately have "dns_rdata_compare (mc_sw c) (mr_rdata (ms_orec s)) (mr_rdata (ms_nrec s)) =
      Some (pcmp c (snd (os ! i)) (snd (hd nl)))"
    by (simp add: mrec_of_def dns_rdata_compare_comparable rdata_order_read pcmp_def)
  then show ?thesis using inv True by (auto simp: merge_fromold_def merge_inv_def)
next
  case False
  then show ?thesis using inv by (auto simp: merge_fromold_def merge_inv_def)
qed

lemma merge_bound_app: "merge_bound n (kps @ xs) \<Longrightarrow> merge_bound n kps"
  by (simp add: merge_bound_def)

lemma merge_bound_perm:
  assumes "merge_bound n xs" "mset (map snd ys) = mset (map snd xs)"
  shows "merge_bound n ys"
proof -
  have eq: "(\<Sum>it \<leftarrow> zs. 4 + length (snd it)) = (\<Sum>p \<in># mset (map snd zs). 4 + length p)" for zs :: "item list"
    by (simp add: sum_mset_sum_list [symmetric] image_mset.compositionality comp_def)
  show ?thesis using assms(1) unfolding merge_bound_def eq assms(2) .
qed

lemma merge_loop_inv:
  assumes ok: "merge_ok c os ns" and pre: "length pre = mc_reservelen c"
  shows "merge_inv c os ns pre n kps i nl s \<Longrightarrow> merge_bound n (kps @ drop i os @ nl) \<Longrightarrow>
     \<exists>s'. merge_loop c s = Some s' \<and>
       merge_inv c os ns pre n (kps @ list_merge c (drop i os) nl) (length os) [] s'"
proof (induction "length (drop i os) + length nl" arbitrary: kps i nl s)
  case 0
  then have "ms_oleft s = 0" "ms_nleft s = 0" "i = length os" by (auto simp: merge_inv_def)
  then show ?case using 0 by (simp add: merge_loop.simps [of c s])
next
  case (Suc m)
  note inv = Suc.prems(1)
  have bd: "merge_bound n kps" using Suc.prems(2) by (rule merge_bound_app)
  have left: "0 < ms_oleft s \<or> 0 < ms_nleft s" using Suc.hyps(2) inv by (auto simp: merge_inv_def)
  show ?case
  proof (cases "i < length os \<and> (nl = [] \<or> pcmp c (snd (os ! i)) (snd (hd nl)) < 0)")
    case True
    then have i: "i < length os" by simp
    obtain s1 where s1: "merge_from_old c s = Some s1" "merge_inv c os ns pre n (kps @ [os ! i]) (Suc i) nl s1"
      using merge_old_step [OF ok inv i bd pre] by blast
    have dr: "drop i os = os ! i # drop (Suc i) os" using i by (simp add: Cons_nth_drop_Suc)
    have "merge_loop c s = merge_loop c s1"
      using left s1(1) merge_fromold_inv [OF inv] True by (simp add: merge_loop.simps [of c s] merge_step_def)
    moreover have "list_merge c (drop i os) nl = os ! i # list_merge c (drop (Suc i) os) nl"
      using True dr by (cases nl) auto
    moreover have "merge_bound n ((kps @ [os ! i]) @ drop (Suc i) os @ nl)" using Suc.prems(2) dr by simp
    ultimately show ?thesis using Suc.hyps(1) [OF _ s1(2)] Suc.hyps(2) dr by simp
  next
    case False
    then have "nl \<noteq> []" using left inv by (auto simp: merge_inv_def)
    then obtain it nl' where nl: "nl = it # nl'" by (cases nl) auto
    let ?kp = "(mc_ocount c + fst it, snd it)"
    obtain s1 where s1: "merge_from_new c s = Some s1" "merge_inv c os ns pre n (kps @ [?kp]) i nl' s1"
      using merge_new_step [OF ok inv [unfolded nl] bd pre] by blast
    have "merge_loop c s = merge_loop c s1"
      using left s1(1) merge_fromold_inv [OF inv] False by (simp add: merge_loop.simps [of c s] merge_step_def)
    moreover have "list_merge c (drop i os) nl = ?kp # list_merge c (drop i os) nl'"
    proof (cases "drop i os")
      case (Cons o' os')
      then have "i < length os" by (metis drop_eq_Nil list.distinct(1) not_le)
      then show ?thesis using False nl Cons by (simp add: Cons_nth_drop_Suc [symmetric])
    qed (simp add: nl)
    moreover have "merge_bound n ((kps @ [?kp]) @ drop i os @ nl')"
      by (rule merge_bound_perm [OF Suc.prems(2)]) (simp add: nl)
    ultimately show ?thesis using Suc.hyps(1) [OF _ s1(2)] Suc.hyps(2) nl by simp
  qed
qed

section \<open>The merged records\<close>

lemma mset_list_merge:
  "mset (list_merge c os ns) = mset os + mset (map (\<lambda>n. (mc_ocount c + fst n, snd n)) ns)"
  by (induction c os ns rule: list_merge.induct) auto

lemma snd_list_merge: "snd ` set (list_merge c os ns) = snd ` set os \<union> snd ` set ns"
  by (induction c os ns rule: list_merge.induct) auto

lemma list_merge_ascending:
  "cmp_order (pcmp c) \<Longrightarrow> strictly_ascending (pcmp c) (map snd os) \<Longrightarrow> strictly_ascending (pcmp c) (map snd ns) \<Longrightarrow>
     (\<forall>o' \<in> set os. \<forall>n \<in> set ns. pcmp c (snd o') (snd n) \<noteq> 0) \<Longrightarrow>
     strictly_ascending (pcmp c) (map snd (list_merge c os ns))"
proof (induction c os ns rule: list_merge.induct)
  case (1 c o' os n ns)
  show ?case
  proof (cases "pcmp c (snd o') (snd n) < 0")
    case True
    have "\<forall>m \<in> set ns. pcmp c (snd o') (snd m) < 0"
      using 1(5) True cmp_on.cmp_less_le_trans [OF 1(3), of "snd o'" "snd n"] by (simp add: less_imp_le)
    then have "\<forall>p \<in> snd ` set (list_merge c os (n # ns)). pcmp c (snd o') p < 0"
      unfolding snd_list_merge using 1(4) True by auto
    then show ?thesis using 1 True by simp
  next
    case False
    then have lt: "pcmp c (snd n) (snd o') < 0"
      using 1(6) cmp_on.cmp_neg [OF 1(3), of "snd n" "snd o'"] by (simp add: less_le)
    then have "\<forall>m \<in> set os. pcmp c (snd n) (snd m) < 0"
      using 1(4) cmp_on.cmp_less_le_trans [OF 1(3), of "snd n" "snd o'"] by (simp add: less_imp_le)
    then have "\<forall>p \<in> snd ` set (list_merge c (o' # os) ns). pcmp c (snd n) p < 0"
      unfolding snd_list_merge using 1(5) lt by auto
    then show ?thesis using 1 False by simp
  qed
next
  case (3 c n ns)
  then have "\<forall>p \<in> snd ` set (list_merge c [] ns). pcmp c (snd n) p < 0"
    unfolding snd_list_merge by auto
  then show ?case using 3 by simp
qed simp

lemma sort_key_append_above:
  assumes "\<forall>x \<in> set xs. fst x < b"
  shows "sort_key fst (xs @ map (\<lambda>n. (b + fst n, snd n)) ys) =
     sort_key fst xs @ map (\<lambda>n. (b + fst n, snd n)) (sort_key fst (ys :: (nat \<times> 'a) list))"
proof -
  let ?g = "\<lambda>n :: nat \<times> 'a. (b + fst n, snd n)"
  have ins: "insort_key fst (?g y) (map ?g zs) = map ?g (insort_key fst y zs)" for y zs
    by (induction zs) auto
  have shift: "sort_key fst (map ?g ys) = map ?g (sort_key fst ys)"
    by (induction ys) (simp_all add: ins del: map_map)
  have front: "insort_key fst x (zs @ map ?g ws) = insort_key fst x zs @ map ?g ws" if "fst x < b" for x zs ws
    using that by (induction zs) (cases ws; auto)+
  show ?thesis using assms by (induction xs) (simp_all add: shift front)
qed

lemma listed_merge:
  assumes "wf_items t otbl os" "wf_items t ntbl ns" "mc_ocount c = length os"
  shows "by_key (map fst (list_merge c os (filter P ns))) (map snd (list_merge c os (filter P ns))) =
     listed os @ map snd (filter P (sort_key fst ns))"
    and "distinct (map fst (list_merge c os (filter P ns)))"
    and "set (map fst (list_merge c os (filter P ns))) \<subseteq> {..<length os + length ns}"
proof -
  let ?L = "list_merge c os (filter P ns)" and ?g = "\<lambda>n :: item. (length os + fst n, snd n)"
  have o: "distinct (map fst os)" "\<forall>it \<in> set os. fst it < length os"
    and n: "distinct (map fst ns)" "\<forall>it \<in> set ns. fst it < length ns"
    using wf_items_keys [OF assms(1)] wf_items_keys [OF assms(2)] by blast+
  have ms: "mset ?L = mset (os @ map ?g (filter P ns))" by (simp add: mset_list_merge assms(3))
  have "distinct (map fst (filter P ns))" using n(1) by (rule distinct_map_filter)
  then have d: "distinct (map fst (os @ map ?g (filter P ns)))"
    using o by (auto simp: distinct_map inj_on_def)
  have "mset (map fst ?L) = mset (map fst (os @ map ?g (filter P ns)))" unfolding mset_map ms ..
  then show dL: "distinct (map fst ?L)" using d by (rule mset_eq_imp_distinct_iff [THEN iffD2])
  show "set (map fst ?L) \<subseteq> {..<length os + length ns}"
    using mset_eq_setD [OF ms] o n by auto
  have "sort_key fst ?L = sort_key fst (os @ map ?g (filter P ns))"
    by (rule sort_key_inj_key_eq) (use ms dL in \<open>simp_all add: distinct_map\<close>)
  also have "\<dots> = sort_key fst os @ map ?g (sort_key fst (filter P ns))"
   by (rule sort_key_append_above) (rule o(2))
  finally show "by_key (map fst ?L) (map snd ?L) = listed os @ map snd (filter P (sort_key fst ns))"
    by (simp add: by_key_def zip_map_fst_snd listed_sort_key [OF o] filter_sort comp_def)
qed

section \<open>The whole merge\<close>

lemma stored_map_snd: "stored its = map snd kps \<Longrightarrow> length its = length kps"
  by (metis length_map stored_def)

lemma sum_8: "(\<Sum>it \<leftarrow> its. 8 + length (snd it)) = 4 * length its + (\<Sum>it \<leftarrow> its. 4 + length (snd it))" for its :: "item list"
  by (induction its) auto

lemma sum_list_mset_snd:
  fixes f :: "u8 list \<Rightarrow> nat"
  assumes "mset xs = mset (ys @ map g zs)" "\<And>z. snd (g z) = snd z"
  shows "(\<Sum>it \<leftarrow> xs. f (snd it)) = (\<Sum>it \<leftarrow> ys @ zs. f (snd it))"
  using sum_list_perm [OF assms(1), of "\<lambda>it. f (snd it)"] by (simp add: comp_def assms(2))

text \<open>Filling succeeds, ends at \<open>tlength\<close> and leaves the merged slab behind the new slab's reserved area.\<close>

lemma merge_fill_ok:
  assumes ok: "merge_ok c os ns" and ne: "os \<noteq> []" and mctx: "mctx 1 ((length os + length ns) * sizeof_uint) \<noteq> None"
    and new: "new = filter (isnew c os) ns"
    and cnt: "tcount = length os + length new" "tcount < 65536"
    and len: "tlength = mc_reservelen c + 2 + (\<Sum>it \<leftarrow> os @ new. 8 + length (snd it))" "tlength < 4294967296"
    and tm: "length tstart = tlength"
  obtains tbl its where
    "merge_fill c tlength tcount (length new) tstart mctx =
       Some (ISC_R_SUCCESS, Some (lay (take (mc_reservelen c) (drop (mc_nslab c) (mc_nm c))) tbl its []))"
    "wf_items (mc_type c) tbl its" "stored its = map snd (list_merge c os new)"
    "listed its = listed os @ map snd (filter (isnew c os) (sort_key fst ns))"
proof -
  obtain otbl ntbl where so: "slab_at (mc_om c) (mc_oslab c + mc_reservelen c) (mc_type c) otbl os"
    and sn: "slab_at (mc_nm c) (mc_nslab c + mc_reservelen c) (mc_type c) ntbl ns"
    and oc: "mc_ocount c = length os" "mc_oncount c = length ns"
    using ok by (auto simp: merge_ok_def)
  have wf: "wf_items (mc_type c) otbl os" "wf_items (mc_type c) ntbl ns"
    using so sn by (simp_all add: slab_at_def)
  define pre where "pre = take (mc_reservelen c) (drop (mc_nslab c) (mc_nm c))"
  have lenp: "mc_nslab c + mc_reservelen c \<le> length (mc_nm c)"
    using sn by (auto simp: slab_at_def length_lay)
  then have pre: "length pre = mc_reservelen c" by (simp add: pre_def)
  have hdr: "mem_blk (mc_nm c) (mc_nslab c) (mc_reservelen c) = Some pre"
    using lenp by (simp add: mem_blk_def pre_def)
  let ?tm1 = "pre @ drop (length pre) tstart"
  have w1: "mem_wr tstart 0 pre = Some ?tm1" using tm len(1) pre by (simp add: mem_wr_def)
  let ?N = "length os + length ns" and ?L = "list_merge c os new"
  have k: "tlength = mc_reservelen c + (2 + 4 * tcount) + (\<Sum>it \<leftarrow> os @ new. 4 + length (snd it))"
    using len(1) cnt(1) sum_8 [of "os @ new"] by simp
  obtain tm2 where tm2: "mem_wr ?tm1 (length pre) (put16 tcount) = Some tm2"
    "building ?N pre tcount [] [] (drop (length pre + 2 + 4 * tcount) ?tm1) tm2
       (length pre + 2 + tcount * 4) (replicate ?N 0)"
    by (rule building_start [of ?tm1 pre tcount "\<Sum>it \<leftarrow> os @ new. 4 + length (snd it)" ?N])
      (use tm k pre in simp_all)
  have r0: "read_record c (mc_om c) (length os) (mc_oslab c + mc_reservelen c + 2 + 4 * length os) dns_rdata_init =
      Some (mrec_of c (mc_oslab c + mc_reservelen c) os 0)"
    unfolding item_off_start by (rule read_record_item [OF so]) (use ne in simp)
  obtain nrec0 where n0: "(if length new > 0
      then next_new c (mc_nslab c + mc_reservelen c + 2 + 4 * length ns) dns_rdata_init
      else Some (mrec_of c (mc_oslab c + mc_reservelen c) os 0)) = Some nrec0"
    and n0': "new \<noteq> [] \<longrightarrow> (\<exists>k < length ns. nrec0 = mrec_of c (mc_nslab c + mc_reservelen c) ns k \<and>
        new = ns ! k # filter (isnew c os) (drop (Suc k) ns))"
  proof (cases new)
    case (Cons it rest)
    have f: "filter (isnew c os) (drop 0 ns) = it # rest" using new Cons by simp
    show ?thesis
      using next_new_item [OF ok f, of dns_rdata_init] Cons that by (auto simp: item_off_start)
  qed (use that in simp)
  define s where "s = \<lparr>ms_oleft = length os, ms_orec = mrec_of c (mc_oslab c + mc_reservelen c) os 0,
      ms_nleft = length new, ms_nrec = nrec0, ms_tmem = tm2, ms_tcurrent = mc_reservelen c + 2 + tcount * 4,
      ms_offsettable = replicate ?N 0\<rparr>"
  have "length (drop (length pre + 2 + 4 * tcount) ?tm1) = (\<Sum>it \<leftarrow> drop 0 os @ new. 4 + length (snd it))"
    using tm k pre by simp
  then have "\<exists>its rest. stored its = map snd [] \<and>
      length rest = (\<Sum>it \<leftarrow> drop 0 os @ new. 4 + length (snd it)) \<and>
      building ?N pre tcount (map fst []) its rest (ms_tmem s) (ms_tcurrent s) (ms_offsettable s)"
    by (intro exI [of _ "[]"] exI [of _ "drop (length pre + 2 + 4 * tcount) ?tm1"])
      (use tm2(2) pre in \<open>simp add: s_def stored_def\<close>)
  then have inv: "merge_inv c os ns pre tcount [] 0 new s"
    using n0' unfolding merge_inv_def by (simp add: s_def)
  have bd: "merge_bound tcount ([] @ drop 0 os @ new)" using k len(2) by (simp add: merge_bound_def)
  obtain s' where s': "merge_loop c s = Some s'" "merge_inv c os ns pre tcount ?L (length os) [] s'"
    using merge_loop_inv [OF ok pre inv bd] by auto
  obtain its rest where b: "stored its = map snd ?L" "rest = []"
      "building ?N pre tcount (map fst ?L) its rest (ms_tmem s') (ms_tcurrent s') (ms_offsettable s')"
    using s'(2) by (auto simp: merge_inv_def)
  have ms: "mset ?L = mset (os @ map (\<lambda>n. (mc_ocount c + fst n, snd n)) new)" by (simp add: mset_list_merge)
  have li: "length its = tcount"
    using stored_map_snd [OF b(1)] mset_eq_length [OF ms] cnt(1) by simp
  have sum: "(\<Sum>p \<leftarrow> stored its. f (length p)) = (\<Sum>it \<leftarrow> os @ new. f (length (snd it)))" for f :: "nat \<Rightarrow> nat"
    unfolding b(1) using sum_list_mset_snd [OF ms, of "\<lambda>p. f (length p)"] by (simp add: comp_def)
  have tc: "ms_tcurrent s' = tlength"
    using b(3) pre k sum [of "\<lambda>n. 4 + n"] by (simp add: building_def length_enc_items)
  have pay: "\<forall>p \<in> set (stored its). payload_ok (mc_type c) p"
    using wf mset_eq_setD [OF ms] by (auto simp: b(1) new wf_items_def)
  obtain tbl' its' where f: "fillin_offsets (ms_tmem s') (length pre) (ms_offsettable s') = Some (lay pre tbl' its' rest)"
    "wf_items (mc_type c) tbl' its'" "stored its' = stored its" "listed its' = by_key (map fst ?L) (stored its)"
    by (rule building_fillin [OF b(3) [folded li]])
      (use listed_merge(2,3) [OF wf oc(1), of "isnew c os"] new li cnt(2) pay sum [of "\<lambda>n. 8 + n"] len in auto)
  have "merge_fill c tlength tcount (length new) tstart mctx = Some (ISC_R_SUCCESS, Some (lay pre tbl' its' []))"
    using mctx hdr w1 tm2(1) r0 n0 s'(1) f(1) tc b(2) pre oc by (auto simp: merge_fill_def s_def)
  moreover have "listed its' = listed os @ map snd (filter (isnew c os) (sort_key fst ns))"
    using f(4) listed_merge(1) [OF wf oc(1), of "isnew c os"] new b(1) by simp
  ultimately show thesis using that f(2,3) b(1) by (simp add: pre_def)
qed

lemma merge_fill_nomem:
  assumes ok: "merge_ok c os ns" and "mctx 1 ((mc_ocount c + mc_oncount c) * sizeof_uint) = None"
    and "tlength = mc_reservelen c + 2 + k" "length tstart = tlength"
  shows "merge_fill c tlength tcount n tstart mctx = Some (ISC_R_NOMEMORY, None)"
proof -
  have "mc_nslab c + mc_reservelen c \<le> length (mc_nm c)"
    using ok by (auto simp: merge_ok_def slab_at_def length_lay)
  then show ?thesis using assms by (simp add: merge_fill_def mem_blk_def mem_wr_def)
qed

text \<open>
  The payloads of the new slab that the old slab does not have, the size of the merged slab, and the
  situation in which \<open>dns_rdataslab_merge\<close> is called: two well-formed, non-empty slabs in DNSSEC order whose union
  has less than four gigabytes.
\<close>

definition absent :: "cmpswitch \<Rightarrow> nat \<Rightarrow> nat \<Rightarrow> item list \<Rightarrow> u8 list \<Rightarrow> bool" where
  "absent sw rdclass type os p \<longleftrightarrow>
     \<not> (\<exists>q \<in> set (stored os). rdata_order sw (rdata_of rdclass type q) (rdata_of rdclass type p) = 0)"

definition merge_size :: "cmpswitch \<Rightarrow> nat \<Rightarrow> nat \<Rightarrow> item list \<Rightarrow> item list \<Rightarrow> nat \<Rightarrow> nat" where
  "merge_size sw rdclass type os ns reservelen =
     reservelen + 2 + (\<Sum>p \<leftarrow> stored os @ filter (absent sw rdclass type os) (stored ns). 8 + length p)"

definition slab_pair ::
    "cmpswitch \<Rightarrow> nat \<Rightarrow> nat \<Rightarrow> mem \<Rightarrow> nat \<Rightarrow> mem \<Rightarrow> nat \<Rightarrow> nat \<Rightarrow> item list \<Rightarrow> item list \<Rightarrow> bool" where
  "slab_pair sw rdclass type om oslab nm nslab reservelen os ns \<longleftrightarrow> switch_ok sw \<and>
     (\<exists>tbl. slab_at om (oslab + reservelen) type tbl os) \<and> (\<exists>tbl. slab_at nm (nslab + reservelen) type tbl ns) \<and>
     strictly_ascending (rdata_order sw) (map (rdata_of rdclass type) (stored os)) \<and>
     strictly_ascending (rdata_order sw) (map (rdata_of rdclass type) (stored ns)) \<and> os \<noteq> [] \<and> ns \<noteq> []"

lemma filter_isnew:
  assumes "mc_sw c = sw" "mc_class c = rdclass" "mc_type c = type"
  shows "map snd (filter (isnew c os) its) = filter (absent sw rdclass type os) (map snd its)"
proof -
  have "isnew c os = absent sw rdclass type os \<circ> snd"
    using assms by (intro ext) (simp add: isnew_def absent_def pcmp_def)
  then show ?thesis by (simp add: filter_map)
qed

lemma merge_eq:
  fixes sw rdclass type om oslab nm nslab reservelen os ns
  defines "c \<equiv> \<lparr>mc_sw = sw, mc_om = om, mc_oslab = oslab, mc_nm = nm, mc_nslab = nslab,
      mc_reservelen = reservelen, mc_class = rdclass, mc_type = type,
      mc_ocount = length os, mc_oncount = length ns\<rparr>"
    and "tlength \<equiv> merge_size sw rdclass type os ns reservelen"
    and "tcount \<equiv> length os + length (filter (absent sw rdclass type os) (stored ns))"
  assumes sp: "slab_pair sw rdclass type om oslab nm nslab reservelen os ns" and sz: "tlength < 4294967296"
  shows "dns_rdataslab_merge sw issingleton om oslab nm nslab reservelen mctx rdclass type flags =
     (if filter (absent sw rdclass type os) (stored ns) = [] \<and> flags AND DNS_RDATASLAB_FORCE = 0
      then Some (DNS_R_UNCHANGED, None)
      else if tcount > 1 \<and> issingleton type then Some (DNS_R_SINGLETON, None)
      else if tcount > 65535 then Some (ISC_R_NOSPACE, None)
      else case mctx 0 tlength of
          None \<Rightarrow> Some (ISC_R_NOMEMORY, None)
        | Some tstart \<Rightarrow> merge_fill c tlength tcount (length (filter (isnew c os) ns)) tstart mctx)"
    and "merge_ok c os ns"
    and "tlength = mc_reservelen c + 2 + (\<Sum>it \<leftarrow> os @ filter (isnew c os) ns. 8 + length (snd it))"
    and "tcount = length os + length (filter (isnew c os) ns)"
proof -
  obtain otbl ntbl where so: "slab_at om (oslab + reservelen) type otbl os"
    and sn: "slab_at nm (nslab + reservelen) type ntbl ns" using sp by (auto simp: slab_pair_def)
  show ok: "merge_ok c os ns"
    using sp by (auto simp: merge_ok_def slab_pair_def c_def strictly_ascending_map pcmp_def [abs_def])
  have new: "map snd (filter (isnew c os) ns) = filter (absent sw rdclass type os) (stored ns)"
    unfolding stored_def by (rule filter_isnew) (simp_all add: c_def)
  then have ln: "length (filter (absent sw rdclass type os) (stored ns)) = length (filter (isnew c os) ns)"
    by (metis length_map)
  then have nil: "filter (absent sw rdclass type os) (stored ns) = [] \<longleftrightarrow> filter (isnew c os) ns = []"
    by (metis length_0_conv)
  show tc: "tcount = length os + length (filter (isnew c os) ns)" by (simp add: tcount_def ln)
  show tl: "tlength = mc_reservelen c + 2 + (\<Sum>it \<leftarrow> os @ filter (isnew c os) ns. 8 + length (snd it))"
    unfolding tlength_def merge_size_def new [symmetric] by (simp add: c_def stored_def comp_def)
  let ?ol = "\<Sum>p \<leftarrow> stored os. 8 + length p"
  have ol: "merge_olength om (length os) (oslab + reservelen + 2 + 4 * length os) 0 = Some ?ol"
    using merge_olength_items [OF so, of 0 "length os" 0] tl sz
    by (simp add: item_off_start c_def stored_def comp_def)
  have u: "u32_of (reservelen + 2 + ?ol) = reservelen + 2 + ?ol"
    using tl sz by (simp add: c_def stored_def comp_def)
  have nl: "merge_newlength c (length ns) (nslab + reservelen + 2 + 4 * length ns) (reservelen + 2 + ?ol) (length os) 0 =
      Some (tlength, tcount, length (filter (isnew c os) ns))"
    using merge_newlength_items [OF ok, of 0 "length ns" "reservelen + 2 + ?ol" "length os" 0] tl tc sz
    by (simp add: item_off_start c_def stored_def comp_def)
  show "dns_rdataslab_merge sw issingleton om oslab nm nslab reservelen mctx rdclass type flags =
     (if filter (absent sw rdclass type os) (stored ns) = [] \<and> flags AND DNS_RDATASLAB_FORCE = 0
      then Some (DNS_R_UNCHANGED, None)
      else if tcount > 1 \<and> issingleton type then Some (DNS_R_SINGLETON, None)
      else if tcount > 65535 then Some (ISC_R_NOSPACE, None)
      else case mctx 0 tlength of
          None \<Rightarrow> Some (ISC_R_NOMEMORY, None)
        | Some tstart \<Rightarrow> merge_fill c tlength tcount (length (filter (isnew c os) ns)) tstart mctx)"
    using slab_at_count [OF so] slab_at_count [OF sn] ol sp unfolding tc
    by (simp add: dns_rdataslab_merge_def c_def [symmetric] u nl [unfolded tc] nil slab_pair_def)
qed

text \<open>The slab of a merge that succeeds.\<close>

lemma merge_union:
  assumes sp: "slab_pair sw rdclass type om oslab nm nslab reservelen os ns" and "mctx_ok mctx"
    and sz: "merge_size sw rdclass type os ns reservelen < 4294967296"
    and new: "new = filter (absent sw rdclass type os) (listed ns)"
    and "new \<noteq> [] \<or> flags AND DNS_RDATASLAB_FORCE \<noteq> 0"
    and "\<not> (length os + length new > 1 \<and> issingleton type)" "length os + length new \<le> 65535"
    and "mctx 0 (merge_size sw rdclass type os ns reservelen) \<noteq> None"
      "mctx 1 ((length os + length ns) * sizeof_uint) \<noteq> None"
  obtains tbl its where "dns_rdataslab_merge sw issingleton om oslab nm nslab reservelen mctx rdclass type flags =
       Some (ISC_R_SUCCESS, Some (lay (take reservelen (drop nslab nm)) tbl its []))"
    "wf_items type tbl its"
    "strictly_ascending (rdata_order sw) (map (rdata_of rdclass type) (stored its))"
    "listed its = listed os @ new"
proof -
  define c where "c = \<lparr>mc_sw = sw, mc_om = om, mc_oslab = oslab, mc_nm = nm, mc_nslab = nslab,
      mc_reservelen = reservelen, mc_class = rdclass, mc_type = type,
      mc_ocount = length os, mc_oncount = length ns\<rparr>"
  note m = merge_eq [OF sp sz, folded c_def]
  obtain ntbl where wf: "wf_items type ntbl ns" using sp by (auto simp: slab_pair_def slab_at_def)
  have ls: "listed ns = map snd (sort_key fst ns)"
    using wf_items_keys [OF wf] by (simp add: listed_sort_key)
  have new': "new = map snd (filter (isnew c os) (sort_key fst ns))"
    unfolding new ls by (rule filter_isnew [symmetric]) (simp_all add: c_def)
  have "mset (listed ns) = mset (stored ns)" by (simp add: ls stored_def)
  then have "mset (filter (absent sw rdclass type os) (stored ns)) = mset new" unfolding new mset_filter by simp
  then have ln: "length (filter (absent sw rdclass type os) (stored ns)) = length new" by (rule mset_eq_length)
  then have nil: "filter (absent sw rdclass type os) (stored ns) = [] \<longleftrightarrow> new = []" by (metis length_0_conv)
  obtain tstart where ts: "mctx 0 (merge_size sw rdclass type os ns reservelen) = Some tstart" using assms(8) by blast
  obtain tbl its where f: "merge_fill c (merge_size sw rdclass type os ns reservelen)
        (length os + length (filter (isnew c os) ns)) (length (filter (isnew c os) ns)) tstart mctx =
      Some (ISC_R_SUCCESS, Some (lay (take (mc_reservelen c) (drop (mc_nslab c) (mc_nm c))) tbl its []))"
    "wf_items (mc_type c) tbl its" "stored its = map snd (list_merge c os (filter (isnew c os) ns))"
    "listed its = listed os @ map snd (filter (isnew c os) (sort_key fst ns))"
    by (rule merge_fill_ok [where mctx = mctx, OF m(2) _ assms(9) refl refl _ m(3) sz mctx_okD [OF assms(2) ts]])
      (use sp m(4) ln assms(7) in \<open>auto simp: slab_pair_def\<close>)
  have asc: "strictly_ascending (pcmp c) (stored its)"
    unfolding f(3)
  proof (rule list_merge_ascending)
    show "cmp_order (pcmp c)" by (rule pcmp_order) (use sp in \<open>simp add: slab_pair_def c_def\<close>)
    show "strictly_ascending (pcmp c) (map snd os)" using m(2) by (simp add: merge_ok_def stored_def)
    have "strictly_ascending (\<lambda>a b. pcmp c (snd a) (snd b)) ns"
      using m(2) by (simp add: merge_ok_def stored_def strictly_ascending_map)
    then show "strictly_ascending (pcmp c) (map snd (filter (isnew c os) ns))"
      by (simp add: strictly_ascending_map sorted_wrt_filter)
    show "\<forall>o' \<in> set os. \<forall>n \<in> set (filter (isnew c os) ns). pcmp c (snd o') (snd n) \<noteq> 0"
      by (auto simp: isnew_def stored_def)
  qed
  have "dns_rdataslab_merge sw issingleton om oslab nm nslab reservelen mctx rdclass type flags =
       Some (ISC_R_SUCCESS, Some (lay (take reservelen (drop nslab nm)) tbl its []))"
    using m(1) m(4) f(1) ts assms(5-7) ln nil by (auto simp: c_def)
  moreover have "wf_items type tbl its" using f(2) by (simp add: c_def)
  moreover have "strictly_ascending (rdata_order sw) (map (rdata_of rdclass type) (stored its))"
    using asc by (simp add: strictly_ascending_map pcmp_def [abs_def] c_def)
  moreover have "listed its = listed os @ new" using f(4) new' by simp
  ultimately show thesis using that by blast
qed

text \<open>
  C11: \<open>dns_rdataslab_merge\<close> of two well-formed slabs in DNSSEC order, when something is added (or the caller
  forces it), the union fits and memory is available, makes a well-formed slab behind the reserved area of the
  new slab.  Its records are in DNSSEC order without duplicates, and it lists the records of the old slab in
  their order followed by those of the new slab that the old one does not have, in theirs.  In particular the
  loops end and the final assertion on the length holds.
\<close>

theorem merge_success:
  assumes sp: "slab_pair sw rdclass type om oslab nm nslab reservelen os ns" and "mctx_ok mctx"
    and sz: "merge_size sw rdclass type os ns reservelen < 4294967296"
    and new: "new = filter (absent sw rdclass type os) (listed ns)"
    and "new \<noteq> [] \<or> flags AND DNS_RDATASLAB_FORCE \<noteq> 0"
    and "\<not> (length os + length new > 1 \<and> issingleton type)" "length os + length new \<le> 65535"
    and "mctx 0 (merge_size sw rdclass type os ns reservelen) \<noteq> None"
      "mctx 1 ((length os + length ns) * sizeof_uint) \<noteq> None"
  shows "\<exists>tbl its.
     dns_rdataslab_merge sw issingleton om oslab nm nslab reservelen mctx rdclass type flags =
       Some (ISC_R_SUCCESS, Some (lay (take reservelen (drop nslab nm)) tbl its [])) \<and>
     wf_items type tbl its \<and>
     strictly_ascending (rdata_order sw) (map (rdata_of rdclass type) (stored its)) \<and>
     listed its = listed os @ new"
  by (rule merge_union [where mctx = mctx and issingleton = issingleton, OF assms]) blast

text \<open>
  C14: On two well-formed slabs in DNSSEC order whose union has less than four gigabytes \<open>dns_rdataslab_merge\<close>
  returns, also when memory runs out, with the result code below, and it hands a slab over exactly when it succeeds.
  It never returns \<open>DNS_R_NOTEXACT\<close>: the test that the caller asks for with \<open>DNS_RDATASLAB_EXACT\<close> compares
  the total with a count of the new records that already leaves out the common ones.
\<close>

theorem merge_result:
  assumes sp: "slab_pair sw rdclass type om oslab nm nslab reservelen os ns" and "mctx_ok mctx"
    and sz: "merge_size sw rdclass type os ns reservelen < 4294967296"
    and tc: "tcount = length os + length (filter (absent sw rdclass type os) (stored ns))"
  shows "\<exists>result slab.
     dns_rdataslab_merge sw issingleton om oslab nm nslab reservelen mctx rdclass type flags = Some (result, slab) \<and>
     result =
       (if tcount = length os \<and> flags AND DNS_RDATASLAB_FORCE = 0 then DNS_R_UNCHANGED
        else if tcount > 1 \<and> issingleton type then DNS_R_SINGLETON
        else if tcount > 65535 then ISC_R_NOSPACE
        else if mctx 0 (merge_size sw rdclass type os ns reservelen) = None \<or>
                mctx 1 ((length os + length ns) * sizeof_uint) = None then ISC_R_NOMEMORY
        else ISC_R_SUCCESS) \<and>
     (slab = None \<longleftrightarrow> result \<noteq> ISC_R_SUCCESS)"
proof -
  define c where "c = \<lparr>mc_sw = sw, mc_om = om, mc_oslab = oslab, mc_nm = nm, mc_nslab = nslab,
      mc_reservelen = reservelen, mc_class = rdclass, mc_type = type,
      mc_ocount = length os, mc_oncount = length ns\<rparr>"
  note m = merge_eq [OF sp sz, folded c_def]
  have nil: "filter (absent sw rdclass type os) (stored ns) = [] \<longleftrightarrow> tcount = length os" by (simp add: tc)
  show ?thesis
  proof (cases "mctx 0 (merge_size sw rdclass type os ns reservelen)")
    case None
    then show ?thesis unfolding m(1) using nil tc by auto
  next
    case (Some tstart)
    have len: "length tstart = merge_size sw rdclass type os ns reservelen" by (rule mctx_okD [OF assms(2) Some])
    consider (nomem) "mctx 1 ((length os + length ns) * sizeof_uint) = None" "tcount \<le> 65535"
      | (big) "tcount > 65535" | (fill) "mctx 1 ((length os + length ns) * sizeof_uint) \<noteq> None" "tcount \<le> 65535"
      by linarith
    then show ?thesis
    proof cases
      case nomem
      have "merge_fill c (merge_size sw rdclass type os ns reservelen) tcount (length (filter (isnew c os) ns)) tstart mctx =
          Some (ISC_R_NOMEMORY, None)"
        by (rule merge_fill_nomem [OF m(2) _ m(3) len]) (use nomem in \<open>simp add: c_def\<close>)
      then show ?thesis unfolding m(1) using nil nomem Some tc by auto
    next
      case fill
      obtain tbl its where "merge_fill c (merge_size sw rdclass type os ns reservelen) tcount
          (length (filter (isnew c os) ns)) tstart mctx =
        Some (ISC_R_SUCCESS, Some (lay (take (mc_reservelen c) (drop (mc_nslab c) (mc_nm c))) tbl its []))"
        by (rule merge_fill_ok [where mctx = mctx, OF m(2) _ fill(1) refl _ _ m(3) sz len])
          (use sp m(4) fill(2) tc in \<open>auto simp: slab_pair_def\<close>)
      then show ?thesis unfolding m(1) using nil fill Some tc by auto
    qed (use nil tc in \<open>auto simp: m(1)\<close>)
  qed
qed

section \<open>Examples\<close>

text \<open>A second slab, which has one record in common with the first.\<close>

definition ex_its2 :: "item list" where
  "ex_its2 = [(0, [10, 0, 0, 2]), (1, [10, 0, 0, 3])]"

definition ex_slab2 :: mem where
  "ex_slab2 = lay [1, 2, 3] [10, 18] ex_its2 []"

lemma ex_slab2_at: "slab_at ex_slab2 3 1 [10, 18] ex_its2"
proof -
  have "wf_items 1 [10, 18] ex_its2"
    by (simp add: wf_items_def ex_its2_def payload_ok_def dns_rdatatype_rrsig_def
        length_slab_body item_off_def less_Suc_eq)
  moreover have "length [1, 2, 3 :: u8] = 3" by simp
  ultimately show ?thesis unfolding slab_at_def ex_slab2_def by blast
qed

lemma ex_slab_pair: "slab_pair ex_sw 1 1 ex_slab 0 ex_slab2 0 3 ex_its ex_its2"
proof -
  have "strictly_ascending (rdata_order ex_sw) (map (rdata_of 1 1) (stored ex_its2))" by code_simp
  then show ?thesis
    using ex_slab_at ex_slab2_at ex_slab_ascending ex_assms(1)
    by (auto simp: slab_pair_def ex_its_def ex_its2_def)
qed

lemma ex_pair_facts:
  "merge_size ex_sw 1 1 ex_its ex_its2 3 = 41" "filter (absent ex_sw 1 1 ex_its) (listed ex_its2) = [[10, 0, 0, 3]]"
  "filter (absent ex_sw 1 1 ex_its) (stored ex_its2) = [[10, 0, 0, 3]]"
  by code_simp+

theorem merge_success_witness:
  "\<exists>tbl its.
     dns_rdataslab_merge ex_sw (\<lambda>t. False) ex_slab 0 ex_slab2 0 3 ex_mctx 1 1 0 =
       Some (ISC_R_SUCCESS, Some (lay (take 3 (drop 0 ex_slab2)) tbl its [])) \<and>
     wf_items 1 tbl its \<and> listed its = listed ex_its @ [[10, 0, 0, 3]]"
proof -
  have l: "length ex_its = 2" by (simp add: ex_its_def)
  show ?thesis
    using merge_success [OF ex_slab_pair ex_assms(2) _ ex_pair_facts(2) [symmetric], of 0 "\<lambda>t. False"]
      ex_assms(11) ex_pair_facts(1) l by fastforce
qed

theorem merge_result_witness:
  "\<exists>slab. dns_rdataslab_merge ex_sw (\<lambda>t. False) ex_slab 0 ex_slab2 0 3 ex_mctx 1 1 DNS_RDATASLAB_EXACT =
     Some (ISC_R_SUCCESS, slab)"
proof -
  have l: "length ex_its = 2" by (simp add: ex_its_def)
  show ?thesis
    using merge_result [OF ex_slab_pair ex_assms(2) _ refl, of "\<lambda>t. False" DNS_RDATASLAB_EXACT]
    by (auto simp: ex_assms(11) ex_pair_facts l simp del: One_nat_def)
qed

end
