(* ===== verification/Slab_Subtract.thy ===== *)
theory Slab_Subtract
  imports Slab_Merge
begin

text \<open>
  \<open>dns_rdataslab_subtract\<close> of \<^verbatim>\<open>lib/dns/rdataslab.c\<close>: the records of one slab (\<open>mslab\<close>, in the memory object
  \<open>mm\<close>) that another slab (\<open>sslab\<close> in \<open>sm\<close>) does not have, in a new buffer.
\<close>

section \<open>Definitions\<close>

text \<open>What the loops do not change; \<open>sstart\<close> is the position of the first record to subtract.\<close>

record sub_ctx =
  sc_sw :: cmpswitch
  sc_mm :: mem
  sc_sm :: mem
  sc_sstart :: nat
  sc_scount :: nat
  sc_class :: nat
  sc_type :: nat

text \<open>The inner loop: whether one of the next \<open>n\<close> records to subtract is \<open>mrdata\<close>.\<close>

fun subtract_find :: "sub_ctx \<Rightarrow> dns_rdata \<Rightarrow> nat \<Rightarrow> nat \<Rightarrow> dns_rdata \<Rightarrow> (bool \<times> dns_rdata) option" where
  "subtract_find c mrdata 0 scurrent srdata = Some (False, srdata)"
| "subtract_find c mrdata (Suc n) scurrent srdata =
     do { srdata1 \<leftarrow> dns_rdata_reset srdata;
          (srdata2, _, scurrent') \<leftarrow> rdata_from_slab (sc_sm c) scurrent (sc_class c) (sc_type c) srdata1;
          r \<leftarrow> dns_rdata_compare (sc_sw c) mrdata srdata2;
          if r = 0 then Some (True, srdata2) else subtract_find c mrdata n scurrent' srdata2 }"

text \<open>The first pass: the length and the number of the records to keep, and the number of those that go.\<close>

fun subtract_count ::
    "sub_ctx \<Rightarrow> nat \<Rightarrow> nat \<Rightarrow> dns_rdata \<Rightarrow> dns_rdata \<Rightarrow> nat \<Rightarrow> nat \<Rightarrow> nat \<Rightarrow> (nat \<times> nat \<times> nat \<times> dns_rdata \<times> dns_rdata) option" where
  "subtract_count c 0 mcurrent mrdata srdata tlength tcount rcount = Some (tlength, tcount, rcount, mrdata, srdata)"
| "subtract_count c (Suc n) mcurrent mrdata srdata tlength tcount rcount =
     do { (mrdata1, _, mcurrent') \<leftarrow> rdata_from_slab (sc_mm c) mcurrent (sc_class c) (sc_type c) mrdata;
          (found, srdata1) \<leftarrow> subtract_find c mrdata1 (sc_scount c) (sc_sstart c) srdata;
          mrdata2 \<leftarrow> dns_rdata_reset mrdata1;
          if \<not> found
          then subtract_count c n mcurrent' mrdata2 srdata1 (u32_of (tlength + (mcurrent' - mcurrent))) (tcount + 1) rcount
          else subtract_count c n mcurrent' mrdata2 srdata1 tlength tcount (rcount + 1) }"

text \<open>The second pass copies the records to keep, whole.\<close>

fun subtract_copy ::
    "sub_ctx \<Rightarrow> nat \<Rightarrow> nat \<Rightarrow> nat \<Rightarrow> nat \<Rightarrow> dns_rdata \<Rightarrow> dns_rdata \<Rightarrow> mem \<Rightarrow> nat \<Rightarrow> nat list \<Rightarrow> (mem \<times> nat \<times> nat list) option" where
  "subtract_copy c offsetbase mcount 0 mcurrent mrdata srdata tm tcurrent offsettable = Some (tm, tcurrent, offsettable)"
| "subtract_copy c offsetbase mcount (Suc n) mcurrent mrdata srdata tm tcurrent offsettable =
     do { order \<leftarrow> rd16 (sc_mm c) (mcurrent + 2);
          if order \<ge> mcount \<or> order \<ge> length offsettable then None
          else do {
            (mrdata1, _, mcurrent') \<leftarrow> rdata_from_slab (sc_mm c) mcurrent (sc_class c) (sc_type c) mrdata;
            (found, srdata1) \<leftarrow> subtract_find c mrdata1 (sc_scount c) (sc_sstart c) srdata;
            mrdata2 \<leftarrow> dns_rdata_reset mrdata1;
            if \<not> found
            then do { bs \<leftarrow> mem_blk (sc_mm c) mcurrent (mcurrent' - mcurrent);
                      tm1 \<leftarrow> mem_wr tm tcurrent bs;
                      subtract_copy c offsetbase mcount n mcurrent' mrdata2 srdata1 tm1
                        (tcurrent + (mcurrent' - mcurrent))
                        (offsettable[order := u32_of (tcurrent - offsetbase)]) }
            else subtract_copy c offsetbase mcount n mcurrent' mrdata2 srdata1 tm tcurrent offsettable } }"

text \<open>The target: the reserved area comes from the slab that is subtracted from.\<close>

definition subtract_fill ::
    "sub_ctx \<Rightarrow> nat \<Rightarrow> nat \<Rightarrow> nat \<Rightarrow> nat \<Rightarrow> nat \<Rightarrow> dns_rdata \<Rightarrow> dns_rdata \<Rightarrow> mem \<Rightarrow> mctx \<Rightarrow>
     (isc_result \<times> mem option) option" where
  "subtract_fill c mslab reservelen mcount tlength tcount mrdata srdata tstart mctx =
     do { hdr \<leftarrow> mem_blk (sc_mm c) mslab reservelen;
          tm1 \<leftarrow> mem_wr tstart 0 hdr;
          case mctx 1 (mcount * sizeof_uint) of
            None \<Rightarrow> Some (ISC_R_NOMEMORY, None)
          | Some _ \<Rightarrow>
              do { tm2 \<leftarrow> mem_wr tm1 reservelen (put16 tcount);
                   mcount' \<leftarrow> rd16 (sc_mm c) (mslab + reservelen);
                   (tm3, tcurrent, offsettable) \<leftarrow>
                     subtract_copy c reservelen mcount' mcount' (mslab + reservelen + 2 + 4 * mcount') mrdata srdata
                       tm2 (reservelen + 2 + tcount * 4) (replicate mcount 0);
                   tm4 \<leftarrow> fillin_offsets tm3 reservelen offsettable;
                   if tcurrent \<noteq> tlength then None else Some (ISC_R_SUCCESS, Some tm4) } }"

definition dns_rdataslab_subtract ::
    "cmpswitch \<Rightarrow> mem \<Rightarrow> nat \<Rightarrow> mem \<Rightarrow> nat \<Rightarrow> nat \<Rightarrow> mctx \<Rightarrow> nat \<Rightarrow> nat \<Rightarrow> u32 \<Rightarrow>
     (isc_result \<times> mem option) option" where
  "dns_rdataslab_subtract sw mm mslab sm sslab reservelen mctx rdclass type flags =
     do { mcount \<leftarrow> rd16 mm (mslab + reservelen);
          scount \<leftarrow> rd16 sm (sslab + reservelen);
          if \<not> (mcount > 0 \<and> scount > 0) then None
          else do {
            let c = \<lparr>sc_sw = sw, sc_mm = mm, sc_sm = sm, sc_sstart = sslab + reservelen + 2 + 4 * scount,
                     sc_scount = scount, sc_class = rdclass, sc_type = type\<rparr>;
            (tlength1, tcount, rcount, mrdata, srdata) \<leftarrow>
              subtract_count c mcount (mslab + reservelen + 2 + 4 * mcount) dns_rdata_init dns_rdata_init
                (u32_of (reservelen + 2)) 0 0;
            let tlength = u32_of (tlength1 + 4 * tcount);
            if flags AND DNS_RDATASLAB_EXACT \<noteq> 0 \<and> rcount \<noteq> scount then Some (DNS_R_NOTEXACT, None)
            else if tcount = 0 then Some (DNS_R_NXRRSET, None)
            else if rcount = 0 then Some (DNS_R_UNCHANGED, None)
            else case mctx 0 tlength of
                None \<Rightarrow> Some (ISC_R_NOMEMORY, None)
              | Some tstart \<Rightarrow>
                  subtract_fill c mslab reservelen mcount tlength tcount mrdata srdata tstart mctx } }"

section \<open>The loops\<close>

text \<open>A payload that is to be subtracted, and the situation of the loops.\<close>

definition gone :: "cmpswitch \<Rightarrow> nat \<Rightarrow> nat \<Rightarrow> item list \<Rightarrow> u8 list \<Rightarrow> bool" where
  "gone sw rdclass type ss p \<longleftrightarrow>
     (\<exists>q \<in> set (stored ss). rdata_order sw (rdata_of rdclass type p) (rdata_of rdclass type q) = 0)"

definition sub_ok :: "sub_ctx \<Rightarrow> nat \<Rightarrow> item list \<Rightarrow> item list \<Rightarrow> bool" where
  "sub_ok c mbase ms ss \<longleftrightarrow>
     (\<exists>tbl. slab_at (sc_mm c) mbase (sc_type c) tbl ms) \<and>
     (\<exists>sbase tbl. slab_at (sc_sm c) sbase (sc_type c) tbl ss \<and> sc_sstart c = sbase + item_off ss 0) \<and>
     sc_scount c = length ss"

abbreviation keep :: "sub_ctx \<Rightarrow> item list \<Rightarrow> item \<Rightarrow> bool" where
  "keep c ss it \<equiv> \<not> gone (sc_sw c) (sc_class c) (sc_type c) ss (snd it)"

lemma subtract_find_items:
  assumes "slab_at (sc_sm c) base (sc_type c) tbl ss"
  shows "length ss = i + n \<Longrightarrow> dns_rdata_validflags sr \<Longrightarrow>
     \<exists>sr'. dns_rdata_validflags sr' \<and>
       subtract_find c (rdata_read (sc_class c) (sc_type c) it) n (base + item_off ss i) sr =
         Some (\<exists>q \<in> set (drop i (stored ss)).
           rdata_order (sc_sw c) (rdata_of (sc_class c) (sc_type c) (snd it)) (rdata_of (sc_class c) (sc_type c) q) = 0, sr')"
proof (induction n arbitrary: i sr)
  case (Suc n)
  have i: "i < length ss" using Suc.prems by simp
  have dr: "drop i (stored ss) = snd (ss ! i) # drop (Suc i) (stored ss)"
    using i by (simp add: stored_def Cons_nth_drop_Suc [symmetric])
  let ?sr = "rdata_read (sc_class c) (sc_type c) (ss ! i)"
  have v: "dns_rdata_validflags ?sr" using comparable_rdata_read by (simp add: comparable_def)
  show ?case
    using Suc.IH [of "Suc i" ?sr] Suc.prems v rdata_from_slab_item [OF assms i, of "sc_class c"]
    by (auto simp: dr dns_rdata_reset_def dns_rdata_compare_comparable rdata_order_read)
qed simp

lemma subtract_find_gone:
  assumes "sub_ok c mbase ms ss" "dns_rdata_validflags sr"
  obtains sr' where "dns_rdata_validflags sr'"
    "subtract_find c (rdata_read (sc_class c) (sc_type c) it) (sc_scount c) (sc_sstart c) sr = Some (\<not> keep c ss it, sr')"
proof -
  obtain sbase tbl where sl: "slab_at (sc_sm c) sbase (sc_type c) tbl ss" and st: "sc_sstart c = sbase + item_off ss 0"
    and cnt: "sc_scount c = length ss" using assms(1) by (auto simp: sub_ok_def)
  show thesis
    using subtract_find_items [OF sl, of 0 "length ss" sr it] assms(2) that unfolding st cnt gone_def by auto
qed

lemma subtract_count_items:
  assumes ok: "sub_ok c mbase ms ss"
  shows "length ms = i + n \<Longrightarrow> dns_rdata_validflags sr \<Longrightarrow>
     len0 + (\<Sum>it \<leftarrow> filter (keep c ss) (drop i ms). 4 + length (snd it)) < 4294967296 \<Longrightarrow>
     \<exists>sr'. dns_rdata_validflags sr' \<and>
       subtract_count c n (mbase + item_off ms i) dns_rdata_init sr len0 tc rc =
         Some (len0 + (\<Sum>it \<leftarrow> filter (keep c ss) (drop i ms). 4 + length (snd it)),
               tc + length (filter (keep c ss) (drop i ms)),
               rc + length (filter (\<lambda>it. \<not> keep c ss it) (drop i ms)), dns_rdata_init, sr')"
proof (induction n arbitrary: i sr len0 tc rc)
  case (Suc n)
  obtain tbl where sl: "slab_at (sc_mm c) mbase (sc_type c) tbl ms" using ok by (auto simp: sub_ok_def)
  have i: "i < length ms" using Suc.prems by simp
  have dr: "drop i ms = ms ! i # drop (Suc i) ms" using i by (simp add: Cons_nth_drop_Suc)
  have d: "item_off ms (Suc i) - item_off ms i = 4 + length (snd (ms ! i))"
    using i by (simp add: item_off_Suc)
  obtain sr1 where sr1: "dns_rdata_validflags sr1"
    "subtract_find c (rdata_read (sc_class c) (sc_type c) (ms ! i)) (sc_scount c) (sc_sstart c) sr =
       Some (\<not> keep c ss (ms ! i), sr1)"
    by (rule subtract_find_gone [OF ok Suc.prems(2)])
  show ?case
  proof (cases "keep c ss (ms ! i)")
    case True
    then have u: "u32_of (len0 + (4 + length (snd (ms ! i)))) = len0 + (4 + length (snd (ms ! i)))"
      using Suc.prems(3) dr by simp
    show ?thesis
      using Suc.IH [of "Suc i" sr1 "len0 + (4 + length (snd (ms ! i)))" "tc + 1" rc] Suc.prems sr1 True
        rdata_from_slab_item [OF sl i, of "sc_class c"]
      by (simp add: dr d u add.assoc)
  next
    case False
    then show ?thesis
      using Suc.IH [of "Suc i" sr1 len0 tc "rc + 1"] Suc.prems sr1 rdata_from_slab_item [OF sl i, of "sc_class c"]
      by (simp add: dr)
  qed
qed simp

section \<open>Copying\<close>

lemma building_enc_item:
  assumes b: "building N pre n ks its rest m rawbuf ot" and r: "4 + length (snd it) \<le> length rest"
    and ov: "2 + 4 * n + length (concat (map enc_item its)) < 4294967296"
  obtains m' where "mem_wr m rawbuf (enc_item it) = Some m'"
    "building N pre n (ks @ [k]) (its @ [it]) (drop (4 + length (snd it)) rest) m' (rawbuf + (4 + length (snd it)))
       (ot[k := u32_of (rawbuf - length pre)])"
proof -
  obtain a where a: "m = a @ rest" "length a = rawbuf" using building_length [OF b] by metis
  let ?z = "drop (4 + length (snd it)) rest" and ?m = "a @ enc_item it @ drop (4 + length (snd it)) rest"
  have w: "mem_wr m rawbuf (enc_item it) = Some ?m" using a r by (simp add: mem_wr_def)
  have "building N pre n ks its (put16 (length (snd it)) @ put16 (fst it) @ snd it @ ?z) ?m rawbuf ot"
    using b a(1) by (auto simp: building_def enc_item_def)
  from building_step [OF this ov, of k] show thesis
    using that [OF w] by (simp add: add.assoc)
qed

lemma mem_blk_enc_item:
  assumes "slab_at m base t tbl its" "i < length its"
  shows "mem_blk m (base + item_off its i) (4 + length (snd (its ! i))) = Some (enc_item (its ! i))"
proof -
  obtain a z where m: "m = a @ enc_item (its ! i) @ z" and a: "length a = base + item_off its i"
    using slab_at_item [OF assms] by metis
  show ?thesis unfolding m by (rule mem_blk_mid) (simp_all add: a)
qed

lemma subtract_copy_items:
  assumes ok: "sub_ok c mbase ms ss" and N: "length ms \<le> N" and pre: "length pre = offsetbase"
  shows "length ms = i + n \<Longrightarrow> dns_rdata_validflags sr \<Longrightarrow>
     building N pre cnt ks its rest tm tcur ot \<Longrightarrow>
     length rest = (\<Sum>it \<leftarrow> filter (keep c ss) (drop i ms). 4 + length (snd it)) \<Longrightarrow>
     2 + 4 * cnt + length (concat (map enc_item its)) + length rest < 4294967296 \<Longrightarrow>
     \<exists>tm' tcur' ot'.
       subtract_copy c offsetbase (length ms) n (mbase + item_off ms i) dns_rdata_init sr tm tcur ot =
         Some (tm', tcur', ot') \<and>
       building N pre cnt (ks @ map fst (filter (keep c ss) (drop i ms))) (its @ filter (keep c ss) (drop i ms))
         [] tm' tcur' ot'"
proof (induction n arbitrary: i sr ks its rest tm tcur ot)
  case (Suc n)
  obtain tbl where sl: "slab_at (sc_mm c) mbase (sc_type c) tbl ms" using ok by (auto simp: sub_ok_def)
  have i: "i < length ms" using Suc.prems by simp
  have dr: "drop i ms = ms ! i # drop (Suc i) ms" using i by (simp add: Cons_nth_drop_Suc)
  have d: "item_off ms (Suc i) - item_off ms i = 4 + length (snd (ms ! i))" using i by (simp add: item_off_Suc)
  have ord: "rd16 (sc_mm c) (mbase + item_off ms i + 2) = Some (fst (ms ! i))" "fst (ms ! i) < length ms"
    using slab_rdata_at_item(3) [OF sl i] sl i by (auto simp: slab_at_def wf_items_def)
  have tab: "length ot = N" using building_length [OF Suc.prems(3)] by metis
  note rd = rdata_from_slab_item [OF sl i, of "sc_class c"]
  obtain sr1 where sr1: "dns_rdata_validflags sr1"
    "subtract_find c (rdata_read (sc_class c) (sc_type c) (ms ! i)) (sc_scount c) (sc_sstart c) sr =
       Some (\<not> keep c ss (ms ! i), sr1)"
    by (rule subtract_find_gone [OF ok Suc.prems(2)])
  show ?case
  proof (cases "keep c ss (ms ! i)")
    case True
    have fit: "4 + length (snd (ms ! i)) \<le> length rest" using Suc.prems(4) True dr by simp
    have ov: "2 + 4 * cnt + length (concat (map enc_item its)) < 4294967296" using Suc.prems(5) by simp
    obtain tm1 where w: "mem_wr tm tcur (enc_item (ms ! i)) = Some tm1"
      "building N pre cnt (ks @ [fst (ms ! i)]) (its @ [ms ! i]) (drop (4 + length (snd (ms ! i))) rest) tm1
         (tcur + (4 + length (snd (ms ! i)))) (ot[fst (ms ! i) := u32_of (tcur - length pre)])"
      by (rule building_enc_item [OF Suc.prems(3) fit ov])
    have "subtract_copy c offsetbase (length ms) (Suc n) (mbase + item_off ms i) dns_rdata_init sr tm tcur ot =
        subtract_copy c offsetbase (length ms) n (mbase + item_off ms (Suc i)) dns_rdata_init sr1 tm1
          (tcur + (4 + length (snd (ms ! i)))) (ot[fst (ms ! i) := u32_of (tcur - length pre)])"
      using ord N tab rd sr1(2) True w(1) mem_blk_enc_item [OF sl i] pre by (simp add: d)
    then show ?thesis
      using Suc.IH [OF _ sr1(1) w(2)] Suc.prems fit True dr by simp
  next
    case False
    then have "subtract_copy c offsetbase (length ms) (Suc n) (mbase + item_off ms i) dns_rdata_init sr tm tcur ot =
        subtract_copy c offsetbase (length ms) n (mbase + item_off ms (Suc i)) dns_rdata_init sr1 tm tcur ot"
      using ord N tab rd sr1(2) by simp
    then show ?thesis
      using Suc.IH [OF _ sr1(1) Suc.prems(3)] Suc.prems False dr by simp
  qed
qed simp

section \<open>The whole subtraction\<close>

lemma listed_filter:
  assumes "wf_items t tbl its"
  shows "by_key (map fst (filter (\<lambda>it. P (snd it)) its)) (stored (filter (\<lambda>it. P (snd it)) its)) = filter P (listed its)"
proof -
  have "zip (map fst xs) (stored xs) = xs" for xs :: "item list" by (simp add: stored_def zip_map_fst_snd)
  then have "by_key (map fst (filter (\<lambda>it. P (snd it)) its)) (stored (filter (\<lambda>it. P (snd it)) its)) =
      map snd (filter (\<lambda>it. P (snd it)) (sort_key fst its))"
    by (simp only: by_key_def filter_sort)
  also have "\<dots> = filter P (map snd (sort_key fst its))" by (simp add: filter_map comp_def)
  finally show ?thesis using wf_items_keys [OF assms] by (simp add: listed_sort_key)
qed

lemma subtract_fill_ok:
  assumes ok: "sub_ok c (mslab + reservelen) ms ss" and mctx: "mctx 1 (length ms * sizeof_uint) \<noteq> None"
    and cnt: "tcount = length (filter (keep c ss) ms)"
    and len: "tlength = reservelen + 2 + (\<Sum>it \<leftarrow> filter (keep c ss) ms. 8 + length (snd it))" "tlength < 4294967296"
    and tm: "length tstart = tlength" and sr: "dns_rdata_validflags sr"
  obtains tbl its where
    "subtract_fill c mslab reservelen (length ms) tlength tcount dns_rdata_init sr tstart mctx =
       Some (ISC_R_SUCCESS, Some (lay (take reservelen (drop mslab (sc_mm c))) tbl its []))"
    "wf_items (sc_type c) tbl its" "stored its = stored (filter (keep c ss) ms)"
    "listed its = filter (\<lambda>p. \<not> gone (sc_sw c) (sc_class c) (sc_type c) ss p) (listed ms)"
proof -
  let ?ks = "filter (keep c ss) ms"
  obtain mtbl where sl: "slab_at (sc_mm c) (mslab + reservelen) (sc_type c) mtbl ms" using ok by (auto simp: sub_ok_def)
  have wf: "wf_items (sc_type c) mtbl ms" using sl by (simp add: slab_at_def)
  note keys = wf_items_keys [OF wf]
  define pre where "pre = take reservelen (drop mslab (sc_mm c))"
  have lenp: "mslab + reservelen \<le> length (sc_mm c)" using sl by (auto simp: slab_at_def length_lay)
  then have pre: "length pre = reservelen" and hdr: "mem_blk (sc_mm c) mslab reservelen = Some pre"
    by (simp_all add: pre_def mem_blk_def)
  let ?tm1 = "pre @ drop (length pre) tstart"
  have w1: "mem_wr tstart 0 pre = Some ?tm1" using tm len(1) pre by (simp add: mem_wr_def)
  have k: "tlength = reservelen + (2 + 4 * tcount) + (\<Sum>it \<leftarrow> ?ks. 4 + length (snd it))"
    using len(1) cnt sum_8 [of ?ks] by simp
  obtain tm2 where tm2: "mem_wr ?tm1 (length pre) (put16 tcount) = Some tm2"
    "building (length ms) pre tcount [] [] (drop (length pre + 2 + 4 * tcount) ?tm1) tm2
       (length pre + 2 + tcount * 4) (replicate (length ms) 0)"
    by (rule building_start [of ?tm1 pre tcount "\<Sum>it \<leftarrow> ?ks. 4 + length (snd it)" "length ms"])
      (use tm k pre in simp_all)
  have "length (drop (length pre + 2 + 4 * tcount) ?tm1) = (\<Sum>it \<leftarrow> filter (keep c ss) (drop 0 ms). 4 + length (snd it))"
    using tm k pre by simp
  then obtain tm3 tcur ot where cp:
    "subtract_copy c reservelen (length ms) (length ms) (mslab + reservelen + item_off ms 0) dns_rdata_init sr tm2
       (length pre + 2 + tcount * 4) (replicate (length ms) 0) = Some (tm3, tcur, ot)"
    "building (length ms) pre tcount (map fst ?ks) ?ks [] tm3 tcur ot"
    using subtract_copy_items [OF ok order_refl pre, of 0 "length ms" sr tcount "[]" "[]", OF _ sr tm2(2)] k len(2) by auto
  have "tcur = tlength" using cp(2) pre k by (simp add: building_def length_enc_items stored_def comp_def)
  moreover obtain tbl' its' where f: "fillin_offsets tm3 (length pre) ot = Some (lay pre tbl' its' [])"
    "wf_items (sc_type c) tbl' its'" "stored its' = stored ?ks" "listed its' = by_key (map fst ?ks) (stored ?ks)"
  proof (rule building_fillin [OF cp(2) [unfolded cnt]])
    show "distinct (map fst ?ks)" using keys by (simp add: distinct_map_filter)
    show "set (map fst ?ks) \<subseteq> {..<length ms}" using keys by auto
    show "length ?ks < 65536" using wf by (intro le_less_trans [OF length_filter_le]) (simp add: wf_items_def)
    show "\<forall>p \<in> set (stored ?ks). payload_ok (sc_type c) p" using wf by (auto simp: stored_def wf_items_def)
    show "2 + (\<Sum>p \<leftarrow> stored ?ks. 8 + length p) < 4294967296" using len by (simp add: stored_def comp_def)
  qed
  ultimately have "subtract_fill c mslab reservelen (length ms) tlength tcount dns_rdata_init sr tstart mctx =
      Some (ISC_R_SUCCESS, Some (lay pre tbl' its' []))"
    using mctx hdr w1 tm2(1) pre cp(1) [folded item_off_start] slab_at_count [OF sl]
    by (auto simp: subtract_fill_def)
  moreover have "listed its' = filter (\<lambda>p. \<not> gone (sc_sw c) (sc_class c) (sc_type c) ss p) (listed ms)"
    unfolding f(4) by (rule listed_filter [OF wf])
  ultimately show thesis using that f(2,3) by (simp add: pre_def)
qed

lemma subtract_fill_nomem:
  assumes ok: "sub_ok c (mslab + reservelen) ms ss" and "mctx 1 (mcount * sizeof_uint) = None"
    and "tlength = reservelen + 2 + k" "length tstart = tlength"
  shows "subtract_fill c mslab reservelen mcount tlength tcount mr sr tstart mctx = Some (ISC_R_NOMEMORY, None)"
proof -
  have "mslab + reservelen \<le> length (sc_mm c)" using ok by (auto simp: sub_ok_def slab_at_def length_lay)
  then show ?thesis using assms by (simp add: subtract_fill_def mem_blk_def mem_wr_def)
qed

text \<open>
  The numeric test for \<open>DNS_RDATASLAB_EXACT\<close>: in slabs without duplicates as many records go as are to be
  subtracted exactly when every record to be subtracted was there.
\<close>

lemma exact_test:
  assumes cmp: "cmp_order cmp" and p: "strictly_ascending cmp ps" and q: "strictly_ascending cmp qs"
  shows "length (filter (\<lambda>a. \<exists>b \<in> set qs. cmp a b = 0) ps) = length qs \<longleftrightarrow>
     (\<forall>b \<in> set qs. \<exists>a \<in> set ps. cmp a b = 0)"
proof -
  let ?rm = "filter (\<lambda>a. \<exists>b \<in> set qs. cmp a b = 0) ps"
  define f where "f a = (SOME b. b \<in> set qs \<and> cmp a b = 0)" for a
  have f: "f a \<in> set qs \<and> cmp a (f a) = 0" if "a \<in> set ?rm" for a
    unfolding f_def by (rule someI_ex) (use that in auto)
  then have sub: "f ` set ?rm \<subseteq> set qs" by blast
  have "inj_on f (set ?rm)"
  proof (rule inj_onI)
    fix a b assume ab: "a \<in> set ?rm" "b \<in> set ?rm" "f a = f b"
    then have "cmp a b = 0"
      using f [of a] f [of b] cmp_on.cmp_zero_trans [OF cmp, of a "f a" b] cmp_on.cmp_zero_sym [OF cmp, of b "f a"] by simp
    then show "a = b" using ab by (intro strictly_ascending_eq [OF cmp p]) auto
  qed
  moreover have "distinct ?rm" "distinct qs" using strictly_ascending_distinct [OF cmp] p q by auto
  ultimately have "length ?rm = length qs \<longleftrightarrow> card (f ` set ?rm) = card (set qs)"
    by (simp only: card_image distinct_card)
  also have "\<dots> \<longleftrightarrow> f ` set ?rm = set qs"
    by (rule iffI, rule card_subset_eq [OF finite_set sub], assumption, erule arg_cong)
  also have "\<dots> \<longleftrightarrow> (\<forall>b \<in> set qs. \<exists>a \<in> set ps. cmp a b = 0)"
  proof
    assume img: "f ` set ?rm = set qs"
    show "\<forall>b \<in> set qs. \<exists>a \<in> set ps. cmp a b = 0"
    proof
      fix b assume "b \<in> set qs"
      then obtain a where "a \<in> set ?rm" "b = f a" using img by blast
      then show "\<exists>a \<in> set ps. cmp a b = 0" using f [of a] by auto
    qed
  next
    assume all: "\<forall>b \<in> set qs. \<exists>a \<in> set ps. cmp a b = 0"
    have "b \<in> f ` set ?rm" if b: "b \<in> set qs" for b
    proof -
      obtain a where a: "a \<in> set ps" "cmp a b = 0" using all b by blast
      then have rm: "a \<in> set ?rm" using b by auto
      have "cmp b (f a) = 0"
        using cmp_on.cmp_zero_trans [OF cmp, of b a "f a"] cmp_on.cmp_zero_sym [OF cmp, of a b] f [OF rm] a(2) by simp
      then have "b = f a" using f [OF rm] b by (intro strictly_ascending_eq [OF cmp q]) auto
      then show ?thesis using rm by blast
    qed
    then show "f ` set ?rm = set qs" using f by auto
  qed
  finally show ?thesis .
qed

definition subtract_size :: "cmpswitch \<Rightarrow> nat \<Rightarrow> nat \<Rightarrow> item list \<Rightarrow> item list \<Rightarrow> nat \<Rightarrow> nat" where
  "subtract_size sw rdclass type ms ss reservelen =
     reservelen + 2 + (\<Sum>p \<leftarrow> filter (\<lambda>p. \<not> gone sw rdclass type ss p) (stored ms). 8 + length p)"

text \<open>Every record to be subtracted is there.\<close>

definition all_there :: "cmpswitch \<Rightarrow> nat \<Rightarrow> nat \<Rightarrow> item list \<Rightarrow> item list \<Rightarrow> bool" where
  "all_there sw rdclass type ms ss \<longleftrightarrow>
     (\<forall>q \<in> set (stored ss). \<exists>p \<in> set (stored ms). rdata_order sw (rdata_of rdclass type p) (rdata_of rdclass type q) = 0)"

lemma subtract_eq:
  fixes sw rdclass type mm mslab sm sslab reservelen ms ss
  defines "c \<equiv> \<lparr>sc_sw = sw, sc_mm = mm, sc_sm = sm, sc_sstart = sslab + reservelen + 2 + 4 * length ss,
      sc_scount = length ss, sc_class = rdclass, sc_type = type\<rparr>"
    and "tlength \<equiv> subtract_size sw rdclass type ms ss reservelen"
    and "rest \<equiv> filter (\<lambda>it. \<not> gone sw rdclass type ss (snd it)) ms"
  assumes sp: "slab_pair sw rdclass type mm mslab sm sslab reservelen ms ss" and sz: "tlength < 4294967296"
  obtains sr where "dns_rdata_validflags sr"
    "dns_rdataslab_subtract sw mm mslab sm sslab reservelen mctx rdclass type flags =
       (if flags AND DNS_RDATASLAB_EXACT \<noteq> 0 \<and> \<not> all_there sw rdclass type ms ss then Some (DNS_R_NOTEXACT, None)
        else if rest = [] then Some (DNS_R_NXRRSET, None)
        else if rest = ms then Some (DNS_R_UNCHANGED, None)
        else case mctx 0 tlength of
            None \<Rightarrow> Some (ISC_R_NOMEMORY, None)
          | Some tstart \<Rightarrow>
              subtract_fill c mslab reservelen (length ms) tlength (length rest) dns_rdata_init sr tstart mctx)"
    "sub_ok c (mslab + reservelen) ms ss"
    "tlength = reservelen + 2 + (\<Sum>it \<leftarrow> rest. 8 + length (snd it))"
    "rest = filter (keep c ss) ms" "stored rest = filter (\<lambda>p. \<not> gone sw rdclass type ss p) (stored ms)"
proof -
  obtain mtbl stbl where sm: "slab_at mm (mslab + reservelen) type mtbl ms"
    and ss: "slab_at sm (sslab + reservelen) type stbl ss" and sw: "switch_ok sw"
    using sp by (auto simp: slab_pair_def)
  have ok: "sub_ok c (mslab + reservelen) ms ss"
    using sm ss unfolding sub_ok_def c_def by (auto simp: item_off_start)
  have st: "stored rest = filter (\<lambda>p. \<not> gone sw rdclass type ss p) (stored ms)"
    by (simp add: rest_def stored_def filter_map comp_def)
  have kp: "rest = filter (keep c ss) ms" by (simp add: rest_def c_def)
  have tl: "tlength = reservelen + 2 + (\<Sum>it \<leftarrow> rest. 8 + length (snd it))"
    unfolding tlength_def subtract_size_def st [symmetric] by (simp add: stored_def comp_def)
  let ?cmp = "\<lambda>p q. rdata_order sw (rdata_of rdclass type p) (rdata_of rdclass type q)"
  have "length (filter (\<lambda>it. \<not> keep c ss it) ms) = length (filter (gone sw rdclass type ss) (stored ms))"
    by (simp add: stored_def filter_map comp_def c_def)
  also have "\<dots> = length ss \<longleftrightarrow> all_there sw rdclass type ms ss"
  proof -
    have g: "gone sw rdclass type ss = (\<lambda>p. \<exists>q \<in> set (stored ss). ?cmp p q = 0)"
      by (intro ext) (simp add: gone_def)
    have ls: "length ss = length (stored ss)" by (simp add: stored_def)
    show ?thesis unfolding g all_there_def ls
      by (rule exact_test [OF cmp_order_comp [OF rdata_order_cmp_order [OF sw]]])
        (use sp in \<open>simp_all add: slab_pair_def strictly_ascending_map\<close>)
  qed
  finally have ex: "length (filter (\<lambda>it. \<not> keep c ss it) ms) = length ss \<longleftrightarrow> all_there sw rdclass type ms ss" .
  have un: "length (filter (\<lambda>it. \<not> keep c ss it) ms) = 0 \<longleftrightarrow> rest = ms"
    unfolding kp by (simp add: filter_empty_conv filter_id_conv)
  obtain sr where sr: "dns_rdata_validflags sr"
    "subtract_count c (length ms) (mslab + reservelen + item_off ms 0) dns_rdata_init dns_rdata_init (reservelen + 2) 0 0 =
       Some (reservelen + 2 + (\<Sum>it \<leftarrow> rest. 4 + length (snd it)), length rest,
             length (filter (\<lambda>it. \<not> keep c ss it) ms), dns_rdata_init, sr)"
    using subtract_count_items [OF ok, of 0 "length ms" dns_rdata_init "reservelen + 2" 0 0] tl sz sum_8 [of rest]
    by (auto simp: kp)
  have u: "u32_of (reservelen + 2 + (\<Sum>it \<leftarrow> rest. 4 + length (snd it)) + 4 * length rest) = tlength"
    "u32_of (reservelen + 2) = reservelen + 2"
    using tl sz sum_8 [of rest] by simp_all
  have "dns_rdataslab_subtract sw mm mslab sm sslab reservelen mctx rdclass type flags =
       (if flags AND DNS_RDATASLAB_EXACT \<noteq> 0 \<and> \<not> all_there sw rdclass type ms ss then Some (DNS_R_NOTEXACT, None)
        else if rest = [] then Some (DNS_R_NXRRSET, None)
        else if rest = ms then Some (DNS_R_UNCHANGED, None)
        else case mctx 0 tlength of
            None \<Rightarrow> Some (ISC_R_NOMEMORY, None)
          | Some tstart \<Rightarrow>
              subtract_fill c mslab reservelen (length ms) tlength (length rest) dns_rdata_init sr tstart mctx)"
    using slab_at_count [OF sm] slab_at_count [OF ss] sr(2) [folded item_off_start] sp
    by (simp add: dns_rdataslab_subtract_def c_def [symmetric] u ex [symmetric] un [symmetric] slab_pair_def Let_def
        del: length_greater_0_conv length_0_conv)
      (simp add: slab_pair_def u split: option.split)
  with sr(1) show thesis using ok tl kp st by (rule that)
qed

text \<open>The slab of a subtraction that succeeds.\<close>

lemma subtract_difference:
  assumes sp: "slab_pair sw rdclass type mm mslab sm sslab reservelen ms ss" and "mctx_ok mctx"
    and sz: "subtract_size sw rdclass type ms ss reservelen < 4294967296"
    and rest: "rest = filter (\<lambda>p. \<not> gone sw rdclass type ss p) (listed ms)"
    and "rest \<noteq> []" "length rest < length ms"
    and "flags AND DNS_RDATASLAB_EXACT = 0 \<or> all_there sw rdclass type ms ss"
    and "mctx 0 (subtract_size sw rdclass type ms ss reservelen) \<noteq> None"
      "mctx 1 (length ms * sizeof_uint) \<noteq> None"
  obtains tbl its where "dns_rdataslab_subtract sw mm mslab sm sslab reservelen mctx rdclass type flags =
       Some (ISC_R_SUCCESS, Some (lay (take reservelen (drop mslab mm)) tbl its []))"
    "wf_items type tbl its"
    "strictly_ascending (rdata_order sw) (map (rdata_of rdclass type) (stored its))"
    "listed its = rest"
proof -
  define c where "c = \<lparr>sc_sw = sw, sc_mm = mm, sc_sm = sm, sc_sstart = sslab + reservelen + 2 + 4 * length ss,
      sc_scount = length ss, sc_class = rdclass, sc_type = type\<rparr>"
  define ks where "ks = filter (\<lambda>it. \<not> gone sw rdclass type ss (snd it)) ms"
  obtain sr where v: "dns_rdata_validflags sr"
    and eq: "dns_rdataslab_subtract sw mm mslab sm sslab reservelen mctx rdclass type flags =
       (if flags AND DNS_RDATASLAB_EXACT \<noteq> 0 \<and> \<not> all_there sw rdclass type ms ss then Some (DNS_R_NOTEXACT, None)
        else if ks = [] then Some (DNS_R_NXRRSET, None)
        else if ks = ms then Some (DNS_R_UNCHANGED, None)
        else case mctx 0 (subtract_size sw rdclass type ms ss reservelen) of
            None \<Rightarrow> Some (ISC_R_NOMEMORY, None)
          | Some tstart \<Rightarrow> subtract_fill c mslab reservelen (length ms) (subtract_size sw rdclass type ms ss reservelen)
              (length ks) dns_rdata_init sr tstart mctx)"
    and ok: "sub_ok c (mslab + reservelen) ms ss"
    and tl: "subtract_size sw rdclass type ms ss reservelen = reservelen + 2 + (\<Sum>it \<leftarrow> ks. 8 + length (snd it))"
    and kp: "ks = filter (keep c ss) ms"
    unfolding c_def ks_def by (rule subtract_eq [OF sp sz])
  obtain mtbl where wf: "wf_items type mtbl ms" using sp by (auto simp: slab_pair_def slab_at_def)
  have "mset (listed ms) = mset (stored ms)"
    using wf_items_keys [OF wf] by (simp add: listed_sort_key stored_def)
  then have "mset rest = mset (filter (\<lambda>p. \<not> gone sw rdclass type ss p) (stored ms))" unfolding rest mset_filter by simp
  then have "length rest = length (filter (\<lambda>p. \<not> gone sw rdclass type ss p) (stored ms))" by (rule mset_eq_length)
  then have "length rest = length ks" by (simp add: ks_def stored_def filter_map comp_def)
  then have ne: "ks \<noteq> []" "ks \<noteq> ms" using assms(5,6) by auto
  obtain tstart where ts: "mctx 0 (subtract_size sw rdclass type ms ss reservelen) = Some tstart" using assms(8) by blast
  obtain tbl its where f: "subtract_fill c mslab reservelen (length ms) (subtract_size sw rdclass type ms ss reservelen)
        (length ks) dns_rdata_init sr tstart mctx =
       Some (ISC_R_SUCCESS, Some (lay (take reservelen (drop mslab (sc_mm c))) tbl its []))"
    "wf_items (sc_type c) tbl its" "stored its = stored (filter (keep c ss) ms)"
    "listed its = filter (\<lambda>p. \<not> gone (sc_sw c) (sc_class c) (sc_type c) ss p) (listed ms)"
    by (rule subtract_fill_ok [where mctx = mctx, OF ok assms(9) arg_cong [OF kp, of length] tl [unfolded kp] sz mctx_okD [OF assms(2) ts] v])
  have "strictly_ascending (\<lambda>a b. rdata_order sw (rdata_of rdclass type (snd a)) (rdata_of rdclass type (snd b))) ms"
    using sp by (simp add: slab_pair_def strictly_ascending_map stored_def)
  then have "strictly_ascending (rdata_order sw) (map (rdata_of rdclass type) (stored its))"
    unfolding f(3) by (simp add: strictly_ascending_map stored_def sorted_wrt_filter)
  moreover have "dns_rdataslab_subtract sw mm mslab sm sslab reservelen mctx rdclass type flags =
      Some (ISC_R_SUCCESS, Some (lay (take reservelen (drop mslab mm)) tbl its []))"
    using eq ne f(1) ts assms(7) by (auto simp: c_def)
  moreover have "wf_items type tbl its" "listed its = rest" using f(2,4) rest by (simp_all add: c_def)
  ultimately show thesis using that by blast
qed

text \<open>
  C12: \<open>dns_rdataslab_subtract\<close> of two well-formed slabs in DNSSEC order, when something goes and something
  stays (and, if the caller asks for exactness, every record to be subtracted is there) and memory is available,
  makes a well-formed slab in DNSSEC order behind the reserved area of the first slab, which lists the records
  of the first slab that the second one does not have, in their order.
\<close>

theorem subtract_success:
  assumes sp: "slab_pair sw rdclass type mm mslab sm sslab reservelen ms ss" and "mctx_ok mctx"
    and sz: "subtract_size sw rdclass type ms ss reservelen < 4294967296"
    and rest: "rest = filter (\<lambda>p. \<not> gone sw rdclass type ss p) (listed ms)"
    and "rest \<noteq> []" "length rest < length ms"
    and "flags AND DNS_RDATASLAB_EXACT = 0 \<or> all_there sw rdclass type ms ss"
    and "mctx 0 (subtract_size sw rdclass type ms ss reservelen) \<noteq> None"
      "mctx 1 (length ms * sizeof_uint) \<noteq> None"
  shows "\<exists>tbl its.
     dns_rdataslab_subtract sw mm mslab sm sslab reservelen mctx rdclass type flags =
       Some (ISC_R_SUCCESS, Some (lay (take reservelen (drop mslab mm)) tbl its [])) \<and>
     wf_items type tbl its \<and>
     strictly_ascending (rdata_order sw) (map (rdata_of rdclass type) (stored its)) \<and>
     listed its = rest"
  by (rule subtract_difference [where mctx = mctx, OF assms]) blast

text \<open>
  C15: On two well-formed slabs in DNSSEC order \<open>dns_rdataslab_subtract\<close> returns, also when memory runs out, with
  the result code below, and hands a slab over exactly when it succeeds.  With \<open>DNS_RDATASLAB_EXACT\<close> the result is
  \<open>DNS_R_NOTEXACT\<close> if and only if some record to be subtracted is not there.
\<close>

theorem subtract_result:
  assumes sp: "slab_pair sw rdclass type mm mslab sm sslab reservelen ms ss" and "mctx_ok mctx"
    and sz: "subtract_size sw rdclass type ms ss reservelen < 4294967296"
  shows "\<exists>result slab.
     dns_rdataslab_subtract sw mm mslab sm sslab reservelen mctx rdclass type flags = Some (result, slab) \<and>
     result =
       (if flags AND DNS_RDATASLAB_EXACT \<noteq> 0 \<and> \<not> all_there sw rdclass type ms ss then DNS_R_NOTEXACT
        else if \<forall>p \<in> set (stored ms). gone sw rdclass type ss p then DNS_R_NXRRSET
        else if \<forall>p \<in> set (stored ms). \<not> gone sw rdclass type ss p then DNS_R_UNCHANGED
        else if mctx 0 (subtract_size sw rdclass type ms ss reservelen) = None \<or>
                mctx 1 (length ms * sizeof_uint) = None then ISC_R_NOMEMORY
        else ISC_R_SUCCESS) \<and>
     (slab = None \<longleftrightarrow> result \<noteq> ISC_R_SUCCESS)"
proof -
  define c where "c = \<lparr>sc_sw = sw, sc_mm = mm, sc_sm = sm, sc_sstart = sslab + reservelen + 2 + 4 * length ss,
      sc_scount = length ss, sc_class = rdclass, sc_type = type\<rparr>"
  define ks where "ks = filter (\<lambda>it. \<not> gone sw rdclass type ss (snd it)) ms"
  obtain sr where v: "dns_rdata_validflags sr"
    and eq: "dns_rdataslab_subtract sw mm mslab sm sslab reservelen mctx rdclass type flags =
       (if flags AND DNS_RDATASLAB_EXACT \<noteq> 0 \<and> \<not> all_there sw rdclass type ms ss then Some (DNS_R_NOTEXACT, None)
        else if ks = [] then Some (DNS_R_NXRRSET, None)
        else if ks = ms then Some (DNS_R_UNCHANGED, None)
        else case mctx 0 (subtract_size sw rdclass type ms ss reservelen) of
            None \<Rightarrow> Some (ISC_R_NOMEMORY, None)
          | Some tstart \<Rightarrow> subtract_fill c mslab reservelen (length ms) (subtract_size sw rdclass type ms ss reservelen)
              (length ks) dns_rdata_init sr tstart mctx)"
    and ok: "sub_ok c (mslab + reservelen) ms ss"
    and tl: "subtract_size sw rdclass type ms ss reservelen = reservelen + 2 + (\<Sum>it \<leftarrow> ks. 8 + length (snd it))"
    and kp: "ks = filter (keep c ss) ms"
    unfolding c_def ks_def by (rule subtract_eq [OF sp sz])
  have e: "(\<forall>p \<in> set (stored ms). gone sw rdclass type ss p) \<longleftrightarrow> ks = []"
    "(\<forall>p \<in> set (stored ms). \<not> gone sw rdclass type ss p) \<longleftrightarrow> ks = ms"
    by (auto simp: ks_def stored_def filter_empty_conv filter_id_conv)
  have fill: "\<exists>slab. subtract_fill c mslab reservelen (length ms) (subtract_size sw rdclass type ms ss reservelen)
        (length ks) dns_rdata_init sr tstart mctx =
      Some (if mctx 1 (length ms * sizeof_uint) = None then (ISC_R_NOMEMORY, None) else (ISC_R_SUCCESS, Some slab))"
    if ts: "mctx 0 (subtract_size sw rdclass type ms ss reservelen) = Some tstart" for tstart
  proof (cases "mctx 1 (length ms * sizeof_uint) = None")
    case True
    then show ?thesis by (simp add: subtract_fill_nomem [where mctx = mctx, OF ok True tl mctx_okD [OF assms(2) ts]])
  next
    case False
    show ?thesis
      by (rule subtract_fill_ok [where mctx = mctx, OF ok False arg_cong [OF kp, of length] tl [unfolded kp] sz mctx_okD [OF assms(2) ts] v])
        (use False in auto)
  qed
  show ?thesis
    unfolding e eq using fill by (cases "mctx 0 (subtract_size sw rdclass type ms ss reservelen)") force+
qed

section \<open>Adding and removing records\<close>

text \<open>A slab is determined by its records in storage order and in the order of its table.\<close>

lemma slab_determined:
  assumes wf: "wf_items type tbl its" "wf_items type tbl' its'" and eq: "stored its' = stored its" "listed its' = listed its"
    and "distinct (stored its)"
  shows "its' = its" "tbl' = tbl"
proof -
  have len: "length its' = length its" using eq(1) by (metis length_map stored_def)
  have l: "listed xs ! fst (xs ! i) = snd (xs ! i)" if "wf_items type t xs" "i < length xs" for t xs i
  proof -
    have "map_of xs (fst (xs ! i)) = Some (snd (xs ! i))"
      using that(2) wf_items_keys [OF that(1)] by (intro map_of_is_SomeI) simp_all
    then have "the (map_of xs (fst (xs ! i))) = snd (xs ! i)" by simp
    then show ?thesis using that(2) wf_items_keys [OF that(1)] by (simp add: listed_def)
  qed
  have d: "distinct (listed its)" using assms(5) mset_listed [OF wf(1)] by (metis mset_eq_imp_distinct_iff)
  show its: "its' = its"
  proof (rule nth_equalityI [OF len])
    fix i assume i: "i < length its'"
    have s: "snd (its' ! i) = snd (its ! i)" using eq(1) i len by (metis nth_map stored_def)
    have "fst (its' ! i) < length its" "fst (its ! i) < length its" using wf i len by (auto simp: wf_items_def)
    moreover have "listed its ! fst (its' ! i) = listed its ! fst (its ! i)"
      using l [OF wf(2) i] l [OF wf(1), of i] i len s eq(2) by simp
    ultimately have "fst (its' ! i) = fst (its ! i)" using d by (simp add: nth_eq_iff_index_eq)
    then show "its' ! i = its ! i" using s by (rule prod_eqI)
  qed
  show "tbl' = tbl"
  proof (rule nth_equalityI)
    show "length tbl' = length tbl" using wf len by (simp add: wf_items_def)
    fix k assume "k < length tbl'"
    then have k: "k < length its" using wf(2) len by (simp add: wf_items_def)
    obtain i where "i < length its" "fst (its ! i) = k" by (rule wf_items_order [OF wf(1) k])
    then show "tbl' ! k = tbl ! k" using wf its by (auto simp: wf_items_def)
  qed
qed

text \<open>What is left of a union without the added records.\<close>

lemma union_minus_added:
  assumes sw: "switch_ok sw" and wf: "wf_items type otbl os" "wf_items type ntbl ns" "wf_items type tbl its"
    and un: "listed its = listed os @ listed ns" and disj: "\<forall>p \<in> set (stored ns). absent sw rdclass type os p"
  shows "filter (\<lambda>p. \<not> gone sw rdclass type ns p) (listed its) = listed os"
    "subtract_size sw rdclass type its ns reservelen \<le> merge_size sw rdclass type os ns reservelen"
    "all_there sw rdclass type its ns"
proof -
  have refl: "rdata_order sw d d = 0" for d using cmp_on.cmp_refl [OF rdata_order_cmp_order [OF sw]] by simp
  have sets: "set (listed os) = set (stored os)" "set (listed ns) = set (stored ns)" "set (listed its) = set (stored its)"
    using mset_eq_setD [OF mset_listed [OF wf(1)]] mset_eq_setD [OF mset_listed [OF wf(2)]] mset_eq_setD [OF mset_listed [OF wf(3)]]
    by blast+
  have keep: "\<not> gone sw rdclass type ns p" if "p \<in> set (stored os)" for p using disj that by (auto simp: absent_def gone_def)
  have go: "gone sw rdclass type ns p" if "p \<in> set (stored ns)" for p using that refl by (auto simp: gone_def)
  show rest: "filter (\<lambda>p. \<not> gone sw rdclass type ns p) (listed its) = listed os"
    unfolding un using keep go sets by (simp add: filter_id_conv filter_empty_conv)
  have "mset (filter (\<lambda>p. \<not> gone sw rdclass type ns p) (stored its)) = mset (stored os)"
    unfolding mset_filter mset_listed [OF wf(3), symmetric] mset_listed [OF wf(1), symmetric] by (simp add: rest flip: mset_filter)
  then have "(\<Sum>p \<leftarrow> filter (\<lambda>p. \<not> gone sw rdclass type ns p) (stored its). 8 + length p) = (\<Sum>p \<leftarrow> stored os. 8 + length p)"
    by (rule sum_list_perm)
  then show "subtract_size sw rdclass type its ns reservelen \<le> merge_size sw rdclass type os ns reservelen"
    by (simp add: subtract_size_def merge_size_def)
  have "set (stored ns) \<subseteq> set (stored its)" using sets un by auto
  then show "all_there sw rdclass type its ns" using refl by (auto simp: all_there_def)
qed

text \<open>
  C13: Removing what was added gives back the slab.  When the records of the new slab are all absent from the old one and the
  union fits, merging them and then subtracting them again, with the test that all of them are there, succeeds and gives
  the old slab byte for byte (behind the reserved area of the new slab): the same records in the same places with the
  same order, whatever the order in which the two slabs list theirs.
\<close>

theorem subtract_undoes_merge:
  assumes sp: "slab_pair sw rdclass type om oslab nm nslab reservelen os ns" and so: "slab_at om (oslab + reservelen) type otbl os"
    and mctx: "mctx_ok mctx" "\<And>k n. mctx k n \<noteq> None" "mctx_ok mctx'" "\<And>k n. mctx' k n \<noteq> None"
    and sz: "merge_size sw rdclass type os ns reservelen < 4294967296" "length os + length ns \<le> 65535" "\<not> issingleton type"
    and disj: "\<forall>p \<in> set (stored ns). absent sw rdclass type os p"
  shows "\<exists>merged. dns_rdataslab_merge sw issingleton om oslab nm nslab reservelen mctx rdclass type flags =
      Some (ISC_R_SUCCESS, Some merged) \<and>
    dns_rdataslab_subtract sw merged 0 nm nslab reservelen mctx' rdclass type DNS_RDATASLAB_EXACT =
      Some (ISC_R_SUCCESS, Some (take reservelen (drop nslab nm) @ slab_body otbl os))"
proof -
  let ?rd = "rdata_of rdclass type" and ?hd = "take reservelen (drop nslab nm)"
  let ?cmp = "\<lambda>p q. rdata_order sw (?rd p) (?rd q)"
  have sw: "switch_ok sw" and ne: "os \<noteq> []" "ns \<noteq> []" using sp by (simp_all add: slab_pair_def)
  have ord: "cmp_order ?cmp" by (rule cmp_order_comp [OF rdata_order_cmp_order [OF sw]])
  obtain ntbl where sn: "slab_at nm (nslab + reservelen) type ntbl ns" using sp by (auto simp: slab_pair_def)
  have wf: "wf_items type otbl os" "wf_items type ntbl ns" using so sn by (simp_all add: slab_at_def)
  have new: "listed ns = filter (absent sw rdclass type os) (listed ns)"
    using disj mset_eq_setD [OF mset_listed [OF wf(2)]] by (simp add: filter_id_conv)
  obtain tbl its where m: "dns_rdataslab_merge sw issingleton om oslab nm nslab reservelen mctx rdclass type flags =
       Some (ISC_R_SUCCESS, Some (lay ?hd tbl its []))" "wf_items type tbl its"
      "strictly_ascending (rdata_order sw) (map ?rd (stored its))" "listed its = listed os @ listed ns"
    by (rule merge_union [where mctx = mctx and issingleton = issingleton and flags = flags, OF sp mctx(1) sz(1) new])
      (use ne sz mctx(2) in auto)
  note u = union_minus_added [OF sw wf m(2,4) disj]
  have hd: "length ?hd = reservelen" using sn by (auto simp: slab_at_def lay_def)
  then have "slab_at (lay ?hd tbl its []) reservelen type tbl its" using m(2) unfolding slab_at_def by blast
  then have sp': "slab_pair sw rdclass type (lay ?hd tbl its []) 0 nm nslab reservelen its ns"
    using sp m(3,4) ne listed_Nil [of its] by (auto simp: slab_pair_def)
  obtain tbl2 its2 where s: "dns_rdataslab_subtract sw (lay ?hd tbl its []) 0 nm nslab reservelen mctx' rdclass type DNS_RDATASLAB_EXACT =
       Some (ISC_R_SUCCESS, Some (lay (take reservelen (drop 0 (lay ?hd tbl its []))) tbl2 its2 []))" "wf_items type tbl2 its2"
      "strictly_ascending (rdata_order sw) (map ?rd (stored its2))" "listed its2 = listed os"
    by (rule subtract_difference [where mctx = mctx' and flags = DNS_RDATASLAB_EXACT, OF sp' mctx(3) _ u(1) [symmetric]])
      (use u(2) [of reservelen] u(3) ne sz(1) mctx(4) arg_cong [OF m(4), of length] in auto)
  have asc: "strictly_ascending ?cmp (stored os)" "strictly_ascending ?cmp (stored its2)"
    using sp s(3) by (simp_all add: slab_pair_def sorted_wrt_map)
  have "mset (stored its2) = mset (stored os)" using mset_listed [OF s(2)] mset_listed [OF wf(1)] s(4) by simp
  then have st: "stored its2 = stored os" by (rule strictly_ascending_unique [OF ord asc(2,1)])
  note d = slab_determined [OF wf(1) s(2) st s(4) strictly_ascending_distinct [OF ord asc(1)]]
  have "take reservelen (drop 0 (lay ?hd tbl its [])) = ?hd" using hd by (simp add: lay_def)
  then show ?thesis using m(1) s(1) d by (auto simp: lay_def)
qed

section \<open>Examples\<close>

lemma ex_subtract_facts:
  "subtract_size ex_sw 1 1 ex_its ex_its2 3 = 17"
  "filter (\<lambda>p. \<not> gone ex_sw 1 1 ex_its2 p) (listed ex_its) = [[10, 0, 0, 1]]"
  "all_there ex_sw 1 1 ex_its ex_its2 \<longleftrightarrow> False" "DNS_RDATASLAB_EXACT \<noteq> 0"
  by code_simp+

theorem subtract_success_witness:
  "\<exists>tbl its.
     dns_rdataslab_subtract ex_sw ex_slab 0 ex_slab2 0 3 ex_mctx 1 1 0 =
       Some (ISC_R_SUCCESS, Some (lay (take 3 (drop 0 ex_slab)) tbl its [])) \<and>
     wf_items 1 tbl its \<and> listed its = [[10, 0, 0, 1]]"
proof -
  have l: "length ex_its = 2" by (simp add: ex_its_def)
  show ?thesis
    using subtract_success [OF ex_slab_pair ex_assms(2) _ ex_subtract_facts(2) [symmetric], of 0]
      ex_assms(11) ex_subtract_facts(1) l by fastforce
qed

theorem subtract_result_witness:
  "dns_rdataslab_subtract ex_sw ex_slab 0 ex_slab2 0 3 ex_mctx 1 1 DNS_RDATASLAB_EXACT = Some (DNS_R_NOTEXACT, None)"
  using subtract_result [OF ex_slab_pair ex_assms(2), of DNS_RDATASLAB_EXACT]
  by (auto simp: ex_subtract_facts simp del: One_nat_def)

text \<open>A third slab, which has no record in common with the first.\<close>

definition ex_its3 :: "item list" where
  "ex_its3 = [(0, [10, 0, 0, 3])]"

definition ex_slab3 :: mem where
  "ex_slab3 = lay [1, 2, 3] [6] ex_its3 []"

lemma ex_slab3_at: "slab_at ex_slab3 3 1 [6] ex_its3"
proof -
  have "wf_items 1 [6] ex_its3"
    by (simp add: wf_items_def ex_its3_def payload_ok_def dns_rdatatype_rrsig_def length_slab_body item_off_def)
  moreover have "length [1, 2, 3 :: u8] = 3" by simp
  ultimately show ?thesis unfolding slab_at_def ex_slab3_def by blast
qed

lemma ex_slab_pair3: "slab_pair ex_sw 1 1 ex_slab 0 ex_slab3 0 3 ex_its ex_its3"
  using ex_slab_at ex_slab3_at ex_slab_ascending ex_assms(1)
  by (auto simp: slab_pair_def ex_its_def ex_its3_def stored_def)

lemma ex_pair3_facts:
  "merge_size ex_sw 1 1 ex_its ex_its3 3 = 41" "\<forall>p \<in> set (stored ex_its3). absent ex_sw 1 1 ex_its p"
  by code_simp+

theorem subtract_undoes_merge_witness:
  "\<exists>merged. dns_rdataslab_merge ex_sw (\<lambda>t. False) ex_slab 0 ex_slab3 0 3 ex_mctx 1 1 0 = Some (ISC_R_SUCCESS, Some merged) \<and>
     dns_rdataslab_subtract ex_sw merged 0 ex_slab3 0 3 ex_mctx 1 1 DNS_RDATASLAB_EXACT =
       Some (ISC_R_SUCCESS, Some (take 3 (drop 0 ex_slab3) @ slab_body ex_tbl ex_its))"
proof -
  have l: "length ex_its = 2" "length ex_its3 = 1" by (simp_all add: ex_its_def ex_its3_def)
  show ?thesis
    using subtract_undoes_merge [OF ex_slab_pair3 _ ex_assms(2) _ ex_assms(2) _ _ _ _ ex_pair3_facts(2), of ex_tbl "\<lambda>t. False" 0]
      ex_slab_at ex_assms(11) ex_pair3_facts(1) l by simp
qed

end
