(* ===== verification/Buffer.thy ===== *)
theory Buffer
  imports Prelude
begin

text \<open>
  Buffers: \<^verbatim>\<open>lib/isc/buffer.c\<close> and the macros of \<^verbatim>\<open>lib/isc/include/isc/buffer.h\<close> it is made of.  A buffer
  divides its region, of \<open>length\<close> bytes, by three offsets: \<open>current\<close> ends the consumed region, \<open>used\<close>
  ends the used region and \<open>active\<close> ends the active region.

  The field \<open>b_base\<close> holds the bytes that \<open>base\<close> points to (a null pointer points to no bytes) and
  \<open>b_mctx\<close> says whether the buffer was allocated.  A copy of the structure shares the bytes with the
  original; where the code writes through one and reads through the other, the bytes are passed on
  explicitly.  A region is given by its bytes.  The list link is not represented.

  Offsets are \<^verbatim>\<open>unsigned int\<close>, so the sums in the assertions wrap around.
\<close>

section \<open>The structure\<close>

record isc_buffer =
  b_magic :: bool
  b_base :: mem
  b_length :: nat
  b_used :: nat
  b_current :: nat
  b_active :: nat
  b_mctx :: bool

definition isc_buffer_usedlength :: "isc_buffer \<Rightarrow> nat" where
  "isc_buffer_usedlength b = b_used b"

definition isc_buffer_consumedlength :: "isc_buffer \<Rightarrow> nat" where
  "isc_buffer_consumedlength b = b_current b"

definition isc_buffer_remaininglength :: "isc_buffer \<Rightarrow> nat" where
  "isc_buffer_remaininglength b = u32_sub (b_used b) (b_current b)"

definition isc_buffer_activelength :: "isc_buffer \<Rightarrow> nat" where
  "isc_buffer_activelength b = u32_sub (b_active b) (b_current b)"

definition isc_buffer_availablelength :: "isc_buffer \<Rightarrow> nat" where
  "isc_buffer_availablelength b = u32_sub (b_length b) (b_used b)"

lemmas buffer_lengths = isc_buffer_usedlength_def isc_buffer_consumedlength_def
  isc_buffer_remaininglength_def isc_buffer_activelength_def isc_buffer_availablelength_def

section \<open>Construction\<close>

definition isc_buffer_init :: "mem \<Rightarrow> nat \<Rightarrow> isc_buffer" where
  "isc_buffer_init base len =
     \<lparr>b_magic = True, b_base = base, b_length = len, b_used = 0, b_current = 0, b_active = 0,
      b_mctx = False\<rparr>"

definition isc_buffer_initnull :: isc_buffer where
  "isc_buffer_initnull = isc_buffer_init [] 0"

text \<open>\<^verbatim>\<open>memmove\<close> copies the \<open>b->length\<close> bytes of the old region to the new one.\<close>

definition isc_buffer_reinit :: "isc_buffer \<Rightarrow> mem \<Rightarrow> nat \<Rightarrow> isc_buffer option" where
  "isc_buffer_reinit b base len =
     (if b_length b \<le> len
      then do { old \<leftarrow> mem_blk (b_base b) 0 (b_length b);
                base' \<leftarrow> mem_wr base 0 old;
                Some (b\<lparr>b_base := base', b_length := len\<rparr>) }
      else None)"

definition isc_buffer_invalidate :: "isc_buffer \<Rightarrow> isc_buffer option" where
  "isc_buffer_invalidate b =
     (if b_magic b \<and> \<not> b_mctx b
      then Some (b\<lparr>b_magic := False, b_base := [], b_length := 0, b_used := 0, b_current := 0,
                   b_active := 0\<rparr>)
      else None)"

text \<open>The allocator gives the bytes behind the structure; the structure itself takes \<open>hdr\<close> bytes.\<close>

definition isc_buffer_allocate ::
    "(nat \<Rightarrow> mem option) \<Rightarrow> nat \<Rightarrow> nat \<Rightarrow> (isc_result \<times> isc_buffer option) option" where
  "isc_buffer_allocate get hdr len =
     (case get (u32_of (len + hdr)) of
        None \<Rightarrow> Some (ISC_R_NOMEMORY, None)
      | Some dbuf \<Rightarrow>
          if hdr \<le> length dbuf
          then Some (ISC_R_SUCCESS, Some ((isc_buffer_init (drop hdr dbuf) len)\<lparr>b_mctx := True\<rparr>))
          else None)"

text \<open>\<open>isc_buffer_free\<close> returns the size it gives back to the allocator.\<close>

definition isc_buffer_free :: "nat \<Rightarrow> isc_buffer \<Rightarrow> nat option" where
  "isc_buffer_free hdr b =
     (if b_magic b \<and> b_mctx b
      then do { dead \<leftarrow> isc_buffer_invalidate (b\<lparr>b_mctx := False\<rparr>);
                Some (u32_of (b_length b + hdr)) }
      else None)"

section \<open>Regions and offsets\<close>

definition isc_buffer_region :: "isc_buffer \<Rightarrow> mem option" where
  "isc_buffer_region b = (if b_magic b then mem_blk (b_base b) 0 (b_length b) else None)"

definition isc_buffer_usedregion :: "isc_buffer \<Rightarrow> mem option" where
  "isc_buffer_usedregion b = (if b_magic b then mem_blk (b_base b) 0 (b_used b) else None)"

definition isc_buffer_availableregion :: "isc_buffer \<Rightarrow> mem option" where
  "isc_buffer_availableregion b =
     (if b_magic b then mem_blk (b_base b) (b_used b) (isc_buffer_availablelength b) else None)"

definition isc_buffer_consumedregion :: "isc_buffer \<Rightarrow> mem option" where
  "isc_buffer_consumedregion b = (if b_magic b then mem_blk (b_base b) 0 (b_current b) else None)"

definition isc_buffer_remainingregion :: "isc_buffer \<Rightarrow> mem option" where
  "isc_buffer_remainingregion b =
     (if b_magic b then mem_blk (b_base b) (b_current b) (isc_buffer_remaininglength b) else None)"

definition isc_buffer_activeregion :: "isc_buffer \<Rightarrow> mem option" where
  "isc_buffer_activeregion b =
     (if b_magic b
      then if b_current b < b_active b
           then mem_blk (b_base b) (b_current b) (isc_buffer_activelength b) else Some []
      else None)"

definition isc_buffer_add :: "isc_buffer \<Rightarrow> nat \<Rightarrow> isc_buffer option" where
  "isc_buffer_add b n =
     (if b_magic b \<and> u32_of (b_used b + n) \<le> b_length b
      then Some (b\<lparr>b_used := u32_of (b_used b + n)\<rparr>) else None)"

definition isc_buffer_subtract :: "isc_buffer \<Rightarrow> nat \<Rightarrow> isc_buffer option" where
  "isc_buffer_subtract b n =
     (if b_magic b \<and> n \<le> b_used b
      then let used = b_used b - n
           in Some (b\<lparr>b_used := used,
                      b_current := (if b_current b > used then used else b_current b),
                      b_active := (if b_active b > used then used else b_active b)\<rparr>)
      else None)"

definition isc_buffer_clear :: "isc_buffer \<Rightarrow> isc_buffer option" where
  "isc_buffer_clear b =
     (if b_magic b then Some (b\<lparr>b_used := 0, b_current := 0, b_active := 0\<rparr>) else None)"

definition isc_buffer_setactive :: "isc_buffer \<Rightarrow> nat \<Rightarrow> isc_buffer option" where
  "isc_buffer_setactive b n =
     (if b_magic b \<and> u32_of (b_current b + n) \<le> b_used b
      then Some (b\<lparr>b_active := u32_of (b_current b + n)\<rparr>) else None)"

definition isc_buffer_first :: "isc_buffer \<Rightarrow> isc_buffer option" where
  "isc_buffer_first b = (if b_magic b then Some (b\<lparr>b_current := 0\<rparr>) else None)"

definition isc_buffer_forward :: "isc_buffer \<Rightarrow> nat \<Rightarrow> isc_buffer option" where
  "isc_buffer_forward b n =
     (if b_magic b \<and> u32_of (b_current b + n) \<le> b_used b
      then Some (b\<lparr>b_current := u32_of (b_current b + n)\<rparr>) else None)"

definition isc_buffer_back :: "isc_buffer \<Rightarrow> nat \<Rightarrow> isc_buffer option" where
  "isc_buffer_back b n =
     (if b_magic b \<and> n \<le> b_current b then Some (b\<lparr>b_current := b_current b - n\<rparr>) else None)"

definition isc_buffer_compact :: "isc_buffer \<Rightarrow> isc_buffer option" where
  "isc_buffer_compact b =
     (if b_magic b
      then do { let len = isc_buffer_remaininglength b;
                src \<leftarrow> mem_blk (b_base b) (b_current b) len;
                base' \<leftarrow> mem_wr (b_base b) 0 src;
                Some (b\<lparr>b_base := base',
                        b_active := (if b_active b > b_current b
                                     then b_active b - b_current b else 0),
                        b_current := 0, b_used := len\<rparr>) }
      else None)"

section \<open>Writing and reading\<close>

text \<open>
  The common part of the functions that write: the assertion, the store at the end of the used
  region and the new end.
\<close>

definition isc_buffer_putmem :: "isc_buffer \<Rightarrow> u8 list \<Rightarrow> isc_buffer option" where
  "isc_buffer_putmem b bs =
     (if b_magic b \<and> u32_of (b_used b + length bs) \<le> b_length b
      then do { base' \<leftarrow> mem_wr (b_base b) (b_used b) bs;
                Some (b\<lparr>b_base := base', b_used := u32_of (b_used b + length bs)\<rparr>) }
      else None)"

definition put24 :: "nat \<Rightarrow> u8 list" where
  "put24 n = [word_of_nat (n div 65536), word_of_nat (n div 256), word_of_nat n]"

definition isc_buffer_putuint8 :: "isc_buffer \<Rightarrow> nat \<Rightarrow> isc_buffer option" where
  "isc_buffer_putuint8 b val = isc_buffer_putmem b [word_of_nat val]"

definition isc_buffer_putuint16 :: "isc_buffer \<Rightarrow> nat \<Rightarrow> isc_buffer option" where
  "isc_buffer_putuint16 b val = isc_buffer_putmem b (put16 val)"

definition isc_buffer_putuint24 :: "isc_buffer \<Rightarrow> nat \<Rightarrow> isc_buffer option" where
  "isc_buffer_putuint24 b val = isc_buffer_putmem b (put24 val)"

definition isc_buffer_putuint32 :: "isc_buffer \<Rightarrow> nat \<Rightarrow> isc_buffer option" where
  "isc_buffer_putuint32 b val = isc_buffer_putmem b (put32 val)"

definition isc_buffer_putuint48 :: "isc_buffer \<Rightarrow> nat \<Rightarrow> isc_buffer option" where
  "isc_buffer_putuint48 b val =
     (if b_magic b \<and> u32_of (b_used b + 6) \<le> b_length b
      then do { let valhi = val div 4294967296 mod 65536;
                let vallo = val mod 4294967296;
                b1 \<leftarrow> isc_buffer_putuint16 b valhi;
                isc_buffer_putuint32 b1 vallo }
      else None)"

definition isc_buffer_putstr :: "isc_buffer \<Rightarrow> u8 list \<Rightarrow> isc_buffer option" where
  "isc_buffer_putstr b source =
     (if b_magic b \<and> length source \<le> isc_buffer_availablelength b
      then do { base' \<leftarrow> mem_wr (b_base b) (b_used b) source;
                Some (b\<lparr>b_base := base', b_used := u32_of (b_used b + length source)\<rparr>) }
      else None)"

definition isc_buffer_copyregion :: "isc_buffer \<Rightarrow> u8 list \<Rightarrow> (isc_result \<times> isc_buffer) option" where
  "isc_buffer_copyregion b r =
     (if b_magic b
      then if length r > isc_buffer_availablelength b then Some (ISC_R_NOSPACE, b)
           else do { base' \<leftarrow> mem_wr (b_base b) (b_used b) r;
                     Some (ISC_R_SUCCESS,
                       b\<lparr>b_base := base', b_used := u32_of (b_used b + length r)\<rparr>) }
      else None)"

text \<open>The common part of the functions that read \<open>n\<close> bytes: assertion, load, new position.\<close>

definition buffer_take :: "isc_buffer \<Rightarrow> nat \<Rightarrow> (u8 list \<times> isc_buffer) option" where
  "buffer_take b n =
     (if b_magic b \<and> n \<le> u32_sub (b_used b) (b_current b)
      then do { bs \<leftarrow> mem_blk (b_base b) (b_current b) n;
                Some (bs, b\<lparr>b_current := u32_of (b_current b + n)\<rparr>) }
      else None)"

definition isc_buffer_getuint8 :: "isc_buffer \<Rightarrow> (nat \<times> isc_buffer) option" where
  "isc_buffer_getuint8 b = do { (cp, b') \<leftarrow> buffer_take b 1; Some (unat (cp ! 0), b') }"

definition isc_buffer_getuint16 :: "isc_buffer \<Rightarrow> (nat \<times> isc_buffer) option" where
  "isc_buffer_getuint16 b =
     do { (cp, b') \<leftarrow> buffer_take b 2; Some (get16 (cp ! 0) (cp ! 1), b') }"

definition isc_buffer_getuint32 :: "isc_buffer \<Rightarrow> (nat \<times> isc_buffer) option" where
  "isc_buffer_getuint32 b =
     do { (cp, b') \<leftarrow> buffer_take b 4;
          Some (get32 (cp ! 0) (cp ! 1) (cp ! 2) (cp ! 3), b') }"

definition isc_buffer_getuint48 :: "isc_buffer \<Rightarrow> (nat \<times> isc_buffer) option" where
  "isc_buffer_getuint48 b =
     do { (cp, b') \<leftarrow> buffer_take b 6;
          Some (get16 (cp ! 0) (cp ! 1) * 4294967296 +
                get32 (cp ! 2) (cp ! 3) (cp ! 4) (cp ! 5), b') }"

section \<open>The invariant\<close>

definition buffer_ok :: "isc_buffer \<Rightarrow> bool" where
  "buffer_ok b \<longleftrightarrow> b_magic b \<and> b_length b \<le> length (b_base b) \<and> length (b_base b) < 4294967296 \<and>
     b_used b \<le> b_length b \<and> b_current b \<le> b_used b \<and> b_active b \<le> b_used b"

text \<open>The bytes of the used region, and those not yet consumed.\<close>

definition contents :: "isc_buffer \<Rightarrow> u8 list" where
  "contents b = take (b_used b) (b_base b)"

definition remaining :: "isc_buffer \<Rightarrow> u8 list" where
  "remaining b = drop (b_current b) (contents b)"

lemma buffer_okD:
  assumes "buffer_ok b"
  shows "b_magic b" "b_length b \<le> length (b_base b)" "b_length b < 4294967296"
    "b_used b \<le> b_length b" "b_current b \<le> b_used b" "b_active b \<le> b_used b"
    "b_used b < 4294967296" "b_current b < 4294967296"
  using assms by (auto simp: buffer_ok_def)

lemma length_contents [simp]: "buffer_ok b \<Longrightarrow> length (contents b) = b_used b"
  by (auto simp: contents_def buffer_ok_def)

lemma length_remaining: "buffer_ok b \<Longrightarrow> length (remaining b) = b_used b - b_current b"
  by (simp add: remaining_def)

lemma buffer_lengths_ok:
  assumes "buffer_ok b"
  shows "isc_buffer_availablelength b = b_length b - b_used b"
    "isc_buffer_remaininglength b = b_used b - b_current b"
  using buffer_okD [OF assms] by (simp_all add: buffer_lengths)

lemma buffer_ok_init: "n \<le> length m \<Longrightarrow> length m < 4294967296 \<Longrightarrow> buffer_ok (isc_buffer_init m n)"
  by (simp add: buffer_ok_def isc_buffer_init_def)

lemma contents_init [simp]: "contents (isc_buffer_init m n) = []"
  by (simp add: contents_def isc_buffer_init_def)

text \<open>The buffer after \<open>bs\<close> was written.\<close>

definition appended :: "isc_buffer \<Rightarrow> u8 list \<Rightarrow> isc_buffer" where
  "appended b bs = b\<lparr>b_base := contents b @ bs @ drop (b_used b + length bs) (b_base b),
                      b_used := b_used b + length bs\<rparr>"

lemma appended_fields [simp]:
  "b_magic (appended b bs) = b_magic b" "b_length (appended b bs) = b_length b"
  "b_used (appended b bs) = b_used b + length bs" "b_current (appended b bs) = b_current b"
  "b_active (appended b bs) = b_active b" "b_mctx (appended b bs) = b_mctx b"
  by (simp_all add: appended_def)

lemma appended_ok:
  assumes "buffer_ok b" "b_used b + length bs \<le> b_length b"
  shows "buffer_ok (appended b bs)" "contents (appended b bs) = contents b @ bs"
    "length (b_base (appended b bs)) = length (b_base b)"
proof -
  show l: "length (b_base (appended b bs)) = length (b_base b)"
    using assms by (auto simp: appended_def buffer_ok_def)
  show "buffer_ok (appended b bs)"
    using assms l by (auto simp: buffer_ok_def)
  show "contents (appended b bs) = contents b @ bs"
    using assms(1) by (simp add: contents_def [of "appended b bs"]) (simp add: appended_def)
qed

lemma appended_appended:
  "buffer_ok b \<Longrightarrow> b_used b + length as \<le> b_length b \<Longrightarrow>
     appended (appended b as) bs = appended b (as @ bs)"
  by (simp add: appended_def [of "appended b as"] appended_ok)
     (simp add: appended_def ac_simps)

lemma mem_wr_used:
  "buffer_ok b \<Longrightarrow> b_used b + length bs \<le> b_length b \<Longrightarrow>
     mem_wr (b_base b) (b_used b) bs = Some (b_base (appended b bs))"
  by (auto simp: mem_wr_def buffer_ok_def appended_def contents_def)

lemma putmem_ok:
  assumes "buffer_ok b" "b_used b + length bs \<le> b_length b"
  shows "isc_buffer_putmem b bs = Some (appended b bs)"
proof -
  have "isc_buffer_putmem b bs =
      Some (b\<lparr>b_base := b_base (appended b bs), b_used := b_used b + length bs\<rparr>)"
    using assms buffer_okD [OF assms(1)] by (simp add: isc_buffer_putmem_def mem_wr_used)
  then show ?thesis by (simp add: appended_def)
qed

lemma put_ok:
  assumes "buffer_ok b"
  shows "b_used b + 1 \<le> b_length b \<Longrightarrow> isc_buffer_putuint8 b v = Some (appended b [word_of_nat v])"
    "b_used b + 2 \<le> b_length b \<Longrightarrow> isc_buffer_putuint16 b v = Some (appended b (put16 v))"
    "b_used b + 4 \<le> b_length b \<Longrightarrow> isc_buffer_putuint32 b v = Some (appended b (put32 v))"
  using assms
  by (simp_all add: isc_buffer_putuint8_def isc_buffer_putuint16_def isc_buffer_putuint32_def
      putmem_ok)

lemma putuint48_ok:
  assumes "buffer_ok b" "b_used b + 6 \<le> b_length b"
  shows "isc_buffer_putuint48 b v =
    Some (appended b (put16 (v div 4294967296 mod 65536) @ put32 (v mod 4294967296)))"
  using assms buffer_okD [OF assms(1)]
  by (simp add: isc_buffer_putuint48_def put_ok appended_ok appended_appended)

lemma putstr_ok:
  "buffer_ok b \<Longrightarrow> b_used b + length s \<le> b_length b \<Longrightarrow>
     isc_buffer_putstr b s = Some (appended b s)"
  using buffer_okD [of b]
  by (simp add: isc_buffer_putstr_def mem_wr_used buffer_lengths_ok appended_def)

lemma copyregion_ok:
  assumes "buffer_ok b"
  shows "isc_buffer_copyregion b r =
    Some (if b_used b + length r \<le> b_length b then (ISC_R_SUCCESS, appended b r)
          else (ISC_R_NOSPACE, b))"
  using assms buffer_okD [OF assms]
  by (auto simp: isc_buffer_copyregion_def mem_wr_used buffer_lengths_ok appended_def)

lemma add_ok:
  assumes "buffer_ok b" "b_used b + n \<le> b_length b"
  shows "isc_buffer_add b n = Some (appended b (take n (drop (b_used b) (b_base b))))"
proof -
  have n: "length (take n (drop (b_used b) (b_base b))) = n"
    using assms buffer_okD [OF assms(1)] by simp
  have "b_base b = contents b @ take n (drop (b_used b) (b_base b)) @ drop (b_used b + n) (b_base b)"
    unfolding contents_def using mem_split [of "b_used b" n "b_base b"] assms
    by (simp add: buffer_ok_def)
  then show ?thesis
    using assms buffer_okD [OF assms(1)] by (simp add: isc_buffer_add_def appended_def n)
qed

text \<open>The buffer after \<open>n\<close> bytes were consumed.\<close>

definition consumed :: "isc_buffer \<Rightarrow> nat \<Rightarrow> isc_buffer" where
  "consumed b n = b\<lparr>b_current := b_current b + n\<rparr>"

lemma consumed_ok:
  assumes "buffer_ok b" "b_current b + n \<le> b_used b"
  shows "buffer_ok (consumed b n)" "contents (consumed b n) = contents b"
    "remaining (consumed b n) = drop n (remaining b)"
  using assms by (auto simp: consumed_def buffer_ok_def contents_def remaining_def add.commute)

lemma buffer_take_ok:
  assumes "buffer_ok b" "n \<le> length (remaining b)"
  shows "buffer_take b n = Some (take n (remaining b), consumed b n)"
proof -
  have le: "n \<le> b_used b - b_current b" "b_current b + n \<le> b_used b"
    using assms buffer_okD [OF assms(1)] by (simp_all add: length_remaining)
  have "mem_blk (b_base b) (b_current b) n = Some (take n (remaining b))"
    using le buffer_okD [OF assms(1)]
    by (simp add: mem_blk_def remaining_def contents_def take_drop min_def add.commute)
  then show ?thesis
    using le buffer_okD [OF assms(1)] by (simp add: buffer_take_def consumed_def)
qed

section \<open>Runs of the buffer functions\<close>

text \<open>
  One call of a function of \<^verbatim>\<open>buffer.c\<close> that changes a buffer.  For \<open>isc_buffer_add\<close> the sum in its
  assertion must not wrap around; the functions that store are stopped by the store itself.
\<close>

inductive buffer_step :: "isc_buffer \<Rightarrow> isc_buffer \<Rightarrow> bool" where
  step_add: "isc_buffer_add b n = Some b' \<Longrightarrow> b_used b + n < 4294967296 \<Longrightarrow> buffer_step b b'"
| step_subtract: "isc_buffer_subtract b n = Some b' \<Longrightarrow> buffer_step b b'"
| step_clear: "isc_buffer_clear b = Some b' \<Longrightarrow> buffer_step b b'"
| step_setactive: "isc_buffer_setactive b n = Some b' \<Longrightarrow> buffer_step b b'"
| step_first: "isc_buffer_first b = Some b' \<Longrightarrow> buffer_step b b'"
| step_forward: "isc_buffer_forward b n = Some b' \<Longrightarrow> buffer_step b b'"
| step_back: "isc_buffer_back b n = Some b' \<Longrightarrow> buffer_step b b'"
| step_compact: "isc_buffer_compact b = Some b' \<Longrightarrow> buffer_step b b'"
| step_reinit: "isc_buffer_reinit b base n = Some b' \<Longrightarrow> n \<le> length base \<Longrightarrow>
    length base < 4294967296 \<Longrightarrow> buffer_step b b'"
| step_putmem: "isc_buffer_putmem b bs = Some b' \<Longrightarrow> buffer_step b b'"
| step_putuint8: "isc_buffer_putuint8 b v = Some b' \<Longrightarrow> buffer_step b b'"
| step_putuint16: "isc_buffer_putuint16 b v = Some b' \<Longrightarrow> buffer_step b b'"
| step_putuint24: "isc_buffer_putuint24 b v = Some b' \<Longrightarrow> buffer_step b b'"
| step_putuint32: "isc_buffer_putuint32 b v = Some b' \<Longrightarrow> buffer_step b b'"
| step_putuint48: "isc_buffer_putuint48 b v = Some b' \<Longrightarrow> buffer_step b b'"
| step_putstr: "isc_buffer_putstr b bs = Some b' \<Longrightarrow> buffer_step b b'"
| step_copyregion: "isc_buffer_copyregion b bs = Some (r, b') \<Longrightarrow> buffer_step b b'"
| step_getuint8: "isc_buffer_getuint8 b = Some (v, b') \<Longrightarrow> buffer_step b b'"
| step_getuint16: "isc_buffer_getuint16 b = Some (v, b') \<Longrightarrow> buffer_step b b'"
| step_getuint32: "isc_buffer_getuint32 b = Some (v, b') \<Longrightarrow> buffer_step b b'"
| step_getuint48: "isc_buffer_getuint48 b = Some (v, b') \<Longrightarrow> buffer_step b b'"

lemma mem_wr_fits: "mem_wr m i bs = Some m' \<Longrightarrow> i + length bs \<le> length m"
  by (auto simp: mem_wr_def split: if_splits)

lemma putmem_keeps_ok: "buffer_ok b \<Longrightarrow> isc_buffer_putmem b bs = Some b' \<Longrightarrow> buffer_ok b'"
  using length_mem_wr [of "b_base b" "b_used b" bs] mem_wr_fits [of "b_base b" "b_used b" bs]
  by (auto simp: isc_buffer_putmem_def buffer_ok_def split: if_splits bind_splits)

lemma take_keeps_ok:
  assumes "buffer_ok b" "buffer_take b n = Some (bs, b')"
  shows "buffer_ok b'"
proof -
  have "n \<le> length (remaining b)"
    using assms(2) buffer_okD [OF assms(1)] length_remaining [OF assms(1)]
    by (auto simp: buffer_take_def split: if_splits)
  with assms show ?thesis
    using buffer_take_ok [OF assms(1)] consumed_ok(1) [OF assms(1), of n] buffer_okD [OF assms(1)]
      length_remaining [OF assms(1)] by auto
qed

lemma compact_ok:
  assumes "buffer_ok b"
  shows "\<exists>b'. isc_buffer_compact b = Some b' \<and> buffer_ok b' \<and> contents b' = remaining b \<and>
    b_current b' = 0 \<and> remaining b' = remaining b"
proof -
  let ?n = "b_used b - b_current b"
  let ?m = "remaining b @ drop ?n (b_base b)"
  note d = buffer_okD [OF assms]
  have n: "isc_buffer_remaininglength b = ?n" "length (remaining b) = ?n"
    using assms by (simp_all add: buffer_lengths_ok length_remaining)
  have "mem_blk (b_base b) (b_current b) ?n = Some (remaining b)"
    using d by (simp add: mem_blk_def remaining_def contents_def take_drop)
  moreover have "mem_wr (b_base b) 0 (remaining b) = Some ?m"
    using d n by (simp add: mem_wr_def)
  ultimately have "isc_buffer_compact b = Some (b\<lparr>b_base := ?m,
      b_active := (if b_active b > b_current b then b_active b - b_current b else 0),
      b_current := 0, b_used := ?n\<rparr>)"
    using d n by (simp add: isc_buffer_compact_def Let_def)
  moreover have "length ?m = length (b_base b)" using d n by simp
  ultimately show ?thesis
    using assms n by (auto simp: buffer_ok_def contents_def remaining_def)
qed

lemma putuint48_keeps_ok: "buffer_ok b \<Longrightarrow> isc_buffer_putuint48 b v = Some b' \<Longrightarrow> buffer_ok b'"
  by (auto simp: isc_buffer_putuint48_def isc_buffer_putuint16_def isc_buffer_putuint32_def
      Let_def split: if_splits bind_splits dest: putmem_keeps_ok)

lemma putstr_keeps_ok: "buffer_ok b \<Longrightarrow> isc_buffer_putstr b bs = Some b' \<Longrightarrow> buffer_ok b'"
  using buffer_okD [of b] putstr_ok [of b bs] appended_ok(1) [of b bs]
  by (auto simp: isc_buffer_putstr_def buffer_lengths_ok split: if_splits bind_splits)

lemma move_keeps_ok:
  "buffer_ok b \<Longrightarrow> isc_buffer_add b n = Some b' \<Longrightarrow> b_used b + n < 4294967296 \<Longrightarrow> buffer_ok b'"
  "buffer_ok b \<Longrightarrow> isc_buffer_subtract b n = Some b' \<Longrightarrow> buffer_ok b'"
  "buffer_ok b \<Longrightarrow> isc_buffer_clear b = Some b' \<Longrightarrow> buffer_ok b'"
  "buffer_ok b \<Longrightarrow> isc_buffer_setactive b n = Some b' \<Longrightarrow> buffer_ok b'"
  "buffer_ok b \<Longrightarrow> isc_buffer_first b = Some b' \<Longrightarrow> buffer_ok b'"
  "buffer_ok b \<Longrightarrow> isc_buffer_forward b n = Some b' \<Longrightarrow> buffer_ok b'"
  "buffer_ok b \<Longrightarrow> isc_buffer_back b n = Some b' \<Longrightarrow> buffer_ok b'"
  by (auto simp: isc_buffer_add_def isc_buffer_subtract_def isc_buffer_clear_def
      isc_buffer_setactive_def isc_buffer_first_def isc_buffer_forward_def isc_buffer_back_def
      buffer_ok_def Let_def split: if_splits)

lemma buffer_step_ok: "buffer_step b b' \<Longrightarrow> buffer_ok b \<Longrightarrow> buffer_ok b'"
proof (induction rule: buffer_step.induct)
  case (step_compact b b')
  then show ?case using compact_ok [of b] by auto
next
  case (step_reinit b base n b')
  then show ?case
    using length_mem_wr [of base 0]
    by (auto simp: isc_buffer_reinit_def buffer_ok_def split: if_splits bind_splits)
next
  case (step_copyregion b bs r b')
  then show ?case
    using copyregion_ok [of b bs] appended_ok(1) [of b bs] by (auto split: if_splits)
qed (auto simp: isc_buffer_putuint8_def isc_buffer_putuint16_def isc_buffer_putuint24_def
    isc_buffer_putuint32_def isc_buffer_getuint8_def isc_buffer_getuint16_def
    isc_buffer_getuint32_def isc_buffer_getuint48_def split: bind_splits prod.splits
    dest: move_keeps_ok putmem_keeps_ok take_keeps_ok putuint48_keeps_ok putstr_keeps_ok)

text \<open>
  C29: Whatever calls are made on a buffer after \<open>isc_buffer_init\<close>, in any order and with any arguments,
  but that no \<open>isc_buffer_add\<close> is given a size whose 32-bit sum with the used length wraps around and
  that \<open>isc_buffer_reinit\<close> is given a region inside a memory object: the offsets stay ordered (current and
  active within the used region, the used region within the buffer) and the region stays inside its
  memory object.  (\<open>buffer_add_wraps\<close> below shows that a sum that wraps around breaks this.)
\<close>

theorem buffer_invariant:
  assumes "n \<le> length base" "length base < 4294967296"
    and "buffer_step\<^sup>*\<^sup>* (isc_buffer_init base n) b"
  shows "b_current b \<le> b_used b \<and> b_active b \<le> b_used b \<and> b_used b \<le> b_length b \<and>
    b_length b \<le> length (b_base b)"
proof -
  have "buffer_ok b"
    using assms(3) by (induction rule: rtranclp_induct)
      (simp_all add: assms(1,2) buffer_ok_init buffer_step_ok)
  then show ?thesis by (simp add: buffer_ok_def)
qed

theorem buffer_invariant_witness:
  "(let b = (isc_buffer_init [0, 0, 0, 0] 4)\<lparr>b_base := [1, 2, 0, 0], b_used := 2\<rparr>
    in b_current b \<le> b_used b \<and> b_active b \<le> b_used b \<and> b_used b \<le> b_length b \<and>
       b_length b \<le> length (b_base b))"
proof -
  have "isc_buffer_putuint16 (isc_buffer_init [0, 0, 0, 0] 4) 258 =
      Some ((isc_buffer_init [0, 0, 0, 0] 4)\<lparr>b_base := [1, 2, 0, 0], b_used := 2\<rparr>)"
    by (simp add: isc_buffer_putuint16_def isc_buffer_putmem_def isc_buffer_init_def put16_def
        mem_wr_def)
  then have "buffer_step\<^sup>*\<^sup>* (isc_buffer_init [0, 0, 0, 0] 4)
      ((isc_buffer_init [0, 0, 0, 0] 4)\<lparr>b_base := [1, 2, 0, 0], b_used := 2\<rparr>)"
    by (intro r_into_rtranclp step_putuint16)
  from buffer_invariant [OF _ _ this] show ?thesis by (simp add: Let_def)
qed

text \<open>
  Without the side condition of \<open>step_add\<close> the invariant is lost: the assertion of
  \<open>isc_buffer_add\<close> holds after the sum wrapped around, and the used region ends before the
  consumed one.
\<close>

lemma buffer_add_wraps:
  "\<exists>b b'. buffer_ok b \<and> isc_buffer_add b 4294967292 = Some b' \<and> b_used b' < b_current b'"
proof -
  let ?b = "(isc_buffer_init (replicate 8 0) 8)\<lparr>b_used := 8, b_current := 8\<rparr>"
  have "buffer_ok ?b" by (simp add: buffer_ok_def isc_buffer_init_def)
  moreover have "isc_buffer_add ?b 4294967292 = Some (?b\<lparr>b_used := 4\<rparr>)"
    by (simp add: isc_buffer_add_def isc_buffer_init_def u32_of_def)
  ultimately show ?thesis by (intro exI conjI) (auto simp: isc_buffer_init_def)
qed

section \<open>Writing and reading back\<close>

text \<open>
  What a pair of functions that write and read a number promises: the writer appends an encoding of
  fixed width, the reader takes such an encoding from the front of the unread bytes.
\<close>

locale buffer_field =
  fixes put :: "isc_buffer \<Rightarrow> nat \<Rightarrow> isc_buffer option"
    and get :: "isc_buffer \<Rightarrow> (nat \<times> isc_buffer) option"
    and enc :: "nat \<Rightarrow> u8 list"
    and width :: nat
  assumes length_enc: "length (enc v) = width"
    and put_room: "buffer_ok b \<Longrightarrow> b_used b + width \<le> b_length b \<Longrightarrow> put b v = Some (appended b (enc v))"
    and get_enc: "buffer_ok b \<Longrightarrow> v < 256 ^ width \<Longrightarrow> remaining b = enc v @ suf \<Longrightarrow>
      get b = Some (v, consumed b width)"
begin

lemma get_next:
  assumes "buffer_ok b" "v < 256 ^ width" "remaining b = enc v @ suf"
  shows "\<exists>b'. get b = Some (v, b') \<and> buffer_ok b' \<and> remaining b' = suf"
proof -
  have "width \<le> length (remaining b)" by (simp add: assms(3) length_enc)
  then have "b_current b + width \<le> b_used b"
    using buffer_okD [OF assms(1)] by (simp add: length_remaining assms(1))
  then show ?thesis
    using get_enc [OF assms] consumed_ok [OF assms(1), of width] assms(3) by (simp add: length_enc)
qed

end

lemma nth_put16: "put16 v ! 0 = word_of_nat (v div 256)" "put16 v ! Suc 0 = word_of_nat v"
  by (simp_all add: put16_def)

interpretation uint8: buffer_field isc_buffer_putuint8 isc_buffer_getuint8
  "\<lambda>v. [word_of_nat v]" 1
  by unfold_locales
    (simp_all add: put_ok isc_buffer_getuint8_def buffer_take_ok unat_byte)

interpretation uint16: buffer_field isc_buffer_putuint16 isc_buffer_getuint16 put16 2
proof (unfold_locales, goal_cases)
  case (3 b v suf)
  then show ?case
    using get16_put16 [of v]
    by (simp add: isc_buffer_getuint16_def buffer_take_ok nth_append)
qed (simp_all add: put_ok)

interpretation uint32: buffer_field isc_buffer_putuint32 isc_buffer_getuint32 put32 4
proof (unfold_locales, goal_cases)
  case (3 b v suf)
  then show ?case
    using get32_put32 [of v]
    by (simp add: isc_buffer_getuint32_def buffer_take_ok nth_append)
qed (simp_all add: put_ok)

definition put48 :: "nat \<Rightarrow> u8 list" where
  "put48 v = put16 (v div 4294967296 mod 65536) @ put32 (v mod 4294967296)"

interpretation uint48: buffer_field isc_buffer_putuint48 isc_buffer_getuint48 put48 6
proof (unfold_locales, goal_cases)
  case (3 b v suf)
  define hi lo where "hi = v div 4294967296" and "lo = v mod 4294967296"
  have r: "hi < 65536" "lo < 4294967296" "v = hi * 4294967296 + lo"
    using 3(2) by (simp_all add: hi_def lo_def div_less_iff_less_mult)
  have "take 6 (remaining b) = put16 hi @ put32 lo"
    using 3(3) r by (simp add: put48_def flip: hi_def lo_def)
  moreover have "6 \<le> length (remaining b)" using 3(3) by (simp add: put48_def)
  ultimately show ?case
    using 3(1) r get16_put16 [of hi] get32_put32 [of lo]
    by (simp add: isc_buffer_getuint48_def buffer_take_ok nth_append)
qed (simp_all add: put48_def putuint48_ok)

text \<open>A message made of numbers of the four widths.\<close>

datatype width = W8 | W16 | W32 | W48

fun bytes_of :: "width \<Rightarrow> nat" where
  "bytes_of W8 = 1" | "bytes_of W16 = 2" | "bytes_of W32 = 4" | "bytes_of W48 = 6"

fun enc_field :: "width \<times> nat \<Rightarrow> u8 list" where
  "enc_field (W8, v) = [word_of_nat v]"
| "enc_field (W16, v) = put16 v"
| "enc_field (W32, v) = put32 v"
| "enc_field (W48, v) = put48 v"

fun put_field :: "isc_buffer \<Rightarrow> width \<times> nat \<Rightarrow> isc_buffer option" where
  "put_field b (W8, v) = isc_buffer_putuint8 b v"
| "put_field b (W16, v) = isc_buffer_putuint16 b v"
| "put_field b (W32, v) = isc_buffer_putuint32 b v"
| "put_field b (W48, v) = isc_buffer_putuint48 b v"

fun get_field :: "isc_buffer \<Rightarrow> width \<Rightarrow> (nat \<times> isc_buffer) option" where
  "get_field b W8 = isc_buffer_getuint8 b"
| "get_field b W16 = isc_buffer_getuint16 b"
| "get_field b W32 = isc_buffer_getuint32 b"
| "get_field b W48 = isc_buffer_getuint48 b"

fun put_fields :: "isc_buffer \<Rightarrow> (width \<times> nat) list \<Rightarrow> isc_buffer option" where
  "put_fields b [] = Some b"
| "put_fields b (f # fs) = do { b' \<leftarrow> put_field b f; put_fields b' fs }"

fun get_fields :: "isc_buffer \<Rightarrow> width list \<Rightarrow> (nat list \<times> isc_buffer) option" where
  "get_fields b [] = Some ([], b)"
| "get_fields b (w # ws) =
     do { (v, b') \<leftarrow> get_field b w; (vs, b'') \<leftarrow> get_fields b' ws; Some (v # vs, b'') }"

abbreviation in_range :: "width \<times> nat \<Rightarrow> bool" where
  "in_range f \<equiv> snd f < 256 ^ bytes_of (fst f)"

lemma length_enc_field [simp]: "length (enc_field f) = bytes_of (fst f)"
  by (cases f rule: enc_field.cases) (simp_all add: put48_def)

lemma put_field_ok:
  "buffer_ok b \<Longrightarrow> b_used b + bytes_of (fst f) \<le> b_length b \<Longrightarrow>
     put_field b f = Some (appended b (enc_field f))"
  using uint8.put_room uint16.put_room uint32.put_room uint48.put_room
  by (cases f rule: enc_field.cases) simp_all

lemma get_field_ok:
  "buffer_ok b \<Longrightarrow> in_range f \<Longrightarrow> remaining b = enc_field f @ suf \<Longrightarrow>
     \<exists>b'. get_field b (fst f) = Some (snd f, b') \<and> buffer_ok b' \<and> remaining b' = suf"
  using uint8.get_next uint16.get_next uint32.get_next uint48.get_next
  by (cases f rule: enc_field.cases) auto

lemma put_fields_ok:
  "buffer_ok b \<Longrightarrow> b_used b + sum_list (map (bytes_of \<circ> fst) fs) \<le> b_length b \<Longrightarrow>
     put_fields b fs = Some (appended b (concat (map enc_field fs)))"
proof (induction fs arbitrary: b)
  case Nil
  then show ?case by (simp add: appended_def contents_def)
next
  case (Cons f fs)
  then have "b_used b + length (enc_field f) \<le> b_length b" by simp
  with Cons show ?case
    by (simp add: put_field_ok appended_ok appended_appended)
qed

lemma get_fields_ok:
  "buffer_ok b \<Longrightarrow> \<forall>f \<in> set fs. in_range f \<Longrightarrow> remaining b = concat (map enc_field fs) @ suf \<Longrightarrow>
     \<exists>b'. get_fields b (map fst fs) = Some (map snd fs, b') \<and> buffer_ok b' \<and> remaining b' = suf"
proof (induction fs arbitrary: b)
  case (Cons f fs)
  then obtain b1 where b1: "get_field b (fst f) = Some (snd f, b1)" "buffer_ok b1"
      "remaining b1 = concat (map enc_field fs) @ suf"
    using get_field_ok [of b f "concat (map enc_field fs) @ suf"] by auto
  then show ?case using Cons.IH [of b1] Cons.prems(2) by auto
qed simp

text \<open>
  C30: Numbers of 8, 16, 32 and 48 bits written one after the other to a buffer that has room for
  them are read back by the corresponding functions, in order, behind what was unread before.
\<close>

theorem buffer_roundtrip:
  assumes "buffer_ok b" "b_current b = b_used b" "\<forall>f \<in> set fs. in_range f"
    and "b_used b + sum_list (map (bytes_of \<circ> fst) fs) \<le> b_length b"
  shows "\<exists>b1 b2. put_fields b fs = Some b1 \<and> get_fields b1 (map fst fs) = Some (map snd fs, b2) \<and>
    b_current b2 = b_used b2"
proof -
  let ?b1 = "appended b (concat (map enc_field fs))"
  have len: "length (concat (map enc_field fs)) = sum_list (map (bytes_of \<circ> fst) fs)"
    by (simp add: length_concat comp_def)
  have ok: "buffer_ok ?b1" "contents ?b1 = contents b @ concat (map enc_field fs)"
    using appended_ok [OF assms(1)] assms(4) len by simp_all
  then have "remaining ?b1 = concat (map enc_field fs) @ []"
    using assms(1,2) by (simp add: remaining_def)
  from get_fields_ok [OF ok(1) assms(3) this] obtain b2 where
    "get_fields ?b1 (map fst fs) = Some (map snd fs, b2)" "buffer_ok b2" "remaining b2 = []"
    by blast
  moreover have "b_current b2 = b_used b2"
    using calculation(2,3) length_remaining [of b2] buffer_okD(5) [of b2] by simp
  ultimately show ?thesis using put_fields_ok [OF assms(1,4)] by blast
qed

theorem buffer_roundtrip_witness:
  "\<exists>b1 b2. put_fields (isc_buffer_init (replicate 8 0) 8) [(W16, 513), (W48, 1099511627775)] = Some b1 \<and>
     get_fields b1 [W16, W48] = Some ([513, 1099511627775], b2) \<and> b_current b2 = b_used b2"
  using buffer_roundtrip [of "isc_buffer_init (replicate 8 0) 8" "[(W16, 513), (W48, 1099511627775)]"]
  by (simp add: buffer_ok_def isc_buffer_init_def)

end
