(* ===== verification/Name.thy ===== *)
theory Name
  imports Buffer Rdata "HOL-Library.Sublist"
begin

text \<open>
  Domain names: \<^verbatim>\<open>lib/dns/name.c\<close>.  A name is a handle to a region that holds a sequence of labels,
  each a length byte followed by that many bytes; an absolute name ends in the root label, a single
  zero byte.

  The field \<open>nm_ndata\<close> holds the bytes of the region (the field \<open>length\<close> of the C structure is their
  number).  The offsets table, a cache of the positions of the labels, is \<open>nm_offsets\<close>: \<open>None\<close> for
  a null pointer, otherwise the entries that have been written.  The dedicated buffer is \<open>nm_buffer\<close>.
  Where a function takes the dedicated buffer in the place of a null \<open>target\<close>, the caller passes it
  as \<open>target\<close> in the model.  The lists and the link of the structure are not represented.
\<close>

section \<open>The structure\<close>

record dns_name =
  nm_magic :: bool
  nm_ndata :: "u8 list"
  nm_labels :: nat
  nm_attributes :: u32
  nm_offsets :: "nat list option"
  nm_buffer :: "isc_buffer option"

definition DNS_NAMEATTR_ABSOLUTE :: u32 where "DNS_NAMEATTR_ABSOLUTE = 0x1"
definition DNS_NAMEATTR_READONLY :: u32 where "DNS_NAMEATTR_READONLY = 0x2"
definition DNS_NAMEATTR_DYNAMIC :: u32 where "DNS_NAMEATTR_DYNAMIC = 0x4"
definition DNS_NAMEATTR_DYNOFFSETS :: u32 where "DNS_NAMEATTR_DYNOFFSETS = 0x8"
definition DNS_NAMEATTR_NOCOMPRESS :: u32 where "DNS_NAMEATTR_NOCOMPRESS = 0x10"

definition DNS_NAME_MAXWIRE :: nat where "DNS_NAME_MAXWIRE = 255"

lemmas name_attrs = DNS_NAMEATTR_ABSOLUTE_def DNS_NAMEATTR_READONLY_def DNS_NAMEATTR_DYNAMIC_def
  DNS_NAMEATTR_DYNOFFSETS_def DNS_NAMEATTR_NOCOMPRESS_def

text \<open>The field \<open>length\<close>.\<close>

abbreviation nm_length :: "dns_name \<Rightarrow> nat" where
  "nm_length name \<equiv> length (nm_ndata name)"

text \<open>The table \<^verbatim>\<open>maptolower\<close>: the upper case letters have other entries than themselves.\<close>

definition maptolower :: "u8 \<Rightarrow> u8" where
  "maptolower c = (if 0x41 \<le> c \<and> c \<le> 0x5a then c + 0x20 else c)"

definition BINDABLE :: "dns_name \<Rightarrow> bool" where
  "BINDABLE name \<longleftrightarrow> nm_attributes name AND (DNS_NAMEATTR_READONLY OR DNS_NAMEATTR_DYNAMIC) = 0"

definition MAKE_EMPTY :: "dns_name \<Rightarrow> dns_name" where
  "MAKE_EMPTY name = name\<lparr>nm_ndata := [], nm_labels := 0,
     nm_attributes := nm_attributes name AND NOT DNS_NAMEATTR_ABSOLUTE\<rparr>"

definition dns_rootname :: dns_name where
  "dns_rootname = \<lparr>nm_magic = True, nm_ndata = [0], nm_labels = 1,
     nm_attributes = DNS_NAMEATTR_READONLY OR DNS_NAMEATTR_ABSOLUTE, nm_offsets = Some [0], nm_buffer = None\<rparr>"

definition dns_wildcardname :: dns_name where
  "dns_wildcardname = \<lparr>nm_magic = True, nm_ndata = [1, 0x2a], nm_labels = 1,
     nm_attributes = DNS_NAMEATTR_READONLY, nm_offsets = Some [0], nm_buffer = None\<rparr>"

definition dns_name_init :: "nat list option \<Rightarrow> dns_name" where
  "dns_name_init offsets = \<lparr>nm_magic = True, nm_ndata = [], nm_labels = 0, nm_attributes = 0,
     nm_offsets = offsets, nm_buffer = None\<rparr>"

definition dns_name_reset :: "dns_name \<Rightarrow> dns_name option" where
  "dns_name_reset name =
     (if nm_magic name \<and> BINDABLE name
      then do { buffer \<leftarrow> (case nm_buffer name of
                              None \<Rightarrow> Some None
                            | Some buffer \<Rightarrow> do { buffer \<leftarrow> isc_buffer_clear buffer; Some (Some buffer) });
                Some (name\<lparr>nm_ndata := [], nm_labels := 0,
                           nm_attributes := nm_attributes name AND NOT DNS_NAMEATTR_ABSOLUTE, nm_buffer := buffer\<rparr>) }
      else None)"

definition dns_name_invalidate :: "dns_name \<Rightarrow> dns_name option" where
  "dns_name_invalidate name =
     (if nm_magic name
      then Some \<lparr>nm_magic = False, nm_ndata = [], nm_labels = 0, nm_attributes = 0,
                 nm_offsets = None, nm_buffer = None\<rparr>
      else None)"

definition dns_name_setbuffer :: "dns_name \<Rightarrow> isc_buffer option \<Rightarrow> dns_name option" where
  "dns_name_setbuffer name buffer =
     (if nm_magic name \<and> (buffer \<noteq> None \<and> nm_buffer name = None \<or> buffer = None)
      then Some (name\<lparr>nm_buffer := buffer\<rparr>) else None)"

definition dns_name_hasbuffer :: "dns_name \<Rightarrow> bool option" where
  "dns_name_hasbuffer name = (if nm_magic name then Some (nm_buffer name \<noteq> None) else None)"

definition dns_name_isabsolute :: "dns_name \<Rightarrow> bool option" where
  "dns_name_isabsolute name =
     (if nm_magic name then Some (nm_attributes name AND DNS_NAMEATTR_ABSOLUTE \<noteq> 0) else None)"

section \<open>The offsets table\<close>

text \<open>
  The loop of \<open>set_offsets\<close>: \<open>offset\<close> is the position, \<open>offs\<close> the entries written so far; the
  result has the entries, the final position and whether the root label was seen.
\<close>

function set_offsets_loop :: "u8 list \<Rightarrow> nat \<Rightarrow> nat list \<Rightarrow> (nat list \<times> nat \<times> bool) option" where
  "set_offsets_loop ndata offset offs =
     (if offset = length ndata then Some (offs, offset, False)
      else if length offs < 128
      then do { c \<leftarrow> mem_rd ndata offset;
                let count = unat c;
                if count \<le> 63 \<and> offset + 1 + count \<le> length ndata
                then if count = 0 then Some (offs @ [offset], offset + 1, True)
                     else set_offsets_loop ndata (offset + 1 + count) (offs @ [offset])
                else None }
      else None)"

  by pat_completeness auto
termination by (relation "measure (\<lambda>(ndata, offset, offs). 128 - length offs)") auto

declare set_offsets_loop.simps [simp del]

text \<open>Called with \<open>set_name == NULL\<close>: the entries, after the final assertions.\<close>

definition set_offsets :: "dns_name \<Rightarrow> nat list option" where
  "set_offsets name =
     do { (offs, offset, absolute) \<leftarrow> set_offsets_loop (nm_ndata name) 0 [];
          if length offs = nm_labels name \<and> offset = nm_length name then Some offs else None }"

text \<open>Called with \<open>set_name == name\<close>: the name gets its labels, length and attribute.\<close>

definition set_offsets_name :: "dns_name \<Rightarrow> (nat list \<times> dns_name) option" where
  "set_offsets_name name =
     do { (offs, offset, absolute) \<leftarrow> set_offsets_loop (nm_ndata name) 0 [];
          Some (offs, name\<lparr>nm_labels := length offs, nm_ndata := take offset (nm_ndata name),
            nm_attributes := (if absolute then nm_attributes name OR DNS_NAMEATTR_ABSOLUTE
                              else nm_attributes name AND NOT DNS_NAMEATTR_ABSOLUTE)\<rparr>) }"

text \<open>\<^verbatim>\<open>SETUP_OFFSETS\<close>: the table of the name, or one made for the occasion.\<close>

definition SETUP_OFFSETS :: "dns_name \<Rightarrow> nat list option" where
  "SETUP_OFFSETS name =
     (case nm_offsets name of Some offs \<Rightarrow> Some offs | None \<Rightarrow> set_offsets name)"

text \<open>The last step of the functions that make a name: its table, if it has one, is filled in.\<close>

definition fill_offsets :: "dns_name \<Rightarrow> dns_name option" where
  "fill_offsets name =
     (if nm_labels name > 0 \<and> nm_offsets name \<noteq> None
      then do { offs \<leftarrow> set_offsets name; Some (name\<lparr>nm_offsets := Some offs\<rparr>) }
      else Some name)"

definition offs_at :: "nat list \<Rightarrow> nat \<Rightarrow> nat option" where
  "offs_at offs i = (if i < length offs then Some (offs ! i) else None)"

section \<open>Hashing\<close>

definition name_hash :: "u8 list \<Rightarrow> bool \<Rightarrow> u32" where
  "name_hash ndata case_sensitive =
     foldl (\<lambda>h s. let c = (if case_sensitive then s else maptolower s)
                  in h + (push_bit 3 h + ucast c)) 0 (take 16 ndata)"

definition dns_name_hash :: "dns_name \<Rightarrow> bool \<Rightarrow> u32 option" where
  "dns_name_hash name case_sensitive =
     (if nm_magic name
      then Some (if nm_labels name = 0 then 0 else name_hash (nm_ndata name) case_sensitive)
      else None)"

text \<open>The region of the \<open>n\<close>-th label.\<close>

definition label_region :: "dns_name \<Rightarrow> nat list \<Rightarrow> nat \<Rightarrow> u8 list option" where
  "label_region name offsets n =
     do { off \<leftarrow> offs_at offsets n;
          stop \<leftarrow> (if n = nm_labels name - 1 then Some (nm_length name) else offs_at offsets (n + 1));
          mem_blk (nm_ndata name) off (u32_sub stop off) }"

fun hashbylabel_loop :: "dns_name \<Rightarrow> nat list \<Rightarrow> bool \<Rightarrow> nat list \<Rightarrow> u32 \<Rightarrow> u32 option" where
  "hashbylabel_loop name offsets cs [] h = Some h"
| "hashbylabel_loop name offsets cs (i # is) h =
     do { r \<leftarrow> label_region name offsets i;
          hashbylabel_loop name offsets cs is (h + name_hash r cs) }"

definition dns_name_hashbylabel :: "dns_name \<Rightarrow> bool \<Rightarrow> u32 option" where
  "dns_name_hashbylabel name case_sensitive =
     (if nm_magic name
      then if nm_labels name = 0 then Some 0
           else if nm_labels name = 1 then Some (name_hash (nm_ndata name) case_sensitive)
           else do { offsets \<leftarrow> SETUP_OFFSETS name;
                     hashbylabel_loop name offsets case_sensitive [0..<nm_labels name] 0 }
      else None)"

section \<open>Comparison\<close>

datatype dns_namereln =
    dns_namereln_none
  | dns_namereln_contains
  | dns_namereln_subdomain
  | dns_namereln_equal
  | dns_namereln_commonancestor

text \<open>\<open>chdiff\<close> of the first characters that differ, 0 when \<open>count\<close> characters agree.\<close>

fun chars_diff :: "u8 list \<Rightarrow> nat \<Rightarrow> u8 list \<Rightarrow> nat \<Rightarrow> nat \<Rightarrow> int option" where
  "chars_diff d1 label1 d2 label2 0 = Some 0"
| "chars_diff d1 label1 d2 label2 (Suc cnt) =
     do { c1 \<leftarrow> mem_rd d1 label1; c2 \<leftarrow> mem_rd d2 label2;
          let chdiff = int (unat (maptolower c1)) - int (unat (maptolower c2));
          if chdiff \<noteq> 0 then Some chdiff
          else chars_diff d1 (label1 + 1) d2 (label2 + 1) cnt }"

text \<open>
  The loop over the labels from the right.  The result is the order and the number of common labels
  when the code jumps to \<open>done\<close>, and no order when the loop ends.
\<close>

fun fullcompare_loop :: "u8 list \<Rightarrow> nat list \<Rightarrow> u8 list \<Rightarrow> nat list \<Rightarrow> nat \<Rightarrow> nat \<Rightarrow> nat \<Rightarrow> nat \<Rightarrow>
    (int option \<times> nat) option" where
  "fullcompare_loop d1 offsets1 d2 offsets2 0 l1 l2 nlabels = Some (None, nlabels)"
| "fullcompare_loop d1 offsets1 d2 offsets2 (Suc l) l1 l2 nlabels =
     do { o1 \<leftarrow> offs_at offsets1 (l1 - 1); o2 \<leftarrow> offs_at offsets2 (l2 - 1);
          b1 \<leftarrow> mem_rd d1 o1; b2 \<leftarrow> mem_rd d2 o2;
          let count1 = unat b1; let count2 = unat b2;
          if count1 \<le> 63 \<and> count2 \<le> 63
          then do { let cdiff = int count1 - int count2;
                    chdiff \<leftarrow> chars_diff d1 (o1 + 1) d2 (o2 + 1) (if cdiff < 0 then count1 else count2);
                    if chdiff \<noteq> 0 then Some (Some chdiff, nlabels)
                    else if cdiff \<noteq> 0 then Some (Some cdiff, nlabels)
                    else fullcompare_loop d1 offsets1 d2 offsets2 l (l1 - 1) (l2 - 1) (nlabels + 1) }
          else None }"

definition dns_name_fullcompare ::
    "dns_name \<Rightarrow> dns_name \<Rightarrow> (dns_namereln \<times> int \<times> nat) option" where
  "dns_name_fullcompare name1 name2 =
     (if nm_magic name1 \<and> nm_magic name2 \<and>
         nm_attributes name1 AND DNS_NAMEATTR_ABSOLUTE = nm_attributes name2 AND DNS_NAMEATTR_ABSOLUTE
      then do { offsets1 \<leftarrow> SETUP_OFFSETS name1; offsets2 \<leftarrow> SETUP_OFFSETS name2;
                let l1 = nm_labels name1; let l2 = nm_labels name2;
                let ldiff = int l1 - int l2;
                (jump, nlabels) \<leftarrow> fullcompare_loop (nm_ndata name1) offsets1 (nm_ndata name2) offsets2
                                     (if ldiff < 0 then l1 else l2) l1 l2 0;
                let (order, reln) =
                  (case jump of
                     Some d \<Rightarrow> (d, dns_namereln_none)
                   | None \<Rightarrow> (ldiff, if ldiff < 0 then dns_namereln_contains
                                     else if ldiff > 0 then dns_namereln_subdomain
                                     else dns_namereln_equal));
                Some (if nlabels > 0 \<and> reln = dns_namereln_none
                      then dns_namereln_commonancestor else reln, order, nlabels) }
      else None)"

definition dns_name_compare :: "dns_name \<Rightarrow> dns_name \<Rightarrow> int option" where
  "dns_name_compare name1 name2 =
     do { (reln, order, nlabels) \<leftarrow> dns_name_fullcompare name1 name2; Some order }"

text \<open>
  The loop of \<open>dns_name_equal\<close>: \<open>l\<close> labels from the position that both names have reached.
\<close>

fun name_equal_loop :: "u8 list \<Rightarrow> u8 list \<Rightarrow> nat \<Rightarrow> nat \<Rightarrow> bool option" where
  "name_equal_loop d1 d2 pos 0 = Some True"
| "name_equal_loop d1 d2 pos (Suc l) =
     do { b1 \<leftarrow> mem_rd d1 pos; b2 \<leftarrow> mem_rd d2 pos;
          let count = unat b1;
          if b1 \<noteq> b2 then Some False
          else if count \<le> 63
          then do { chdiff \<leftarrow> chars_diff d1 (pos + 1) d2 (pos + 1) count;
                    if chdiff \<noteq> 0 then Some False
                    else name_equal_loop d1 d2 (pos + 1 + count) l }
          else None }"

definition same_absolute :: "dns_name \<Rightarrow> dns_name \<Rightarrow> bool" where
  "same_absolute name1 name2 \<longleftrightarrow> nm_magic name1 \<and> nm_magic name2 \<and>
     nm_attributes name1 AND DNS_NAMEATTR_ABSOLUTE = nm_attributes name2 AND DNS_NAMEATTR_ABSOLUTE"

definition dns_name_equal :: "dns_name \<Rightarrow> dns_name \<Rightarrow> bool option" where
  "dns_name_equal name1 name2 =
     (if same_absolute name1 name2
      then if nm_length name1 \<noteq> nm_length name2 then Some False
           else if nm_labels name1 \<noteq> nm_labels name2 then Some False
           else name_equal_loop (nm_ndata name1) (nm_ndata name2) 0 (nm_labels name1)
      else None)"

definition dns_name_caseequal :: "dns_name \<Rightarrow> dns_name \<Rightarrow> bool option" where
  "dns_name_caseequal name1 name2 =
     (if same_absolute name1 name2
      then Some (nm_length name1 = nm_length name2 \<and> nm_ndata name1 = nm_ndata name2)
      else None)"

fun rdatacompare_loop :: "u8 list \<Rightarrow> u8 list \<Rightarrow> nat \<Rightarrow> nat \<Rightarrow> int option" where
  "rdatacompare_loop d1 d2 pos 0 = Some 0"
| "rdatacompare_loop d1 d2 pos (Suc l) =
     do { b1 \<leftarrow> mem_rd d1 pos; b2 \<leftarrow> mem_rd d2 pos;
          let count1 = unat b1; let count2 = unat b2;
          if count1 \<le> 63 \<and> count2 \<le> 63
          then if count1 \<noteq> count2 then Some (if count1 < count2 then - 1 else 1)
               else do { chdiff \<leftarrow> chars_diff d1 (pos + 1) d2 (pos + 1) count1;
                         if chdiff < 0 then Some (- 1)
                         else if chdiff > 0 then Some 1
                         else rdatacompare_loop d1 d2 (pos + 1 + count1) l }
          else None }"

definition dns_name_rdatacompare :: "dns_name \<Rightarrow> dns_name \<Rightarrow> int option" where
  "dns_name_rdatacompare name1 name2 =
     (if nm_magic name1 \<and> nm_labels name1 > 0 \<and> nm_attributes name1 AND DNS_NAMEATTR_ABSOLUTE \<noteq> 0 \<and>
         nm_magic name2 \<and> nm_labels name2 > 0 \<and> nm_attributes name2 AND DNS_NAMEATTR_ABSOLUTE \<noteq> 0
      then do { let l1 = nm_labels name1; let l2 = nm_labels name2;
                r \<leftarrow> rdatacompare_loop (nm_ndata name1) (nm_ndata name2) 0 (if l1 < l2 then l1 else l2);
                if r \<noteq> 0 then Some r else if l1 = l2 then Some 0 else None }
      else None)"

definition dns_name_issubdomain :: "dns_name \<Rightarrow> dns_name \<Rightarrow> bool option" where
  "dns_name_issubdomain name1 name2 =
     do { (reln, order, nlabels) \<leftarrow> dns_name_fullcompare name1 name2;
          Some (reln = dns_namereln_subdomain \<or> reln = dns_namereln_equal) }"

section \<open>Labels of a name\<close>

definition dns_name_countlabels :: "dns_name \<Rightarrow> nat option" where
  "dns_name_countlabels name =
     (if nm_magic name \<and> nm_labels name \<le> 128 then Some (nm_labels name) else None)"

definition dns_name_getlabel :: "dns_name \<Rightarrow> nat \<Rightarrow> u8 list option" where
  "dns_name_getlabel name n =
     (if nm_magic name \<and> nm_labels name > 0 \<and> n < nm_labels name
      then do { offsets \<leftarrow> SETUP_OFFSETS name; label_region name offsets n }
      else None)"

text \<open>The argument \<open>same\<close> says whether source and target are one object.\<close>

definition dns_name_getlabelsequence ::
    "bool \<Rightarrow> dns_name \<Rightarrow> nat \<Rightarrow> nat \<Rightarrow> dns_name \<Rightarrow> dns_name option" where
  "dns_name_getlabelsequence same source first n target =
     (if nm_magic source \<and> nm_magic target \<and> first \<le> nm_labels source \<and>
         n \<le> nm_labels source - first \<and> BINDABLE target
      then do { offsets \<leftarrow> SETUP_OFFSETS source;
                firstoffset \<leftarrow> (if first = nm_labels source then Some (nm_length source)
                               else offs_at offsets first);
                endoffset \<leftarrow> (if first + n = nm_labels source then Some (nm_length source)
                             else offs_at offsets (first + n));
                ndata \<leftarrow> mem_blk (nm_ndata source) firstoffset (u32_sub endoffset firstoffset);
                let absolute = (first + n = nm_labels source \<and> n > 0 \<and>
                                nm_attributes source AND DNS_NAMEATTR_ABSOLUTE \<noteq> 0);
                let t1 = target\<lparr>nm_ndata := ndata, nm_labels := n,
                           nm_attributes := (if absolute then nm_attributes target OR DNS_NAMEATTR_ABSOLUTE
                                             else nm_attributes target AND NOT DNS_NAMEATTR_ABSOLUTE)\<rparr>;
                if nm_offsets target \<noteq> None \<and> (\<not> same \<or> first \<noteq> 0)
                then do { offs \<leftarrow> set_offsets t1; Some (t1\<lparr>nm_offsets := Some offs\<rparr>) }
                else Some t1 }
      else None)"

definition dns_name_clone :: "dns_name \<Rightarrow> dns_name \<Rightarrow> dns_name option" where
  "dns_name_clone source target =
     (if nm_magic source \<and> nm_magic target \<and> BINDABLE target
      then do { let t1 = target\<lparr>nm_ndata := nm_ndata source, nm_labels := nm_labels source,
                  nm_attributes := nm_attributes source AND
                    NOT (DNS_NAMEATTR_READONLY OR DNS_NAMEATTR_DYNAMIC OR DNS_NAMEATTR_DYNOFFSETS)\<rparr>;
                if nm_offsets target \<noteq> None \<and> nm_labels source > 0
                then case nm_offsets source of
                       Some offs \<Rightarrow> Some (t1\<lparr>nm_offsets := Some (take (nm_labels source) offs)\<rparr>)
                     | None \<Rightarrow> do { offs \<leftarrow> set_offsets t1; Some (t1\<lparr>nm_offsets := Some offs\<rparr>) }
                else Some t1 }
      else None)"

text \<open>
  The bytes that the name refers to: those of the region, or a copy of them in the dedicated buffer.
\<close>

definition fromregion_ndata :: "dns_name \<Rightarrow> u8 list \<Rightarrow> (u8 list \<times> isc_buffer option) option" where
  "fromregion_ndata name r =
     (case nm_buffer name of
        None \<Rightarrow> Some (if length r \<le> DNS_NAME_MAXWIRE then r else take DNS_NAME_MAXWIRE r, None)
      | Some buffer \<Rightarrow>
          do { buffer \<leftarrow> isc_buffer_clear buffer;
               r2 \<leftarrow> isc_buffer_availableregion buffer;
               let len = (if length r < length r2 then length r else length r2);
               let len = (if len > DNS_NAME_MAXWIRE then DNS_NAME_MAXWIRE else len);
               base \<leftarrow> mem_wr (b_base buffer) (b_used buffer) (take len r);
               Some (take len r, Some (buffer\<lparr>b_base := base\<rparr>)) })"

definition dns_name_fromregion :: "dns_name \<Rightarrow> u8 list \<Rightarrow> dns_name option" where
  "dns_name_fromregion name r =
     (if nm_magic name \<and> BINDABLE name
      then do { (ndata, buffer) \<leftarrow> fromregion_ndata name r;
                let n1 = name\<lparr>nm_ndata := ndata, nm_buffer := buffer\<rparr>;
                n2 \<leftarrow> (if length r > 0
                       then do { (offs, n2) \<leftarrow> set_offsets_name n1;
                                 Some (if nm_offsets name \<noteq> None then n2\<lparr>nm_offsets := Some offs\<rparr> else n2) }
                       else Some (n1\<lparr>nm_labels := 0,
                                     nm_attributes := nm_attributes name AND NOT DNS_NAMEATTR_ABSOLUTE\<rparr>));
                case nm_buffer n2 of
                  None \<Rightarrow> Some n2
                | Some buffer \<Rightarrow>
                    do { buffer \<leftarrow> isc_buffer_add buffer (nm_length n2); Some (n2\<lparr>nm_buffer := Some buffer\<rparr>) } }
      else None)"

definition dns_name_toregion :: "dns_name \<Rightarrow> u8 list option" where
  "dns_name_toregion name = (if nm_magic name then Some (nm_ndata name) else None)"

text \<open>
  The loop of \<open>dns_name_downcase\<close>; its bytes are collected and stored in one piece.
\<close>

fun downcase_loop :: "u8 list \<Rightarrow> nat \<Rightarrow> nat \<Rightarrow> nat \<Rightarrow> u8 list option" where
  "downcase_loop sndata pos 0 nlen = Some []"
| "downcase_loop sndata pos (Suc labels) nlen =
     (if nlen > 0
      then do { c \<leftarrow> mem_rd sndata pos;
                let count = unat c;
                if count < 64 \<and> nlen - 1 \<ge> count
                then do { bs \<leftarrow> mem_blk sndata (pos + 1) count;
                          out \<leftarrow> downcase_loop sndata (pos + 1 + count) labels (nlen - 1 - count);
                          Some (c # map maptolower bs @ out) }
                else None }
      else Some [])"

text \<open>\<open>dns_name_downcase\<close> for two different objects, and in place.\<close>

definition dns_name_downcase ::
    "dns_name \<Rightarrow> dns_name \<Rightarrow> isc_buffer \<Rightarrow> (isc_result \<times> dns_name \<times> isc_buffer) option" where
  "dns_name_downcase source name target =
     (if nm_magic source \<and> nm_magic name \<and> BINDABLE name \<and> b_magic target
      then if nm_length source > u32_sub (b_length target) (b_used target)
           then Some (ISC_R_NOSPACE, MAKE_EMPTY name, target)
           else do { bs \<leftarrow> downcase_loop (nm_ndata source) 0 (nm_labels source) (nm_length source);
                     base \<leftarrow> mem_wr (b_base target) (b_used target) bs;
                     let t1 = target\<lparr>b_base := base\<rparr>;
                     ndata \<leftarrow> mem_blk base (b_used target) (nm_length source);
                     let n1 = name\<lparr>nm_ndata := ndata, nm_labels := nm_labels source,
                       nm_attributes := (if nm_attributes source AND DNS_NAMEATTR_ABSOLUTE \<noteq> 0
                                         then DNS_NAMEATTR_ABSOLUTE else 0)\<rparr>;
                     n2 \<leftarrow> fill_offsets n1;
                     t2 \<leftarrow> isc_buffer_add t1 (nm_length n2);
                     Some (ISC_R_SUCCESS, n2, t2) }
      else None)"

definition dns_name_downcase_inplace :: "dns_name \<Rightarrow> (isc_result \<times> dns_name) option" where
  "dns_name_downcase_inplace name =
     (if nm_magic name \<and> nm_attributes name AND DNS_NAMEATTR_READONLY = 0
      then do { bs \<leftarrow> downcase_loop (nm_ndata name) 0 (nm_labels name) (nm_length name);
                ndata \<leftarrow> mem_wr (nm_ndata name) 0 bs;
                t \<leftarrow> isc_buffer_add (isc_buffer_init ndata (nm_length name)) (nm_length name);
                Some (ISC_R_SUCCESS, name\<lparr>nm_ndata := ndata\<rparr>) }
      else None)"

section \<open>Concatenation, splitting and copies\<close>

text \<open>
  \<open>dns_name_concatenate\<close> for a target name that is neither the prefix nor the suffix.
\<close>

definition dns_name_concatenate ::
    "dns_name option \<Rightarrow> dns_name option \<Rightarrow> dns_name \<Rightarrow> isc_buffer \<Rightarrow>
       (isc_result \<times> dns_name \<times> isc_buffer) option" where
  "dns_name_concatenate pfx sfx name target =
     (let part = (\<lambda>p. case p of None \<Rightarrow> None | Some n \<Rightarrow> if nm_labels n = 0 then None else Some n);
          isabs = (\<lambda>p. case part p of None \<Rightarrow> False | Some n \<Rightarrow> nm_attributes n AND DNS_NAMEATTR_ABSOLUTE \<noteq> 0);
          ndata = (\<lambda>p. case part p of None \<Rightarrow> [] | Some n \<Rightarrow> nm_ndata n);
          labels = (\<lambda>p. case part p of None \<Rightarrow> 0 | Some n \<Rightarrow> nm_labels n)
      in if pred_option nm_magic pfx \<and> pred_option nm_magic sfx \<and>
            nm_magic name \<and> b_magic target \<and> (isabs pfx \<longrightarrow> part sfx = None) \<and> BINDABLE name
         then do { let nrem = u32_sub (b_length target) (b_used target);
                   let nrem = (if nrem > DNS_NAME_MAXWIRE then DNS_NAME_MAXWIRE else nrem);
                   let len = length (ndata pfx) + length (ndata sfx);
                   if len > DNS_NAME_MAXWIRE then Some (DNS_R_NAMETOOLONG, MAKE_EMPTY name, target)
                   else if len > nrem then Some (ISC_R_NOSPACE, MAKE_EMPTY name, target)
                   else do { base \<leftarrow> mem_wr (b_base target) (b_used target + length (ndata pfx)) (ndata sfx);
                             base \<leftarrow> mem_wr base (b_used target) (ndata pfx);
                             let t1 = target\<lparr>b_base := base\<rparr>;
                             nd \<leftarrow> mem_blk base (b_used target) len;
                             let n1 = name\<lparr>nm_ndata := nd, nm_labels := labels pfx + labels sfx,
                               nm_attributes := (if isabs pfx \<or> isabs sfx
                                                 then DNS_NAMEATTR_ABSOLUTE else 0)\<rparr>;
                             n2 \<leftarrow> fill_offsets n1;
                             t2 \<leftarrow> isc_buffer_add t1 (nm_length n2);
                             Some (ISC_R_SUCCESS, n2, t2) } }
         else None)"

text \<open>
  \<open>dns_name_split\<close> for parts that are different from the name; either of them may be null, and a part
  that is wanted must have a dedicated buffer.
\<close>

definition split_target :: "dns_name \<Rightarrow> bool" where
  "split_target part \<longleftrightarrow> nm_magic part \<and> nm_buffer part \<noteq> None \<and> BINDABLE part"

definition split_part :: "dns_name \<Rightarrow> nat \<Rightarrow> nat \<Rightarrow> dns_name option \<Rightarrow> dns_name option option" where
  "split_part name first n part =
     (case part of
        None \<Rightarrow> Some None
      | Some target \<Rightarrow> do { p \<leftarrow> dns_name_getlabelsequence False name first n target; Some (Some p) })"

definition dns_name_split ::
    "dns_name \<Rightarrow> nat \<Rightarrow> dns_name option \<Rightarrow> dns_name option \<Rightarrow> (dns_name option \<times> dns_name option) option" where
  "dns_name_split name suffixlabels pfx sfx =
     (if nm_magic name \<and> suffixlabels > 0 \<and> suffixlabels < nm_labels name \<and> (pfx \<noteq> None \<or> sfx \<noteq> None) \<and>
         pred_option split_target pfx \<and> pred_option split_target sfx
      then do { let splitlabel = nm_labels name - suffixlabels;
                p \<leftarrow> split_part name 0 splitlabel pfx;
                s \<leftarrow> split_part name splitlabel suffixlabels sfx;
                Some (p, s) }
      else None)"

text \<open>The offsets of a copy: those of the source if it has some, else computed.\<close>

definition copy_offsets :: "dns_name \<Rightarrow> dns_name \<Rightarrow> dns_name option" where
  "copy_offsets source target =
     (case nm_offsets source of
        Some offs \<Rightarrow> Some (target\<lparr>nm_offsets := Some (take (nm_labels source) offs)\<rparr>)
      | None \<Rightarrow> do { offs \<leftarrow> set_offsets target; Some (target\<lparr>nm_offsets := Some offs\<rparr>) })"

definition dns_name_dup ::
    "dns_name \<Rightarrow> (nat \<Rightarrow> mem option) \<Rightarrow> dns_name \<Rightarrow> (isc_result \<times> dns_name) option" where
  "dns_name_dup source get target =
     (if nm_magic source \<and> nm_length source > 0 \<and> nm_magic target \<and> BINDABLE target
      then case get (nm_length source) of
             None \<Rightarrow> Some (ISC_R_NOMEMORY, MAKE_EMPTY target)
           | Some m \<Rightarrow>
               do { ndata \<leftarrow> mem_wr m 0 (nm_ndata source);
                    let t1 = target\<lparr>nm_ndata := take (nm_length source) ndata,
                      nm_labels := nm_labels source,
                      nm_attributes := (if nm_attributes source AND DNS_NAMEATTR_ABSOLUTE \<noteq> 0
                        then DNS_NAMEATTR_DYNAMIC OR DNS_NAMEATTR_ABSOLUTE else DNS_NAMEATTR_DYNAMIC)\<rparr>;
                    t2 \<leftarrow> (if nm_offsets target \<noteq> None then copy_offsets source t1 else Some t1);
                    Some (ISC_R_SUCCESS, t2) }
      else None)"

definition dns_name_dupwithoffsets ::
    "dns_name \<Rightarrow> (nat \<Rightarrow> mem option) \<Rightarrow> dns_name \<Rightarrow> (isc_result \<times> dns_name) option" where
  "dns_name_dupwithoffsets source get target =
     (if nm_magic source \<and> nm_length source > 0 \<and> nm_magic target \<and> BINDABLE target \<and>
         nm_offsets target = None
      then case get (nm_length source + nm_labels source) of
             None \<Rightarrow> Some (ISC_R_NOMEMORY, MAKE_EMPTY target)
           | Some m \<Rightarrow>
               do { ndata \<leftarrow> mem_wr m 0 (nm_ndata source);
                    let dyn = DNS_NAMEATTR_DYNAMIC OR DNS_NAMEATTR_DYNOFFSETS OR DNS_NAMEATTR_READONLY;
                    let t1 = target\<lparr>nm_ndata := take (nm_length source) ndata,
                      nm_labels := nm_labels source,
                      nm_attributes := (if nm_attributes source AND DNS_NAMEATTR_ABSOLUTE \<noteq> 0
                        then dyn OR DNS_NAMEATTR_ABSOLUTE else dyn)\<rparr>;
                    t2 \<leftarrow> copy_offsets source t1;
                    Some (ISC_R_SUCCESS, t2) }
      else None)"

text \<open>\<open>dns_name_free\<close> returns the size it gives back to the allocator.\<close>

definition dns_name_free :: "dns_name \<Rightarrow> (nat \<times> dns_name) option" where
  "dns_name_free name =
     (if nm_magic name \<and> nm_attributes name AND DNS_NAMEATTR_DYNAMIC \<noteq> 0
      then do { let size = nm_length name +
                  (if nm_attributes name AND DNS_NAMEATTR_DYNOFFSETS \<noteq> 0 then nm_labels name else 0);
                dead \<leftarrow> dns_name_invalidate name;
                Some (size, dead) }
      else None)"

definition dns_name_copy ::
    "dns_name \<Rightarrow> dns_name \<Rightarrow> isc_buffer \<Rightarrow> (isc_result \<times> dns_name \<times> isc_buffer) option" where
  "dns_name_copy source dest target =
     (if nm_magic source \<and> nm_magic dest \<and> BINDABLE dest
      then if u32_sub (b_length target) (b_used target) < nm_length source
           then Some (ISC_R_NOSPACE, dest, target)
           else do { base \<leftarrow> mem_wr (b_base target) (b_used target) (nm_ndata source);
                     let d1 = dest\<lparr>nm_ndata := nm_ndata source, nm_labels := nm_labels source,
                       nm_attributes := (if nm_attributes source AND DNS_NAMEATTR_ABSOLUTE \<noteq> 0
                                         then DNS_NAMEATTR_ABSOLUTE else 0)\<rparr>;
                     d2 \<leftarrow> (if nm_labels d1 > 0 \<and> nm_offsets dest \<noteq> None
                            then copy_offsets source d1 else Some d1);
                     t2 \<leftarrow> isc_buffer_add (target\<lparr>b_base := base\<rparr>) (nm_length d2);
                     Some (ISC_R_SUCCESS, d2, t2) }
      else None)"

section \<open>Kinds of names\<close>

definition dns_name_iswildcard :: "dns_name \<Rightarrow> bool option" where
  "dns_name_iswildcard name =
     (if nm_magic name \<and> nm_labels name > 0
      then Some (nm_length name \<ge> 2 \<and> nm_ndata name ! 0 = 1 \<and> nm_ndata name ! 1 = 0x2a)
      else None)"

definition dns_name_matcheswildcard :: "dns_name \<Rightarrow> dns_name \<Rightarrow> bool option" where
  "dns_name_matcheswildcard name wname =
     (if nm_magic name \<and> nm_labels name > 0 \<and> nm_magic wname \<and> nm_labels wname > 0 \<and>
         dns_name_iswildcard wname = Some True
      then do { tname \<leftarrow> dns_name_getlabelsequence False wname 1 (nm_labels wname - 1) (dns_name_init None);
                (reln, order, nlabels) \<leftarrow> dns_name_fullcompare name tname;
                Some (reln = dns_namereln_subdomain) }
      else None)"

fun internalwildcard_loop :: "u8 list \<Rightarrow> nat \<Rightarrow> nat \<Rightarrow> bool option" where
  "internalwildcard_loop ndata pos 0 = Some False"
| "internalwildcard_loop ndata pos (Suc left) =
     do { c \<leftarrow> mem_rd ndata pos;
          let count = unat c;
          if count \<le> 63
          then do { star \<leftarrow> (if count = 1 then do { x \<leftarrow> mem_rd ndata (pos + 1); Some (x = 0x2a) }
                            else Some False);
                    if star then Some True
                    else internalwildcard_loop ndata (pos + 1 + count) left }
          else None }"

text \<open>The loop runs while \<open>label + 1 < labels\<close>, from \<open>label = 1\<close>.\<close>

definition dns_name_internalwildcard :: "dns_name \<Rightarrow> bool option" where
  "dns_name_internalwildcard name =
     (if nm_magic name \<and> nm_labels name > 0
      then do { c \<leftarrow> mem_rd (nm_ndata name) 0;
                if unat c \<le> 63
                then internalwildcard_loop (nm_ndata name) (1 + unat c) (nm_labels name - 2)
                else None }
      else None)"

definition hyphenchar :: "u8 \<Rightarrow> bool" where "hyphenchar c \<longleftrightarrow> c = 0x2d"
definition alphachar :: "u8 \<Rightarrow> bool" where
  "alphachar c \<longleftrightarrow> 0x41 \<le> c \<and> c \<le> 0x5a \<or> 0x61 \<le> c \<and> c \<le> 0x7a"
definition digitchar :: "u8 \<Rightarrow> bool" where "digitchar c \<longleftrightarrow> 0x30 \<le> c \<and> c \<le> 0x39"
definition borderchar :: "u8 \<Rightarrow> bool" where "borderchar c \<longleftrightarrow> alphachar c \<or> digitchar c"
definition middlechar :: "u8 \<Rightarrow> bool" where "middlechar c \<longleftrightarrow> borderchar c \<or> hyphenchar c"
definition domainchar :: "u8 \<Rightarrow> bool" where "domainchar c \<longleftrightarrow> c > 0x20 \<and> c < 0x7f"

text \<open>The inner loop: \<open>n\<close> characters from \<open>pos\<close>; inside it the counter is already one less.\<close>

fun hostname_chars :: "u8 list \<Rightarrow> nat \<Rightarrow> nat \<Rightarrow> bool \<Rightarrow> bool option" where
  "hostname_chars ndata pos 0 first = Some True"
| "hostname_chars ndata pos (Suc n) first =
     do { ch \<leftarrow> mem_rd ndata pos;
          if (if first \<or> n = 0 then borderchar ch else middlechar ch)
          then hostname_chars ndata (pos + 1) n False else Some False }"

function hostname_loop :: "u8 list \<Rightarrow> nat \<Rightarrow> bool option" where
  "hostname_loop ndata pos =
     (if pos < length ndata
      then do { c \<leftarrow> mem_rd ndata pos;
                if unat c \<le> 63
                then do { ok \<leftarrow> hostname_chars ndata (pos + 1) (unat c) True;
                          if ok then hostname_loop ndata (pos + 1 + unat c) else Some False }
                else None }
      else Some True)"
  by pat_completeness auto
termination by (relation "measure (\<lambda>(ndata, pos). length ndata - pos)") auto

declare hostname_loop.simps [simp del]

definition dns_name_ishostname :: "dns_name \<Rightarrow> bool \<Rightarrow> bool option" where
  "dns_name_ishostname name wildcard =
     (if nm_magic name \<and> nm_labels name > 0 \<and> nm_attributes name AND DNS_NAMEATTR_ABSOLUTE \<noteq> 0
      then if nm_length name = 1 then Some True
           else do { skip \<leftarrow> (if wildcard
                              then do { a \<leftarrow> mem_rd (nm_ndata name) 0; b \<leftarrow> mem_rd (nm_ndata name) 1;
                                        Some (if a = 1 \<and> b = 0x2a then 2 else 0) }
                              else Some 0);
                     hostname_loop (nm_ndata name) skip }
      else None)"

fun domain_chars :: "u8 list \<Rightarrow> nat \<Rightarrow> nat \<Rightarrow> bool option" where
  "domain_chars ndata pos 0 = Some True"
| "domain_chars ndata pos (Suc n) =
     do { ch \<leftarrow> mem_rd ndata pos;
          if domainchar ch then domain_chars ndata (pos + 1) n else Some False }"

definition dns_name_ismailbox :: "dns_name \<Rightarrow> bool option" where
  "dns_name_ismailbox name =
     (if nm_magic name \<and> nm_labels name > 0 \<and> nm_attributes name AND DNS_NAMEATTR_ABSOLUTE \<noteq> 0
      then if nm_length name = 1 then Some True
           else do { c \<leftarrow> mem_rd (nm_ndata name) 0;
                     if unat c \<le> 63
                     then do { local \<leftarrow> domain_chars (nm_ndata name) 1 (unat c);
                               if \<not> local then Some False
                               else if 1 + unat c = nm_length name then Some False
                               else hostname_loop (nm_ndata name) (1 + unat c) }
                     else None }
      else None)"

section \<open>Names as sequences of labels\<close>

type_synonym label = "u8 list"

definition enc_label :: "label \<Rightarrow> u8 list" where
  "enc_label l = word_of_nat (length l) # l"

definition name_wire :: "label list \<Rightarrow> u8 list" where
  "name_wire ls = concat (map enc_label ls)"

text \<open>The position of the \<open>i\<close>-th label.\<close>

definition name_off :: "label list \<Rightarrow> nat \<Rightarrow> nat" where
  "name_off ls i = length (name_wire (take i ls))"

text \<open>
  The labels of a legal name: at most 63 bytes each, the empty (root) label only at the end, and
  no more than 255 bytes in all.
\<close>

definition wf_labels :: "label list \<Rightarrow> bool" where
  "wf_labels ls \<longleftrightarrow> (\<forall>l \<in> set ls. length l \<le> 63) \<and> [] \<notin> set (butlast ls) \<and>
     length (name_wire ls) \<le> DNS_NAME_MAXWIRE"

definition abs_labels :: "label list \<Rightarrow> bool" where
  "abs_labels ls \<longleftrightarrow> ls \<noteq> [] \<and> last ls = []"

definition is_abs :: "dns_name \<Rightarrow> bool" where
  "is_abs name \<longleftrightarrow> nm_attributes name AND DNS_NAMEATTR_ABSOLUTE \<noteq> 0"

definition represents :: "dns_name \<Rightarrow> label list \<Rightarrow> bool" where
  "represents name ls \<longleftrightarrow> nm_magic name \<and> wf_labels ls \<and> nm_ndata name = name_wire ls \<and>
     nm_labels name = length ls \<and> (is_abs name \<longleftrightarrow> abs_labels ls) \<and>
     (\<forall>offs. nm_offsets name = Some offs \<longrightarrow>
        take (length ls) offs = map (name_off ls) [0..<length ls])"

lemma name_wire_simps [simp]:
  "name_wire [] = []"
  "name_wire (l # ls) = enc_label l @ name_wire ls"
  "name_wire (as @ bs) = name_wire as @ name_wire bs"
  by (simp_all add: name_wire_def)

lemma length_enc_label [simp]: "length (enc_label l) = Suc (length l)"
  by (simp add: enc_label_def)

lemma enc_label_neq_Nil [simp]: "enc_label l \<noteq> []"
  by (simp add: enc_label_def)

lemma name_wire_eq_Nil [simp]: "name_wire ls = [] \<longleftrightarrow> ls = []"
  by (cases ls) auto

lemma name_off_0 [simp]: "name_off ls 0 = 0"
  by (simp add: name_off_def)

lemma name_off_length: "name_off ls (length ls) = length (name_wire ls)"
  by (simp add: name_off_def)

lemma name_off_Suc: "i < length ls \<Longrightarrow> name_off ls (Suc i) = name_off ls i + 1 + length (ls ! i)"
  by (simp add: name_off_def take_Suc_conv_app_nth)

lemma name_wire_at:
  "i < length ls \<Longrightarrow>
     name_wire ls = name_wire (take i ls) @ enc_label (ls ! i) @ name_wire (drop (Suc i) ls)"
  by (metis append_take_drop_id Cons_nth_drop_Suc name_wire_simps(2,3))

lemma name_wire_split: "name_wire ls = name_wire (take i ls) @ name_wire (drop i ls)"
  by (metis append_take_drop_id name_wire_simps(3))

lemma wf_labelsD:
  assumes "wf_labels ls"
  shows "l \<in> set ls \<Longrightarrow> length l \<le> 63" "i < length ls \<Longrightarrow> length (ls ! i) \<le> 63"
    "length (name_wire ls) \<le> 255"
    "Suc i < length ls \<Longrightarrow> ls ! i \<noteq> []"
proof -
  show "ls ! i \<noteq> []" if "Suc i < length ls"
  proof -
    have "i < length (butlast ls)" using that by simp
    then have "ls ! i \<in> set (butlast ls)" using nth_mem nth_butlast by metis
    then show ?thesis using assms by (auto simp: wf_labels_def)
  qed
qed (use assms in \<open>auto simp: wf_labels_def DNS_NAME_MAXWIRE_def\<close>)

lemma unat_len: "length l \<le> 63 \<Longrightarrow> unat (word_of_nat (length l) :: u8) = length l"
  by (simp add: unat_byte)

lemma length_name_wire_ge: "[] \<notin> set ls \<Longrightarrow> 2 * length ls \<le> length (name_wire ls)"
proof (induction ls)
  case (Cons l ls)
  then have "1 \<le> length l" by (cases l) auto
  then show ?case using Cons by auto
qed simp

lemma wf_labels_count: "wf_labels ls \<Longrightarrow> length ls \<le> 128"
proof (cases ls rule: rev_exhaust)
  case (snoc xs x)
  moreover assume "wf_labels ls"
  ultimately show ?thesis
    using length_name_wire_ge [of xs] by (simp add: wf_labels_def DNS_NAME_MAXWIRE_def)
qed simp

lemma wf_labels_butlast: "[] \<notin> set (butlast (xs @ ys)) \<Longrightarrow> [] \<notin> set (butlast xs) \<and> [] \<notin> set (butlast ys)"
  by (auto simp: butlast_append dest: in_set_butlastD split: if_splits)

lemma wf_labels_take_drop:
  assumes "wf_labels ls"
  shows "wf_labels (take i ls)" "wf_labels (drop i ls)"
proof -
  have "[] \<notin> set (butlast (take i ls)) \<and> [] \<notin> set (butlast (drop i ls))"
    using wf_labels_butlast [of "take i ls" "drop i ls"] assms by (simp add: wf_labels_def)
  moreover have "length (name_wire ls) = length (name_wire (take i ls)) + length (name_wire (drop i ls))"
    by (subst name_wire_split [of _ i]) simp
  ultimately show "wf_labels (take i ls)" "wf_labels (drop i ls)"
    using assms by (auto simp: wf_labels_def dest: in_set_takeD in_set_dropD)
qed

lemma abs_labels_drop: "i < length ls \<Longrightarrow> abs_labels (drop i ls) = abs_labels ls"
  by (auto simp: abs_labels_def)

lemma abs_labels_take: "wf_labels ls \<Longrightarrow> i < length ls \<Longrightarrow> \<not> abs_labels (take i ls)"
proof
  assume *: "wf_labels ls" "i < length ls" "abs_labels (take i ls)"
  then have "i > 0" by (cases i) (auto simp: abs_labels_def)
  then have "last (take i ls) = ls ! (i - 1)"
    using *(2) by (subst last_conv_nth) auto
  moreover have "ls ! (i - 1) \<noteq> []" using wf_labelsD(4) [OF *(1), of "i - 1"] *(2) \<open>i > 0\<close> by simp
  ultimately show False using *(3) by (simp add: abs_labels_def)
qed

lemma mem_rd_label:
  "i < length ls \<Longrightarrow> mem_rd (name_wire ls) (name_off ls i) = Some (word_of_nat (length (ls ! i)))"
  using name_wire_at [of i ls] mem_rd_mid [of "name_off ls i" "name_wire (take i ls)"]
  by (simp add: name_off_def enc_label_def)

lemma mem_blk_labels:
  assumes "i \<le> j" "j \<le> length ls"
  shows "mem_blk (name_wire ls) (name_off ls i) (name_off ls j - name_off ls i) =
    Some (name_wire (take (j - i) (drop i ls)))" "name_off ls i \<le> name_off ls j"
proof -
  have "take j ls = take i ls @ take (j - i) (drop i ls)"
    using assms by (metis take_add le_add_diff_inverse)
  then have w: "name_wire (take j ls) = name_wire (take i ls) @ name_wire (take (j - i) (drop i ls))"
    by simp
  then have "name_wire ls =
      name_wire (take i ls) @ name_wire (take (j - i) (drop i ls)) @ name_wire (drop j ls)"
    using name_wire_split [of ls j] by simp
  then show "mem_blk (name_wire ls) (name_off ls i) (name_off ls j - name_off ls i) =
      Some (name_wire (take (j - i) (drop i ls)))"
    using w by (simp add: name_off_def mem_blk_mid)
  show "name_off ls i \<le> name_off ls j" using w by (simp add: name_off_def)
qed

lemma name_off_le: "wf_labels ls \<Longrightarrow> i \<le> length ls \<Longrightarrow> name_off ls i \<le> 255"
  using mem_blk_labels(2) [of i "length ls" ls] wf_labelsD(3) [of ls] by (simp add: name_off_length)

section \<open>The offsets table of a legal name\<close>

lemma set_offsets_loop_wire:
  assumes "wf_labels (pre @ ls)" "[] \<notin> set pre"
  shows "set_offsets_loop (name_wire (pre @ ls)) (length (name_wire pre))
      (map (name_off (pre @ ls)) [0..<length pre]) =
    Some (map (name_off (pre @ ls)) [0..<length (pre @ ls)], length (name_wire (pre @ ls)),
      abs_labels (pre @ ls))"
  using assms
proof (induction ls arbitrary: pre)
  case Nil
  then have "\<not> abs_labels pre" by (metis abs_labels_def append_Nil2 last_in_set)
  then show ?case by (simp add: set_offsets_loop.simps)
next
  case (Cons l ls)
  let ?all = "pre @ l # ls"
  have l: "length l \<le> 63" using Cons.prems(1) by (simp add: wf_labels_def)
  have "length pre < 128" using wf_labels_count [OF Cons.prems(1)] by simp
  moreover have "mem_rd (name_wire ?all) (length (name_wire pre)) = Some (word_of_nat (length l))"
    using mem_rd_label [of "length pre" ?all] by (simp add: name_off_def)
  moreover have "[name_off ?all (length pre)] = [length (name_wire pre)]"
    by (simp add: name_off_def)
  ultimately have step: "set_offsets_loop (name_wire ?all) (length (name_wire pre))
      (map (name_off ?all) [0..<length pre]) =
    (if l = [] then Some (map (name_off ?all) [0..<Suc (length pre)], length (name_wire pre) + 1, True)
     else set_offsets_loop (name_wire ?all) (length (name_wire (pre @ [l])))
            (map (name_off ?all) [0..<length (pre @ [l])]))"
    using l by (subst set_offsets_loop.simps) (simp add: unat_len Let_def name_off_def)
  show ?case
  proof (cases "l = []")
    case True
    moreover have "ls = []"
      using Cons.prems(1) True by (auto simp: wf_labels_def butlast_append split: if_splits)
    ultimately show ?thesis using step by (simp add: abs_labels_def)
  next
    case False
    then show ?thesis using Cons.IH [of "pre @ [l]"] Cons.prems step by simp
  qed
qed

lemma set_offsets_loop_ok:
  "wf_labels ls \<Longrightarrow> set_offsets_loop (name_wire ls) 0 [] =
     Some (map (name_off ls) [0..<length ls], length (name_wire ls), abs_labels ls)"
  using set_offsets_loop_wire [of "[]" ls] by simp

lemma set_offsets_ok:
  "wf_labels ls \<Longrightarrow> nm_ndata name = name_wire ls \<Longrightarrow> nm_labels name = length ls \<Longrightarrow>
     set_offsets name = Some (map (name_off ls) [0..<length ls])"
  by (simp add: set_offsets_def set_offsets_loop_ok)

lemma representsD:
  assumes "represents name ls"
  shows "nm_magic name" "wf_labels ls" "nm_ndata name = name_wire ls" "nm_labels name = length ls"
    "is_abs name \<longleftrightarrow> abs_labels ls" "nm_length name \<le> 255" "length ls \<le> 128"
  using assms wf_labelsD(3) wf_labels_count by (auto simp: represents_def)

lemma setup_offsets_ok:
  assumes "represents name ls"
  shows "\<exists>offs. SETUP_OFFSETS name = Some offs \<and>
    (\<forall>i < length ls. offs_at offs i = Some (name_off ls i))"
proof (cases "nm_offsets name")
  case None
  then have "SETUP_OFFSETS name = Some (map (name_off ls) [0..<length ls])"
    using representsD [OF assms] set_offsets_ok by (simp add: SETUP_OFFSETS_def)
  then show ?thesis by (simp add: offs_at_def)
next
  case (Some offs)
  then have t: "take (length ls) offs = map (name_off ls) [0..<length ls]"
    using assms by (simp add: represents_def)
  then have "length ls \<le> length offs" by (metis length_map length_take length_upt min.cobounded1 diff_zero)
  moreover have "offs ! i = name_off ls i" if "i < length ls" for i
  proof -
    have "offs ! i = take (length ls) offs ! i" using that by simp
    then show ?thesis using that by (simp only: t) simp
  qed
  ultimately show ?thesis using Some by (auto simp: SETUP_OFFSETS_def offs_at_def)
qed

section \<open>Comparison of legal names\<close>

text \<open>
  The specification: the canonical order of names (RFC 4034, section 6.1) compares the labels in
  lower case, the most significant (last) one first, each as a sequence of bytes.
\<close>

definition low :: "label list \<Rightarrow> label list" where
  "low ls = map (map maptolower) ls"

fun order_rev :: "label list \<Rightarrow> label list \<Rightarrow> int" where
  "order_rev [] [] = 0"
| "order_rev [] (b # bs) = - 1"
| "order_rev (a # as) [] = 1"
| "order_rev (a # as) (b # bs) =
     (if isc_region_compare a b \<noteq> 0 then isc_region_compare a b else order_rev as bs)"

definition name_order :: "label list \<Rightarrow> label list \<Rightarrow> int" where
  "name_order as bs = order_rev (rev (low as)) (rev (low bs))"

lemma low_simps [simp]: "low [] = []" "low (l # ls) = map maptolower l # low ls"
  "low (as @ bs) = low as @ low bs" "length (low ls) = length ls"
  by (simp_all add: low_def)

lemma order_rev_eq_0: "order_rev as bs = 0 \<longleftrightarrow> as = bs"
  by (induction as bs rule: order_rev.induct) (auto simp: isc_region_compare_eq_0)

lemma order_rev_swap: "order_rev bs as = - order_rev as bs"
proof (induction as bs rule: order_rev.induct)
  case (4 a as b bs)
  then show ?case using isc_region_compare_swap [of a b] by auto
qed auto

lemma order_rev_trans: "order_rev as bs \<le> 0 \<Longrightarrow> order_rev bs cs \<le> 0 \<Longrightarrow> order_rev as cs \<le> 0"
proof (induction as arbitrary: bs cs)
  case Nil
  then show ?case by (cases cs) auto
next
  case (Cons a as)
  then obtain b bs' where b: "bs = b # bs'" by (cases bs) auto
  with Cons.prems obtain c cs' where c: "cs = c # cs'" by (cases cs) auto
  have "isc_region_compare a b \<le> 0" "isc_region_compare b c \<le> 0"
    using Cons.prems by (auto simp: b c split: if_splits)
  then have ac: "isc_region_compare a c \<le> 0" by (rule isc_region_compare_le_trans)
  show ?case
  proof (cases "isc_region_compare a c = 0")
    case True
    then have "a = c" by (simp add: isc_region_compare_eq_0)
    then have "isc_region_compare a b = 0"
      using \<open>isc_region_compare a b \<le> 0\<close> \<open>isc_region_compare b c \<le> 0\<close> isc_region_compare_swap [of a b]
      by simp
    then have "a = b" by (simp add: isc_region_compare_eq_0)
    with \<open>a = c\<close> Cons show ?thesis by (auto simp: b c isc_region_compare_eq_0 split: if_splits)
  next
    case False
    with ac show ?thesis by (simp add: c)
  qed
qed

interpretation canonical: cmp_on name_order UNIV
proof (unfold_locales, goal_cases)
  case (1 a)
  show ?case by (simp add: name_order_def order_rev_eq_0)
next
  case (2 a b)
  show ?case using order_rev_swap [of "rev (low a)" "rev (low b)"] by (simp add: name_order_def)
next
  case (3 a b c)
  from 3(4,5) show ?case unfolding name_order_def by (rule order_rev_trans)
qed

lemma name_order_eq_0: "name_order as bs = 0 \<longleftrightarrow> low as = low bs"
  by (simp add: name_order_def order_rev_eq_0)

lemma chars_diff_ok:
  "n \<le> length a \<Longrightarrow> n \<le> length b \<Longrightarrow>
     chars_diff (p1 @ a @ q1) (length p1) (p2 @ b @ q2) (length p2) n =
       Some (memcmp (map maptolower (take n a)) (map maptolower (take n b)))"
proof (induction n arbitrary: a b p1 p2)
  case (Suc n)
  then obtain x a' y b' where ab: "a = x # a'" "b = y # b'" by (cases a; cases b) auto
  then show ?case
    using Suc.IH [of a' b' "p1 @ [x]" "p2 @ [y]"] Suc.prems
    by (simp add: mem_rd_mid Let_def word_uint_eq_iff flip: uint_nat)
qed simp

text \<open>The first difference of two labels, as the loop finds it.\<close>

definition label_diff :: "label \<Rightarrow> label \<Rightarrow> int" where
  "label_diff a b =
     (let n = (if length a < length b then length a else length b);
          d = memcmp (map maptolower (take n a)) (map maptolower (take n b))
      in if d \<noteq> 0 then d else int (length a) - int (length b))"

lemma label_diff_sgn: "sgn (label_diff a b) = isc_region_compare (map maptolower a) (map maptolower b)"
  by (auto simp: label_diff_def isc_region_compare_def Let_def take_map sgn_if)

lemma label_diff_eq_0: "label_diff a b = 0 \<longleftrightarrow> map maptolower a = map maptolower b"
  using label_diff_sgn [of a b] isc_region_compare_eq_0 [of "map maptolower a" "map maptolower b"]
  by (metis sgn_0_0)

fun diff_rev :: "label list \<Rightarrow> label list \<Rightarrow> nat \<Rightarrow> int option \<times> nat" where
  "diff_rev (a # as) (b # bs) n =
     (if label_diff a b \<noteq> 0 then (Some (label_diff a b), n) else diff_rev as bs (n + 1))"
| "diff_rev _ _ n = (None, n)"

lemma fullcompare_step:
  assumes "length a \<le> 63" "length b \<le> 63"
    and "d1 = p1 @ enc_label a @ q1" "d2 = p2 @ enc_label b @ q2"
    and "offs_at o1 (l1 - 1) = Some (length p1)" "offs_at o2 (l2 - 1) = Some (length p2)"
  shows "fullcompare_loop d1 o1 d2 o2 (Suc l) l1 l2 n =
    (if label_diff a b \<noteq> 0 then Some (Some (label_diff a b), n)
     else fullcompare_loop d1 o1 d2 o2 l (l1 - 1) (l2 - 1) (n + 1))"
proof -
  have r: "mem_rd d1 (length p1) = Some (word_of_nat (length a))"
      "mem_rd d2 (length p2) = Some (word_of_nat (length b))"
    by (simp_all add: assms(3,4) enc_label_def mem_rd_mid)
  have "chars_diff d1 (length p1 + 1) d2 (length p2 + 1) k =
      Some (memcmp (map maptolower (take k a)) (map maptolower (take k b)))"
    if "k \<le> length a" "k \<le> length b" for k
    using chars_diff_ok [OF that, of "p1 @ [word_of_nat (length a)]" q1 "p2 @ [word_of_nat (length b)]" q2]
    by (simp add: assms(3,4) enc_label_def)
  then show ?thesis
    using assms(1,2,5,6) r
    by (cases "length a < length b") (auto simp: Let_def unat_len label_diff_def)
qed

lemma fullcompare_loop_ok:
  assumes "wf_labels ls1" "wf_labels ls2"
    and "\<forall>i < length ls1. offs_at o1 i = Some (name_off ls1 i)"
    and "\<forall>i < length ls2. offs_at o2 i = Some (name_off ls2 i)"
  shows "l1 \<le> length ls1 \<Longrightarrow> l2 \<le> length ls2 \<Longrightarrow> l = min l1 l2 \<Longrightarrow>
    fullcompare_loop (name_wire ls1) o1 (name_wire ls2) o2 l l1 l2 n =
      Some (diff_rev (rev (take l1 ls1)) (rev (take l2 ls2)) n)"
proof (induction l arbitrary: l1 l2 n)
  case 0
  then have "l1 = 0 \<or> l2 = 0" by auto
  then show ?case by (cases "rev (take l1 ls1)") auto
next
  case (Suc l)
  obtain k1 k2 where k: "l1 = Suc k1" "l2 = Suc k2" "l = min k1 k2"
    using Suc.prems(3) by (cases l1; cases l2) auto
  have lt: "k1 < length ls1" "k2 < length ls2" using Suc.prems k by auto
  have t: "rev (take (Suc k1) ls1) = ls1 ! k1 # rev (take k1 ls1)"
      "rev (take (Suc k2) ls2) = ls2 ! k2 # rev (take k2 ls2)"
    using lt by (simp_all add: take_Suc_conv_app_nth)
  show ?case
    using fullcompare_step [OF wf_labelsD(2) [OF assms(1) lt(1)] wf_labelsD(2) [OF assms(2) lt(2)]
        name_wire_at [OF lt(1)] name_wire_at [OF lt(2)], of o1 l1 o2 l2 l n]
      assms(3,4) lt Suc.IH [of k1 k2] by (simp add: k t name_off_def del: fullcompare_loop.simps)
qed

lemma diff_rev_spec:
  "diff_rev as bs n =
     (let m = length (longest_common_prefix (low as) (low bs))
      in (if m < length as \<and> m < length bs then Some (label_diff (as ! m) (bs ! m)) else None, n + m))"
  by (induction as bs n rule: diff_rev.induct) (auto simp: Let_def label_diff_eq_0)

lemma order_rev_spec:
  "order_rev (low as) (low bs) =
     (let m = length (longest_common_prefix (low as) (low bs))
      in if m < length as \<and> m < length bs then sgn (label_diff (as ! m) (bs ! m))
         else sgn (int (length as) - int (length bs)))"
proof (induction as arbitrary: bs)
  case Nil
  then show ?case by (cases bs) auto
next
  case (Cons a as)
  then show ?case
    by (cases bs) (auto simp: Let_def label_diff_sgn isc_region_compare_eq_0)
qed

lemma and_absolute_eq:
  "a AND DNS_NAMEATTR_ABSOLUTE = b AND DNS_NAMEATTR_ABSOLUTE \<longleftrightarrow>
     (a AND DNS_NAMEATTR_ABSOLUTE \<noteq> 0) = (b AND DNS_NAMEATTR_ABSOLUTE \<noteq> 0)"
  by (simp add: DNS_NAMEATTR_ABSOLUTE_def and_one_eq mod_2_eq_odd)

lemma same_absolute_ok:
  "represents n1 ls1 \<Longrightarrow> represents n2 ls2 \<Longrightarrow> same_absolute n1 n2 \<longleftrightarrow> abs_labels ls1 = abs_labels ls2"
  using representsD(1,5) [of n1 ls1] representsD(1,5) [of n2 ls2]
  by (auto simp: same_absolute_def and_absolute_eq is_abs_def)

lemma length_lcp_prefix: "length (longest_common_prefix xs ys) = length xs \<longleftrightarrow> prefix xs ys"
  by (induction xs ys rule: longest_common_prefix.induct) auto

lemma length_lcp_prefix': "length (longest_common_prefix xs ys) = length ys \<longleftrightarrow> prefix ys xs"
  by (induction xs ys rule: longest_common_prefix.induct) auto

lemma length_lcp_le:
  "length (longest_common_prefix xs ys) \<le> length xs" "length (longest_common_prefix xs ys) \<le> length ys"
  by (simp_all add: prefix_length_le longest_common_prefix_prefix1 longest_common_prefix_prefix2)

lemma low_rev: "rev (low ls) = low (rev ls)"
  by (simp add: low_def rev_map)

text \<open>The number of labels that two names have in common at the end, and how they are related.\<close>

definition common_labels :: "label list \<Rightarrow> label list \<Rightarrow> nat" where
  "common_labels as bs = length (longest_common_prefix (rev (low as)) (rev (low bs)))"

definition relation_of :: "label list \<Rightarrow> label list \<Rightarrow> dns_namereln" where
  "relation_of as bs =
     (if low as = low bs then dns_namereln_equal
      else if suffix (low bs) (low as) then dns_namereln_subdomain
      else if suffix (low as) (low bs) then dns_namereln_contains
      else if common_labels as bs > 0 then dns_namereln_commonancestor
      else dns_namereln_none)"

lemma relation_cases:
  assumes "m = common_labels as bs"
  shows "m < length as \<Longrightarrow> m < length bs \<Longrightarrow> \<not> suffix (low as) (low bs) \<and> \<not> suffix (low bs) (low as)"
    and "\<not> (m < length as \<and> m < length bs) \<Longrightarrow> length as < length bs \<Longrightarrow> suffix (low as) (low bs) \<and> low as \<noteq> low bs"
    and "\<not> (m < length as \<and> m < length bs) \<Longrightarrow> length bs < length as \<Longrightarrow> suffix (low bs) (low as) \<and> low as \<noteq> low bs"
    and "\<not> (m < length as \<and> m < length bs) \<Longrightarrow> length as = length bs \<Longrightarrow> low as = low bs"
proof -
  let ?a = "rev (low as)" and ?b = "rev (low bs)"
  note le = length_lcp_le [of ?a ?b]
  have s: "suffix (low as) (low bs) \<longleftrightarrow> m = length as" "suffix (low bs) (low as) \<longleftrightarrow> m = length bs"
    using length_lcp_prefix [of ?a ?b] length_lcp_prefix' [of ?a ?b]
    by (simp_all add: suffix_to_prefix assms common_labels_def)
  have m: "m \<le> length as" "m \<le> length bs" using le by (simp_all add: assms common_labels_def)
  show "m < length as \<Longrightarrow> m < length bs \<Longrightarrow> \<not> suffix (low as) (low bs) \<and> \<not> suffix (low bs) (low as)"
    by (simp add: s)
  have ne: "length as \<noteq> length bs \<Longrightarrow> low as \<noteq> low bs" by (metis low_simps(4))
  show "\<not> (m < length as \<and> m < length bs) \<Longrightarrow> length as < length bs \<Longrightarrow>
      suffix (low as) (low bs) \<and> low as \<noteq> low bs"
    using m ne by (simp add: s)
  show "\<not> (m < length as \<and> m < length bs) \<Longrightarrow> length bs < length as \<Longrightarrow>
      suffix (low bs) (low as) \<and> low as \<noteq> low bs"
    using m ne by (simp add: s)
  assume "\<not> (m < length as \<and> m < length bs)" "length as = length bs"
  then have "suffix (low as) (low bs)" "length (low as) = length (low bs)" using m by (simp_all add: s)
  then show "low as = low bs" by (metis suffix_def append_eq_append_conv append_Nil)
qed

lemma fullcompare_ok:
  assumes "represents n1 ls1" "represents n2 ls2" "abs_labels ls1 = abs_labels ls2"
  shows "\<exists>order. dns_name_fullcompare n1 n2 =
      Some (relation_of ls1 ls2, order, common_labels ls1 ls2) \<and> sgn order = name_order ls1 ls2"
proof -
  note d1 = representsD [OF assms(1)] and d2 = representsD [OF assms(2)]
  obtain o1 where o1: "SETUP_OFFSETS n1 = Some o1" "\<forall>i < length ls1. offs_at o1 i = Some (name_off ls1 i)"
    using setup_offsets_ok [OF assms(1)] by blast
  obtain o2 where o2: "SETUP_OFFSETS n2 = Some o2" "\<forall>i < length ls2. offs_at o2 i = Some (name_off ls2 i)"
    using setup_offsets_ok [OF assms(2)] by blast
  let ?l = "if int (length ls1) - int (length ls2) < 0 then length ls1 else length ls2"
  have loop: "fullcompare_loop (name_wire ls1) o1 (name_wire ls2) o2 ?l (length ls1) (length ls2) 0 =
      Some (diff_rev (rev (take (length ls1) ls1)) (rev (take (length ls2) ls2)) 0)"
    by (rule fullcompare_loop_ok [OF d1(2) d2(2) o1(2) o2(2) le_refl le_refl]) (simp add: min_def)
  have same: "nm_attributes n1 AND DNS_NAMEATTR_ABSOLUTE = nm_attributes n2 AND DNS_NAMEATTR_ABSOLUTE"
    using d1(5) d2(5) assms(3) by (simp add: and_absolute_eq is_abs_def)
  let ?m = "common_labels ls1 ls2" and ?a = "rev ls1" and ?b = "rev ls2"
  have dr: "diff_rev ?a ?b 0 =
      (if ?m < length ls1 \<and> ?m < length ls2 then Some (label_diff (?a ! ?m) (?b ! ?m)) else None, ?m)"
    by (simp add: diff_rev_spec common_labels_def low_rev Let_def)
  have no: "name_order ls1 ls2 =
      (if ?m < length ls1 \<and> ?m < length ls2 then sgn (label_diff (?a ! ?m) (?b ! ?m))
       else sgn (int (length ls1) - int (length ls2)))"
    by (simp add: order_rev_spec name_order_def common_labels_def low_rev Let_def)
  note rc = relation_cases [OF refl, of ls1 ls2]
  show ?thesis
  proof (cases "?m < length ls1 \<and> ?m < length ls2")
    case True
    then have "low ls1 \<noteq> low ls2" using rc(1) by auto
    then show ?thesis
      using True rc(1) d1 d2 o1(1) o2(1) loop same
      by (simp add: dns_name_fullcompare_def dr no Let_def relation_of_def)
  next
    case False
    let ?d = "int (length ls1) - int (length ls2)"
    have dr': "diff_rev ?a ?b 0 = (None, ?m)" by (simp only: dr False if_False)
    have f: "dns_name_fullcompare n1 n2 =
        Some (if ?d < 0 then dns_namereln_contains
              else if ?d > 0 then dns_namereln_subdomain else dns_namereln_equal, ?d, ?m)"
      using d1 d2 o1(1) o2(1) loop same dr' by (simp add: dns_name_fullcompare_def Let_def)
    consider "length ls1 < length ls2" | "length ls2 < length ls1" | "length ls1 = length ls2"
      by linarith
    then have "(if ?d < 0 then dns_namereln_contains
        else if ?d > 0 then dns_namereln_subdomain else dns_namereln_equal) = relation_of ls1 ls2"
    proof cases
      case 1
      then show ?thesis
        using rc(2) [OF False] suffix_length_le [of "low ls2" "low ls1"] by (auto simp: relation_of_def)
    next
      case 2
      then show ?thesis using rc(3) [OF False] by (simp add: relation_of_def)
    next
      case 3
      then show ?thesis using rc(4) [OF False] by (simp add: relation_of_def)
    qed
    with f no False show ?thesis by simp
  qed
qed

text \<open>
  C22: On legal names that are both absolute or both relative, \<open>dns_name_fullcompare\<close> finds the
  canonical order of RFC 4034 (labels in lower case, from the right, byte by byte), the number of
  labels that the names have in common at the end, and how they are related: equal, one below the
  other, with a common ancestor, or unrelated.
\<close>

theorem fullcompare_correct:
  assumes "represents n1 ls1" "represents n2 ls2" "abs_labels ls1 = abs_labels ls2"
  shows "\<exists>order. dns_name_fullcompare n1 n2 =
      Some (relation_of ls1 ls2, order, common_labels ls1 ls2) \<and> sgn order = name_order ls1 ls2"
  by (rule fullcompare_ok [OF assms])

text \<open>Two names: www.Ab. and aB. \<close>

definition ex_labels :: "label list" where
  "ex_labels = [[119, 119, 119], [65, 98], []]"

definition ex_labels2 :: "label list" where
  "ex_labels2 = [[97, 66], []]"

definition name_of :: "label list \<Rightarrow> dns_name" where
  "name_of ls = \<lparr>nm_magic = True, nm_ndata = name_wire ls, nm_labels = length ls,
     nm_attributes = (if abs_labels ls then DNS_NAMEATTR_ABSOLUTE else 0), nm_offsets = None,
     nm_buffer = None\<rparr>"

lemma represents_name_of: "wf_labels ls \<Longrightarrow> represents (name_of ls) ls"
  by (simp add: represents_def name_of_def is_abs_def DNS_NAMEATTR_ABSOLUTE_def)

lemma ex_labels_wf: "wf_labels ex_labels" "wf_labels ex_labels2"
  by (simp_all add: ex_labels_def ex_labels2_def wf_labels_def DNS_NAME_MAXWIRE_def)

lemma ex_labels_abs: "abs_labels ex_labels" "abs_labels ex_labels2"
  by (simp_all add: ex_labels_def ex_labels2_def abs_labels_def)

theorem fullcompare_correct_witness:
  "\<exists>order. dns_name_fullcompare (name_of ex_labels) (name_of ex_labels2) =
      Some (dns_namereln_subdomain, order, 2) \<and> order > 0"
proof -
  have "relation_of ex_labels ex_labels2 = dns_namereln_subdomain"
      "common_labels ex_labels ex_labels2 = 2" "name_order ex_labels ex_labels2 = 1"
    by (simp_all add: relation_of_def common_labels_def name_order_def ex_labels_def ex_labels2_def
        maptolower_def suffix_def)
  then show ?thesis
    using fullcompare_correct [OF represents_name_of represents_name_of, OF ex_labels_wf]
      ex_labels_abs by (auto simp: sgn_1_pos)
qed

section \<open>Equality, hashing and the order of rdata\<close>

lemma maptolower_len: "n \<le> 63 \<Longrightarrow> maptolower (word_of_nat n) = word_of_nat n"
  by (auto simp: maptolower_def word_le_nat_alt unat_byte)

lemma len_byte_eq: "a \<le> 63 \<Longrightarrow> b \<le> 63 \<Longrightarrow> (word_of_nat a :: u8) = word_of_nat b \<longleftrightarrow> a = b"
  by (simp add: word_unat_eq_iff unat_byte del: word_of_nat_eq_iff)

lemma len_byte_less: "a \<le> 63 \<Longrightarrow> b \<le> 63 \<Longrightarrow> (word_of_nat a :: u8) < word_of_nat b \<longleftrightarrow> a < b"
  by (simp add: word_less_nat_alt unat_byte)

lemma lower_wire: "\<forall>l \<in> set ls. length l \<le> 63 \<Longrightarrow> map maptolower (name_wire ls) = name_wire (low ls)"
  by (induction ls) (auto simp: enc_label_def maptolower_len)

lemma name_wire_inj:
  "\<forall>l \<in> set as. length l \<le> 63 \<Longrightarrow> \<forall>l \<in> set bs. length l \<le> 63 \<Longrightarrow>
     name_wire as = name_wire bs \<longleftrightarrow> as = bs"
proof (induction as arbitrary: bs)
  case Nil
  then show ?case by (cases bs) auto
next
  case (Cons a as)
  show ?case
  proof (cases bs)
    case Nil
    then show ?thesis by simp
  next
    case (Cons b bs')
    moreover have "length a = length b" if "enc_label a @ name_wire as = enc_label b @ name_wire bs'"
      using that Cons \<open>\<forall>l \<in> set (a # as). length l \<le> 63\<close> \<open>\<forall>l \<in> set bs. length l \<le> 63\<close>
      by (simp add: enc_label_def len_byte_eq del: word_of_nat_eq_iff)
    ultimately show ?thesis
      using Cons.IH [of bs'] Cons.prems by (auto simp: enc_label_def)
  qed
qed

lemma length_low_wire: "length (name_wire (low ls)) = length (name_wire ls)"
  by (induction ls) auto

lemma chars_diff_label:
  assumes "length a = length b" "d1 = p1 @ enc_label a @ q1" "d2 = p2 @ enc_label b @ q2"
    and "length p1 = pos" "length p2 = pos"
  shows "mem_rd d1 pos = Some (word_of_nat (length a))" "mem_rd d2 pos = Some (word_of_nat (length b))"
    "chars_diff d1 (pos + 1) d2 (pos + 1) (length a) = Some (memcmp (map maptolower a) (map maptolower b))"
proof -
  show "mem_rd d1 pos = Some (word_of_nat (length a))" "mem_rd d2 pos = Some (word_of_nat (length b))"
    using assms(4,5) by (simp_all add: assms(2,3) enc_label_def mem_rd_mid)
  show "chars_diff d1 (pos + 1) d2 (pos + 1) (length a) = Some (memcmp (map maptolower a) (map maptolower b))"
    using chars_diff_ok [of "length a" a b "p1 @ [word_of_nat (length a)]" q1
        "p2 @ [word_of_nat (length b)]" q2] assms by (simp add: enc_label_def)
qed

lemma name_equal_loop_ok:
  assumes "length as = length bs" "\<forall>l \<in> set as. length l \<le> 63" "\<forall>l \<in> set bs. length l \<le> 63"
    and "length p1 = length p2"
  shows "name_equal_loop (p1 @ name_wire as) (p2 @ name_wire bs) (length p1) (length as) =
    Some (low as = low bs)"
  using assms
proof (induction as bs arbitrary: p1 p2 rule: list_induct2)
  case (Cons a as b bs)
  let ?d1 = "p1 @ name_wire (a # as)" and ?d2 = "p2 @ name_wire (b # bs)"
  have r: "mem_rd ?d1 (length p1) = Some (word_of_nat (length a))"
      "mem_rd ?d2 (length p1) = Some (word_of_nat (length b))"
    using Cons.prems(3) by (simp_all add: enc_label_def mem_rd_mid)
  show ?case
  proof (cases "length a = length b")
    case True
    have "chars_diff ?d1 (length p1 + 1) ?d2 (length p1 + 1) (length a) =
        Some (memcmp (map maptolower a) (map maptolower b))"
      by (rule chars_diff_label(3) [OF True, of ?d1 p1 "name_wire as" ?d2 p2 "name_wire bs"])
        (simp_all add: Cons.prems(3))
    moreover have "name_equal_loop ?d1 ?d2 (length p1 + 1 + length a) (length as) =
        Some (low as = low bs)"
      using Cons.IH [of "p1 @ enc_label a" "p2 @ enc_label b"] Cons.prems True by simp
    ultimately show ?thesis
      using r True Cons.prems(1) by (simp add: Let_def unat_len memcmp_eq_0)
  next
    case False
    then have "map maptolower a \<noteq> map maptolower b" by (metis length_map)
    then show ?thesis
      using r False Cons.prems(1,2) by (simp add: Let_def len_byte_eq del: word_of_nat_eq_iff)
  qed
qed simp

lemma equal_ok:
  assumes "represents n1 ls1" "represents n2 ls2" "abs_labels ls1 = abs_labels ls2"
  shows "dns_name_equal n1 n2 = Some (low ls1 = low ls2)"
proof -
  note d1 = representsD [OF assms(1)] and d2 = representsD [OF assms(2)]
  have s: "same_absolute n1 n2" using same_absolute_ok [OF assms(1,2)] assms(3) by simp
  have ne: "length ls1 = length ls2" if "low ls1 = low ls2"
    using that by (metis low_simps(4))
  have nw: "length (name_wire ls1) = length (name_wire ls2)" if "low ls1 = low ls2"
    using that by (metis length_low_wire)
  show ?thesis
  proof (cases "length (name_wire ls1) = length (name_wire ls2) \<and> length ls1 = length ls2")
    case True
    then show ?thesis
      using name_equal_loop_ok [of ls1 ls2 "[]" "[]"] s d1 d2 wf_labelsD(1) [OF d1(2)] wf_labelsD(1) [OF d2(2)]
      by (simp add: dns_name_equal_def)
  next
    case False
    then have "low ls1 \<noteq> low ls2" using ne nw by blast
    then show ?thesis using False s d1 d2 by (auto simp: dns_name_equal_def)
  qed
qed

lemma caseequal_ok:
  assumes "represents n1 ls1" "represents n2 ls2" "abs_labels ls1 = abs_labels ls2"
  shows "dns_name_caseequal n1 n2 = Some (ls1 = ls2)"
  using representsD [OF assms(1)] representsD [OF assms(2)] same_absolute_ok [OF assms(1,2)] assms(3)
    name_wire_inj [of ls1 ls2] wf_labelsD(1)
  by (auto simp: dns_name_caseequal_def)

lemma name_hash_lower: "name_hash nd False = name_hash (map maptolower nd) True"
  by (simp add: name_hash_def take_map foldl_map Let_def)

lemma hash_ok:
  assumes "represents n1 ls1" "represents n2 ls2" "low ls1 = low ls2"
  shows "dns_name_hash n1 False = dns_name_hash n2 False"
proof -
  note d1 = representsD [OF assms(1)] and d2 = representsD [OF assms(2)]
  have "length ls1 = length ls2" using assms(3) by (metis low_simps(4))
  moreover have "map maptolower (name_wire ls1) = map maptolower (name_wire ls2)"
    using assms(3) lower_wire wf_labelsD(1) [OF d1(2)] wf_labelsD(1) [OF d2(2)] by metis
  ultimately show ?thesis
    using d1 d2 by (simp add: dns_name_hash_def name_hash_lower)
qed

text \<open>
  C23: The equality tests are sound and complete, and hashing agrees with them: on legal names of
  the same kind \<open>dns_name_equal\<close> is equality of the labels in lower case, \<open>dns_name_caseequal\<close> is
  equality of the labels, and names that \<open>dns_name_equal\<close> identifies have the same hash.
\<close>

theorem name_equal_correct:
  assumes "represents n1 ls1" "represents n2 ls2" "abs_labels ls1 = abs_labels ls2"
  shows "dns_name_equal n1 n2 = Some (low ls1 = low ls2) \<and>
    dns_name_caseequal n1 n2 = Some (ls1 = ls2) \<and>
    (dns_name_equal n1 n2 = Some True \<longrightarrow> dns_name_hash n1 False = dns_name_hash n2 False)"
  using equal_ok [OF assms] caseequal_ok [OF assms] hash_ok [OF assms(1,2)] by simp

theorem name_equal_correct_witness:
  "dns_name_equal (name_of ex_labels2) (name_of [[65, 98], []]) = Some True \<and>
   dns_name_caseequal (name_of ex_labels2) (name_of [[65, 98], []]) = Some False \<and>
   dns_name_hash (name_of ex_labels2) False = dns_name_hash (name_of [[65, 98], []]) False"
proof -
  have "wf_labels [[65, 98], []]" by (simp add: wf_labels_def DNS_NAME_MAXWIRE_def)
  from name_equal_correct [OF represents_name_of [OF ex_labels_wf(2)] represents_name_of [OF this]]
  show ?thesis by (simp add: ex_labels2_def abs_labels_def maptolower_def)
qed

text \<open>The result of the loop of \<open>dns_name_rdatacompare\<close>.\<close>

fun rdata_order_labels :: "label list \<Rightarrow> label list \<Rightarrow> int" where
  "rdata_order_labels (a # as) (b # bs) =
     (if length a \<noteq> length b then (if length a < length b then - 1 else 1)
      else let d = isc_region_compare (map maptolower a) (map maptolower b)
           in if d \<noteq> 0 then d else rdata_order_labels as bs)"
| "rdata_order_labels _ _ = 0"

lemma memcmp_region:
  "length a = length b \<Longrightarrow> isc_region_compare a b = sgn (memcmp a b)"
  by (simp add: isc_region_compare_def Let_def sgn_if)

lemma rdatacompare_loop_ok:
  assumes "\<forall>l \<in> set as. length l \<le> 63" "\<forall>l \<in> set bs. length l \<le> 63" "length p1 = length p2"
  shows "rdatacompare_loop (p1 @ name_wire as) (p2 @ name_wire bs) (length p1)
      (min (length as) (length bs)) = Some (rdata_order_labels as bs)"
  using assms
proof (induction as bs arbitrary: p1 p2 rule: rdata_order_labels.induct)
  case (1 a as b bs)
  let ?d1 = "p1 @ name_wire (a # as)" and ?d2 = "p2 @ name_wire (b # bs)"
  have r: "mem_rd ?d1 (length p1) = Some (word_of_nat (length a))"
      "mem_rd ?d2 (length p1) = Some (word_of_nat (length b))"
    using "1.prems"(3) by (simp_all add: enc_label_def mem_rd_mid)
  have l: "length a \<le> 63" "length b \<le> 63" using "1.prems"(1,2) by simp_all
  show ?case
  proof (cases "length a = length b")
    case True
    let ?m = "memcmp (map maptolower a) (map maptolower b)"
    have c: "chars_diff ?d1 (length p1 + 1) ?d2 (length p1 + 1) (length a) = Some ?m"
      by (rule chars_diff_label(3) [OF True, of ?d1 p1 "name_wire as" ?d2 p2 "name_wire bs"])
        (simp_all add: "1.prems"(3))
    have "rdatacompare_loop ?d1 ?d2 (length p1 + 1 + length a) (min (length as) (length bs)) =
        Some (rdata_order_labels as bs)" if "isc_region_compare (map maptolower a) (map maptolower b) = 0"
      using "1.IH" [OF _ refl, of "p1 @ enc_label a" "p2 @ enc_label b"] "1.prems" True that by simp
    then show ?thesis
      using r l True c memcmp_region [of "map maptolower a" "map maptolower b"]
      by (auto simp: Let_def unat_len sgn_if)
  next
    case False
    then show ?thesis using r l by (simp add: Let_def unat_len)
  qed
qed simp_all

lemma min_if: "(if a < b then a else b) = min a (b :: nat)"
  by simp

lemma region_compare_append:
  "length a = length b \<Longrightarrow> isc_region_compare (a @ x) (b @ y) =
     (if isc_region_compare a b \<noteq> 0 then isc_region_compare a b else isc_region_compare x y)"
  by (induction a b rule: list_induct2) (auto simp: isc_region_compare_eq_0)

lemma wf_labels_tl: "wf_labels (a # as) \<Longrightarrow> wf_labels as"
  using wf_labels_take_drop(2) [of "a # as" 1] by simp

lemma rdata_order_region:
  "wf_labels as \<Longrightarrow> wf_labels bs \<Longrightarrow> abs_labels as \<Longrightarrow> abs_labels bs \<Longrightarrow>
     rdata_order_labels as bs = isc_region_compare (name_wire (low as)) (name_wire (low bs)) \<and>
     (rdata_order_labels as bs = 0 \<longrightarrow> length as = length bs)"
proof (induction as bs rule: rdata_order_labels.induct)
  case (1 a as b bs)
  have l: "length a \<le> 63" "length b \<le> 63" using "1.prems" by (simp_all add: wf_labels_def)
  show ?case
  proof (cases "length a = length b")
    case False
    then show ?thesis
      using l by (simp add: enc_label_def len_byte_eq len_byte_less del: word_of_nat_eq_iff)
  next
    case True
    have cmp: "isc_region_compare (name_wire (low (a # as))) (name_wire (low (b # bs))) =
        (if isc_region_compare (map maptolower a) (map maptolower b) \<noteq> 0
         then isc_region_compare (map maptolower a) (map maptolower b)
         else isc_region_compare (name_wire (low as)) (name_wire (low bs)))"
      using True by (simp add: enc_label_def region_compare_append)
    show ?thesis
    proof (cases "a = []")
      case True': True
      then have "as = []" "bs = []"
        using "1.prems"(1,2) True by (auto simp: wf_labels_def split: if_splits)
      then show ?thesis using True True' by (simp add: isc_region_compare_eq_0)
    next
      case False
      have "as \<noteq> []" "bs \<noteq> []" using "1.prems"(3,4) False True by (auto simp: abs_labels_def)
      then have "abs_labels as" "abs_labels bs" using "1.prems"(3,4) by (auto simp: abs_labels_def)
      then show ?thesis
        using "1.IH" "1.prems"(1,2) True cmp wf_labels_tl by (auto simp: Let_def)
    qed
  qed
qed (simp_all add: abs_labels_def)

text \<open>
  C24: On legal absolute names \<open>dns_name_rdatacompare\<close> compares the names as sequences of bytes in
  lower case, and the assertion that both have equally many labels when no difference was found
  never fails.
\<close>

theorem rdatacompare_correct:
  assumes "represents n1 ls1" "represents n2 ls2" "abs_labels ls1" "abs_labels ls2"
  shows "dns_name_rdatacompare n1 n2 =
    Some (isc_region_compare (map maptolower (nm_ndata n1)) (map maptolower (nm_ndata n2)))"
proof -
  note d1 = representsD [OF assms(1)] and d2 = representsD [OF assms(2)]
  have "length ls1 > 0" "length ls2 > 0" using assms(3,4) by (auto simp: abs_labels_def)
  moreover have "rdatacompare_loop (name_wire ls1) (name_wire ls2) 0
      (if length ls1 < length ls2 then length ls1 else length ls2) = Some (rdata_order_labels ls1 ls2)"
    unfolding min_if using rdatacompare_loop_ok [of ls1 ls2 "[]" "[]"] wf_labelsD(1) [OF d1(2)] wf_labelsD(1) [OF d2(2)]
    by simp
  ultimately show ?thesis
    using d1 d2 assms(3,4) rdata_order_region [OF d1(2) d2(2) assms(3,4)]
      lower_wire [of ls1] lower_wire [of ls2] wf_labelsD(1) [OF d1(2)] wf_labelsD(1) [OF d2(2)]
    by (simp add: dns_name_rdatacompare_def Let_def is_abs_def)
qed

theorem rdatacompare_correct_witness:
  "dns_name_rdatacompare (name_of ex_labels) (name_of ex_labels2) = Some 1"
  using rdatacompare_correct [OF represents_name_of [OF ex_labels_wf(1)]
      represents_name_of [OF ex_labels_wf(2)] ex_labels_abs]
  by (simp add: name_of_def ex_labels_def ex_labels2_def enc_label_def maptolower_def)

section \<open>Parts of names and names made of parts\<close>

lemma attr_simps [simp]:
  "(a OR DNS_NAMEATTR_ABSOLUTE) AND DNS_NAMEATTR_ABSOLUTE = DNS_NAMEATTR_ABSOLUTE"
  "(a AND NOT DNS_NAMEATTR_ABSOLUTE) AND DNS_NAMEATTR_ABSOLUTE = 0"
  "DNS_NAMEATTR_ABSOLUTE \<noteq> 0"
  "DNS_NAMEATTR_ABSOLUTE AND DNS_NAMEATTR_ABSOLUTE = DNS_NAMEATTR_ABSOLUTE"
  by (simp_all add: DNS_NAMEATTR_ABSOLUTE_def bit.conj_disj_distrib2 and.assoc)

lemma bindable_attr [simp]:
  "BINDABLE (n\<lparr>nm_attributes := a OR DNS_NAMEATTR_ABSOLUTE\<rparr>) = BINDABLE (n\<lparr>nm_attributes := a\<rparr>)"
  "BINDABLE (n\<lparr>nm_attributes := a AND NOT DNS_NAMEATTR_ABSOLUTE\<rparr>) = BINDABLE (n\<lparr>nm_attributes := a\<rparr>)"
  by (simp_all add: BINDABLE_def name_attrs bit.conj_disj_distrib2 and.assoc)

lemma representsI:
  assumes "nm_magic t" "wf_labels ls" "nm_ndata t = name_wire ls" "nm_labels t = length ls"
    "is_abs t \<longleftrightarrow> abs_labels ls"
    "nm_offsets t = None \<or> nm_offsets t = Some (map (name_off ls) [0..<length ls])"
  shows "represents t ls"
  using assms by (auto simp: represents_def)

lemma getlabelsequence_ok:
  assumes "represents source ls" "nm_magic target" "BINDABLE target" "first + n \<le> length ls"
  shows "\<exists>t. dns_name_getlabelsequence False source first n target = Some t \<and>
    represents t (take n (drop first ls)) \<and> BINDABLE t \<and> (nm_offsets t = None) = (nm_offsets target = None)"
proof -
  note d = representsD [OF assms(1)]
  obtain offs where offs: "SETUP_OFFSETS source = Some offs"
      "\<forall>i < length ls. offs_at offs i = Some (name_off ls i)"
    using setup_offsets_ok [OF assms(1)] by blast
  have at: "(if i = length ls then Some (nm_length source) else offs_at offs i) = Some (name_off ls i)"
    if "i \<le> length ls" for i
    using that offs(2) d(3) by (auto simp: name_off_length)
  let ?ls = "take n (drop first ls)"
  let ?absolute = "first + n = length ls \<and> n > 0 \<and> is_abs source"
  let ?t = "target\<lparr>nm_ndata := name_wire ?ls, nm_labels := n,
      nm_attributes := (if ?absolute then nm_attributes target OR DNS_NAMEATTR_ABSOLUTE
                        else nm_attributes target AND NOT DNS_NAMEATTR_ABSOLUTE)\<rparr>"
  have le: "name_off ls first \<le> name_off ls (first + n)" "name_off ls (first + n) \<le> 255"
    using mem_blk_labels(2) [of first "first + n" ls] name_off_le [OF d(2)] assms(4) by simp_all
  have blk: "mem_blk (name_wire ls) (name_off ls first)
      (u32_sub (name_off ls (first + n)) (name_off ls first)) = Some (name_wire ?ls)"
    using mem_blk_labels(1) [of first "first + n" ls] assms(4) le by simp
  have wf: "wf_labels ?ls" using d(2) by (simp add: wf_labels_take_drop)
  have abs: "abs_labels ?ls \<longleftrightarrow> ?absolute"
  proof (cases "first + n = length ls \<and> n > 0")
    case True
    then have "?ls = drop first ls" "first < length ls" by auto
    then show ?thesis using True d(5) abs_labels_drop [of first ls] by simp
  next
    case False
    then show ?thesis
      using abs_labels_take [OF wf_labels_take_drop(2) [OF d(2)], of n first] assms(4)
      by (cases "n = 0") (auto simp: abs_labels_def)
  qed
  have b: "BINDABLE ?t" using assms(3) by (simp add: BINDABLE_def name_attrs bit.conj_disj_distrib2 and.assoc)
  have so: "set_offsets ?t = Some (map (name_off ?ls) [0..<length ?ls])"
    using assms(4) by (intro set_offsets_ok [OF wf]) simp_all
  have r: "represents ?t ?ls" if "nm_offsets target = None"
    using that assms(2,4) wf abs by (intro representsI) (simp_all add: is_abs_def)
  have r': "represents (?t\<lparr>nm_offsets := Some (map (name_off ?ls) [0..<length ?ls])\<rparr>) ?ls"
    using assms(2,4) wf abs by (intro representsI) (simp_all add: is_abs_def)
  have "dns_name_getlabelsequence False source first n target =
      (if nm_offsets target \<noteq> None
       then Some (?t\<lparr>nm_offsets := Some (map (name_off ?ls) [0..<length ?ls])\<rparr>) else Some ?t)"
    using assms d(1,3,4) offs(1) at [of first] at [of "first + n"] blk so
    by (cases "nm_offsets target")
      (simp_all add: dns_name_getlabelsequence_def Let_def is_abs_def le_diff_conv2 split del: if_split)
  then show ?thesis using r r' b by (auto simp: BINDABLE_def)
qed

lemma issubdomain_ok:
  assumes "represents n1 ls1" "represents n2 ls2" "abs_labels ls1 = abs_labels ls2"
  shows "dns_name_issubdomain n1 n2 = Some (suffix (low ls2) (low ls1))"
proof -
  obtain d where "dns_name_fullcompare n1 n2 = Some (relation_of ls1 ls2, d, common_labels ls1 ls2)"
    using fullcompare_ok [OF assms] by blast
  then show ?thesis by (auto simp: dns_name_issubdomain_def relation_of_def)
qed

lemma low_drop: "low (drop n ls) = drop n (low ls)"
  by (simp add: low_def drop_map)

lemma iswildcard_ok:
  assumes "represents name ls" "ls \<noteq> []"
  shows "dns_name_iswildcard name = Some (hd ls = [0x2a])"
proof -
  obtain l v where ls: "ls = l # v" using assms(2) by (cases ls) auto
  note d = representsD [OF assms(1)]
  have "length l \<le> 63" using wf_labelsD(1) [OF d(2)] by (simp add: ls)
  then have "(word_of_nat (length l) :: u8) = 1 \<longleftrightarrow> length l = 1"
    using len_byte_eq [of "length l" 1] by simp
  then show ?thesis
    using d by (cases l) (auto simp: dns_name_iswildcard_def ls enc_label_def)
qed

lemma matcheswildcard_ok:
  assumes "represents name ls" "represents wname ws" "abs_labels ls" "abs_labels ws" "hd ws = [0x2a]"
  shows "dns_name_matcheswildcard name wname =
    Some (suffix (low (tl ws)) (low ls) \<and> low ls \<noteq> low (tl ws))"
proof -
  note d1 = representsD [OF assms(1)] and d2 = representsD [OF assms(2)]
  obtain v where ws: "ws = [0x2a] # v" using assms(4,5) by (cases ws) (auto simp: abs_labels_def)
  have "abs_labels v" using assms(4) by (auto simp: abs_labels_def ws split: if_splits)
  have "ls \<noteq> []" using assms(3) by (auto simp: abs_labels_def)
  have wild: "dns_name_iswildcard wname = Some True"
    using d2 by (simp add: dns_name_iswildcard_def ws enc_label_def)
  obtain t where t: "dns_name_getlabelsequence False wname 1 (nm_labels wname - 1) (dns_name_init None) = Some t"
      "represents t v"
    using getlabelsequence_ok [OF assms(2), of "dns_name_init None" 1 "length v"] d2(4)
    by (auto simp: dns_name_init_def BINDABLE_def ws)
  obtain k where "dns_name_fullcompare name t = Some (relation_of ls v, k, common_labels ls v)"
    using fullcompare_ok [OF assms(1) t(2)] assms(3) \<open>abs_labels v\<close> by blast
  then show ?thesis
    using d1 d2 wild t(1) \<open>ls \<noteq> []\<close>
    by (auto simp: dns_name_matcheswildcard_def relation_of_def ws)
qed

text \<open>
  C25: A wildcard name matches exactly the names that lie strictly below the name it is a wildcard
  of, whatever the case of the letters.  The name itself is not matched, although all the labels after
  the wildcard are at its end and the comment in \<^verbatim>\<open>name.h\<close> says that this is enough.
\<close>

theorem matcheswildcard_correct:
  assumes "represents name ls" "represents wname ws" "abs_labels ls" "abs_labels ws" "hd ws = [0x2a]"
  shows "dns_name_matcheswildcard name wname =
    Some (suffix (low (tl ws)) (low ls) \<and> low ls \<noteq> low (tl ws))"
  by (rule matcheswildcard_ok [OF assms])

theorem matcheswildcard_correct_witness:
  "dns_name_matcheswildcard (name_of ex_labels) (name_of ([0x2a] # ex_labels2)) = Some True"
proof -
  have "wf_labels ([0x2a] # ex_labels2)" "abs_labels ([0x2a] # ex_labels2)"
    by (simp_all add: ex_labels2_def wf_labels_def DNS_NAME_MAXWIRE_def abs_labels_def)
  from matcheswildcard_correct [OF represents_name_of [OF ex_labels_wf(1)] represents_name_of [OF this(1)]
      ex_labels_abs(1) this(2)]
  show ?thesis by (simp add: ex_labels_def ex_labels2_def maptolower_def suffix_def)
qed

lemma wf_relative: "wf_labels ls \<Longrightarrow> \<not> abs_labels ls \<Longrightarrow> [] \<notin> set ls"
  by (cases ls rule: rev_exhaust) (auto simp: wf_labels_def abs_labels_def)

lemma wf_labels_append:
  assumes "wf_labels as" "wf_labels bs" "\<not> abs_labels as \<or> bs = []"
    and "length (name_wire as) + length (name_wire bs) \<le> 255"
  shows "wf_labels (as @ bs)"
proof (cases "bs = []")
  case False
  then have "[] \<notin> set as" using assms wf_relative by blast
  then show ?thesis
    using assms False by (auto simp: wf_labels_def butlast_append DNS_NAME_MAXWIRE_def)
qed (simp add: assms(1))

lemma abs_labels_append: "abs_labels (as @ bs) = (if bs = [] then abs_labels as else abs_labels bs)"
  by (simp add: abs_labels_def)

lemma fill_offsets_ok:
  assumes "wf_labels ls" "nm_ndata t = name_wire ls" "nm_labels t = length ls"
    "nm_magic t" "is_abs t \<longleftrightarrow> abs_labels ls"
  shows "\<exists>t'. fill_offsets t = Some t' \<and> represents t' ls \<and> nm_length t' = length (name_wire ls) \<and>
    nm_attributes t' = nm_attributes t \<and> (nm_offsets t' = None) = (nm_offsets t = None)"
proof (cases "nm_labels t > 0 \<and> nm_offsets t \<noteq> None")
  case True
  then show ?thesis
    using assms set_offsets_ok [OF assms(1-3)]
    by (auto intro!: representsI simp: is_abs_def fill_offsets_def)
next
  case False
  then show ?thesis using assms by (auto simp: represents_def fill_offsets_def)
qed

lemma mem_wr_two:
  assumes "i + length p + length s \<le> length m"
  shows "do { m1 \<leftarrow> mem_wr m (i + length p) s; mem_wr m1 i p } = mem_wr m i (p @ s)"
proof -
  have "mem_wr m (i + length p) s =
      Some (take (i + length p) m @ s @ drop (i + length p + length s) m)"
    using assms by (simp add: mem_wr_def)
  moreover have "take (i + length p) m = take i m @ take (length p) (drop i m)"
    by (simp add: take_add)
  ultimately show ?thesis
    using assms mem_wr_mid [of i "take i m" p "take (length p) (drop i m)"
        "s @ drop (i + length p + length s) m"]
    by (simp add: mem_wr_def [of m i "p @ s"] ac_simps)
qed

lemma add_after_store:
  assumes "buffer_ok t" "b_used t + length bs \<le> b_length t"
  shows "mem_wr (b_base t) (b_used t) bs = Some (b_base (appended t bs))"
    "mem_blk (b_base (appended t bs)) (b_used t) (length bs) = Some bs"
    "isc_buffer_add (t\<lparr>b_base := b_base (appended t bs)\<rparr>) (length bs) = Some (appended t bs)"
  using assms buffer_okD [OF assms(1)]
  by (simp_all add: mem_wr_used isc_buffer_add_def appended_def mem_blk_mid contents_def)

lemma represents_empty_part:
  "represents n ls \<Longrightarrow> (if nm_labels n = 0 then [] else nm_ndata n) = name_wire ls"
  by (auto simp: represents_def)

lemma concatenate_ok:
  assumes "represents p as" "represents s bs" "\<not> abs_labels as \<or> bs = []"
    and "nm_magic n" "BINDABLE n" "buffer_ok t"
  defines "len \<equiv> length (name_wire as) + length (name_wire bs)"
  shows "len > 255 \<Longrightarrow> dns_name_concatenate (Some p) (Some s) n t = Some (DNS_R_NAMETOOLONG, MAKE_EMPTY n, t)"
    and "len \<le> 255 \<Longrightarrow> b_used t + len > b_length t \<Longrightarrow>
      dns_name_concatenate (Some p) (Some s) n t = Some (ISC_R_NOSPACE, MAKE_EMPTY n, t)"
    and "len \<le> 255 \<Longrightarrow> b_used t + len \<le> b_length t \<Longrightarrow>
      \<exists>n'. dns_name_concatenate (Some p) (Some s) n t =
        Some (ISC_R_SUCCESS, n', appended t (name_wire (as @ bs))) \<and> represents n' (as @ bs)"
proof -
  note dp = representsD [OF assms(1)] and ds = representsD [OF assms(2)] and dt = buffer_okD [OF assms(6)]
  have abs: "nm_attributes p AND DNS_NAMEATTR_ABSOLUTE \<noteq> 0 \<longleftrightarrow> abs_labels as"
      "nm_attributes s AND DNS_NAMEATTR_ABSOLUTE \<noteq> 0 \<longleftrightarrow> abs_labels bs"
    using dp(5) ds(5) by (simp_all add: is_abs_def)
  have sub: "u32_sub (b_length t) (b_used t) = b_length t - b_used t" using dt by simp
  note unf = dns_name_concatenate_def Let_def dp ds abs sub assms(4,5) dt(1) DNS_NAME_MAXWIRE_def
  have abs_nil: "\<not> abs_labels []" by (simp add: abs_labels_def)
  show "dns_name_concatenate (Some p) (Some s) n t = Some (DNS_R_NAMETOOLONG, MAKE_EMPTY n, t)"
    if "len > 255"
    using that assms(3) abs_nil by (cases "as = []"; cases "bs = []") (auto simp: unf len_def)
  show "dns_name_concatenate (Some p) (Some s) n t = Some (ISC_R_NOSPACE, MAKE_EMPTY n, t)"
    if "len \<le> 255" "b_used t + len > b_length t"
    using that assms(3) abs_nil dt(4) by (cases "as = []"; cases "bs = []") (auto simp: unf len_def)
  assume l: "len \<le> 255" "b_used t + len \<le> b_length t"
  let ?w = "name_wire (as @ bs)"
  let ?n1 = "n\<lparr>nm_ndata := ?w, nm_labels := length (as @ bs),
      nm_attributes := (if abs_labels (as @ bs) then DNS_NAMEATTR_ABSOLUTE else 0)\<rparr>"
  have wf: "wf_labels (as @ bs)"
    using wf_labels_append [OF dp(2) ds(2) assms(3)] l(1) by (simp add: len_def)
  have "nm_ndata ?n1 = name_wire (as @ bs)" "nm_labels ?n1 = length (as @ bs)" "nm_magic ?n1"
      "is_abs ?n1 \<longleftrightarrow> abs_labels (as @ bs)"
    using assms(4) by (simp_all add: is_abs_def)
  from fill_offsets_ok [OF wf this] obtain n' where
    n': "fill_offsets ?n1 = Some n'" "represents n' (as @ bs)" "nm_length n' = length ?w" by blast
  have store: "do { m1 \<leftarrow> mem_wr (b_base t) (b_used t + length (name_wire as)) (name_wire bs);
      mem_wr m1 (b_used t) (name_wire as) } = Some (b_base (appended t ?w))"
    using mem_wr_two [of "b_used t" "name_wire as" "name_wire bs" "b_base t"] l(2) dt
      add_after_store(1) [OF assms(6), of ?w] by (simp add: len_def)
  have rest: "mem_blk (b_base (appended t ?w)) (b_used t) len = Some ?w"
      "isc_buffer_add (t\<lparr>b_base := b_base (appended t ?w)\<rparr>) (length ?w) = Some (appended t ?w)"
    using add_after_store(2,3) [OF assms(6), of ?w] l(2) by (simp_all add: len_def)
  let ?tail = "\<lambda>base. do { nd \<leftarrow> mem_blk base (b_used t) len;
      let n1 = n\<lparr>nm_ndata := nd, nm_labels := length (as @ bs),
        nm_attributes := (if abs_labels (as @ bs) then DNS_NAMEATTR_ABSOLUTE else 0)\<rparr>;
      n2 \<leftarrow> fill_offsets n1;
      t2 \<leftarrow> isc_buffer_add (t\<lparr>b_base := base\<rparr>) (nm_length n2);
      Some (ISC_R_SUCCESS, n2, t2) }"
  have "dns_name_concatenate (Some p) (Some s) n t =
      do { m1 \<leftarrow> mem_wr (b_base t) (b_used t + length (name_wire as)) (name_wire bs);
           m2 \<leftarrow> mem_wr m1 (b_used t) (name_wire as); ?tail m2 }"
    using l assms(3) abs_nil
    by (cases "as = []"; cases "bs = []") (auto simp: unf len_def abs_labels_append cong: if_cong)
  also have "\<dots> = ?tail (b_base (appended t ?w))"
    using store by (auto split: bind_splits)
  also have "\<dots> = Some (ISC_R_SUCCESS, n', appended t ?w)"
    using rest n' by (simp add: Let_def cong: if_cong)
  finally show "\<exists>n'. dns_name_concatenate (Some p) (Some s) n t =
      Some (ISC_R_SUCCESS, n', appended t ?w) \<and> represents n' (as @ bs)"
    using n'(2) by blast
qed

text \<open>
  C26: Concatenation of a legal prefix and a legal suffix (the prefix relative, or nothing after
  it), into a buffer, gives the name made of the labels of both, appended to the buffer; a name
  longer than 255 bytes is refused, and so is one for which the buffer has no room, with the target
  name emptied and the buffer unchanged.
\<close>

theorem concatenate_correct:
  assumes "represents p as" "represents s bs" "\<not> abs_labels as \<or> bs = []"
    and "nm_magic n" "BINDABLE n" "buffer_ok t"
  shows "if length (name_wire (as @ bs)) > DNS_NAME_MAXWIRE
    then dns_name_concatenate (Some p) (Some s) n t = Some (DNS_R_NAMETOOLONG, MAKE_EMPTY n, t)
    else if b_used t + length (name_wire (as @ bs)) > b_length t
    then dns_name_concatenate (Some p) (Some s) n t = Some (ISC_R_NOSPACE, MAKE_EMPTY n, t)
    else \<exists>n' t'. dns_name_concatenate (Some p) (Some s) n t = Some (ISC_R_SUCCESS, n', t') \<and>
           represents n' (as @ bs) \<and> contents t' = contents t @ name_wire (as @ bs)"
  using concatenate_ok [OF assms] appended_ok(2) [OF assms(6), of "name_wire (as @ bs)"]
  by (auto simp: DNS_NAME_MAXWIRE_def)

definition ex_name_buffer :: isc_buffer where
  "ex_name_buffer = isc_buffer_init (replicate 16 0) 16"

lemma ex_name_buffer_ok: "buffer_ok ex_name_buffer" "b_used ex_name_buffer = 0" "b_length ex_name_buffer = 16"
    "contents ex_name_buffer = []"
  by (simp_all add: ex_name_buffer_def buffer_ok_init) (simp_all add: isc_buffer_init_def)

theorem concatenate_correct_witness:
  "\<exists>n' t'. dns_name_concatenate (Some (name_of [[119]])) (Some (name_of ex_labels2)) (dns_name_init None)
      ex_name_buffer = Some (ISC_R_SUCCESS, n', t') \<and> represents n' ([119] # ex_labels2) \<and>
    contents t' = [1, 119, 2, 97, 66, 0]"
proof -
  have "wf_labels [[119]]" by (simp add: wf_labels_def DNS_NAME_MAXWIRE_def)
  from concatenate_correct [OF represents_name_of [OF this] represents_name_of [OF ex_labels_wf(2)],
      of "dns_name_init None" ex_name_buffer]
  show ?thesis
    by (simp add: abs_labels_def ex_labels2_def DNS_NAME_MAXWIRE_def ex_name_buffer_ok
        dns_name_init_def BINDABLE_def enc_label_def)
qed

text \<open>
  C27: Splitting a name into two names with dedicated buffers and concatenating the two parts gives
  back the name: the same labels, the same bytes.
\<close>

theorem split_concatenate:
  assumes "represents name ls" "0 < k" "k < length ls"
    and "nm_magic p0" "BINDABLE p0" "nm_magic s0" "BINDABLE s0" "nm_magic n0" "BINDABLE n0"
    and "buffer_ok t" "b_used t + nm_length name \<le> b_length t" "nm_buffer p0 \<noteq> None" "nm_buffer s0 \<noteq> None"
  shows "\<exists>p s n t'. dns_name_split name k (Some p0) (Some s0) = Some (Some p, Some s) \<and>
    dns_name_concatenate (Some p) (Some s) n0 t = Some (ISC_R_SUCCESS, n, t') \<and>
    represents n ls \<and> nm_ndata n = nm_ndata name \<and> nm_labels s = k"
proof -
  note d = representsD [OF assms(1)]
  let ?as = "take (length ls - k) ls" and ?bs = "drop (length ls - k) ls"
  obtain p where p: "dns_name_getlabelsequence False name 0 (length ls - k) p0 = Some p" "represents p ?as"
    using getlabelsequence_ok [OF assms(1,4,5), of 0 "length ls - k"] by auto
  obtain s where s: "dns_name_getlabelsequence False name (length ls - k) k s0 = Some s" "represents s ?bs"
    using getlabelsequence_ok [OF assms(1,6,7), of "length ls - k" k] assms(3) by auto
  have "\<not> abs_labels ?as" using abs_labels_take [OF d(2)] assms(2,3) by simp
  moreover have l: "length (name_wire ?as) + length (name_wire ?bs) = length (name_wire ls)"
    using name_wire_split [of ls "length ls - k"] by simp
  ultimately obtain n where n: "dns_name_concatenate (Some p) (Some s) n0 t =
      Some (ISC_R_SUCCESS, n, appended t (name_wire ls))" "represents n ls"
    using concatenate_ok(3) [OF p(2) s(2) _ assms(8,9,10)] d(3) wf_labelsD(3) [OF d(2)] assms(11)
    by auto
  have "dns_name_split name k (Some p0) (Some s0) = Some (Some p, Some s)"
    using p(1) s(1) d(1,4) assms(2-7,12,13) by (simp add: dns_name_split_def split_target_def split_part_def Let_def)
  moreover have "nm_ndata n = nm_ndata name" using d(3) representsD(3) [OF n(2)] by simp
  moreover have "nm_labels s = k" using representsD(4) [OF s(2)] assms(3) by simp
  ultimately show ?thesis using n by blast
qed

theorem split_concatenate_witness:
  "\<exists>p s n t'. dns_name_split (name_of ex_labels) 2 (Some ((dns_name_init None)\<lparr>nm_buffer := Some ex_name_buffer\<rparr>))
      (Some ((dns_name_init (Some []))\<lparr>nm_buffer := Some (isc_buffer_init (replicate 255 0) 255)\<rparr>)) = Some (Some p, Some s) \<and>
    dns_name_concatenate (Some p) (Some s) (dns_name_init None) ex_name_buffer = Some (ISC_R_SUCCESS, n, t') \<and>
    represents n ex_labels \<and> nm_ndata n = nm_ndata (name_of ex_labels) \<and> nm_labels s = 2"
  by (rule split_concatenate [OF represents_name_of [OF ex_labels_wf(1)]])
    (simp_all add: ex_labels_def dns_name_init_def BINDABLE_def ex_name_buffer_ok name_of_def)

lemma downcase_loop_ok:
  "\<forall>l \<in> set ls. length l \<le> 63 \<Longrightarrow>
     downcase_loop (pre @ name_wire ls) (length pre) (length ls) (length (name_wire ls)) =
       Some (name_wire (low ls))"
proof (induction ls arbitrary: pre)
  case (Cons l ls)
  have "mem_rd (pre @ name_wire (l # ls)) (length pre) = Some (word_of_nat (length l))"
    by (simp add: enc_label_def mem_rd_mid)
  moreover have "mem_blk (pre @ name_wire (l # ls)) (length pre + 1) (length l) = Some l"
    using mem_blk_mid [of "length pre + 1" "pre @ [word_of_nat (length l)]" "length l" l "name_wire ls"]
    by (simp add: enc_label_def)
  moreover have "downcase_loop (pre @ name_wire (l # ls)) (length pre + 1 + length l) (length ls)
      (length (name_wire ls)) = Some (name_wire (low ls))"
    using Cons.IH [of "pre @ enc_label l"] Cons.prems by simp
  ultimately show ?case
    using Cons.prems by (simp add: Let_def unat_len) (simp add: enc_label_def)
qed simp

lemma wf_labels_low: "wf_labels (low ls) = wf_labels ls"
proof -
  have "[] \<in> set (butlast (low ls)) \<longleftrightarrow> [] \<in> set (butlast ls)"
    by (auto simp: low_def simp flip: map_butlast)
  then show ?thesis
    by (auto simp: wf_labels_def length_low_wire) (auto simp: low_def)
qed

lemma maptolower_idem [simp]: "maptolower (maptolower c) = maptolower c"
proof (cases "0x41 \<le> c \<and> c \<le> 0x5a")
  case True
  then have "unat c + 32 \<le> 122" "65 \<le> unat c" by (simp_all add: word_le_nat_alt)
  then have "unat (c + 32) = unat c + 32" by (simp add: unat_word_ariths)
  then have "\<not> c + 32 \<le> 0x5a" using \<open>65 \<le> unat c\<close> by (simp add: word_le_nat_alt)
  with True show ?thesis by (simp add: maptolower_def)
next
  case False
  then show ?thesis by (auto simp: maptolower_def)
qed

lemma low_idem [simp]: "low (low ls) = low ls"
  by (simp add: low_def)

lemma abs_labels_low: "abs_labels (low ls) = abs_labels ls"
  by (auto simp: abs_labels_def low_def last_map)

text \<open>
  C28: \<open>dns_name_downcase\<close> appends the name in lower case to the buffer and makes the target name
  refer to it; the result is equal to the source for \<open>dns_name_equal\<close>.
\<close>

theorem downcase_correct:
  assumes "represents source ls" "nm_magic name" "BINDABLE name" "buffer_ok target"
    and "b_used target + nm_length source \<le> b_length target"
  shows "\<exists>n t. dns_name_downcase source name target = Some (ISC_R_SUCCESS, n, t) \<and>
    represents n (low ls) \<and> contents t = contents target @ name_wire (low ls) \<and>
    dns_name_equal source n = Some True"
proof -
  note d = representsD [OF assms(1)] and dt = buffer_okD [OF assms(4)]
  let ?w = "name_wire (low ls)"
  let ?n1 = "name\<lparr>nm_ndata := ?w, nm_labels := length ls,
      nm_attributes := (if is_abs source then DNS_NAMEATTR_ABSOLUTE else 0)\<rparr>"
  have wf: "wf_labels (low ls)" using d(2) by (simp add: wf_labels_low)
  have l: "length ?w = length (name_wire ls)" by (simp add: length_low_wire)
  then have room: "b_used target + length ?w \<le> b_length target" using assms(5) d(3) by simp
  have "nm_ndata ?n1 = ?w" "nm_labels ?n1 = length (low ls)" "nm_magic ?n1" "is_abs ?n1 \<longleftrightarrow> abs_labels (low ls)"
    using assms(2) d(5) by (simp_all add: is_abs_def abs_labels_low)
  from fill_offsets_ok [OF wf this] obtain n where
    n: "fill_offsets ?n1 = Some n" "represents n (low ls)" "nm_length n = length ?w" by blast
  have "downcase_loop (name_wire ls) 0 (length ls) (length (name_wire ls)) = Some ?w"
    using downcase_loop_ok [of ls "[]"] wf_labelsD(1) [OF d(2)] by simp
  then have "dns_name_downcase source name target = Some (ISC_R_SUCCESS, n, appended target ?w)"
    using d assms(2,3,5) dt add_after_store [OF assms(4) room] n(1,3) l
    by (simp add: dns_name_downcase_def Let_def is_abs_def cong: if_cong)
  moreover have "dns_name_equal source n = Some True"
    using equal_ok [OF assms(1) n(2)] by (simp add: abs_labels_low)
  ultimately show ?thesis
    using n(2) appended_ok(2) [OF assms(4) room] by blast
qed

theorem downcase_correct_witness:
  "\<exists>n t. dns_name_downcase (name_of ex_labels) (dns_name_init None) ex_name_buffer = Some (ISC_R_SUCCESS, n, t) \<and>
    represents n (low ex_labels) \<and> contents t = contents ex_name_buffer @ name_wire (low ex_labels) \<and>
    dns_name_equal (name_of ex_labels) n = Some True"
  by (rule downcase_correct [OF represents_name_of [OF ex_labels_wf(1)]])
    (simp_all add: ex_labels_def dns_name_init_def BINDABLE_def ex_name_buffer_ok name_of_def)

end
