(* ===== verification/Name_Decode.thy ===== *)
theory Name_Decode
  imports Name
begin

text \<open>
  Decompression of names: the decompression context of \<^verbatim>\<open>lib/dns/compress.c\<close> and \<open>dns_name_fromwire\<close> of
  \<^verbatim>\<open>lib/dns/name.c\<close>, which reads a name from a message that anybody may have sent.  The function is a
  state machine over the bytes of the message.  A pointer moves it back to an earlier name; the loop
  ends because every pointer has to be smaller than the one before (\<open>biggest_pointer\<close>), which is
  the measure of the termination proof.

  The model works on the bytes of the source buffer, writes the name byte by byte into the memory of
  the target buffer and keeps the entries of the offsets table in a list of at most 128 elements, the
  size of a \<^verbatim>\<open>dns_offsets_t\<close>: a load or a store out of range, or an entry too much, is \<open>None\<close>.
  A name that an error leaves empty uses no entry of its table, so the table keeps its value in the
  model.
\<close>

section \<open>The decompression context\<close>

definition DNS_COMPRESS_NONE :: u32 where "DNS_COMPRESS_NONE = 0x0"
definition DNS_COMPRESS_GLOBAL14 :: u32 where "DNS_COMPRESS_GLOBAL14 = 0x1"
definition DNS_COMPRESS_ALL :: u32 where "DNS_COMPRESS_ALL = 0x1"
definition DNS_COMPRESS_CASESENSITIVE :: u32 where "DNS_COMPRESS_CASESENSITIVE = 0x2"

datatype dns_decompresstype =
    DNS_DECOMPRESS_ANY
  | DNS_DECOMPRESS_STRICT
  | DNS_DECOMPRESS_NONE

record dns_decompress =
  dc_magic :: bool
  dc_allowed :: u32
  dc_edns :: int
  dc_type :: dns_decompresstype

definition dns_decompress_init :: "int \<Rightarrow> dns_decompresstype \<Rightarrow> dns_decompress option" where
  "dns_decompress_init edns type =
     (if - 1 \<le> edns \<and> edns \<le> 255
      then Some \<lparr>dc_magic = True, dc_allowed = DNS_COMPRESS_NONE, dc_edns = edns, dc_type = type\<rparr>
      else None)"

definition dns_decompress_invalidate :: "dns_decompress \<Rightarrow> dns_decompress option" where
  "dns_decompress_invalidate dctx = (if dc_magic dctx then Some (dctx\<lparr>dc_magic := False\<rparr>) else None)"

definition dns_decompress_setmethods :: "dns_decompress \<Rightarrow> u32 \<Rightarrow> dns_decompress option" where
  "dns_decompress_setmethods dctx allowed =
     (if dc_magic dctx
      then Some (dctx\<lparr>dc_allowed :=
        (case dc_type dctx of
           DNS_DECOMPRESS_ANY \<Rightarrow> DNS_COMPRESS_ALL
         | DNS_DECOMPRESS_NONE \<Rightarrow> DNS_COMPRESS_NONE
         | DNS_DECOMPRESS_STRICT \<Rightarrow> allowed)\<rparr>)
      else None)"

definition dns_decompress_getmethods :: "dns_decompress \<Rightarrow> u32 option" where
  "dns_decompress_getmethods dctx = (if dc_magic dctx then Some (dc_allowed dctx) else None)"

definition dns_decompress_edns :: "dns_decompress \<Rightarrow> int option" where
  "dns_decompress_edns dctx = (if dc_magic dctx then Some (dc_edns dctx) else None)"

definition dns_decompress_type :: "dns_decompress \<Rightarrow> dns_decompresstype option" where
  "dns_decompress_type dctx = (if dc_magic dctx then Some (dc_type dctx) else None)"

section \<open>The state machine\<close>

definition DNS_NAME_DOWNCASE :: u32 where "DNS_NAME_DOWNCASE = 0x1"

datatype fw_state = fw_start | fw_ordinary | fw_copy | fw_newcurrent

text \<open>
  The local variables: \<open>f_pos\<close> is the position of \<open>ndata\<close> in the memory \<open>f_mem\<close> of the target.  The
  pointer \<open>cdata\<close> is always at \<open>current\<close>.
\<close>

record fw =
  f_state :: fw_state
  f_current :: nat
  f_cused :: nat
  f_n :: nat
  f_new_current :: nat
  f_biggest_pointer :: nat
  f_nused :: nat
  f_offsets :: "nat list"
  f_mem :: mem
  f_pos :: nat
  f_seen_pointer :: bool
  f_done :: bool

text \<open>The field \<open>labels\<close> is the number of entries of the table.\<close>

definition fw_put :: "fw \<Rightarrow> u8 \<Rightarrow> fw option" where
  "fw_put s c = do { m \<leftarrow> mem_wr (f_mem s) (f_pos s) [c]; Some (s\<lparr>f_mem := m, f_pos := f_pos s + 1\<rparr>) }"

text \<open>\<open>*ndata++ = c; n--; if (n == 0) state = fw_start;\<close>\<close>

definition fw_copy_char :: "fw \<Rightarrow> u8 \<Rightarrow> fw option" where
  "fw_copy_char s c =
     do { s1 \<leftarrow> fw_put s c;
          let n = u32_sub (f_n s) 1;
          Some (s1\<lparr>f_n := n, f_state := (if n = 0 then fw_start else f_state s)\<rparr>) }"

text \<open>
  One round of the loop: the result code when the function returns, and the state.  The label
  \<open>full\<close> is the result code \<open>fullres\<close>.
\<close>

definition fw_step :: "mem \<Rightarrow> bool \<Rightarrow> bool \<Rightarrow> nat \<Rightarrow> fw \<Rightarrow> (isc_result option \<times> fw) option" where
  "fw_step base downcase global14 nmax s =
     do { b \<leftarrow> mem_rd base (f_current s);
          let c = unat b;
          let s1 = s\<lparr>f_current := f_current s + 1,
                     f_cused := (if f_seen_pointer s then f_cused s else f_cused s + 1)\<rparr>;
          case f_state s of
            fw_start \<Rightarrow>
              if c < 64
              then if length (f_offsets s1) < 128
                   then do { let s2 = s1\<lparr>f_offsets := f_offsets s1 @ [f_nused s1]\<rparr>;
                             if f_nused s2 + c + 1 > nmax
                             then Some (Some (if nmax = DNS_NAME_MAXWIRE then DNS_R_NAMETOOLONG else ISC_R_NOSPACE), s2)
                             else do { s3 \<leftarrow> fw_put (s2\<lparr>f_nused := f_nused s2 + c + 1\<rparr>) b;
                                       Some (None, s3\<lparr>f_done := (if c = 0 then True else f_done s3),
                                                      f_n := c, f_state := fw_ordinary\<rparr>) } }
                   else None
              else if 128 \<le> c \<and> c < 192 then Some (Some DNS_R_BADLABELTYPE, s1)
              else if c \<ge> 192
              then if \<not> global14 then Some (Some DNS_R_DISALLOWED, s1)
                   else Some (None, s1\<lparr>f_new_current := c mod 64, f_n := 1, f_state := fw_newcurrent\<rparr>)
              else Some (Some DNS_R_BADLABELTYPE, s1)
          | fw_ordinary \<Rightarrow>
              do { s2 \<leftarrow> fw_copy_char s1 (if downcase then maptolower b else b); Some (None, s2) }
          | fw_copy \<Rightarrow> do { s2 \<leftarrow> fw_copy_char s1 b; Some (None, s2) }
          | fw_newcurrent \<Rightarrow>
              do { let new_current = f_new_current s1 * 256 + c;
                   let n = u32_sub (f_n s1) 1;
                   let s2 = s1\<lparr>f_new_current := new_current, f_n := n\<rparr>;
                   if n \<noteq> 0 then Some (None, s2)
                   else if new_current \<ge> f_biggest_pointer s2 then Some (Some DNS_R_BADPOINTER, s2)
                   else Some (None, s2\<lparr>f_biggest_pointer := new_current, f_current := new_current,
                                       f_seen_pointer := True, f_state := fw_start\<rparr>) } }"

lemma fw_put_fields:
  "fw_put s c = Some s' \<Longrightarrow> f_current s' = f_current s \<and> f_biggest_pointer s' = f_biggest_pointer s"
  by (auto simp: fw_put_def split: bind_splits)

lemma fw_copy_char_fields:
  "fw_copy_char s c = Some s' \<Longrightarrow> f_current s' = f_current s \<and> f_biggest_pointer s' = f_biggest_pointer s"
  by (auto simp: fw_copy_char_def Let_def dest: fw_put_fields split: bind_splits)

text \<open>Every round moves forward by a byte, or back by a pointer smaller than all before.\<close>

lemma fw_step_decreases:
  assumes "fw_step base downcase global14 nmax s = Some (None, s')"
  shows "f_biggest_pointer s' < f_biggest_pointer s \<or>
    f_biggest_pointer s' = f_biggest_pointer s \<and> f_current s' = f_current s + 1"
  using assms
  by (cases "f_state s")
    (auto simp: fw_step_def Let_def dest!: fw_put_fields fw_copy_char_fields
      split: bind_splits if_splits)

function fw_loop :: "mem \<Rightarrow> nat \<Rightarrow> bool \<Rightarrow> bool \<Rightarrow> nat \<Rightarrow> fw \<Rightarrow> (isc_result option \<times> fw) option" where
  "fw_loop base active downcase global14 nmax s =
     (if f_current s < active \<and> \<not> f_done s
      then case fw_step base downcase global14 nmax s of
             None \<Rightarrow> None
           | Some (Some r, s') \<Rightarrow> Some (Some r, s')
           | Some (None, s') \<Rightarrow> fw_loop base active downcase global14 nmax s'
      else Some (None, s))"
  by pat_completeness auto
termination
  by (relation "measures [\<lambda>(base, active, d, g, nmax, s). f_biggest_pointer s,
      \<lambda>(base, active, d, g, nmax, s). active - f_current s]")
    (auto dest!: fw_step_decreases)

declare fw_loop.simps [simp del]

text \<open>The initial state of the machine.\<close>

definition fw_init :: "isc_buffer \<Rightarrow> isc_buffer \<Rightarrow> fw" where
  "fw_init source target =
     \<lparr>f_state = fw_start, f_current = b_current source, f_cused = 0, f_n = 0, f_new_current = 0,
      f_biggest_pointer = b_current source, f_nused = 0, f_offsets = [], f_mem = b_base target,
      f_pos = b_used target, f_seen_pointer = False, f_done = False\<rparr>"

text \<open>The number of bytes the name may take.\<close>

definition fw_nmax :: "isc_buffer \<Rightarrow> nat" where
  "fw_nmax target =
     (let nmax = isc_buffer_availablelength target
      in if nmax > DNS_NAME_MAXWIRE then DNS_NAME_MAXWIRE else nmax)"

text \<open>What \<open>dns_name_fromwire\<close> does with the final state of the loop.\<close>

definition fw_finish ::
    "dns_name \<Rightarrow> isc_buffer \<Rightarrow> isc_buffer \<Rightarrow> isc_result option \<times> fw \<Rightarrow>
       (isc_result \<times> dns_name \<times> isc_buffer \<times> isc_buffer) option" where
  "fw_finish name source target x =
     (case x of
        (Some res, s) \<Rightarrow> Some (res, MAKE_EMPTY name, source, target\<lparr>b_base := f_mem s\<rparr>)
      | (None, s) \<Rightarrow>
          if \<not> f_done s then Some (ISC_R_UNEXPECTEDEND, MAKE_EMPTY name, source, target\<lparr>b_base := f_mem s\<rparr>)
          else do { ndata \<leftarrow> mem_blk (f_mem s) (b_used target) (f_nused s);
                    let n = (MAKE_EMPTY name)\<lparr>nm_ndata := ndata, nm_labels := length (f_offsets s),
                      nm_attributes := nm_attributes (MAKE_EMPTY name) OR DNS_NAMEATTR_ABSOLUTE,
                      nm_offsets := (if nm_offsets name = None then None else Some (f_offsets s))\<rparr>;
                    src \<leftarrow> isc_buffer_forward source (f_cused s);
                    t \<leftarrow> isc_buffer_add (target\<lparr>b_base := f_mem s\<rparr>) (nm_length n);
                    Some (ISC_R_SUCCESS, n, src, t) })"

text \<open>
  \<open>dns_name_fromwire\<close> for a target that is given; \<open>source\<close> and \<open>target\<close> are different buffers.
\<close>

definition dns_name_fromwire ::
    "dns_name \<Rightarrow> isc_buffer \<Rightarrow> dns_decompress \<Rightarrow> u32 \<Rightarrow> isc_buffer \<Rightarrow>
       (isc_result \<times> dns_name \<times> isc_buffer \<times> isc_buffer) option" where
  "dns_name_fromwire name source dctx options target =
     (if nm_magic name \<and> b_magic target \<and> BINDABLE name
      then do { let downcase = (options AND DNS_NAME_DOWNCASE \<noteq> 0);
                let global14 = (dc_allowed dctx AND DNS_COMPRESS_GLOBAL14 \<noteq> 0);
                x \<leftarrow> fw_loop (b_base source) (b_active source) downcase global14 (fw_nmax target)
                       (fw_init source target);
                fw_finish name source target x }
      else None)"

section \<open>Every message is handled\<close>

text \<open>The bytes written to the target so far, and the entries of the table for the labels \<open>ls\<close>.\<close>

definition fw_out :: "nat \<Rightarrow> fw \<Rightarrow> u8 list" where
  "fw_out used s = drop used (take (f_pos s) (f_mem s))"

definition offs_of :: "label list \<Rightarrow> nat list" where
  "offs_of ls = map (name_off ls) [0..<length ls]"

lemma offs_of_snoc: "offs_of (ls @ [l]) = offs_of ls @ [length (name_wire ls)]"
  by (auto simp: offs_of_def name_off_def)

lemma length_offs_of [simp]: "length (offs_of ls) = length ls"
  by (simp add: offs_of_def)

text \<open>The labels read so far, by the state of the machine.\<close>

definition fw_shape :: "nat \<Rightarrow> fw \<Rightarrow> label list \<Rightarrow> bool" where
  "fw_shape used s ls \<longleftrightarrow> [] \<notin> set ls \<and> (\<forall>l \<in> set ls. length l \<le> 63) \<and>
     (if f_done s
      then fw_out used s = name_wire (ls @ [[]]) \<and> f_nused s = length (name_wire (ls @ [[]])) \<and>
           f_offsets s = offs_of (ls @ [[]])
      else case f_state s of
        fw_start \<Rightarrow> fw_out used s = name_wire ls \<and> f_nused s = length (name_wire ls) \<and>
          f_offsets s = offs_of ls
      | fw_newcurrent \<Rightarrow> fw_out used s = name_wire ls \<and> f_nused s = length (name_wire ls) \<and>
          f_offsets s = offs_of ls \<and> f_n s = 1
      | fw_ordinary \<Rightarrow> (\<exists>k part. fw_out used s = name_wire ls @ word_of_nat k # part \<and> k \<le> 63 \<and>
          0 < f_n s \<and> length part + f_n s = k \<and> f_nused s = length (name_wire ls) + k + 1 \<and>
          f_offsets s = offs_of (ls @ [[]]))
      | fw_copy \<Rightarrow> False)"

definition fw_inv :: "nat \<Rightarrow> nat \<Rightarrow> nat \<Rightarrow> nat \<Rightarrow> mem \<Rightarrow> fw \<Rightarrow> bool" where
  "fw_inv cur active used nmax m0 s \<longleftrightarrow>
     used + nmax \<le> length m0 \<and> nmax \<le> 255 \<and> length (f_mem s) = length m0 \<and>
     take used (f_mem s) = take used m0 \<and> used \<le> f_pos s \<and> f_pos s \<le> used + f_nused s \<and>
     f_nused s \<le> nmax \<and> f_biggest_pointer s \<le> active \<and> f_current s \<le> active \<and>
     cur + f_cused s \<le> active \<and> (f_seen_pointer s \<or> f_current s = cur + f_cused s) \<and>
     (\<exists>ls. fw_shape used s ls)"

lemma fw_put_ok:
  assumes "used \<le> f_pos s" "f_pos s < length (f_mem s)"
  shows "\<exists>m. fw_put s c = Some (s\<lparr>f_mem := m, f_pos := f_pos s + 1\<rparr>) \<and> length m = length (f_mem s) \<and>
    take used m = take used (f_mem s) \<and>
    fw_out used (s\<lparr>f_mem := m, f_pos := f_pos s + 1\<rparr>) = fw_out used s @ [c]"
proof -
  let ?m = "take (f_pos s) (f_mem s) @ c # drop (f_pos s + 1) (f_mem s)"
  have "fw_put s c = Some (s\<lparr>f_mem := ?m, f_pos := f_pos s + 1\<rparr>)"
    using assms by (simp add: fw_put_def mem_wr_def)
  moreover have "fw_out used (s\<lparr>f_mem := ?m, f_pos := f_pos s + 1\<rparr>) = fw_out used s @ [c]"
    using assms by (simp add: fw_out_def)
  ultimately show ?thesis using assms by auto
qed

lemma fw_out_cong: "f_mem s' = f_mem s \<Longrightarrow> f_pos s' = f_pos s \<Longrightarrow> fw_out used s' = fw_out used s"
  by (simp add: fw_out_def)

text \<open>The length of what was written is the distance from the start.\<close>

lemma length_fw_out: "f_pos s \<le> length (f_mem s) \<Longrightarrow> length (fw_out used s) = f_pos s - used"
  by (simp add: fw_out_def)

lemma fw_shape_room:
  assumes "fw_inv cur active used nmax m0 s" "fw_shape used s ls" "\<not> f_done s"
  shows "f_state s = fw_start \<or> f_state s = fw_newcurrent \<Longrightarrow> f_pos s = used + f_nused s"
    and "f_state s = fw_ordinary \<Longrightarrow> f_pos s + f_n s = used + f_nused s"
    and "length (f_offsets s) \<le> 128" "f_state s = fw_start \<Longrightarrow> length (f_offsets s) < 128"
proof -
  have p: "length (fw_out used s) = f_pos s - used" "used \<le> f_pos s"
    using assms(1) length_fw_out [of s used] by (auto simp: fw_inv_def)
  have n: "f_nused s \<le> 255" using assms(1) by (auto simp: fw_inv_def)
  have w: "2 * length ls \<le> length (name_wire ls)"
    using assms(2) by (intro length_name_wire_ge) (simp add: fw_shape_def)
  show "f_state s = fw_start \<or> f_state s = fw_newcurrent \<Longrightarrow> f_pos s = used + f_nused s"
    using assms(2,3) p by (auto simp: fw_shape_def)
  show "f_state s = fw_ordinary \<Longrightarrow> f_pos s + f_n s = used + f_nused s"
    using assms(2,3) p by (auto simp: fw_shape_def)
  show "length (f_offsets s) \<le> 128" "f_state s = fw_start \<Longrightarrow> length (f_offsets s) < 128"
    using assms(2,3) w n by (auto simp: fw_shape_def split: fw_state.splits)
qed

text \<open>The result codes of a message that is not a legal name, or of one that does not fit.\<close>

abbreviation fw_errors :: "isc_result set" where
  "fw_errors \<equiv> {DNS_R_BADLABELTYPE, DNS_R_DISALLOWED, DNS_R_BADPOINTER, DNS_R_NAMETOOLONG, ISC_R_NOSPACE,
     ISC_R_UNEXPECTEDEND}"

definition fw_next :: "nat \<Rightarrow> nat \<Rightarrow> nat \<Rightarrow> nat \<Rightarrow> mem \<Rightarrow> isc_result option \<times> fw \<Rightarrow> bool" where
  "fw_next cur active used nmax m0 x \<longleftrightarrow>
     (case x of
        (None, s') \<Rightarrow> fw_inv cur active used nmax m0 s'
      | (Some r, s') \<Rightarrow> r \<in> fw_errors \<and> length (f_mem s') = length m0 \<and> take used (f_mem s') = take used m0)"

text \<open>The state after the length byte of a label that fits, and after a byte of a label.\<close>

definition fw_label :: "u8 \<Rightarrow> mem \<Rightarrow> fw \<Rightarrow> fw" where
  "fw_label b m s =
     s\<lparr>f_current := f_current s + 1, f_cused := (if f_seen_pointer s then f_cused s else f_cused s + 1),
       f_offsets := f_offsets s @ [f_nused s], f_nused := f_nused s + unat b + 1, f_mem := m,
       f_pos := f_pos s + 1, f_done := (unat b = 0), f_n := unat b, f_state := fw_ordinary\<rparr>"

definition fw_char :: "mem \<Rightarrow> fw \<Rightarrow> fw" where
  "fw_char m s =
     s\<lparr>f_current := f_current s + 1, f_cused := (if f_seen_pointer s then f_cused s else f_cused s + 1),
       f_mem := m, f_pos := f_pos s + 1, f_n := f_n s - 1,
       f_state := (if f_n s - 1 = 0 then fw_start else fw_ordinary)\<rparr>"

lemma fw_step_label:
  assumes inv: "fw_inv cur active used nmax m0 s" and shape: "fw_shape used s ls"
    and s: "f_current s < active" "\<not> f_done s" "f_state s = fw_start" "active \<le> length base"
    and b: "b = base ! f_current s" "unat b < 64" "f_nused s + unat b + 1 \<le> nmax"
  obtains m where "fw_step base downcase global14 nmax s = Some (None, fw_label b m s)"
    "length m = length m0" "take used m = take used m0"
    "fw_out used (fw_label b m s) = fw_out used s @ [b]"
proof -
  let ?s2 = "s\<lparr>f_current := f_current s + 1, f_cused := (if f_seen_pointer s then f_cused s else f_cused s + 1),
      f_offsets := f_offsets s @ [f_nused s], f_nused := f_nused s + unat b + 1\<rparr>"
  have rd: "mem_rd base (f_current s) = Some b" using s b by (simp add: mem_rd_def)
  note pos = fw_shape_room(1) [OF inv shape s(2)] and lt = fw_shape_room(4) [OF inv shape s(2,3)]
  have mem: "length (f_mem s) = length m0" "used + nmax \<le> length m0" "used \<le> f_pos s"
      "take used (f_mem s) = take used m0"
    using inv by (auto simp: fw_inv_def)
  then have "f_pos ?s2 < length (f_mem ?s2)" using pos s(3) b(3) by simp
  then obtain m where m: "fw_put ?s2 b = Some (?s2\<lparr>f_mem := m, f_pos := f_pos s + 1\<rparr>)"
      "length m = length m0" "take used m = take used m0"
      "fw_out used (?s2\<lparr>f_mem := m, f_pos := f_pos s + 1\<rparr>) = fw_out used s @ [b]"
    using fw_put_ok [of used ?s2 b] mem by (auto simp: fw_out_def)
  show thesis
  proof (rule that [OF _ m(2,3)])
    show "fw_step base downcase global14 nmax s = Some (None, fw_label b m s)"
      using b rd m(1) lt s by (simp add: fw_step_def fw_label_def Let_def)
    show "fw_out used (fw_label b m s) = fw_out used s @ [b]"
      using m(4) by (simp add: fw_out_def fw_label_def)
  qed
qed

lemma fw_step_char:
  assumes inv: "fw_inv cur active used nmax m0 s" and shape: "fw_shape used s ls"
    and s: "f_current s < active" "\<not> f_done s" "f_state s = fw_ordinary" "active \<le> length base"
    and c: "c = (if downcase then maptolower (base ! f_current s) else base ! f_current s)"
  obtains m where "fw_step base downcase global14 nmax s = Some (None, fw_char m s)"
    "length m = length m0" "take used m = take used m0"
    "fw_out used (fw_char m s) = fw_out used s @ [c]"
proof -
  let ?s1 = "s\<lparr>f_current := f_current s + 1, f_cused := (if f_seen_pointer s then f_cused s else f_cused s + 1)\<rparr>"
  have rd: "mem_rd base (f_current s) = Some (base ! f_current s)" using s by (simp add: mem_rd_def)
  have mem: "length (f_mem s) = length m0" "used + nmax \<le> length m0" "used \<le> f_pos s" "f_nused s \<le> nmax"
      "take used (f_mem s) = take used m0" "nmax \<le> 255"
    using inv by (auto simp: fw_inv_def)
  have n: "0 < f_n s" "f_n s \<le> 63" using shape s by (auto simp: fw_shape_def)
  note pos = fw_shape_room(2) [OF inv shape s(2,3)]
  then have "f_pos ?s1 < length (f_mem ?s1)" using n(1) mem by simp
  then obtain m where m: "fw_put ?s1 c = Some (?s1\<lparr>f_mem := m, f_pos := f_pos s + 1\<rparr>)"
      "length m = length m0" "take used m = take used m0"
      "fw_out used (?s1\<lparr>f_mem := m, f_pos := f_pos s + 1\<rparr>) = fw_out used s @ [c]"
    using fw_put_ok [of used ?s1 c] mem by (auto simp: fw_out_def)
  have u: "u32_sub (f_n s) 1 = f_n s - 1" using n by simp
  show thesis
  proof (rule that [OF _ m(2,3)])
    show "fw_step base downcase global14 nmax s = Some (None, fw_char m s)"
      using rd m(1) s u by (simp add: fw_step_def fw_copy_char_def fw_char_def Let_def flip: c)
    show "fw_out used (fw_char m s) = fw_out used s @ [c]"
      using m(4) by (simp add: fw_out_def fw_char_def)
  qed
qed

text \<open>How the labels read so far change.\<close>

lemma fw_label_shape:
  assumes "fw_shape used s ls" "\<not> f_done s" "f_state s = fw_start" "unat b < 64"
    and "fw_out used (fw_label b m s) = fw_out used s @ [b]"
  shows "fw_shape used (fw_label b m s) ls"
proof (cases "unat b = 0")
  case True
  then have "b = 0" by (simp add: unat_eq_0)
  then show ?thesis
    using assms by (simp add: fw_shape_def fw_label_def enc_label_def offs_of_snoc)
next
  case False
  then have "fw_out used (fw_label b m s) = name_wire ls @ word_of_nat (unat b) # [] \<and> unat b \<le> 63 \<and>
      0 < unat b \<and> length ([] :: u8 list) + unat b = unat b"
    using assms by (simp add: fw_shape_def)
  then show ?thesis
    using assms False by (auto simp: fw_shape_def fw_label_def offs_of_snoc simp del: of_nat_unat)
qed

lemma fw_char_shape:
  assumes "fw_shape used s ls" "\<not> f_done s" "f_state s = fw_ordinary"
    and "fw_out used s = name_wire ls @ word_of_nat k # part" "k = length part + f_n s" "k \<le> 63"
    and "fw_out used (fw_char m s) = fw_out used s @ [c]"
  shows "fw_shape used (fw_char m s) (if f_n s = 1 then ls @ [part @ [c]] else ls)"
proof -
  from assms(1-3) obtain k' part' where kp: "fw_out used s = name_wire ls @ word_of_nat k' # part'" "k' \<le> 63"
      "0 < f_n s" "length part' + f_n s = k'" "f_nused s = length (name_wire ls) + k' + 1"
      "f_offsets s = offs_of (ls @ [[]])"
    unfolding fw_shape_def by (simp only: fw_state.case if_False) blast
  then have "part' = part" "k' = k" using assms(4,5) by simp_all
  show ?thesis
  proof (cases "f_n s = 1")
    case True
    then show ?thesis
      using assms kp \<open>k' = k\<close> by (auto simp: fw_shape_def fw_char_def enc_label_def offs_of_snoc)
  next
    case False
    have "fw_out used (fw_char m s) = name_wire ls @ word_of_nat k # (part @ [c])"
      using assms(4,7) by simp
    moreover have "length (part @ [c]) + (f_n s - 1) = k" "0 < f_n s - 1" using False kp assms(5) by simp_all
    ultimately have "\<exists>k part. fw_out used (fw_char m s) = name_wire ls @ word_of_nat k # part \<and> k \<le> 63 \<and>
        0 < f_n s - 1 \<and> length part + (f_n s - 1) = k \<and> f_nused s = length (name_wire ls) + k + 1"
      using kp \<open>k' = k\<close> assms(6) by blast
    then show ?thesis
      using assms(1,2) False kp(3,6) by (simp add: fw_shape_def fw_char_def)
  qed
qed

lemma fw_ordinaryE:
  assumes "fw_shape used s ls" "\<not> f_done s" "f_state s = fw_ordinary"
  obtains k part where "fw_out used s = name_wire ls @ word_of_nat k # part" "k = length part + f_n s"
    "k \<le> 63" "0 < f_n s"
  using assms unfolding fw_shape_def by (simp only: fw_state.case if_False) blast

lemma fw_label_inv:
  assumes "fw_inv cur active used nmax m0 s" "fw_shape used s ls" "\<not> f_done s" "f_state s = fw_start"
    "f_current s < active" "unat b < 64" "f_nused s + unat b + 1 \<le> nmax"
    "length m = length m0" "take used m = take used m0" "fw_out used (fw_label b m s) = fw_out used s @ [b]"
  shows "fw_inv cur active used nmax m0 (fw_label b m s)"
  using assms fw_label_shape [OF assms(2,3,4,6,10)] fw_shape_room(1) [OF assms(1-3)]
  by (auto simp: fw_inv_def) (auto simp: fw_label_def split: if_splits)

lemma fw_char_inv:
  assumes "fw_inv cur active used nmax m0 s" "fw_shape used s ls" "\<not> f_done s" "f_state s = fw_ordinary"
    "f_current s < active" "length m = length m0" "take used m = take used m0"
    "fw_out used (fw_char m s) = fw_out used s @ [c]"
  shows "fw_inv cur active used nmax m0 (fw_char m s)"
proof -
  obtain k part where kp: "fw_out used s = name_wire ls @ word_of_nat k # part" "k = length part + f_n s"
      "k \<le> 63" "0 < f_n s"
    using fw_ordinaryE [OF assms(2-4)] by blast
  have "\<exists>ls'. fw_shape used (fw_char m s) ls'"
    using fw_char_shape [OF assms(2-4) kp(1-3) assms(8)] by blast
  then show ?thesis
    using assms(1,5-7) fw_shape_room(2) [OF assms(1-4)] kp(4)
    by (auto simp: fw_inv_def) (auto simp: fw_char_def split: if_splits)
qed

lemma fw_step_start:
  assumes inv: "fw_inv cur active used nmax m0 s" and shape: "fw_shape used s ls"
    and s: "f_current s < active" "\<not> f_done s" "f_state s = fw_start" "active \<le> length base"
  shows "\<exists>x. fw_step base downcase global14 nmax s = Some x \<and> fw_next cur active used nmax m0 x"
proof -
  let ?b = "base ! f_current s"
  show ?thesis
  proof (cases "unat ?b < 64 \<and> f_nused s + unat ?b + 1 \<le> nmax")
    case True
    then obtain m where m: "fw_step base downcase global14 nmax s = Some (None, fw_label ?b m s)"
        "length m = length m0" "take used m = take used m0" "fw_out used (fw_label ?b m s) = fw_out used s @ [?b]"
      using fw_step_label [OF inv shape s refl] by blast
    moreover have "fw_inv cur active used nmax m0 (fw_label ?b m s)"
      using fw_label_inv [OF inv shape s(2,3,1) _ _ m(2-4)] True by blast
    ultimately show ?thesis by (simp add: fw_next_def)
  next
    case False
    have rd: "mem_rd base (f_current s) = Some ?b" using s by (simp add: mem_rd_def)
    show ?thesis
      using False rd fw_shape_room(4) [OF inv shape s(2,3)] s inv shape
      by (auto simp: fw_step_def Let_def fw_next_def fw_inv_def fw_shape_def fw_out_def)
  qed
qed

lemma fw_step_ordinary:
  assumes inv: "fw_inv cur active used nmax m0 s" and shape: "fw_shape used s ls"
    and s: "f_current s < active" "\<not> f_done s" "f_state s = fw_ordinary" "active \<le> length base"
  shows "\<exists>x. fw_step base downcase global14 nmax s = Some x \<and> fw_next cur active used nmax m0 x"
proof -
  obtain m where m: "fw_step base downcase global14 nmax s = Some (None, fw_char m s)"
      "length m = length m0" "take used m = take used m0"
      "fw_out used (fw_char m s) = fw_out used s @ [if downcase then maptolower (base ! f_current s) else base ! f_current s]"
    using fw_step_char [OF inv shape s refl] by blast
  then show ?thesis
    using fw_char_inv [OF inv shape s(2,3,1) m(2-4)] by (simp add: fw_next_def)
qed

lemma fw_step_newcurrent:
  assumes inv: "fw_inv cur active used nmax m0 s" and shape: "fw_shape used s ls"
    and s: "f_current s < active" "\<not> f_done s" "f_state s = fw_newcurrent" "active \<le> length base"
  shows "\<exists>x. fw_step base downcase global14 nmax s = Some x \<and> fw_next cur active used nmax m0 x"
proof -
  have rd: "mem_rd base (f_current s) = Some (base ! f_current s)" using s by (simp add: mem_rd_def)
  have "f_n s = 1" using shape s by (simp add: fw_shape_def)
  then show ?thesis
    using rd s inv shape
    by (auto simp: fw_step_def Let_def fw_next_def fw_inv_def fw_shape_def fw_out_def)
qed

lemma fw_step_safe:
  assumes "fw_inv cur active used nmax m0 s" "f_current s < active" "\<not> f_done s" "active \<le> length base"
  shows "\<exists>x. fw_step base downcase global14 nmax s = Some x \<and> fw_next cur active used nmax m0 x"
proof -
  obtain ls where shape: "fw_shape used s ls" using assms(1) by (auto simp: fw_inv_def)
  show ?thesis
  proof (cases "f_state s")
    case fw_start
    then show ?thesis using fw_step_start [OF assms(1) shape] assms(2-4) by blast
  next
    case fw_ordinary
    then show ?thesis using fw_step_ordinary [OF assms(1) shape] assms(2-4) by blast
  next
    case fw_copy
    then show ?thesis using shape assms(3) by (simp add: fw_shape_def)
  next
    case fw_newcurrent
    then show ?thesis using fw_step_newcurrent [OF assms(1) shape] assms(2-4) by blast
  qed
qed

lemma fw_loop_safe:
  assumes "fw_inv cur active used nmax m0 s" "active \<le> length base"
  shows "\<exists>x. fw_loop base active downcase global14 nmax s = Some x \<and> fw_next cur active used nmax m0 x \<and>
    (fst x = None \<longrightarrow> f_done (snd x) \<or> f_current (snd x) = active)"
  using assms
proof (induction base active downcase global14 nmax s rule: fw_loop.induct)
  case (1 base active downcase global14 nmax s)
  show ?case
  proof (cases "f_current s < active \<and> \<not> f_done s")
    case False
    then show ?thesis
      using "1.prems" by (auto simp: fw_loop.simps [of base active] fw_next_def fw_inv_def)
  next
    case True
    obtain x where x: "fw_step base downcase global14 nmax s = Some x" "fw_next cur active used nmax m0 x"
      using fw_step_safe [OF "1.prems"(1)] True "1.prems"(2) by blast
    obtain r s' where rs: "x = (r, s')" by (cases x)
    show ?thesis
    proof (cases r)
      case None
      then show ?thesis
        using "1.IH" [OF True x(1)] rs x "1.prems"(2) True
        by (auto simp: fw_loop.simps [of base active downcase global14 nmax s] fw_next_def)
    next
      case (Some e)
      then show ?thesis
        using rs x True by (auto simp: fw_loop.simps [of base active downcase global14 nmax s])
    qed
  qed
qed

lemma make_empty_fields [simp]:
  "nm_magic (MAKE_EMPTY n) = nm_magic n" "nm_ndata (MAKE_EMPTY n) = []" "nm_labels (MAKE_EMPTY n) = 0"
  "nm_offsets (MAKE_EMPTY n) = nm_offsets n"
  "nm_attributes (MAKE_EMPTY n) = nm_attributes n AND NOT DNS_NAMEATTR_ABSOLUTE"
  by (simp_all add: MAKE_EMPTY_def)

lemma represents_empty: "nm_magic n \<Longrightarrow> represents (MAKE_EMPTY n) []"
  by (simp add: represents_def wf_labels_def is_abs_def abs_labels_def)

lemma fw_shape_wf:
  assumes "fw_shape used s ls" "f_nused s \<le> 255" "f_done s"
  shows "wf_labels (ls @ [[]])" "abs_labels (ls @ [[]])"
  using assms by (auto simp: fw_shape_def wf_labels_def DNS_NAME_MAXWIRE_def abs_labels_def)

lemma fw_nmax_ok: "buffer_ok t \<Longrightarrow> fw_nmax t = min 255 (b_length t - b_used t)"
  by (simp add: fw_nmax_def buffer_lengths_ok DNS_NAME_MAXWIRE_def min_def Let_def)

lemma fw_init_inv:
  assumes "buffer_ok source" "buffer_ok target" "b_current source \<le> b_active source"
  shows "fw_inv (b_current source) (b_active source) (b_used target) (fw_nmax target) (b_base target)
    (fw_init source target)"
proof -
  have "fw_shape (b_used target) (fw_init source target) []"
    by (simp add: fw_shape_def fw_init_def fw_out_def offs_of_def)
  then show ?thesis
    using assms by (auto simp: fw_inv_def fw_init_def fw_nmax_ok [OF assms(2)] buffer_ok_def)
qed

lemma fw_finish_done:
  assumes "buffer_ok source" "buffer_ok target" "nm_magic name"
    and inv: "fw_inv (b_current source) (b_active source) (b_used target) (fw_nmax target) (b_base target) s"
    and shape: "fw_shape (b_used target) s ls" and "f_done s"
  shows "\<exists>n t. fw_finish name source target (None, s) =
      Some (ISC_R_SUCCESS, n, consumed source (f_cused s), t) \<and>
    represents n (ls @ [[]]) \<and> (nm_offsets n = None) = (nm_offsets name = None) \<and>
    nm_attributes n = (nm_attributes name AND NOT DNS_NAMEATTR_ABSOLUTE) OR DNS_NAMEATTR_ABSOLUTE \<and>
    buffer_ok t \<and> b_length t = b_length target \<and> contents t = contents target @ name_wire (ls @ [[]])"
proof -
  let ?u = "b_used target" and ?w = "name_wire (ls @ [[]])"
  have i: "f_nused s \<le> fw_nmax target" "length (f_mem s) = length (b_base target)"
      "take ?u (f_mem s) = take ?u (b_base target)" "fw_nmax target \<le> 255"
      "b_current source + f_cused s \<le> b_active source" "?u \<le> f_pos s" "f_pos s \<le> ?u + f_nused s"
    using inv by (auto simp: fw_inv_def)
  have out: "fw_out ?u s = ?w" "f_nused s = length ?w" "f_offsets s = offs_of (ls @ [[]])"
    using shape assms(6) by (auto simp: fw_shape_def)
  have room: "?u + length ?w \<le> b_length target"
    using i(1) out(2) buffer_okD [OF assms(2)] by (auto simp: fw_nmax_ok [OF assms(2)])
  then have "f_pos s \<le> length (f_mem s)" using i buffer_okD [OF assms(2)] out(2) by linarith
  then have "f_pos s = ?u + length ?w" using length_fw_out [of s ?u] out(1) i(6) by simp
  then have blk: "take (length ?w) (drop ?u (f_mem s)) = ?w" using out(1) by (simp add: fw_out_def take_drop add.commute)
  have wf: "wf_labels (ls @ [[]])" "abs_labels (ls @ [[]])"
    using fw_shape_wf [OF shape] i(1,4) assms(6) by simp_all
  let ?n = "(MAKE_EMPTY name)\<lparr>nm_ndata := ?w, nm_labels := length (ls @ [[]]),
    nm_attributes := nm_attributes (MAKE_EMPTY name) OR DNS_NAMEATTR_ABSOLUTE,
    nm_offsets := (if nm_offsets name = None then None else Some (offs_of (ls @ [[]])))\<rparr>"
  let ?t = "target\<lparr>b_base := f_mem s, b_used := ?u + length ?w\<rparr>"
  have n: "represents ?n (ls @ [[]])"
    using assms(3) wf by (intro representsI) (simp_all add: is_abs_def offs_of_def)
  have fwd: "isc_buffer_forward source (f_cused s) = Some (consumed source (f_cused s))"
    using assms(1) i(5) by (auto simp: isc_buffer_forward_def consumed_def buffer_ok_def)
  have add: "isc_buffer_add (target\<lparr>b_base := f_mem s\<rparr>) (length ?w) = Some ?t"
    using assms(2) room by (auto simp: isc_buffer_add_def buffer_ok_def)
  have mb: "mem_blk (f_mem s) ?u (length ?w) = Some ?w"
    using blk room i(2) buffer_okD(2) [OF assms(2)] by (simp add: mem_blk_def)
  have "fw_finish name source target (None, s) = Some (ISC_R_SUCCESS, ?n, consumed source (f_cused s), ?t)"
    using assms(6) mb fwd add out(2,3) by (simp add: fw_finish_def Let_def)
  moreover have "buffer_ok ?t" using assms(2) room i(2) by (auto simp: buffer_ok_def)
  moreover have "contents ?t = contents target @ ?w"
    unfolding contents_def using i(3) blk take_add [of ?u "length ?w" "f_mem s"] by simp
  ultimately show ?thesis using n by (intro exI [of _ ?n] exI [of _ ?t] conjI) auto
qed

text \<open>
  C31: For every message, however malformed, \<open>dns_name_fromwire\<close> returns: the loop ends, no load or
  store leaves its object and no assertion fails.  It either gives a legal absolute name, appended
  to the target buffer in uncompressed form, or one of six error codes with the name emptied and
  both buffers as they were.
\<close>

theorem fromwire_safe:
  assumes "buffer_ok source" "buffer_ok target" "b_current source \<le> b_active source"
    and "nm_magic name" "BINDABLE name"
  shows "\<exists>res n src t. dns_name_fromwire name source dctx options target = Some (res, n, src, t) \<and>
    buffer_ok src \<and> buffer_ok t \<and>
    (if res = ISC_R_SUCCESS
     then \<exists>ls. represents n ls \<and> abs_labels ls \<and> contents t = contents target @ name_wire ls
     else res \<in> fw_errors \<and> represents n [] \<and> src = source \<and> contents t = contents target)"
proof -
  let ?loop = "fw_loop (b_base source) (b_active source) (options AND DNS_NAME_DOWNCASE \<noteq> 0)
    (dc_allowed dctx AND DNS_COMPRESS_GLOBAL14 \<noteq> 0) (fw_nmax target) (fw_init source target)"
  let ?next = "fw_next (b_current source) (b_active source) (b_used target) (fw_nmax target) (b_base target)"
  have "b_active source \<le> length (b_base source)" using buffer_okD [OF assms(1)] by linarith
  then obtain x where x: "?loop = Some x" "?next x"
    using fw_loop_safe [OF fw_init_inv [OF assms(1-3)]] by blast
  obtain r s where rs: "x = (r, s)" by (cases x)
  have eq: "dns_name_fromwire name source dctx options target = fw_finish name source target (r, s)"
    using assms(4,5) buffer_okD(1) [OF assms(2)] x(1) rs by (simp add: dns_name_fromwire_def Let_def)
  show ?thesis
  proof (cases "r = None \<and> f_done s")
    case True
    then have inv: "fw_inv (b_current source) (b_active source) (b_used target) (fw_nmax target) (b_base target) s"
      using x(2) rs by (simp add: fw_next_def)
    then obtain ls where ls: "fw_shape (b_used target) s ls" by (auto simp: fw_inv_def)
    obtain n t where nt: "fw_finish name source target (None, s) =
        Some (ISC_R_SUCCESS, n, consumed source (f_cused s), t)" "represents n (ls @ [[]])" "buffer_ok t"
        "contents t = contents target @ name_wire (ls @ [[]])"
      using fw_finish_done [OF assms(1,2,4) inv ls] True by blast
    have "b_current source + f_cused s \<le> b_used source"
      using inv buffer_okD [OF assms(1)] by (auto simp: fw_inv_def)
    then have "buffer_ok (consumed source (f_cused s))" by (rule consumed_ok(1) [OF assms(1)])
    moreover have "abs_labels (ls @ [[]])" by (simp add: abs_labels_def)
    ultimately show ?thesis using eq True nt by auto
  next
    case False
    then obtain e where e: "fw_finish name source target (r, s) =
        Some (e, MAKE_EMPTY name, source, target\<lparr>b_base := f_mem s\<rparr>)" "e \<in> fw_errors"
      using x(2) rs by (cases r) (auto simp: fw_finish_def fw_next_def)
    have "length (f_mem s) = length (b_base target)"
        "take (b_used target) (f_mem s) = take (b_used target) (b_base target)"
      using x(2) rs by (auto simp: fw_next_def fw_inv_def split: option.splits)
    then have "buffer_ok (target\<lparr>b_base := f_mem s\<rparr>)" "contents (target\<lparr>b_base := f_mem s\<rparr>) = contents target"
      using assms(2) by (auto simp: buffer_ok_def contents_def)
    moreover have "e \<noteq> ISC_R_SUCCESS" using e(2) by auto
    ultimately show ?thesis using e eq represents_empty [OF assms(4)] assms(1) by simp
  qed
qed

text \<open>A message that consists of a pointer to itself is rejected.\<close>

definition ex_loop_message :: isc_buffer where
  "ex_loop_message = (isc_buffer_init [192, 0] 2)\<lparr>b_used := 2, b_active := 2\<rparr>"

definition ex_dctx :: dns_decompress where
  "ex_dctx = \<lparr>dc_magic = True, dc_allowed = DNS_COMPRESS_GLOBAL14, dc_edns = - 1, dc_type = DNS_DECOMPRESS_STRICT\<rparr>"

theorem fromwire_safe_witness:
  "\<exists>res n src t. dns_name_fromwire (dns_name_init None) ex_loop_message ex_dctx 0 ex_name_buffer = Some (res, n, src, t) \<and>
    buffer_ok src \<and> buffer_ok t \<and>
    (if res = ISC_R_SUCCESS
     then \<exists>ls. represents n ls \<and> abs_labels ls \<and> contents t = contents ex_name_buffer @ name_wire ls
     else res \<in> fw_errors \<and> represents n [] \<and> src = ex_loop_message \<and> contents t = contents ex_name_buffer)"
  by (rule fromwire_safe)
    (simp_all add: ex_name_buffer_ok dns_name_init_def BINDABLE_def,
     simp_all add: ex_loop_message_def buffer_ok_def isc_buffer_init_def)

section \<open>Names are read\<close>

text \<open>
  The name at position \<open>p\<close> of a message, of which \<open>act\<close> bytes count: labels up to the root label or
  up to a pointer to an earlier name, below the bound \<open>b\<close>.  The last argument is the number of bytes
  that the name takes where it stands.
\<close>

inductive decodes :: "mem \<Rightarrow> nat \<Rightarrow> nat \<Rightarrow> nat \<Rightarrow> label list \<Rightarrow> nat \<Rightarrow> bool" where
  decodes_root: "p < act \<Longrightarrow> base ! p = 0 \<Longrightarrow> decodes base act b p [[]] 1"
| decodes_label: "l \<noteq> [] \<Longrightarrow> length l \<le> 63 \<Longrightarrow> p + 1 + length l \<le> act \<Longrightarrow>
    take (1 + length l) (drop p base) = enc_label l \<Longrightarrow>
    decodes base act b (p + 1 + length l) ls u \<Longrightarrow> decodes base act b p (l # ls) (1 + length l + u)"
| decodes_pointer: "p + 1 < act \<Longrightarrow> 192 \<le> unat (base ! p) \<Longrightarrow>
    q = unat (base ! p) mod 64 * 256 + unat (base ! (p + 1)) \<Longrightarrow> q < b \<Longrightarrow>
    decodes base act q q ls u \<Longrightarrow> decodes base act b p ls 2"

text \<open>Bytes are counted until the first pointer.\<close>

definition adv :: "bool \<Rightarrow> nat \<Rightarrow> nat \<Rightarrow> nat" where
  "adv seen cused k = (if seen then cused else cused + k)"

lemma adv_simps [simp]: "adv seen (adv seen c a) b = adv seen c (a + b)" "adv True c a = c"
    "adv False c a = c + a"
  by (simp_all add: adv_def)

lemma fw_fields [simp]:
  "f_current (fw_label b m s) = f_current s + 1" "f_biggest_pointer (fw_label b m s) = f_biggest_pointer s"
  "f_seen_pointer (fw_label b m s) = f_seen_pointer s" "f_state (fw_label b m s) = fw_ordinary"
  "f_done (fw_label b m s) = (unat b = 0)" "f_n (fw_label b m s) = unat b"
  "f_cused (fw_label b m s) = adv (f_seen_pointer s) (f_cused s) 1"
  "f_current (fw_char m s) = f_current s + 1" "f_biggest_pointer (fw_char m s) = f_biggest_pointer s"
  "f_seen_pointer (fw_char m s) = f_seen_pointer s" "f_done (fw_char m s) = f_done s"
  "f_state (fw_char m s) = (if f_n s - 1 = 0 then fw_start else fw_ordinary)"
  "f_n (fw_char m s) = f_n s - 1"
  "f_cused (fw_char m s) = adv (f_seen_pointer s) (f_cused s) 1"
  by (simp_all add: fw_label_def fw_char_def adv_def)

lemma fw_loop_step:
  "f_current s < active \<Longrightarrow> \<not> f_done s \<Longrightarrow> fw_step base downcase global14 nmax s = Some (None, s') \<Longrightarrow>
     fw_loop base active downcase global14 nmax s = fw_loop base active downcase global14 nmax s'"
  by (subst fw_loop.simps) simp

text \<open>Where the machine stands between two labels.\<close>

definition fw_between :: "nat \<Rightarrow> fw \<Rightarrow> label list \<Rightarrow> nat \<Rightarrow> nat \<Rightarrow> bool \<Rightarrow> nat \<Rightarrow> bool" where
  "fw_between used s pre p b seen cused \<longleftrightarrow> fw_shape used s pre \<and> \<not> f_done s \<and> f_state s = fw_start \<and>
     f_current s = p \<and> f_biggest_pointer s = b \<and> f_seen_pointer s = seen \<and> f_cused s = cused"

definition dc :: "bool \<Rightarrow> label \<Rightarrow> label" where
  "dc downcase l = (if downcase then map maptolower l else l)"

lemma dc_simps [simp]: "dc d [] = []" "length (dc d l) = length l"
    "dc d (c # l) = (if d then maptolower c else c) # dc d l"
  by (simp_all add: dc_def)

lemma fw_run_chars:
  assumes "fw_inv cur active used nmax m0 s" "fw_shape used s pre" "\<not> f_done s" "f_state s = fw_ordinary"
    and "fw_out used s = name_wire pre @ word_of_nat k # part" "k = length part + f_n s" "k \<le> 63"
    and "rest \<noteq> []" "f_n s = length rest" "take (length rest) (drop (f_current s) base) = rest"
    and "f_current s + length rest \<le> active" "active \<le> length base"
  shows "\<exists>s'. fw_loop base active downcase global14 nmax s = fw_loop base active downcase global14 nmax s' \<and>
    fw_inv cur active used nmax m0 s' \<and>
    fw_between used s' (pre @ [part @ dc downcase rest]) (f_current s + length rest) (f_biggest_pointer s)
      (f_seen_pointer s) (adv (f_seen_pointer s) (f_cused s) (length rest))"
  using assms
proof (induction rest arbitrary: s part)
  case (Cons c rest)
  let ?c = "if downcase then maptolower c else c"
  have lt: "f_current s < active" using Cons.prems(11) by simp
  then have "drop (f_current s) base = base ! f_current s # drop (f_current s + 1) base"
    using Cons.prems(12) by (simp add: Cons_nth_drop_Suc)
  then have c: "base ! f_current s = c" and rest: "take (length rest) (drop (f_current s + 1) base) = rest"
    using Cons.prems(10) by simp_all
  have c': "?c = (if downcase then maptolower (base ! f_current s) else base ! f_current s)"
    by (simp add: c)
  obtain m where m: "fw_step base downcase global14 nmax s = Some (None, fw_char m s)"
      "length m = length m0" "take used m = take used m0" "fw_out used (fw_char m s) = fw_out used s @ [?c]"
    using fw_step_char [OF Cons.prems(1,2) lt Cons.prems(3,4,12) c'] by blast
  have loop: "fw_loop base active downcase global14 nmax s = fw_loop base active downcase global14 nmax (fw_char m s)"
    by (rule fw_loop_step [OF lt Cons.prems(3) m(1)])
  have inv: "fw_inv cur active used nmax m0 (fw_char m s)"
    by (rule fw_char_inv [OF Cons.prems(1-4) lt m(2-4)])
  have shape: "fw_shape used (fw_char m s) (if f_n s = 1 then pre @ [part @ [?c]] else pre)"
    by (rule fw_char_shape [OF Cons.prems(2-7) m(4)])
  show ?case
  proof (cases "rest = []")
    case True
    then have "f_n s = 1" using Cons.prems(9) by simp
    then show ?thesis
      using loop inv shape True Cons.prems(3) by (intro exI [of _ "fw_char m s"]) (simp add: fw_between_def)
  next
    case False
    then have n: "f_n s \<noteq> 1" "f_n s - 1 = length rest" using Cons.prems(9) by simp_all
    have out: "fw_out used (fw_char m s) = name_wire pre @ word_of_nat k # (part @ [?c])"
      using m(4) Cons.prems(5) by simp
    have "fw_shape used (fw_char m s) pre" using shape n(1) by simp
    moreover have "\<not> f_done (fw_char m s)" "f_state (fw_char m s) = fw_ordinary"
        "k = length (part @ [?c]) + f_n (fw_char m s)" "f_n (fw_char m s) = length rest"
        "take (length rest) (drop (f_current (fw_char m s)) base) = rest"
        "f_current (fw_char m s) + length rest \<le> active"
      using Cons.prems(3,6,9,11) n rest False by simp_all
    ultimately obtain s' where
      s': "fw_loop base active downcase global14 nmax (fw_char m s) = fw_loop base active downcase global14 nmax s'"
        "fw_inv cur active used nmax m0 s'"
        "fw_between used s' (pre @ [(part @ [?c]) @ dc downcase rest]) (f_current (fw_char m s) + length rest)
          (f_biggest_pointer (fw_char m s)) (f_seen_pointer (fw_char m s))
          (adv (f_seen_pointer (fw_char m s)) (f_cused (fw_char m s)) (length rest))"
      using Cons.IH [OF inv _ _ _ out _ Cons.prems(7) False _ _ _ Cons.prems(12)] by blast
    then show ?thesis using loop by (intro exI [of _ s']) simp
  qed
qed simp

lemma fw_run_label:
  assumes "fw_inv cur active used nmax m0 s" "fw_between used s pre p b seen cused"
    and "l \<noteq> []" "length l \<le> 63" "p + 1 + length l \<le> active" "active \<le> length base"
    and "take (1 + length l) (drop p base) = enc_label l" "length (name_wire pre) + 1 + length l \<le> nmax"
  shows "\<exists>s'. fw_loop base active downcase global14 nmax s = fw_loop base active downcase global14 nmax s' \<and>
    fw_inv cur active used nmax m0 s' \<and>
    fw_between used s' (pre @ [dc downcase l]) (p + 1 + length l) b seen (adv seen cused (1 + length l))"
proof -
  let ?b = "word_of_nat (length l) :: u8"
  have s: "fw_shape used s pre" "\<not> f_done s" "f_state s = fw_start" "f_current s = p"
      "f_biggest_pointer s = b" "f_seen_pointer s = seen" "f_cused s = cused"
    using assms(2) by (auto simp: fw_between_def)
  have lt: "f_current s < active" using assms(5) s(4) by simp
  have "drop p base = base ! p # drop (p + 1) base" using assms(5,6) by (simp add: Cons_nth_drop_Suc)
  then have b: "?b = base ! f_current s" and l: "take (length l) (drop (p + 1) base) = l"
    using assms(7) s(4) by (simp_all add: enc_label_def)
  have ub: "unat ?b = length l" using assms(4) by (rule unat_len)
  have nu: "f_nused s + unat ?b + 1 \<le> nmax" "unat ?b < 64"
    using s(1-3) assms(4,8) ub by (simp_all add: fw_shape_def)
  obtain m where m: "fw_step base downcase global14 nmax s = Some (None, fw_label ?b m s)"
      "length m = length m0" "take used m = take used m0" "fw_out used (fw_label ?b m s) = fw_out used s @ [?b]"
    using fw_step_label [OF assms(1) s(1) lt s(2,3) assms(6) b nu(2,1)] by blast
  have loop: "fw_loop base active downcase global14 nmax s = fw_loop base active downcase global14 nmax (fw_label ?b m s)"
    by (rule fw_loop_step [OF lt s(2) m(1)])
  have inv: "fw_inv cur active used nmax m0 (fw_label ?b m s)"
    by (rule fw_label_inv [OF assms(1) s(1-3) lt nu(2,1) m(2-4)])
  have shape: "fw_shape used (fw_label ?b m s) pre"
    by (rule fw_label_shape [OF s(1-3) nu(2) m(4)])
  have nd: "\<not> f_done (fw_label ?b m s)" using ub assms(3) by simp
  have out: "fw_out used (fw_label ?b m s) = name_wire pre @ word_of_nat (length l) # []"
    using m(4) s(1-3) by (simp add: fw_shape_def)
  have "f_state (fw_label ?b m s) = fw_ordinary" "length l = length ([] :: u8 list) + f_n (fw_label ?b m s)"
      "f_n (fw_label ?b m s) = length l" "take (length l) (drop (f_current (fw_label ?b m s)) base) = l"
      "f_current (fw_label ?b m s) + length l \<le> active"
    using ub l s(4) assms(5) by simp_all
  then obtain s' where
    "fw_loop base active downcase global14 nmax (fw_label ?b m s) = fw_loop base active downcase global14 nmax s'"
      "fw_inv cur active used nmax m0 s'"
      "fw_between used s' (pre @ [[] @ dc downcase l]) (f_current (fw_label ?b m s) + length l)
        (f_biggest_pointer (fw_label ?b m s)) (f_seen_pointer (fw_label ?b m s))
        (adv (f_seen_pointer (fw_label ?b m s)) (f_cused (fw_label ?b m s)) (length l))"
    using fw_run_chars [OF inv shape nd _ out _ assms(4,3) _ _ _ assms(6)] by blast
  then show ?thesis using loop s by (intro exI [of _ s']) simp
qed

lemma fw_run_pointer:
  assumes "fw_inv cur active used nmax m0 s" "fw_between used s pre p b seen cused"
    and "p + 1 < active" "active \<le> length base" "192 \<le> unat (base ! p)"
    and "q = unat (base ! p) mod 64 * 256 + unat (base ! (p + 1))" "q < b"
  shows "\<exists>s'. fw_loop base active downcase True nmax s = fw_loop base active downcase True nmax s' \<and>
    fw_inv cur active used nmax m0 s' \<and> fw_between used s' pre q q True (adv seen cused 2)"
proof -
  have s: "fw_shape used s pre" "\<not> f_done s" "f_state s = fw_start" "f_current s = p"
      "f_biggest_pointer s = b" "f_seen_pointer s = seen" "f_cused s = cused"
    using assms(2) by (auto simp: fw_between_def)
  let ?s1 = "s\<lparr>f_current := p + 1, f_cused := adv seen cused 1, f_new_current := unat (base ! p) mod 64,
    f_n := 1, f_state := fw_newcurrent\<rparr>"
  let ?s2 = "?s1\<lparr>f_current := q, f_cused := adv seen cused 2, f_new_current := q, f_n := 0,
    f_biggest_pointer := q, f_seen_pointer := True, f_state := fw_start\<rparr>"
  have lt: "f_current s < active" "f_current ?s1 < active" using assms(3) s(4) by simp_all
  have step1: "fw_step base downcase True nmax s = Some (None, ?s1)"
    using assms(3,4,5) s by (simp add: fw_step_def mem_rd_def Let_def adv_def)
  then have inv1: "fw_inv cur active used nmax m0 ?s1"
    using fw_step_safe [OF assms(1) lt(1) s(2) assms(4), of downcase True] by (auto simp: fw_next_def)
  have step2: "fw_step base downcase True nmax ?s1 = Some (None, ?s2)"
    using assms(3,4,6,7) s by (simp add: fw_step_def mem_rd_def Let_def adv_def)
  then have inv2: "fw_inv cur active used nmax m0 ?s2"
    using fw_step_safe [OF inv1 lt(2) _ assms(4), of downcase True] s(2) by (auto simp: fw_next_def)
  have "fw_loop base active downcase True nmax s = fw_loop base active downcase True nmax ?s1"
    by (rule fw_loop_step [OF lt(1) s(2) step1])
  also have "\<dots> = fw_loop base active downcase True nmax ?s2"
    using s(2) by (intro fw_loop_step [OF lt(2) _ step2]) simp
  finally have "fw_loop base active downcase True nmax s = fw_loop base active downcase True nmax ?s2" .
  moreover have "fw_between used ?s2 pre q q True (adv seen cused 2)"
    using s by (simp add: fw_between_def fw_shape_def fw_out_def)
  ultimately show ?thesis using inv2 by (intro exI [of _ ?s2]) simp
qed

lemma fw_run_root:
  assumes "fw_inv cur active used nmax m0 s" "fw_between used s pre p b seen cused"
    and "p < active" "active \<le> length base" "base ! p = 0" "length (name_wire pre) + 1 \<le> nmax"
  shows "\<exists>s'. fw_loop base active downcase global14 nmax s = Some (None, s') \<and>
    fw_inv cur active used nmax m0 s' \<and> f_done s' \<and> fw_shape used s' pre \<and> f_cused s' = adv seen cused 1"
proof -
  have s: "fw_shape used s pre" "\<not> f_done s" "f_state s = fw_start" "f_current s = p"
      "f_seen_pointer s = seen" "f_cused s = cused"
    using assms(2) by (auto simp: fw_between_def)
  have lt: "f_current s < active" using assms(3) s(4) by simp
  have b: "0 = base ! f_current s" "unat (0 :: u8) < 64" "f_nused s + unat (0 :: u8) + 1 \<le> nmax"
    using assms(5,6) s by (simp_all add: fw_shape_def)
  obtain m where m: "fw_step base downcase global14 nmax s = Some (None, fw_label 0 m s)"
      "length m = length m0" "take used m = take used m0" "fw_out used (fw_label 0 m s) = fw_out used s @ [0]"
    using fw_step_label [OF assms(1) s(1) lt s(2,3) assms(4) b] by blast
  have "fw_loop base active downcase global14 nmax s = fw_loop base active downcase global14 nmax (fw_label 0 m s)"
    by (rule fw_loop_step [OF lt s(2) m(1)])
  also have "\<dots> = Some (None, fw_label 0 m s)" by (subst fw_loop.simps) simp
  finally show ?thesis
    using fw_label_inv [OF assms(1) s(1-3) lt b(2,3) m(2-4)] fw_label_shape [OF s(1-3) b(2) m(4)] s(5,6)
    by simp
qed

lemma decodes_nonempty: "decodes base act b p ls u \<Longrightarrow> ls \<noteq> []"
  by (induction rule: decodes.induct) auto

lemma fw_run:
  assumes "decodes base active b p ls u" "active \<le> length base"
    and "fw_inv cur active used nmax m0 s" "fw_between used s pre p b seen cused"
    and "length (name_wire pre) + length (name_wire ls) \<le> nmax"
  shows "\<exists>s'. fw_loop base active downcase True nmax s = Some (None, s') \<and>
    fw_inv cur active used nmax m0 s' \<and> f_done s' \<and>
    fw_shape used s' (pre @ butlast (map (dc downcase) ls)) \<and> f_cused s' = adv seen cused u"
  using assms
proof (induction arbitrary: s pre seen cused rule: decodes.induct)
  case (decodes_root p act base b)
  then show ?case using fw_run_root [OF decodes_root.prems(2,3)] by simp
next
  case (decodes_label l p act base b ls u)
  obtain s1 where s1: "fw_loop base act downcase True nmax s = fw_loop base act downcase True nmax s1"
      "fw_inv cur act used nmax m0 s1"
      "fw_between used s1 (pre @ [dc downcase l]) (p + 1 + length l) b seen (adv seen cused (1 + length l))"
    using fw_run_label [OF decodes_label.prems(2,3) decodes_label.hyps(1-3) decodes_label.prems(1)
        decodes_label.hyps(4)] decodes_label.prems(4) by auto
  have "length (name_wire (pre @ [dc downcase l])) + length (name_wire ls) \<le> nmax"
    using decodes_label.prems(4) by simp
  from decodes_label.IH [OF decodes_label.prems(1) s1(2,3) this]
  show ?case using s1(1) decodes_nonempty [OF decodes_label.hyps(5)] by simp
next
  case (decodes_pointer p act base q b ls u)
  obtain s1 where s1: "fw_loop base act downcase True nmax s = fw_loop base act downcase True nmax s1"
      "fw_inv cur act used nmax m0 s1" "fw_between used s1 pre q q True (adv seen cused 2)"
    using fw_run_pointer [OF decodes_pointer.prems(2,3) decodes_pointer.hyps(1) decodes_pointer.prems(1)
        decodes_pointer.hyps(2-4)] by blast
  from decodes_pointer.IH [OF decodes_pointer.prems(1) s1(2,3) decodes_pointer.prems(4)]
  show ?case using s1(1) by simp
qed

lemma decodes_last: "decodes base act b p ls u \<Longrightarrow> last ls = []"
  by (induction rule: decodes.induct) (auto dest: decodes_nonempty)

lemma fromwire_decodes:
  assumes "buffer_ok source" "buffer_ok target" "nm_magic name" "BINDABLE name"
    and "dc_allowed dctx AND DNS_COMPRESS_GLOBAL14 \<noteq> 0" "options AND DNS_NAME_DOWNCASE = 0"
    and dec: "decodes (b_base source) (b_active source) (b_current source) (b_current source) ls u"
    and "length (name_wire ls) \<le> 255" "b_used target + length (name_wire ls) \<le> b_length target"
    and "b_current source \<le> b_active source"
  shows "\<exists>n t. dns_name_fromwire name source dctx options target =
      Some (ISC_R_SUCCESS, n, consumed source u, t) \<and>
    represents n ls \<and> buffer_ok t \<and> contents t = contents target @ name_wire ls"
proof -
  let ?cur = "b_current source" and ?act = "b_active source" and ?u = "b_used target"
  have act: "?act \<le> length (b_base source)" using buffer_okD [OF assms(1)] by linarith
  have init: "fw_between ?u (fw_init source target) [] ?cur ?cur False 0"
    by (simp add: fw_between_def fw_init_def fw_shape_def fw_out_def offs_of_def)
  have room: "length (name_wire []) + length (name_wire ls) \<le> fw_nmax target"
    using assms(8,9) by (simp add: fw_nmax_ok [OF assms(2)])
  obtain s where s: "fw_loop (b_base source) ?act False True (fw_nmax target) (fw_init source target) = Some (None, s)"
      "fw_inv ?cur ?act ?u (fw_nmax target) (b_base target) s" "f_done s"
      "fw_shape ?u s ([] @ butlast (map (dc False) ls))" "f_cused s = adv False 0 u"
    using fw_run [OF dec act fw_init_inv [OF assms(1,2,10)] init room] by blast
  have ls: "butlast (map (dc False) ls) @ [[]] = ls"
    using decodes_last [OF dec] decodes_nonempty [OF dec] append_butlast_last_id [of ls]
    by (simp add: dc_def map_idI)
  obtain n t where "fw_finish name source target (None, s) =
      Some (ISC_R_SUCCESS, n, consumed source (f_cused s), t)" "represents n ls" "buffer_ok t"
      "contents t = contents target @ name_wire ls"
    using fw_finish_done [OF assms(1-3) s(2,4,3)] ls by auto
  then show ?thesis
    using s(1,5) assms(3-6) buffer_okD(1) [OF assms(2)] by (simp add: dns_name_fromwire_def Let_def)
qed

end
