(* ===== verification/Name_Compress.thy ===== *)
theory Name_Compress
  imports Name_Decode
begin

text \<open>
  Compression of names: the compression context of \<^verbatim>\<open>lib/dns/compress.c\<close> and \<open>dns_name_towire\<close> of
  \<^verbatim>\<open>lib/dns/name.c\<close>.  The context is a hash table of the names, and tails of names, that a message
  already holds, with their offsets in the message.  A name is written as the labels that precede
  the longest tail in the table, followed by a pointer to it.

  Each bucket of the table is the list of its nodes, the newest first.  A node is a value: its
  region is given by its bytes.  The first sixteen nodes live in the array \<open>initialnodes\<close>, at the
  index that is the number of nodes at the time; to write there while an older node with that index
  is still in the table would destroy the older one, which is \<open>None\<close> in the model.  Further nodes
  are allocated; the argument \<open>alloc\<close> says for which numbers the allocation succeeds.
\<close>

section \<open>The compression context\<close>

definition DNS_COMPRESS_TABLESIZE :: nat where "DNS_COMPRESS_TABLESIZE = 64"
definition DNS_COMPRESS_INITIALNODES :: nat where "DNS_COMPRESS_INITIALNODES = 16"

record dns_compressnode =
  cn_r :: "u8 list"
  cn_offset :: nat
  cn_count :: nat
  cn_labels :: nat

record dns_compress =
  cc_magic :: bool
  cc_allowed :: u32
  cc_edns :: int
  cc_table :: "dns_compressnode list list"
  cc_count :: nat

definition dns_compress_init :: "int \<Rightarrow> dns_compress" where
  "dns_compress_init edns =
     \<lparr>cc_magic = True, cc_allowed = 0, cc_edns = edns,
      cc_table = replicate DNS_COMPRESS_TABLESIZE [], cc_count = 0\<rparr>"

text \<open>\<open>dns_compress_invalidate\<close> also returns how many nodes it gives back to the allocator.\<close>

definition dns_compress_invalidate :: "dns_compress \<Rightarrow> (nat \<times> dns_compress) option" where
  "dns_compress_invalidate cctx =
     (if cc_magic cctx
      then Some (length (filter (\<lambda>node. \<not> cn_count node < DNS_COMPRESS_INITIALNODES) (concat (cc_table cctx))),
             cctx\<lparr>cc_magic := False, cc_table := map (\<lambda>_. []) (cc_table cctx), cc_allowed := 0,
                  cc_edns := - 1\<rparr>)
      else None)"

definition dns_compress_setmethods :: "dns_compress \<Rightarrow> u32 \<Rightarrow> dns_compress option" where
  "dns_compress_setmethods cctx allowed =
     (if cc_magic cctx
      then Some (cctx\<lparr>cc_allowed := (cc_allowed cctx AND NOT DNS_COMPRESS_ALL) OR (allowed AND DNS_COMPRESS_ALL)\<rparr>)
      else None)"

definition dns_compress_getmethods :: "dns_compress \<Rightarrow> u32 option" where
  "dns_compress_getmethods cctx = (if cc_magic cctx then Some (cc_allowed cctx AND DNS_COMPRESS_ALL) else None)"

definition dns_compress_setsensitive :: "dns_compress \<Rightarrow> bool \<Rightarrow> dns_compress option" where
  "dns_compress_setsensitive cctx sensitive =
     (if cc_magic cctx
      then Some (cctx\<lparr>cc_allowed := (if sensitive then cc_allowed cctx OR DNS_COMPRESS_CASESENSITIVE
                                     else cc_allowed cctx AND NOT DNS_COMPRESS_CASESENSITIVE)\<rparr>)
      else None)"

definition dns_compress_getsensitive :: "dns_compress \<Rightarrow> bool option" where
  "dns_compress_getsensitive cctx =
     (if cc_magic cctx then Some (cc_allowed cctx AND DNS_COMPRESS_CASESENSITIVE \<noteq> 0) else None)"

definition dns_compress_getedns :: "dns_compress \<Rightarrow> int option" where
  "dns_compress_getedns cctx = (if cc_magic cctx then Some (cc_edns cctx) else None)"

text \<open>\<^verbatim>\<open>NODENAME\<close>, applied to a name that was initialised without an offsets table.\<close>

definition NODENAME :: "dns_compressnode \<Rightarrow> dns_name" where
  "NODENAME node = \<lparr>nm_magic = True, nm_ndata = cn_r node, nm_labels = cn_labels node,
     nm_attributes = DNS_NAMEATTR_ABSOLUTE, nm_offsets = None, nm_buffer = None\<rparr>"

section \<open>Finding a name\<close>

fun bucket_find :: "bool \<Rightarrow> dns_compressnode list \<Rightarrow> dns_name \<Rightarrow> dns_compressnode option option" where
  "bucket_find sensitive [] tname = Some None"
| "bucket_find sensitive (node # nodes) tname =
     do { eq \<leftarrow> (if sensitive then dns_name_caseequal (NODENAME node) tname
                else dns_name_equal (NODENAME node) tname);
          if eq then Some (Some node) else bucket_find sensitive nodes tname }"

definition bucket_of :: "dns_name \<Rightarrow> nat option" where
  "bucket_of name = do { h \<leftarrow> dns_name_hash name False; Some (unat h mod DNS_COMPRESS_TABLESIZE) }"

text \<open>The loop over the tails, from \<open>n\<close> on; \<open>k\<close> rounds are left.\<close>

fun findglobal_loop :: "dns_compress \<Rightarrow> dns_name \<Rightarrow> nat \<Rightarrow> dns_name \<Rightarrow> nat \<Rightarrow> nat \<Rightarrow>
    (nat \<times> dns_compressnode) option option" where
  "findglobal_loop cctx name labels tname n 0 = Some None"
| "findglobal_loop cctx name labels tname n (Suc k) =
     do { tname \<leftarrow> dns_name_getlabelsequence False name n (labels - n) tname;
          hash \<leftarrow> bucket_of tname;
          if hash < length (cc_table cctx)
          then do { r \<leftarrow> bucket_find (cc_allowed cctx AND DNS_COMPRESS_CASESENSITIVE \<noteq> 0) (cc_table cctx ! hash) tname;
                    case r of
                      Some node \<Rightarrow> Some (Some (n, node))
                    | None \<Rightarrow> findglobal_loop cctx name labels tname (n + 1) k }
          else None }"

text \<open>The prefix and the offset when a match is found.\<close>

definition dns_compress_findglobal ::
    "dns_compress \<Rightarrow> dns_name \<Rightarrow> dns_name \<Rightarrow> (dns_name \<times> nat) option option" where
  "dns_compress_findglobal cctx name prefx =
     (if cc_magic cctx \<and> dns_name_isabsolute name = Some True
      then if cc_count cctx = 0 then Some None
           else do { labels \<leftarrow> dns_name_countlabels name;
                     if labels > 0
                     then do { r \<leftarrow> findglobal_loop cctx name labels (dns_name_init None) 0 (labels - 1);
                               case r of
                                 None \<Rightarrow> Some None
                               | Some (n, node) \<Rightarrow>
                                   do { p \<leftarrow> (if n = 0 then dns_name_reset prefx
                                             else dns_name_getlabelsequence False name 0 n prefx);
                                        Some (Some (p, cn_offset node)) } }
                     else None }
      else None)"

section \<open>Adding and removing names\<close>

definition slot_free :: "dns_compress \<Rightarrow> bool" where
  "slot_free cctx \<longleftrightarrow> list_all (\<lambda>node. cn_count node \<noteq> cc_count cctx) (concat (cc_table cctx))"

text \<open>One node: its place, its fields, its bucket.\<close>

definition compress_addnode :: "dns_compress \<Rightarrow> dns_name \<Rightarrow> nat \<Rightarrow> dns_compress option" where
  "compress_addnode cctx tname toffset =
     do { hash \<leftarrow> bucket_of tname;
          labels \<leftarrow> dns_name_countlabels tname;
          r \<leftarrow> dns_name_toregion tname;
          if hash < length (cc_table cctx) \<and> (cc_count cctx < DNS_COMPRESS_INITIALNODES \<longrightarrow> slot_free cctx)
          then Some (cctx\<lparr>cc_count := (cc_count cctx + 1) mod 65536,
                          cc_table := (cc_table cctx)[hash :=
                            \<lparr>cn_r = r, cn_offset = toffset, cn_count = cc_count cctx, cn_labels = labels mod 256\<rparr>
                            # cc_table cctx ! hash]\<rparr>)
          else None }"

fun compress_add_loop :: "(nat \<Rightarrow> bool) \<Rightarrow> dns_name \<Rightarrow> nat \<Rightarrow> nat \<Rightarrow> dns_name \<Rightarrow> nat \<Rightarrow> nat \<Rightarrow> nat \<Rightarrow>
    dns_compress \<Rightarrow> dns_compress option" where
  "compress_add_loop alloc name offset len tname start n 0 cctx = Some cctx"
| "compress_add_loop alloc name offset len tname start n (Suc cnt) cctx =
     (if offset \<ge> 0x4000 then Some cctx
      else do { tname \<leftarrow> dns_name_getlabelsequence False name start n tname;
                let tlength = nm_length tname;
                let toffset = (offset + (len - tlength)) mod 65536;
                if \<not> cc_count cctx < DNS_COMPRESS_INITIALNODES \<and> \<not> alloc (cc_count cctx) then Some cctx
                else do { cctx \<leftarrow> compress_addnode cctx tname toffset;
                          compress_add_loop alloc name offset len tname (start + 1) (n - 1) cnt cctx } })"

definition dns_compress_add ::
    "(nat \<Rightarrow> bool) \<Rightarrow> dns_compress \<Rightarrow> dns_name \<Rightarrow> dns_name \<Rightarrow> nat \<Rightarrow> dns_compress option" where
  "dns_compress_add alloc cctx name prefx offset =
     (if cc_magic cctx \<and> dns_name_isabsolute name = Some True
      then do { n \<leftarrow> dns_name_countlabels name;
                count \<leftarrow> dns_name_countlabels prefx;
                isabs \<leftarrow> dns_name_isabsolute prefx;
                let count = (if isabs then count - 1 else count);
                compress_add_loop alloc name offset (nm_length name) (dns_name_init None) 0 n count cctx }
      else None)"

text \<open>
  Every bucket loses its newest nodes down to the first one that lies before \<open>offset\<close>.
\<close>

definition dns_compress_rollback :: "dns_compress \<Rightarrow> nat \<Rightarrow> dns_compress option" where
  "dns_compress_rollback cctx offset =
     (if cc_magic cctx
      then let old = cc_table cctx;
               new = map (dropWhile (\<lambda>node. cn_offset node \<ge> offset)) old
           in Some (cctx\<lparr>cc_table := new,
                cc_count := (cc_count cctx + 65536 - (length (concat old) - length (concat new))) mod 65536\<rparr>)
      else None)"

section \<open>Writing a name\<close>

text \<open>The prefix and the offset of a pointer, when there is one and it makes the message shorter.\<close>

definition towire_find :: "dns_compress \<Rightarrow> dns_name \<Rightarrow> (dns_name \<times> nat) option option" where
  "towire_find cctx name =
     do { methods \<leftarrow> dns_compress_getmethods cctx;
          g \<leftarrow> (if nm_attributes name AND DNS_NAMEATTR_NOCOMPRESS = 0 \<and> methods AND DNS_COMPRESS_GLOBAL14 \<noteq> 0
                then dns_compress_findglobal cctx name (dns_name_init None) else Some None);
          Some (case g of
                  None \<Rightarrow> None
                | Some (gp, go) \<Rightarrow>
                    if go \<ge> 0x4000 then None
                    else if nm_length gp + 2 \<ge> nm_length name then None
                    else Some (gp, go)) }"

text \<open>The bytes of a name or prefix, copied to the end of the target.\<close>

definition towire_copy :: "isc_buffer \<Rightarrow> dns_name \<Rightarrow> isc_buffer option" where
  "towire_copy target name =
     do { base \<leftarrow> mem_wr (b_base target) (b_used target) (nm_ndata name);
          isc_buffer_add (target\<lparr>b_base := base\<rparr>) (nm_length name) }"

definition towire_pointer ::
    "(nat \<Rightarrow> bool) \<Rightarrow> dns_name \<Rightarrow> dns_compress \<Rightarrow> isc_buffer \<Rightarrow> nat \<Rightarrow> dns_name \<Rightarrow> nat \<Rightarrow>
     (isc_result \<times> dns_compress \<times> isc_buffer) option" where
  "towire_pointer alloc name cctx target offset gp go =
     (if u32_sub (b_length target) (b_used target) < nm_length gp
      then Some (ISC_R_NOSPACE, cctx, target)
      else do { t1 \<leftarrow> towire_copy target gp;
                let go = go OR 0xc000;
                if u32_sub (b_length t1) (b_used t1) < 2 then Some (ISC_R_NOSPACE, cctx, t1)
                else do { t2 \<leftarrow> isc_buffer_putuint16 t1 go;
                          cctx \<leftarrow> (if nm_length gp \<noteq> 0 then dns_compress_add alloc cctx name gp offset
                                   else Some cctx);
                          Some (ISC_R_SUCCESS, cctx, t2) } })"

definition towire_plain ::
    "(nat \<Rightarrow> bool) \<Rightarrow> dns_name \<Rightarrow> dns_compress \<Rightarrow> isc_buffer \<Rightarrow> nat \<Rightarrow>
     (isc_result \<times> dns_compress \<times> isc_buffer) option" where
  "towire_plain alloc name cctx target offset =
     (if u32_sub (b_length target) (b_used target) < nm_length name
      then Some (ISC_R_NOSPACE, cctx, target)
      else do { t1 \<leftarrow> towire_copy target name;
                cctx \<leftarrow> dns_compress_add alloc cctx name name offset;
                Some (ISC_R_SUCCESS, cctx, t1) })"

definition dns_name_towire ::
    "(nat \<Rightarrow> bool) \<Rightarrow> dns_name \<Rightarrow> dns_compress \<Rightarrow> isc_buffer \<Rightarrow> (isc_result \<times> dns_compress \<times> isc_buffer) option" where
  "dns_name_towire alloc name cctx target =
     (if nm_magic name \<and> b_magic target
      then do { name \<leftarrow> (if nm_offsets name = None then dns_name_clone name (dns_name_init (Some [])) else Some name);
                let offset = b_used target mod 65536;
                g \<leftarrow> towire_find cctx name;
                case g of
                  Some (gp, go) \<Rightarrow> towire_pointer alloc name cctx target offset gp go
                | None \<Rightarrow> towire_plain alloc name cctx target offset }
      else None)"

section \<open>Names in a growing message\<close>

lemma decodes_bound:
  assumes "decodes base act b p ls u" "b \<le> b'"
  shows "decodes base act b' p ls u"
  using assms
proof (induction arbitrary: b' rule: decodes.induct)
  case (decodes_root p act base b)
  show ?case by (rule decodes.decodes_root [OF decodes_root.hyps])
next
  case (decodes_label l p act base b ls u)
  show ?case by (rule decodes.decodes_label [OF decodes_label.hyps(1-4) decodes_label.IH [OF decodes_label.prems]])
next
  case (decodes_pointer p act base q b ls u)
  show ?case
    using decodes_pointer.hyps(4) decodes_pointer.prems
    by (intro decodes.decodes_pointer [OF decodes_pointer.hyps(1-3) _ decodes_pointer.hyps(5)]) simp
qed

lemma decodes_inside: "decodes base act b p ls u \<Longrightarrow> p < act"
  by (induction rule: decodes.induct) auto

lemma take_drop_inside:
  assumes "take act base' = take act base" "p + n \<le> act"
  shows "take n (drop p base') = take n (drop p base)"
proof -
  have "take n (drop p (take act base')) = take n (drop p (take act base))" using assms(1) by simp
  then show ?thesis using assms(2) by (simp add: drop_take min_absorb1)
qed

lemma nth_inside: "take act base' = take act base \<Longrightarrow> p < act \<Longrightarrow> base' ! p = base ! p"
  by (metis nth_take)

lemma decodes_extend:
  assumes "decodes base act b p ls u" "act \<le> act'" "take act base' = take act base"
  shows "decodes base' act' b p ls u"
  using assms
proof (induction rule: decodes.induct)
  case (decodes_root p act base b)
  show ?case
    using decodes_root.hyps decodes_root.prems nth_inside [OF decodes_root.prems(2) decodes_root.hyps(1)]
    by (intro decodes.decodes_root) simp_all
next
  case (decodes_label l p act base b ls u)
  have "take (1 + length l) (drop p base') = take (1 + length l) (drop p base)"
    by (rule take_drop_inside [OF decodes_label.prems(2)]) (use decodes_label.hyps(3) in simp)
  then have t: "take (1 + length l) (drop p base') = enc_label l" using decodes_label.hyps(4) by simp
  have "p + 1 + length l \<le> act'" using decodes_label.hyps(3) decodes_label.prems(1) by simp
  then show ?case
    by (rule decodes.decodes_label [OF decodes_label.hyps(1,2) _ t decodes_label.IH [OF decodes_label.prems]])
next
  case (decodes_pointer p act base q b ls u)
  have e: "base' ! p = base ! p" "base' ! (p + 1) = base ! (p + 1)"
    using decodes_pointer.hyps(1) by (auto intro!: nth_inside [OF decodes_pointer.prems(2)])
  show ?case
  proof (rule decodes.decodes_pointer)
    show "p + 1 < act'" using decodes_pointer.hyps(1) decodes_pointer.prems(1) by simp
    show "192 \<le> unat (base' ! p)" using decodes_pointer.hyps(2) e by simp
    show "q = unat (base' ! p) mod 64 * 256 + unat (base' ! (p + 1))"
      using decodes_pointer.hyps(3) e by simp
    show "q < b" "decodes base' act' q q ls u"
      using decodes_pointer.hyps(4) decodes_pointer.IH [OF decodes_pointer.prems] by simp_all
  qed
qed

lemma decodes_append:
  assumes "decodes msg (length msg) b p ls u"
  shows "decodes (msg @ bs) (length (msg @ bs)) b p ls u"
  by (rule decodes_extend [OF assms]) simp_all

lemma decodes_labels:
  assumes "\<forall>l \<in> set pre. l \<noteq> [] \<and> length l \<le> 63"
    and "take (length (name_wire pre)) (drop p base) = name_wire pre"
    and "p + length (name_wire pre) \<le> act"
    and "decodes base act b (p + length (name_wire pre)) ls u"
  shows "decodes base act b p (pre @ ls) (length (name_wire pre) + u)"
  using assms
proof (induction pre arbitrary: p)
  case (Cons l pre)
  have "take (1 + length l) (take (length (name_wire (l # pre))) (drop p base)) =
      take (1 + length l) (name_wire (l # pre))"
    by (simp only: Cons.prems(2))
  then have t: "take (1 + length l) (drop p base) = enc_label l"
    by (simp add: min_absorb1)
  have "take (length (name_wire pre)) (drop (p + 1 + length l) base) = name_wire pre"
    using arg_cong [OF Cons.prems(2), of "drop (1 + length l)"]
    by (simp add: drop_take ac_simps)
  moreover have eq: "p + length (name_wire (l # pre)) = p + 1 + length l + length (name_wire pre)" by simp
  ultimately have rest: "decodes base act b (p + 1 + length l) (pre @ ls) (length (name_wire pre) + u)"
    using Cons.prems(1,3,4) by (intro Cons.IH) (simp_all only: eq, simp_all)
  have "p + 1 + length l \<le> act" using Cons.prems(3) by simp
  from decodes_label [OF _ _ this t rest] Cons.prems(1) show ?case by (simp add: ac_simps)
qed simp

section \<open>The context as a dictionary\<close>

text \<open>
  What the context holds, in the order in which it was added: names (as lists of labels) and their
  offsets.  A node is an entry with its number.
\<close>

type_synonym cdict = "(label list \<times> nat) list"

definition node_of :: "nat \<Rightarrow> label list \<times> nat \<Rightarrow> dns_compressnode" where
  "node_of i e = \<lparr>cn_r = name_wire (fst e), cn_offset = snd e, cn_count = i, cn_labels = length (fst e)\<rparr>"

definition dict_nodes :: "cdict \<Rightarrow> dns_compressnode list" where
  "dict_nodes ns = map2 node_of [0..<length ns] ns"

definition hash_of :: "u8 list \<Rightarrow> nat" where
  "hash_of nd = unat (name_hash nd False) mod DNS_COMPRESS_TABLESIZE"

definition dict_bucket :: "dns_compressnode list \<Rightarrow> nat \<Rightarrow> dns_compressnode list" where
  "dict_bucket nodes h = rev (filter (\<lambda>node. hash_of (cn_r node) = h) nodes)"

definition entry_ok :: "label list \<times> nat \<Rightarrow> bool" where
  "entry_ok e \<longleftrightarrow> wf_labels (fst e) \<and> abs_labels (fst e) \<and> snd e < 0x4000 + 255"

definition dict_ok :: "cdict \<Rightarrow> bool" where
  "dict_ok ns \<longleftrightarrow> (\<forall>e \<in> set ns. entry_ok e) \<and> sorted_wrt (<) (map snd ns)"

definition ctx_ok :: "dns_compress \<Rightarrow> cdict \<Rightarrow> bool" where
  "ctx_ok cctx ns \<longleftrightarrow> cc_magic cctx \<and> dict_ok ns \<and> cc_count cctx = length ns \<and>
     cc_table cctx = map (dict_bucket (dict_nodes ns)) [0..<DNS_COMPRESS_TABLESIZE]"

lemma dict_nodes_snoc: "dict_nodes (ns @ [e]) = dict_nodes ns @ [node_of (length ns) e]"
  by (simp add: dict_nodes_def)

lemma dict_nodes_append:
  "dict_nodes (as @ bs) = dict_nodes as @ map2 node_of [length as..<length as + length bs] bs"
  by (simp add: dict_nodes_def upt_add_eq_append [of 0 "length as", simplified] del: upt_Suc)

lemma dict_nodes_Nil [simp]: "dict_nodes [] = []"
  by (simp add: dict_nodes_def)

lemma node_of_fields [simp]:
  "cn_r (node_of i e) = name_wire (fst e)" "cn_offset (node_of i e) = snd e"
  "cn_count (node_of i e) = i" "cn_labels (node_of i e) = length (fst e)"
  by (simp_all add: node_of_def)

lemma hash_of_less [simp]: "hash_of nd < DNS_COMPRESS_TABLESIZE"
  by (simp add: hash_of_def DNS_COMPRESS_TABLESIZE_def)

lemma dict_ok_snoc:
  "dict_ok ns \<Longrightarrow> entry_ok e \<Longrightarrow> \<forall>e' \<in> set ns. snd e' < snd e \<Longrightarrow> dict_ok (ns @ [e])"
  by (auto simp: dict_ok_def sorted_wrt_append)

text \<open>The offsets are distinct and small, so the counter of nodes cannot wrap around.\<close>

lemma dict_small:
  assumes "dict_ok ns"
  shows "length ns \<le> 0x4000 + 255"
proof -
  have "set (map snd ns) \<subseteq> {..<0x4000 + 255}" using assms by (auto simp: dict_ok_def entry_ok_def)
  then have "card (set (map snd ns)) \<le> 0x4000 + 255" by (metis card_lessThan card_mono finite_lessThan)
  moreover have "distinct (map snd ns)" using assms by (simp add: dict_ok_def strict_sorted_iff)
  ultimately show ?thesis by (metis distinct_card length_map)
qed

lemma buckets_length:
  "length (concat (map (dict_bucket nodes) [0..<DNS_COMPRESS_TABLESIZE])) = length nodes"
proof (induction nodes rule: rev_induct)
  case (snoc node nodes)
  have "(\<Sum>h \<leftarrow> [0..<DNS_COMPRESS_TABLESIZE]. length (dict_bucket (nodes @ [node]) h)) =
      (\<Sum>h \<leftarrow> [0..<DNS_COMPRESS_TABLESIZE]. length (dict_bucket nodes h) + (if h = hash_of (cn_r node) then 1 else 0))"
    by (intro arg_cong [where f = sum_list] map_cong) (auto simp: dict_bucket_def)
  also have "\<dots> = (\<Sum>h \<leftarrow> [0..<DNS_COMPRESS_TABLESIZE]. length (dict_bucket nodes h)) +
      (\<Sum>h \<leftarrow> [0..<DNS_COMPRESS_TABLESIZE]. if h = hash_of (cn_r node) then 1 else 0)"
    by (rule sum_list_addf)
  also have "(\<Sum>h \<leftarrow> [0..<DNS_COMPRESS_TABLESIZE]. if h = hash_of (cn_r node) then 1 else 0) = (1 :: nat)"
    by (simp add: sum_list_distinct_conv_sum_set)
  finally show ?case using snoc.IH by (simp add: length_concat comp_def)
qed (simp add: length_concat comp_def dict_bucket_def)

lemma buckets_set:
  "set (concat (map (dict_bucket nodes) [0..<DNS_COMPRESS_TABLESIZE])) = set nodes"
  by (auto simp: dict_bucket_def)

lemma dict_nodes_count: "node \<in> set (dict_nodes ns) \<Longrightarrow> cn_count node < length ns"
  by (auto simp: dict_nodes_def in_set_zip)

lemma length_dict_nodes [simp]: "length (dict_nodes ns) = length ns"
  by (simp add: dict_nodes_def)

lemma slot_free_ok: "ctx_ok cctx ns \<Longrightarrow> slot_free cctx"
  by (auto simp: ctx_ok_def slot_free_def list_all_iff buckets_set simp del: set_concat dest!: dict_nodes_count)

lemma init_ok: "ctx_ok (dns_compress_init edns) []"
  by (simp add: ctx_ok_def dns_compress_init_def dict_ok_def dict_bucket_def [abs_def] map_replicate_const)

subsection \<open>Looking a name up\<close>

text \<open>How names are compared: as they are, or ignoring case.\<close>

definition same_name :: "bool \<Rightarrow> label list \<Rightarrow> label list \<Rightarrow> bool" where
  "same_name sensitive as bs \<longleftrightarrow> (if sensitive then as = bs else low as = low bs)"

definition sensitive :: "dns_compress \<Rightarrow> bool" where
  "sensitive cctx \<longleftrightarrow> cc_allowed cctx AND DNS_COMPRESS_CASESENSITIVE \<noteq> 0"

text \<open>The newest entry for a name.\<close>

definition dict_lookup :: "bool \<Rightarrow> cdict \<Rightarrow> label list \<Rightarrow> nat option" where
  "dict_lookup cs ns ls = map_option snd (find (\<lambda>e. same_name cs (fst e) ls) (rev ns))"

text \<open>The longest tail of a name, other than the root, that has an entry.\<close>

definition dict_tail :: "bool \<Rightarrow> cdict \<Rightarrow> label list \<Rightarrow> nat option" where
  "dict_tail cs ns ls = find (\<lambda>i. dict_lookup cs ns (drop i ls) \<noteq> None) [0..<length ls - 1]"

lemma same_name_refl [simp]: "same_name cs ls ls"
  by (simp add: same_name_def)

lemma same_name_low: "same_name cs as bs \<Longrightarrow> low as = low bs"
  by (auto simp: same_name_def split: if_splits)

lemma represents_node:
  "entry_ok e \<Longrightarrow> represents (NODENAME (node_of i e)) (fst e)"
  by (intro representsI) (simp_all add: NODENAME_def entry_ok_def is_abs_def DNS_NAMEATTR_ABSOLUTE_def)

lemma bucket_of_ok:
  assumes "represents t ls" "ls \<noteq> []"
  shows "bucket_of t = Some (hash_of (name_wire ls))"
  using representsD [OF assms(1)] assms(2) by (simp add: bucket_of_def dns_name_hash_def hash_of_def)

lemma hash_of_low:
  assumes "wf_labels as" "wf_labels bs" "low as = low bs" "as \<noteq> []"
  shows "hash_of (name_wire as) = hash_of (name_wire bs)"
proof -
  have "bs \<noteq> []" using assms(3,4) by (auto simp: low_def)
  moreover have "bucket_of (name_of as) = bucket_of (name_of bs)"
    unfolding bucket_of_def
    by (simp add: hash_ok [OF represents_name_of represents_name_of assms(3)] assms(1,2))
  ultimately show ?thesis
    using bucket_of_ok [OF represents_name_of] assms(1,2,4) by simp
qed

lemma find_filter: "(\<And>x. x \<in> set xs \<Longrightarrow> P x \<Longrightarrow> Q x) \<Longrightarrow> find P (filter Q xs) = find P xs"
  by (induction xs) auto

lemma find_zip:
  "length is = length xs \<Longrightarrow> map_option snd (find (\<lambda>(i, e). P e) (zip is xs)) = find P xs"
  by (induction "is" xs rule: list_induct2) auto

lemma bucket_find_nodes:
  assumes "\<forall>(i, e) \<in> set es. entry_ok e" "represents t ls" "abs_labels ls"
  shows "bucket_find cs (map (\<lambda>(i, e). node_of i e) es) t =
    Some (map_option (\<lambda>(i, e). node_of i e) (find (\<lambda>(i, e). same_name cs (fst e) ls) es))"
  using assms(1)
proof (induction es)
  case (Cons p es)
  obtain i e where p: "p = (i, e)" by (cases p)
  have e: "entry_ok e" "abs_labels (fst e) = abs_labels ls"
    using Cons.prems p assms(3) by (auto simp: entry_ok_def)
  have "(if cs then dns_name_caseequal (NODENAME (node_of i e)) t else dns_name_equal (NODENAME (node_of i e)) t) =
      Some (same_name cs (fst e) ls)"
    using caseequal_ok [OF represents_node [OF e(1)] assms(2) e(2)]
      equal_ok [OF represents_node [OF e(1)] assms(2) e(2)] by (simp add: same_name_def)
  then show ?case using Cons p by simp
qed simp

lemma bucket_find_ok:
  assumes "dict_ok ns" "represents t ls" "abs_labels ls"
  shows "\<exists>r. bucket_find cs (dict_bucket (dict_nodes ns) (hash_of (name_wire ls))) t = Some r \<and>
    map_option cn_offset r = dict_lookup cs ns ls"
proof -
  let ?h = "\<lambda>(i :: nat, e). hash_of (name_wire (fst e)) = hash_of (name_wire ls)"
  let ?z = "zip [0..<length ns] ns" and ?m = "\<lambda>(i, e). same_name cs (fst e) ls"
  have ne: "ls \<noteq> []" "wf_labels ls" using assms(3) representsD(2) [OF assms(2)] by (auto simp: abs_labels_def)
  have ok: "\<forall>(i, e) \<in> set ?z. entry_ok e" using assms(1) by (auto simp: dict_ok_def dest: set_zip_rightD)
  have b: "dict_bucket (dict_nodes ns) (hash_of (name_wire ls)) = map (\<lambda>(i, e). node_of i e) (filter ?h (rev ?z))"
    by (simp add: dict_bucket_def dict_nodes_def filter_map comp_def case_prod_beta' rev_map rev_filter)
  have sub: "\<forall>(i, e) \<in> set (filter ?h (rev ?z)). entry_ok e" using ok by auto
  have "find ?m (filter ?h (rev ?z)) = find ?m (rev ?z)"
  proof (rule find_filter)
    fix p assume p: "p \<in> set (rev ?z)" "?m p"
    obtain i e where ie: "p = (i, e)" by (cases p)
    have e: "entry_ok e" using ok p(1) ie by auto
    have "low (fst e) = low ls" using p(2) ie same_name_low by auto
    then show "?h p"
      using hash_of_low [of "fst e" ls] e ne ie by (auto simp: entry_ok_def abs_labels_def)
  qed
  moreover have "map_option snd (find ?m (rev ?z)) = find (\<lambda>e. same_name cs (fst e) ls) (rev ns)"
    by (simp add: zip_rev [symmetric] find_zip)
  moreover have "map_option cn_offset (map_option (\<lambda>(i, e). node_of i e) x) = map_option snd (map_option snd x)"
    for x :: "(nat \<times> label list \<times> nat) option" by (cases x) auto
  ultimately show ?thesis
    using bucket_find_nodes [OF sub assms(2,3), of cs] by (simp add: b dict_lookup_def)
qed

text \<open>The search over the tails, \<open>k\<close> of them from \<open>n\<close> on.\<close>

lemma findglobal_loop_ok:
  assumes "ctx_ok cctx ns" "represents name ls" "abs_labels ls" "n + k < length ls" "nm_magic t" "BINDABLE t"
  shows "\<exists>r. findglobal_loop cctx name (length ls) t n k = Some r \<and>
    map_option (\<lambda>(i, node). (i, cn_offset node)) r =
      map_option (\<lambda>i. (i, the (dict_lookup (sensitive cctx) ns (drop i ls))))
        (find (\<lambda>i. dict_lookup (sensitive cctx) ns (drop i ls) \<noteq> None) [n..<n + k])"
  using assms(4-6)
proof (induction k arbitrary: n t)
  case (Suc k)
  let ?t = "drop n ls" and ?cs = "sensitive cctx"
  obtain t' where t': "dns_name_getlabelsequence False name n (length ls - n) t = Some t'"
      "represents t' ?t" "BINDABLE t'"
    using getlabelsequence_ok [OF assms(2) Suc.prems(2,3), of n "length ls - n"] Suc.prems(1) by auto
  have abs: "abs_labels ?t" "?t \<noteq> []" using assms(3) Suc.prems(1) by (simp_all add: abs_labels_drop)
  obtain r where r: "bucket_find ?cs (dict_bucket (dict_nodes ns) (hash_of (name_wire ?t))) t' = Some r"
      "map_option cn_offset r = dict_lookup ?cs ns ?t"
    using bucket_find_ok [OF _ t'(2) abs(1)] assms(1) unfolding ctx_ok_def by blast
  have tab: "cc_table cctx = map (dict_bucket (dict_nodes ns)) [0..<DNS_COMPRESS_TABLESIZE]"
    using assms(1) by (simp add: ctx_ok_def)
  have step: "findglobal_loop cctx name (length ls) t n (Suc k) =
      (case r of Some node \<Rightarrow> Some (Some (n, node)) | None \<Rightarrow> findglobal_loop cctx name (length ls) t' (n + 1) k)"
    using t'(1) bucket_of_ok [OF t'(2) abs(2)] r(1) by (simp add: tab sensitive_def cong: option.case_cong)
  have upt: "[n..<n + Suc k] = n # [n + 1..<n + 1 + k]" by (simp add: upt_rec)
  show ?case
  proof (cases r)
    case None
    then have "dict_lookup ?cs ns ?t = None" using r(2) by simp
    then show ?thesis
      using Suc.IH [of "n + 1" t'] Suc.prems(1) representsD(1) [OF t'(2)] t'(3) None unfolding step upt by simp
  next
    case (Some node)
    then have "dict_lookup ?cs ns ?t = Some (cn_offset node)" using r(2) by simp
    then show ?thesis using Some unfolding step upt by simp
  qed
qed simp

lemma findglobal_ok:
  assumes "ctx_ok cctx ns" "represents name ls" "abs_labels ls" "nm_magic p" "BINDABLE p" "nm_buffer p = None"
  shows "case dict_tail (sensitive cctx) ns ls of
      None \<Rightarrow> dns_compress_findglobal cctx name p = Some None
    | Some i \<Rightarrow> \<exists>p' go. dns_compress_findglobal cctx name p = Some (Some (p', go)) \<and>
        represents p' (take i ls) \<and> dict_lookup (sensitive cctx) ns (drop i ls) = Some go \<and> i + 1 < length ls"
proof -
  let ?d = "dict_tail (sensitive cctx) ns ls"
  note d = representsD [OF assms(2)]
  have len: "0 < length ls" using assms(3) by (simp add: abs_labels_def)
  have pre: "cc_magic cctx" "dns_name_isabsolute name = Some True" "dns_name_countlabels name = Some (length ls)"
    using assms(1,3) d by (auto simp: ctx_ok_def dns_name_isabsolute_def is_abs_def dns_name_countlabels_def)
  show ?thesis
  proof (cases "cc_count cctx = 0")
    case True
    then have "ns = []" using assms(1) by (simp add: ctx_ok_def)
    then have "?d = None" by (simp add: dict_tail_def dict_lookup_def find_None_iff)
    then show ?thesis using True pre by (simp add: dns_compress_findglobal_def)
  next
    case False
    have i: "nm_magic (dns_name_init None)" "BINDABLE (dns_name_init None)"
      by (simp_all add: dns_name_init_def BINDABLE_def)
    obtain r where r: "findglobal_loop cctx name (length ls) (dns_name_init None) 0 (length ls - 1) = Some r"
        "map_option (\<lambda>(i, node). (i, cn_offset node)) r =
          map_option (\<lambda>i. (i, the (dict_lookup (sensitive cctx) ns (drop i ls)))) ?d"
      using findglobal_loop_ok [OF assms(1-3) _ i, of 0 "length ls - 1"] len by (auto simp: dict_tail_def)
    have fg: "dns_compress_findglobal cctx name p = (case r of None \<Rightarrow> Some None | Some (n, node) \<Rightarrow>
        do { p' \<leftarrow> (if n = 0 then dns_name_reset p else dns_name_getlabelsequence False name 0 n p);
             Some (Some (p', cn_offset node)) })"
      using False pre r(1) len by (simp add: dns_compress_findglobal_def)
    show ?thesis
    proof (cases ?d)
      case None
      then show ?thesis using r(2) fg by simp
    next
      case (Some i)
      then obtain node where node: "r = Some (i, node)" "cn_offset node = the (dict_lookup (sensitive cctx) ns (drop i ls))"
        using r(2) by (cases r) auto
      have i: "i < length ls - 1" "dict_lookup (sensitive cctx) ns (drop i ls) \<noteq> None"
        using Some by (auto simp: dict_tail_def find_Some_iff)
      have "\<exists>p'. (if i = 0 then dns_name_reset p else dns_name_getlabelsequence False name 0 i p) = Some p' \<and>
          represents p' (take i ls)"
      proof (cases "i = 0")
        case True
        have "represents (p\<lparr>nm_ndata := [], nm_labels := 0,
            nm_attributes := nm_attributes p AND NOT DNS_NAMEATTR_ABSOLUTE, nm_buffer := None\<rparr>) []"
          using assms(4) by (simp add: represents_def wf_labels_def abs_labels_def is_abs_def attr_simps)
        then show ?thesis using True assms(4-6) by (simp add: dns_name_reset_def)
      next
        case False
        have "0 + i \<le> length ls" using i(1) by simp
        then obtain t where "dns_name_getlabelsequence False name 0 i p = Some t" "represents t (take i (drop 0 ls))"
          using getlabelsequence_ok [OF assms(2,4,5), of 0 i] by blast
        then show ?thesis using False by simp
      qed
      then show ?thesis using Some node i fg by auto
    qed
  qed
qed

subsection \<open>Adding and rolling back\<close>

lemma addnode_ok:
  assumes "ctx_ok cctx ns" "represents t ls" "abs_labels ls" "off < 0x4000 + 255" "\<forall>e \<in> set ns. snd e < off"
  shows "\<exists>c. compress_addnode cctx t off = Some c \<and> ctx_ok c (ns @ [(ls, off)]) \<and>
    cc_allowed c = cc_allowed cctx \<and> cc_edns c = cc_edns cctx"
proof -
  note d = representsD [OF assms(2)]
  have ne: "ls \<noteq> []" using assms(3) by (simp add: abs_labels_def)
  have tab: "cc_table cctx = map (dict_bucket (dict_nodes ns)) [0..<DNS_COMPRESS_TABLESIZE]"
    and dict: "dict_ok ns" and cnt: "cc_count cctx = length ns" and mg: "cc_magic cctx"
    using assms(1) by (simp_all add: ctx_ok_def)
  have small: "length ns \<le> 0x4000 + 255" by (rule dict_small [OF dict])
  let ?h = "hash_of (name_wire ls)" and ?n = "node_of (length ns) (ls, off)"
  have node: "\<lparr>cn_r = nm_ndata t, cn_offset = off, cn_count = cc_count cctx, cn_labels = nm_labels t mod 256\<rparr> = ?n"
    using d cnt by (simp add: node_of_def)
  let ?c = "cctx\<lparr>cc_count := (cc_count cctx + 1) mod 65536, cc_table := (cc_table cctx)[?h := ?n # cc_table cctx ! ?h]\<rparr>"
  have "compress_addnode cctx t off = Some ?c"
    using bucket_of_ok [OF assms(2) ne] d slot_free_ok [OF assms(1)] node
    by (simp add: compress_addnode_def dns_name_countlabels_def dns_name_toregion_def tab)
  moreover have "cc_table ?c = map (dict_bucket (dict_nodes (ns @ [(ls, off)]))) [0..<DNS_COMPRESS_TABLESIZE]"
    by (rule nth_equalityI) (auto simp: tab nth_list_update dict_nodes_snoc dict_bucket_def)
  moreover have "dict_ok (ns @ [(ls, off)])"
    using assms(3-5) d(2) by (intro dict_ok_snoc [OF dict]) (simp_all add: entry_ok_def)
  ultimately show ?thesis using small cnt mg by (intro exI [of _ ?c]) (simp add: ctx_ok_def)
qed

text \<open>The entries for the tails of a name that is written at an offset.\<close>

definition tails_at :: "label list \<Rightarrow> nat \<Rightarrow> nat list \<Rightarrow> cdict" where
  "tails_at ls offset is = map (\<lambda>i. (drop i ls, offset + name_off ls i)) is"

lemma name_off_less: "i < j \<Longrightarrow> i < length ls \<Longrightarrow> name_off ls i < name_off ls j"
proof -
  assume a: "i < j" "i < length ls"
  have "take j ls = take i ls @ drop i (take j ls)" by (metis a(1) append_take_drop_id less_imp_le min.absorb1 take_take)
  moreover have "drop i (take j ls) \<noteq> []" using a by simp
  then have "0 < length (name_wire (drop i (take j ls)))" by (cases "drop i (take j ls)") simp_all
  ultimately show ?thesis unfolding name_off_def by (metis length_append less_add_same_cancel1 name_wire_simps(3))
qed

lemma name_off_wire: "length (name_wire ls) - length (name_wire (drop i ls)) = name_off ls i"
  by (subst name_wire_split [of ls i]) (simp add: name_off_def)

lemma add_loop_ok:
  assumes "ctx_ok cctx ns" "represents name ls" "abs_labels ls" "start + cnt < length ls" "offset < 0x4000"
    and "nm_magic t" "BINDABLE t" "\<forall>e \<in> set ns. snd e < offset + name_off ls start"
  shows "\<exists>c m. compress_add_loop alloc name offset (length (name_wire ls)) t start (length ls - start) cnt cctx = Some c \<and>
    m \<le> cnt \<and> ((\<forall>i. alloc i) \<longrightarrow> m = cnt) \<and>
    ctx_ok c (ns @ tails_at ls offset [start..<start + m]) \<and> cc_allowed c = cc_allowed cctx \<and> cc_edns c = cc_edns cctx"
  using assms(1,4,6-8)
proof (induction cnt arbitrary: start t cctx ns)
  case 0
  then show ?case by (simp add: tails_at_def)
next
  case (Suc cnt)
  let ?t = "drop start ls" and ?off = "offset + name_off ls start"
  have lt: "start < length ls" using Suc.prems(2) by simp
  obtain t' where t': "dns_name_getlabelsequence False name start (length ls - start) t = Some t'"
      "represents t' ?t" "BINDABLE t'"
    using getlabelsequence_ok [OF assms(2) Suc.prems(3,4), of start "length ls - start"] lt by auto
  have tl: "nm_length t' = length (name_wire ?t)" using representsD(3) [OF t'(2)] by simp
  have abs: "abs_labels ?t" using assms(3) lt by (simp add: abs_labels_drop)
  have "0 < length (name_wire ?t)" using lt by (cases ?t) simp_all
  then have "name_off ls start < length (name_wire ls)"
    using name_wire_split [of ls start] by (simp add: name_off_def)
  then have off: "?off < 0x4000 + 255" using representsD(3,6) [OF assms(2)] assms(5) by simp
  show ?case
  proof (cases "\<not> cc_count cctx < DNS_COMPRESS_INITIALNODES \<and> \<not> alloc (cc_count cctx)")
    case True
    then show ?thesis
      using t'(1) assms(5) Suc.prems(1) by (intro exI [of _ cctx] exI [of _ 0]) (auto simp: tails_at_def Let_def)
  next
    case False
    obtain c1 where c1: "compress_addnode cctx t' ?off = Some c1" "ctx_ok c1 (ns @ [(?t, ?off)])"
        "cc_allowed c1 = cc_allowed cctx" "cc_edns c1 = cc_edns cctx"
      using addnode_ok [OF Suc.prems(1) t'(2) abs off Suc.prems(5)] by blast
    have step: "compress_add_loop alloc name offset (length (name_wire ls)) t start (length ls - start) (Suc cnt) cctx =
        compress_add_loop alloc name offset (length (name_wire ls)) t' (start + 1) (length ls - (start + 1)) cnt c1"
      using t'(1) tl c1(1) False assms(5) off name_off_wire [of ls start] by (auto simp: Let_def)
    have up: "\<forall>e \<in> set (ns @ [(?t, ?off)]). snd e < offset + name_off ls (start + 1)"
      using Suc.prems(5) name_off_less [of start "start + 1" ls] lt by (auto intro: less_trans)
    have lt1: "start + 1 + cnt < length ls" using Suc.prems(2) by simp
    obtain c m where c: "compress_add_loop alloc name offset (length (name_wire ls)) t' (start + 1)
          (length ls - (start + 1)) cnt c1 = Some c"
        "m \<le> cnt" "(\<forall>i. alloc i) \<longrightarrow> m = cnt"
        "ctx_ok c ((ns @ [(?t, ?off)]) @ tails_at ls offset [start + 1..<start + 1 + m])"
        "cc_allowed c = cc_allowed c1" "cc_edns c = cc_edns c1"
      using Suc.IH [OF c1(2) lt1 representsD(1) [OF t'(2)] t'(3) up] by blast
    have "[start..<start + Suc m] = start # [start + 1..<start + 1 + m]" by (simp add: upt_rec)
    then have "ns @ tails_at ls offset [start..<start + Suc m] =
        (ns @ [(?t, ?off)]) @ tails_at ls offset [start + 1..<start + 1 + m]" by (simp add: tails_at_def)
    then show ?thesis using step c c1(3,4) by (intro exI [of _ c] exI [of _ "Suc m"]) simp
  qed
qed

text \<open>
  What is added: the first tails of the name, as many as the prefix has labels (but never the root);
  all of them unless memory runs out.
\<close>

lemma add_ok_dict:
  assumes "ctx_ok cctx ns" "represents name ls" "abs_labels ls" "represents p (take k ls)"
    and "k \<le> length ls" "\<forall>e \<in> set ns. snd e < offset"
  shows "\<exists>c m. dns_compress_add alloc cctx name p offset = Some c \<and> m \<le> min k (length ls - 1) \<and>
    (offset < 0x4000 \<and> (\<forall>i. alloc i) \<longrightarrow> m = min k (length ls - 1)) \<and>
    ctx_ok c (ns @ tails_at ls offset [0..<m]) \<and> cc_allowed c = cc_allowed cctx \<and> cc_edns c = cc_edns cctx"
proof -
  note d = representsD [OF assms(2)] and dp = representsD [OF assms(4)]
  have len: "0 < length ls" using assms(3) by (simp add: abs_labels_def)
  have "abs_labels (take k ls) \<longleftrightarrow> k = length ls"
    using assms(3,5) abs_labels_take [OF d(2), of k] by (cases "k = length ls") simp_all
  then have pre: "cc_magic cctx" "dns_name_isabsolute name = Some True" "dns_name_countlabels name = Some (length ls)"
      "dns_name_countlabels p = Some k" "dns_name_isabsolute p = Some (k = length ls)"
    using assms(1,3,5) d dp
    by (simp_all add: ctx_ok_def dns_name_isabsolute_def is_abs_def dns_name_countlabels_def)
  have cnt: "k \<noteq> length ls \<Longrightarrow> min k (length ls - 1) = k" "k = length ls \<Longrightarrow> min k (length ls - 1) = k - 1"
    using assms(5) len by auto
  have add: "dns_compress_add alloc cctx name p offset =
      compress_add_loop alloc name offset (length (name_wire ls)) (dns_name_init None) 0 (length ls)
        (min k (length ls - 1)) cctx"
    using pre d(3) cnt by (cases "k = length ls") (simp_all add: dns_compress_add_def Let_def)
  have i: "nm_magic (dns_name_init None)" "BINDABLE (dns_name_init None)"
    by (simp_all add: dns_name_init_def BINDABLE_def)
  show ?thesis
  proof (cases "offset < 0x4000")
    case True
    have "\<forall>e \<in> set ns. snd e < offset + name_off ls 0" using assms(6) by (simp add: name_off_def)
    moreover have "0 + min k (length ls - 1) < length ls" using len by (simp add: min_less_iff_disj)
    ultimately show ?thesis
      using add_loop_ok [OF assms(1-3) _ True i, of 0 "min k (length ls - 1)" alloc] True by (simp add: add)
  next
    case False
    then have "compress_add_loop alloc name offset (length (name_wire ls)) (dns_name_init None) 0 (length ls)
        (min k (length ls - 1)) cctx = Some cctx" by (cases "min k (length ls - 1)") simp_all
    then show ?thesis using add False assms(1) by (intro exI [of _ cctx] exI [of _ 0]) (simp add: tails_at_def)
  qed
qed

text \<open>The entries before an offset come first.\<close>

lemma dict_split:
  assumes "dict_ok ns"
  shows "ns = filter (\<lambda>e. snd e < x) ns @ filter (\<lambda>e. \<not> snd e < x) ns"
proof -
  have "sorted_wrt (<) (map snd ns)" using assms by (simp add: dict_ok_def)
  then show ?thesis
  proof (induction ns)
    case (Cons e ns)
    show ?case
    proof (cases "snd e < x")
      case False
      then have "filter (\<lambda>e. snd e < x) ns = []" "filter (\<lambda>e. \<not> snd e < x) ns = ns"
        using Cons.prems by (auto simp: filter_empty_conv filter_id_conv)
      then show ?thesis using False by simp
    qed (use Cons in simp)
  qed simp
qed

lemma dict_ok_filter: "dict_ok ns \<Longrightarrow> dict_ok (filter P ns)"
  by (auto simp: dict_ok_def sorted_wrt_map sorted_wrt_filter)

lemma rollback_bucket:
  assumes "\<forall>e \<in> set as. snd e < x" "\<forall>e \<in> set bs. \<not> snd e < x"
  shows "dropWhile (\<lambda>node. cn_offset node \<ge> x) (dict_bucket (dict_nodes (as @ bs)) h) = dict_bucket (dict_nodes as) h"
proof -
  let ?new = "map2 node_of [length as..<length as + length bs] bs"
  have new: "\<forall>node \<in> set (dict_bucket ?new h). cn_offset node \<ge> x"
    using assms(2) by (auto simp: dict_bucket_def dest!: set_zip_rightD)
  have old: "\<forall>node \<in> set (dict_bucket (dict_nodes as) h). \<not> cn_offset node \<ge> x"
    using assms(1) by (auto simp: dict_bucket_def dict_nodes_def dest!: set_zip_rightD)
  have "dict_bucket (dict_nodes (as @ bs)) h = dict_bucket ?new h @ dict_bucket (dict_nodes as) h"
    by (simp add: dict_bucket_def dict_nodes_append)
  moreover have "dropWhile P ys = ys" if "\<forall>y \<in> set ys. \<not> P y" for P and ys :: "dns_compressnode list"
    using that by (cases ys) simp_all
  ultimately show ?thesis using new old by (simp add: dropWhile_append2)
qed

lemma rollback_ok:
  assumes "ctx_ok cctx ns"
  shows "\<exists>c. dns_compress_rollback cctx x = Some c \<and> ctx_ok c (filter (\<lambda>e. snd e < x) ns) \<and>
    cc_allowed c = cc_allowed cctx \<and> cc_edns c = cc_edns cctx"
proof -
  let ?as = "filter (\<lambda>e. snd e < x) ns" and ?bs = "filter (\<lambda>e. \<not> snd e < x) ns"
  have dict: "dict_ok ns" and cnt: "cc_count cctx = length ns" and mg: "cc_magic cctx"
    and tab: "cc_table cctx = map (dict_bucket (dict_nodes ns)) [0..<DNS_COMPRESS_TABLESIZE]"
    using assms by (simp_all add: ctx_ok_def)
  have split: "ns = ?as @ ?bs" by (rule dict_split [OF dict])
  have "dropWhile (\<lambda>node. cn_offset node \<ge> x) (dict_bucket (dict_nodes (?as @ ?bs)) h) = dict_bucket (dict_nodes ?as) h" for h
    by (rule rollback_bucket) auto
  then have new: "map (dropWhile (\<lambda>node. cn_offset node \<ge> x)) (cc_table cctx) =
      map (dict_bucket (dict_nodes ?as)) [0..<DNS_COMPRESS_TABLESIZE]"
    unfolding tab by (simp only: split [symmetric] map_map comp_def)
  have lens: "length (concat (cc_table cctx)) = length ns"
      "length (concat (map (dict_bucket (dict_nodes ?as)) [0..<DNS_COMPRESS_TABLESIZE])) = length ?as"
    unfolding tab by (simp_all add: buckets_length del: length_concat)
  have "length ?as \<le> length ns" by simp
  moreover note dict_small [OF dict]
  ultimately have "(length ns + 65536 - (length ns - length ?as)) mod 65536 = length ?as"
    by (simp del: length_filter_le)
  then show ?thesis
    using mg cnt dict_ok_filter [OF dict]
    by (simp add: dns_compress_rollback_def Let_def new lens ctx_ok_def del: length_concat)
qed

section \<open>Names are written so that they can be read\<close>

text \<open>
  Every entry of the dictionary is the name, up to case if the context ignores case, that is read at
  its offset in the message.
\<close>

definition msg_ok :: "bool \<Rightarrow> mem \<Rightarrow> cdict \<Rightarrow> bool" where
  "msg_ok cs msg ns \<longleftrightarrow> (\<forall>(ls, off) \<in> set ns. off < length msg \<and>
     (\<exists>ls' u. same_name cs ls' ls \<and> decodes msg (length msg) off off ls' u))"

lemma msg_ok_append: "msg_ok cs msg ns \<Longrightarrow> msg_ok cs (msg @ bs) ns"
  unfolding msg_ok_def by (fastforce dest: decodes_append [where bs = bs])

lemma msg_ok_Nil [simp]: "msg_ok cs msg []"
  by (simp add: msg_ok_def)

lemma msg_ok_both: "msg_ok cs msg (as @ bs) \<longleftrightarrow> msg_ok cs msg as \<and> msg_ok cs msg bs"
  unfolding msg_ok_def by (simp only: set_append ball_Un)

lemma msg_okD: "msg_ok cs msg ns \<Longrightarrow> e \<in> set ns \<Longrightarrow> snd e < length msg"
  by (auto simp: msg_ok_def)

lemma same_name_prepend: "same_name cs as bs \<Longrightarrow> same_name cs (pre @ as) (pre @ bs)"
  by (auto simp: same_name_def low_def)

lemma same_name_trans: "same_name cs as bs \<Longrightarrow> same_name cs bs ds \<Longrightarrow> same_name cs as ds"
  by (auto simp: same_name_def split: if_splits)

lemma drop_take_wire:
  assumes "j \<le> i"
  shows "take (length (name_wire (drop j (take i ls)))) (drop (length msg + name_off ls j) (msg @ name_wire (take i ls) @ rest)) =
      name_wire (drop j (take i ls))"
    "name_off ls j + length (name_wire (drop j (take i ls))) = name_off ls i"
proof -
  have "name_wire (take i ls) = name_wire (take j ls) @ name_wire (drop j (take i ls))"
    using name_wire_split [of "take i ls" j] assms by (simp add: min_absorb1)
  then show "take (length (name_wire (drop j (take i ls)))) (drop (length msg + name_off ls j) (msg @ name_wire (take i ls) @ rest)) =
      name_wire (drop j (take i ls))"
    "name_off ls j + length (name_wire (drop j (take i ls))) = name_off ls i"
    by (simp_all add: name_off_def)
qed

lemma inner_labels:
  assumes "wf_labels ls" "i < length ls" "l \<in> set (take i ls)"
  shows "l \<noteq> [] \<and> length l \<le> 63"
proof -
  have "take i ls = take i (butlast ls)" using assms(2) by (simp add: take_butlast)
  then have "l \<in> set (butlast ls)" using assms(3) by (metis in_set_takeD)
  then show ?thesis using assms(1) in_set_butlastD [of l ls] by (auto simp: wf_labels_def)
qed

lemma written_decodes:
  assumes "wf_labels ls" "i < length ls" "j \<le> i" "msg' = msg @ name_wire (take i ls) @ rest"
    and "decodes msg' (length msg') (length msg) (length msg + name_off ls i) ls' u"
  shows "decodes msg' (length msg') (length msg + name_off ls j) (length msg + name_off ls j)
    (drop j (take i ls) @ ls') (length (name_wire (drop j (take i ls))) + u)"
proof (rule decodes_labels)
  show "\<forall>l \<in> set (drop j (take i ls)). l \<noteq> [] \<and> length l \<le> 63"
    using inner_labels [OF assms(1,2)] in_set_dropD by fast
  show "take (length (name_wire (drop j (take i ls)))) (drop (length msg + name_off ls j) msg') =
      name_wire (drop j (take i ls))"
    unfolding assms(4) by (rule drop_take_wire(1) [OF assms(3)])
  have eq: "length msg + name_off ls j + length (name_wire (drop j (take i ls))) = length msg + name_off ls i"
    using drop_take_wire(2) [OF assms(3), of ls] by simp
  then show "length msg + name_off ls j + length (name_wire (drop j (take i ls))) \<le> length msg'"
    using assms(4) by (simp add: name_off_def)
  show "decodes msg' (length msg') (length msg + name_off ls j)
      (length msg + name_off ls j + length (name_wire (drop j (take i ls)))) ls' u"
    unfolding eq by (rule decodes_bound [OF assms(5)]) simp
qed

lemma write_ok:
  assumes "msg_ok cs msg ns" "wf_labels ls" "i < length ls" "msg' = msg @ name_wire (take i ls) @ rest" "m \<le> i"
    and dec: "decodes msg' (length msg') (length msg) (length msg + name_off ls i) ls' u" "same_name cs ls' (drop i ls)"
  shows "decodes msg' (length msg') (length msg) (length msg) (take i ls @ ls') (name_off ls i + u)"
    "same_name cs (take i ls @ ls') ls" "msg_ok cs msg' (ns @ tails_at ls (length msg) [0..<m])"
proof -
  show "decodes msg' (length msg') (length msg) (length msg) (take i ls @ ls') (name_off ls i + u)"
    using written_decodes [OF assms(2,3) _ assms(4) dec(1), of 0] by (simp add: name_off_def)
  show "same_name cs (take i ls @ ls') ls"
    using same_name_prepend [OF dec(2), of "take i ls"] by simp
  have "\<exists>ls0 u0. same_name cs ls0 (drop j ls) \<and>
      decodes msg' (length msg') (length msg + name_off ls j) (length msg + name_off ls j) ls0 u0 \<and>
      length msg + name_off ls j < length msg'" if "j < m" for j
  proof (intro exI conjI)
    have j: "j \<le> i" using that assms(5) by simp
    show w: "decodes msg' (length msg') (length msg + name_off ls j) (length msg + name_off ls j)
        (drop j (take i ls) @ ls') (length (name_wire (drop j (take i ls))) + u)"
      by (rule written_decodes [OF assms(2,3) j assms(4) dec(1)])
    show "length msg + name_off ls j < length msg'" by (rule decodes_inside [OF w])
    have "drop j (take i ls) @ drop i ls = drop j ls"
      using j by (metis append_take_drop_id assms(3) diff_is_0_eq drop0 drop_append length_take less_imp_le min.absorb2)
    then show "same_name cs (drop j (take i ls) @ ls') (drop j ls)"
      using same_name_prepend [OF dec(2), of "drop j (take i ls)"] by simp
  qed
  then have "msg_ok cs msg' (tails_at ls (length msg) [0..<m])"
    unfolding msg_ok_def tails_at_def by fastforce
  moreover have "msg_ok cs msg' ns" unfolding assms(4) by (rule msg_ok_append [OF assms(1)])
  ultimately show "msg_ok cs msg' (ns @ tails_at ls (length msg) [0..<m])" by (simp add: msg_ok_both)
qed

lemma or_c000:
  assumes "go < 0x4000"
  shows "go OR 0xc000 = go + (0xc000::nat)"
proof -
  have "go = take_bit 14 go" using assms by (simp add: take_bit_nat_eq_self)
  then have "bit go n \<Longrightarrow> n < 14" for n by (metis bit_take_bit_iff)
  moreover have "(0xc000::nat) = push_bit 14 3" by (simp add: push_bit_eq_mult)
  then have "bit (0xc000::nat) n \<Longrightarrow> 14 \<le> n" for n by (metis bit_push_bit_iff_nat)
  ultimately show ?thesis by (subst disjunctive_add) (auto dest: leD)
qed

lemma pointer_bytes:
  assumes "go < 0x4000"
  shows "unat (put16 (go OR 0xc000) ! 0) = 192 + go div 256" "unat (put16 (go OR 0xc000) ! 1) = go mod 256"
proof -
  have u: "unat (word_of_nat x :: u8) = x mod 256" for x by (simp add: unat_of_nat)
  have "unat (put16 (go OR 0xc000) ! 0) = (go + 0xc000) div 256 mod 256"
      "unat (put16 (go OR 0xc000) ! 1) = (go + 0xc000) mod 256"
    unfolding or_c000 [OF assms] by (simp_all only: nth_put16 One_nat_def u)
  moreover have "(go + 0xc000) div 256 = 192 + go div 256" "(go + 0xc000) mod 256 = go mod 256"
    using div_mult_self1 [of 256 go 192] mod_mult_self1 [of go 192 256] by simp_all
  moreover have "go div 256 < 64" using assms by simp
  ultimately show "unat (put16 (go OR 0xc000) ! 0) = 192 + go div 256"
      "unat (put16 (go OR 0xc000) ! 1) = go mod 256" by simp_all
qed

lemma clone_represents:
  assumes "represents source ls" "ls \<noteq> []"
  shows "\<exists>n. dns_name_clone source (dns_name_init (Some [])) = Some n \<and> represents n ls"
proof -
  note d = representsD [OF assms(1)]
  let ?t = "(dns_name_init (Some []))\<lparr>nm_ndata := nm_ndata source, nm_labels := nm_labels source,
    nm_attributes := nm_attributes source AND
      NOT (DNS_NAMEATTR_READONLY OR DNS_NAMEATTR_DYNAMIC OR DNS_NAMEATTR_DYNOFFSETS)\<rparr>"
  let ?n = "?t\<lparr>nm_offsets := Some (map (name_off ls) [0..<length ls])\<rparr>"
  have abs: "is_abs ?t \<longleftrightarrow> abs_labels ls"
    using d(5) by (simp add: is_abs_def name_attrs and.assoc)
  have "dns_name_clone source (dns_name_init (Some [])) = Some ?n"
  proof (cases "nm_offsets source")
    case None
    have "set_offsets ?t = Some (map (name_off ls) [0..<length ls])"
      by (rule set_offsets_ok) (use d in simp_all)
    then show ?thesis
      using None d assms(2) by (simp add: dns_name_clone_def Let_def dns_name_init_def BINDABLE_def)
  next
    case (Some offs)
    then have "take (length ls) offs = map (name_off ls) [0..<length ls]"
      using assms(1) by (simp add: represents_def)
    then show ?thesis
      using Some d assms(2) by (simp add: dns_name_clone_def Let_def dns_name_init_def BINDABLE_def)
  qed
  moreover have "represents ?n ls"
    using d abs by (intro representsI) (simp_all add: is_abs_def dns_name_init_def)
  ultimately show ?thesis by blast
qed

lemma towire_find_ok:
  assumes "ctx_ok cctx ns" "represents name ls" "abs_labels ls"
  shows "towire_find cctx name = Some None \<or>
    (\<exists>i gp go. towire_find cctx name = Some (Some (gp, go)) \<and> i + 1 < length ls \<and> represents gp (take i ls) \<and>
       length (name_wire (take i ls)) + 2 < length (name_wire ls) \<and>
       go < 0x4000 \<and> dict_lookup (sensitive cctx) ns (drop i ls) = Some go)"
proof -
  have i: "nm_magic (dns_name_init None)" "BINDABLE (dns_name_init None)" "nm_buffer (dns_name_init None) = None"
    by (simp_all add: dns_name_init_def BINDABLE_def)
  obtain methods where m: "dns_compress_getmethods cctx = Some methods"
    using assms(1) by (simp add: ctx_ok_def dns_compress_getmethods_def)
  let ?use = "nm_attributes name AND DNS_NAMEATTR_NOCOMPRESS = 0 \<and> methods AND DNS_COMPRESS_GLOBAL14 \<noteq> 0"
  show ?thesis
  proof (cases "?use \<and> dict_tail (sensitive cctx) ns ls \<noteq> None")
    case True
    then obtain a gp go where f: "dns_compress_findglobal cctx name (dns_name_init None) = Some (Some (gp, go))"
        "represents gp (take a ls)" "dict_lookup (sensitive cctx) ns (drop a ls) = Some go" "a + 1 < length ls"
      using findglobal_ok [OF assms i] by auto
    have "towire_find cctx name =
        Some (if go \<ge> 0x4000 then None else if nm_length gp + 2 \<ge> nm_length name then None else Some (gp, go))"
      using True m f(1) by (simp add: towire_find_def)
    moreover have "nm_length gp = length (name_wire (take a ls))" "nm_length name = length (name_wire ls)"
      using representsD(3) [OF f(2)] representsD(3) [OF assms(2)] by simp_all
    ultimately show ?thesis using f by auto
  next
    case False
    then show ?thesis using findglobal_ok [OF assms i] m by (auto simp: towire_find_def)
  qed
qed

lemma towire_copy_ok:
  assumes "buffer_ok t" "nm_ndata name = bs" "b_used t + length bs \<le> b_length t"
  shows "towire_copy t name = Some (appended t bs)"
  using add_after_store [OF assms(1,3)] assms(2) by (simp add: towire_copy_def)

text \<open>
  What \<open>dns_name_towire\<close> achieves: the target grows by some bytes; on success a name that is the
  same, up to case if the context ignores case, is read there, the new entries of the dictionary lie
  in the new bytes and the message still agrees with the dictionary.
\<close>

definition towire_post ::
    "dns_compress \<Rightarrow> cdict \<Rightarrow> isc_buffer \<Rightarrow> label list \<Rightarrow> isc_result \<times> dns_compress \<times> isc_buffer \<Rightarrow> bool" where
  "towire_post cctx ns t ls r \<longleftrightarrow> (case r of (res, c, t') \<Rightarrow>
     \<exists>bs. t' = appended t bs \<and> b_used t + length bs \<le> b_length t \<and>
       (if res = ISC_R_SUCCESS
        then length bs \<le> length (name_wire ls) \<and>
             (\<exists>new ls'. ctx_ok c (ns @ new) \<and> cc_allowed c = cc_allowed cctx \<and> cc_edns c = cc_edns cctx \<and>
               (\<forall>e \<in> set new. b_used t \<le> snd e) \<and> msg_ok (sensitive cctx) (contents t') (ns @ new) \<and>
               same_name (sensitive cctx) ls' ls \<and>
               decodes (contents t') (b_used t') (b_used t) (b_used t) ls' (length bs))
        else res = ISC_R_NOSPACE \<and> c = cctx \<and> b_length t < b_used t + length (name_wire ls)))"

lemma tails_at_ge: "e \<in> set (tails_at ls off is) \<Longrightarrow> off \<le> snd e"
  by (auto simp: tails_at_def)

lemma towire_post_success:
  assumes "buffer_ok t" "msg_ok (sensitive cctx) (contents t) ns" "wf_labels ls" "i < length ls" "m \<le> i"
    and "b_used t + length (name_wire (take i ls) @ rest) \<le> b_length t" "length rest = u"
    and "ctx_ok c (ns @ tails_at ls (b_used t) [0..<m])" "cc_allowed c = cc_allowed cctx" "cc_edns c = cc_edns cctx"
    and "decodes (contents t @ name_wire (take i ls) @ rest) (length (contents t @ name_wire (take i ls) @ rest))
      (length (contents t)) (length (contents t) + name_off ls i) ls' u"
    and "same_name (sensitive cctx) ls' (drop i ls)" "length (name_wire (take i ls) @ rest) \<le> length (name_wire ls)"
  shows "towire_post cctx ns t ls (ISC_R_SUCCESS, c, appended t (name_wire (take i ls) @ rest))"
proof -
  let ?bs = "name_wire (take i ls) @ rest"
  have ct: "contents (appended t ?bs) = contents t @ ?bs" by (rule appended_ok(2) [OF assms(1,6)])
  have len: "length (contents t) = b_used t" by (rule length_contents [OF assms(1)])
  note w = write_ok [OF assms(2-4) refl assms(5,11,12)]
  show ?thesis
    unfolding towire_post_def prod.case
  proof (intro exI [of _ ?bs] conjI refl assms(6), simp only: simp_thms if_True,
      intro conjI assms(13) exI [of _ "tails_at ls (b_used t) [0..<m]"] exI [of _ "take i ls @ ls'"] assms(8-10))
    show "\<forall>e \<in> set (tails_at ls (b_used t) [0..<m]). b_used t \<le> snd e" by (simp add: tails_at_ge)
    show "msg_ok (sensitive cctx) (contents (appended t ?bs)) (ns @ tails_at ls (b_used t) [0..<m])"
      using w(3) unfolding ct len .
    show "same_name (sensitive cctx) (take i ls @ ls') ls" by (rule w(2))
    show "decodes (contents (appended t ?bs)) (b_used (appended t ?bs)) (b_used t) (b_used t) (take i ls @ ls') (length ?bs)"
      using w(1) assms(7) unfolding ct by (simp add: len name_off_def)
  qed
qed

lemma towire_post_nospace:
  assumes "buffer_ok t" "b_used t + length bs \<le> b_length t" "b_length t < b_used t + length (name_wire ls)"
  shows "towire_post cctx ns t ls (ISC_R_NOSPACE, cctx, appended t bs)"
  unfolding towire_post_def prod.case using assms(2,3) by (intro exI [of _ bs]) simp

lemma appended_nothing [simp]: "appended t [] = t"
  by (simp add: appended_def contents_def)

lemma towire_plain_ok:
  assumes "buffer_ok t" "ctx_ok cctx ns" "msg_ok (sensitive cctx) (contents t) ns" "represents name ls" "abs_labels ls"
  shows "\<exists>r. towire_plain alloc name cctx t (b_used t) = Some r \<and> towire_post cctx ns t ls r"
proof -
  note d = representsD [OF assms(4)]
  have nd: "nm_length name = length (name_wire ls)" using d(3) by simp
  have room: "u32_sub (b_length t) (b_used t) = b_length t - b_used t" using buffer_okD [OF assms(1)] by simp
  show ?thesis
  proof (cases "b_length t - b_used t < length (name_wire ls)")
    case True
    then have "towire_plain alloc name cctx t (b_used t) = Some (ISC_R_NOSPACE, cctx, t)"
      using nd room by (simp add: towire_plain_def)
    moreover have "b_length t < b_used t + length (name_wire ls)" using True by linarith
    ultimately show ?thesis using towire_post_nospace [OF assms(1), of "[]" ls cctx ns] buffer_okD [OF assms(1)] by simp
  next
    case False
    then have fit: "b_used t + length (name_wire ls) \<le> b_length t" using buffer_okD [OF assms(1)] by simp
    let ?i = "length ls - 1"
    have ne: "ls \<noteq> []" "last ls = []" using assms(5) by (simp_all add: abs_labels_def)
    then have ls: "take ?i ls @ [[]] = ls" using append_butlast_last_id [of ls] by (simp add: butlast_conv_take)
    have wire: "name_wire ls = name_wire (take ?i ls) @ [0]"
      using arg_cong [OF ls, of name_wire] by (simp add: enc_label_def)
    have dropi: "drop ?i ls = [[]]" using ls by (metis append_eq_conv_conj append_take_drop_id same_append_eq)
    have old: "\<forall>e \<in> set ns. snd e < b_used t"
      using msg_okD [OF assms(3)] length_contents [OF assms(1)] by auto
    have p: "represents name (take (length ls) ls)" using assms(4) by simp
    obtain c m where c: "dns_compress_add alloc cctx name name (b_used t) = Some c" "m \<le> min (length ls) ?i"
        "ctx_ok c (ns @ tails_at ls (b_used t) [0..<m])" "cc_allowed c = cc_allowed cctx" "cc_edns c = cc_edns cctx"
      using add_ok_dict [OF assms(2,4,5) p _ old, of alloc] by blast
    have run: "towire_plain alloc name cctx t (b_used t) = Some (ISC_R_SUCCESS, c, appended t (name_wire ls))"
      using False nd room towire_copy_ok [OF assms(1) d(3) fit] c(1) by (simp add: towire_plain_def)
    let ?msg = "contents t @ name_wire (take ?i ls) @ [0]"
    have dec: "decodes ?msg (length ?msg) (length (contents t)) (length (contents t) + name_off ls ?i) [[]] 1"
      by (rule decodes_root) (simp_all add: name_off_def nth_append)
    have same: "same_name (sensitive cctx) [[]] (drop ?i ls)" unfolding dropi by (rule same_name_refl)
    have fit1: "b_used t + length (name_wire (take ?i ls) @ [0]) \<le> b_length t" using fit by (simp only: wire [symmetric])
    have "towire_post cctx ns t ls (ISC_R_SUCCESS, c, appended t (name_wire (take ?i ls) @ [0]))"
      using c(2) ne(1) arg_cong [OF wire, of length]
      by (intro towire_post_success [OF assms(1,3) d(2) _ _ fit1 _ c(3-5) dec same]) simp_all
    then show ?thesis using run wire by simp
  qed
qed

lemma dict_lookup_entry:
  assumes "dict_lookup cs ns ls = Some go"
  shows "\<exists>ls0. (ls0, go) \<in> set ns \<and> same_name cs ls0 ls"
proof -
  obtain e where e: "find (\<lambda>e. same_name cs (fst e) ls) (rev ns) = Some e" "snd e = go"
    using assms by (auto simp: dict_lookup_def)
  then have "same_name cs (fst e) ls" "e \<in> set (rev ns)" by (metis (no_types, lifting) find_Some_iff nth_mem)+
  then show ?thesis using e(2) by (intro exI [of _ "fst e"]) auto
qed

lemma towire_pointer_ok:
  assumes "buffer_ok t" "ctx_ok cctx ns" "msg_ok (sensitive cctx) (contents t) ns" "represents name ls" "abs_labels ls"
    and "represents gp (take i ls)" "i + 1 < length ls" "go < 0x4000" "dict_lookup (sensitive cctx) ns (drop i ls) = Some go"
    and "length (name_wire (take i ls)) + 2 < length (name_wire ls)"
  shows "\<exists>r. towire_pointer alloc name cctx t (b_used t) gp go = Some r \<and> towire_post cctx ns t ls r"
proof -
  note d = representsD [OF assms(4)] and dg = representsD [OF assms(6)] and dt = buffer_okD [OF assms(1)]
  let ?p = "name_wire (take i ls)" and ?ptr = "put16 (go OR 0xc000)"
  have room: "u32_sub (b_length t) (b_used t) = b_length t - b_used t" using dt by simp
  have lp: "length ?ptr = 2" by (simp add: put16_def)
  show ?thesis
  proof (cases "b_used t + length ?p \<le> b_length t")
    case False
    then have "b_length t - b_used t < length ?p" using dt by linarith
    then have "towire_pointer alloc name cctx t (b_used t) gp go = Some (ISC_R_NOSPACE, cctx, t)"
      using dg(3) room by (simp add: towire_pointer_def)
    moreover have "b_length t < b_used t + length (name_wire ls)" using False assms(10) by linarith
    ultimately show ?thesis using towire_post_nospace [OF assms(1), of "[]" ls cctx ns] dt by simp
  next
    case fit: True
    have t1: "towire_copy t gp = Some (appended t ?p)" by (rule towire_copy_ok [OF assms(1) dg(3) fit])
    have ok1: "buffer_ok (appended t ?p)" by (rule appended_ok(1) [OF assms(1) fit])
    have room1: "u32_sub (b_length (appended t ?p)) (b_used (appended t ?p)) = b_length t - (b_used t + length ?p)"
      using fit dt by simp
    have fits1: "(b_length t - b_used t < length ?p) = False" using fit by simp
    show ?thesis
    proof (cases "b_used t + length ?p + 2 \<le> b_length t")
      case False
      then have "b_length t - (b_used t + length ?p) < 2" by linarith
      then have "towire_pointer alloc name cctx t (b_used t) gp go = Some (ISC_R_NOSPACE, cctx, appended t ?p)"
        by (simp add: towire_pointer_def Let_def dg(3) room room1 fits1 t1 del: appended_fields)
      moreover have "b_length t < b_used t + length (name_wire ls)" using False assms(10) by linarith
      ultimately show ?thesis using towire_post_nospace [OF assms(1) fit, of ls cctx ns] by simp
    next
      case True
      then have two: "(b_length t - (b_used t + length ?p) < 2) = False" by simp
      have t2: "isc_buffer_putuint16 (appended t ?p) (go OR 0xc000) = Some (appended t (?p @ ?ptr))"
        using put_ok(2) [OF ok1] True appended_appended [OF assms(1) fit, of ?ptr] by simp
      have old: "\<forall>e \<in> set ns. snd e < b_used t"
        using msg_okD [OF assms(3)] length_contents [OF assms(1)] by auto
      have "\<exists>c m. (if nm_length gp \<noteq> 0 then dns_compress_add alloc cctx name gp (b_used t) else Some cctx) = Some c \<and>
          m \<le> i \<and> ctx_ok c (ns @ tails_at ls (b_used t) [0..<m]) \<and> cc_allowed c = cc_allowed cctx \<and> cc_edns c = cc_edns cctx"
      proof (cases "nm_length gp = 0")
        case True
        then show ?thesis using assms(2) by (intro exI [of _ cctx] exI [of _ 0]) (simp add: tails_at_def)
      next
        case False
        have "i \<le> length ls" using assms(7) by simp
        then show ?thesis using add_ok_dict [OF assms(2,4-6) _ old, of alloc] False by auto
      qed
      then obtain c m where c: "(if nm_length gp \<noteq> 0 then dns_compress_add alloc cctx name gp (b_used t) else Some cctx) = Some c"
          "m \<le> i" "ctx_ok c (ns @ tails_at ls (b_used t) [0..<m])" "cc_allowed c = cc_allowed cctx" "cc_edns c = cc_edns cctx"
        by blast
      have run: "towire_pointer alloc name cctx t (b_used t) gp go = Some (ISC_R_SUCCESS, c, appended t (?p @ ?ptr))"
        using c(1) by (simp add: towire_pointer_def Let_def dg(3) room room1 fits1 two t1 t2 del: appended_fields)
      obtain ls0 where ls0: "(ls0, go) \<in> set ns" "same_name (sensitive cctx) ls0 (drop i ls)"
        using dict_lookup_entry [OF assms(9)] by blast
      then obtain ls' u where ls': "go < length (contents t)" "same_name (sensitive cctx) ls' ls0"
          "decodes (contents t) (length (contents t)) go go ls' u"
        using assms(3) by (auto simp: msg_ok_def)
      let ?msg = "contents t @ ?p @ ?ptr"
      have n: "length (contents t) + name_off ls i = length (contents t @ ?p)" by (simp add: name_off_def)
      have b: "?msg ! (length (contents t) + name_off ls i) = ?ptr ! 0"
          "?msg ! (length (contents t) + name_off ls i + 1) = ?ptr ! 1"
        unfolding n append_assoc [symmetric] by (simp_all only: nth_append_length_plus [of _ _ 0, simplified] nth_append_length_plus)
      have dec: "decodes ?msg (length ?msg) (length (contents t)) (length (contents t) + name_off ls i) ls' 2"
      proof (rule decodes_pointer [where q = go])
        show "length (contents t) + name_off ls i + 1 < length ?msg" by (simp add: name_off_def lp)
        show "192 \<le> unat (?msg ! (length (contents t) + name_off ls i))"
          unfolding b pointer_bytes [OF assms(8)] by simp
        have "go div 256 < 64" using assms(8) by simp
        then have "(192 + go div 256) mod 64 = go div 256"
          using mod_mult_self1 [of "go div 256" 3 64] by (simp add: add.commute)
        then have "(192 + go div 256) mod 64 * 256 + go mod 256 = go" by (simp only: div_mult_mod_eq)
        then show "go = unat (?msg ! (length (contents t) + name_off ls i)) mod 64 * 256 +
            unat (?msg ! (length (contents t) + name_off ls i + 1))"
          unfolding b pointer_bytes [OF assms(8)] by simp
        show "go < length (contents t)" by (rule ls'(1))
        show "decodes ?msg (length ?msg) go go ls' u" by (rule decodes_append [OF ls'(3)])
      qed
      have "towire_post cctx ns t ls (ISC_R_SUCCESS, c, appended t (?p @ ?ptr))"
        using assms(7,10) True lp
        by (intro towire_post_success [OF assms(1,3) d(2) _ c(2) _ _ c(3-5) dec same_name_trans [OF ls'(2) ls0(2)]]) simp_all
      then show ?thesis using run by simp
    qed
  qed
qed

lemma towire_ok:
  assumes "buffer_ok t" "ctx_ok cctx ns" "msg_ok (sensitive cctx) (contents t) ns" "represents name ls" "abs_labels ls"
    and "b_used t < 65536"
  shows "\<exists>r. dns_name_towire alloc name cctx t = Some r \<and> towire_post cctx ns t ls r"
proof -
  have ne: "ls \<noteq> []" using assms(5) by (simp add: abs_labels_def)
  obtain n where n: "(if nm_offsets name = None then dns_name_clone name (dns_name_init (Some [])) else Some name) = Some n"
      "represents n ls"
    using clone_represents [OF assms(4) ne] assms(4) by (cases "nm_offsets name") auto
  have pre: "nm_magic name" "b_magic t" "b_used t mod 65536 = b_used t"
    using representsD(1) [OF assms(4)] buffer_okD(1) [OF assms(1)] assms(6) by simp_all
  from towire_find_ok [OF assms(2) n(2) assms(5)] show ?thesis
  proof (elim disjE exE conjE)
    assume "towire_find cctx n = Some None"
    then show ?thesis
      using towire_plain_ok [OF assms(1-3) n(2) assms(5), of alloc] pre n(1) by (simp add: dns_name_towire_def Let_def)
  next
    fix i gp go
    assume "towire_find cctx n = Some (Some (gp, go))" "i + 1 < length ls" "represents gp (take i ls)" "go < 0x4000"
      "length (name_wire (take i ls)) + 2 < length (name_wire ls)" "dict_lookup (sensitive cctx) ns (drop i ls) = Some go"
    then show ?thesis
      using towire_pointer_ok [OF assms(1-3) n(2) assms(5), of gp i go alloc] pre n(1)
      by (simp add: dns_name_towire_def Let_def)
  qed
qed

section \<open>Properties of the compression context\<close>

text \<open>
  C34: The hash table of the compression context implements a dictionary that grows at its end.  A
  fresh context holds nothing.  \<open>dns_compress_findglobal\<close> finds the longest tail of the name, apart
  from the root, that the dictionary has, and returns the labels before it and the offset of its
  newest entry.  \<open>dns_compress_add\<close> appends the tails of a name that start in the prefix, at the
  offsets where the message has them, all of them if memory can be had and the offset fits a
  pointer.  \<open>dns_compress_rollback\<close> keeps exactly the entries before the given offset.
\<close>

theorem compress_refines_dictionary:
  assumes "ctx_ok cctx ns"
  shows "ctx_ok (dns_compress_init edns) [] \<and>
    (\<exists>c. dns_compress_rollback cctx x = Some c \<and> ctx_ok c (filter (\<lambda>e. snd e < x) ns)) \<and>
    (\<forall>name ls. represents name ls \<and> abs_labels ls \<longrightarrow>
      (case dict_tail (sensitive cctx) ns ls of
        None \<Rightarrow> dns_compress_findglobal cctx name (dns_name_init None) = Some None
      | Some i \<Rightarrow> \<exists>p go. dns_compress_findglobal cctx name (dns_name_init None) = Some (Some (p, go)) \<and>
          represents p (take i ls) \<and> dict_lookup (sensitive cctx) ns (drop i ls) = Some go) \<and>
      (\<forall>p k offset. represents p (take k ls) \<and> k \<le> length ls \<and> (\<forall>e \<in> set ns. snd e < offset) \<longrightarrow>
        (\<exists>c m. dns_compress_add alloc cctx name p offset = Some c \<and> m \<le> min k (length ls - 1) \<and>
          ctx_ok c (ns @ tails_at ls offset [0..<m]) \<and>
          (offset < 0x4000 \<and> (\<forall>i. alloc i) \<longrightarrow> m = min k (length ls - 1)))))"
proof (intro conjI allI impI)
  show "ctx_ok (dns_compress_init edns) []" by (rule init_ok)
  show "\<exists>c. dns_compress_rollback cctx x = Some c \<and> ctx_ok c (filter (\<lambda>e. snd e < x) ns)"
    using rollback_ok [OF assms] by blast
next
  fix name ls assume a: "represents name ls \<and> abs_labels ls"
  have "nm_magic (dns_name_init None)" "BINDABLE (dns_name_init None)" "nm_buffer (dns_name_init None) = None"
    by (simp_all add: dns_name_init_def BINDABLE_def)
  from findglobal_ok [OF assms conjunct1 [OF a] conjunct2 [OF a] this]
  show "case dict_tail (sensitive cctx) ns ls of
        None \<Rightarrow> dns_compress_findglobal cctx name (dns_name_init None) = Some None
      | Some i \<Rightarrow> \<exists>p go. dns_compress_findglobal cctx name (dns_name_init None) = Some (Some (p, go)) \<and>
          represents p (take i ls) \<and> dict_lookup (sensitive cctx) ns (drop i ls) = Some go"
    by (cases "dict_tail (sensitive cctx) ns ls") auto
next
  fix name ls p k offset
  assume a: "represents name ls \<and> abs_labels ls"
    and b: "represents p (take k ls) \<and> k \<le> length ls \<and> (\<forall>e \<in> set ns. snd e < offset)"
  show "\<exists>c m. dns_compress_add alloc cctx name p offset = Some c \<and> m \<le> min k (length ls - 1) \<and>
      ctx_ok c (ns @ tails_at ls offset [0..<m]) \<and>
      (offset < 0x4000 \<and> (\<forall>i. alloc i) \<longrightarrow> m = min k (length ls - 1))"
    using add_ok_dict [OF assms, of name ls p k offset alloc] a b by blast
qed

theorem compress_refines_dictionary_witness:
  "ctx_ok (dns_compress_init 0) [] \<and>
    (\<exists>c. dns_compress_rollback (dns_compress_init 0) 12 = Some c \<and> ctx_ok c []) \<and>
    dns_compress_findglobal (dns_compress_init 0) (name_of ex_labels) (dns_name_init None) = Some None \<and>
    (\<exists>c m. dns_compress_add (\<lambda>_. True) (dns_compress_init 0) (name_of ex_labels) (name_of ex_labels) 12 = Some c \<and>
      ctx_ok c (tails_at ex_labels 12 [0..<m]) \<and> m = length ex_labels - 1)"
proof -
  note c = compress_refines_dictionary [OF init_ok, of 0 0 12 "\<lambda>_. True"]
  have r: "represents (name_of ex_labels) ex_labels" "abs_labels ex_labels"
    by (rule represents_name_of [OF ex_labels_wf(1)]) (simp add: ex_labels_def abs_labels_def)
  have t: "dict_tail cs [] ls = None" for cs ls by (simp add: dict_tail_def dict_lookup_def find_None_iff)
  have "represents (name_of ex_labels) (take (length ex_labels) ex_labels)" using r(1) by simp
  with c r t show ?thesis by fastforce
qed

section \<open>Properties of written names\<close>

lemma low_wire_length: "low as = low bs \<Longrightarrow> length (name_wire as) = length (name_wire bs)"
proof -
  have "length (name_wire ls) = sum_list (map (\<lambda>n. Suc n) (map length (low ls)))" for ls
    by (simp add: name_wire_def low_def length_concat comp_def)
  then show "low as = low bs \<Longrightarrow> ?thesis" by simp
qed

text \<open>
  C35: A name that \<open>dns_name_towire\<close> writes is read back by \<open>dns_name_fromwire\<close>: whenever the target
  has room for the uncompressed name, writing succeeds, never takes more bytes than the uncompressed
  name, keeps what the message held, keeps the agreement of the message and the context, and reading
  at the place where the name was written gives the same name, up to case unless the context is
  case sensitive, and consumes exactly the bytes written.
\<close>

theorem towire_fromwire:
  assumes "buffer_ok t" "ctx_ok cctx ns" "msg_ok (sensitive cctx) (contents t) ns"
    and "represents name ls" "abs_labels ls" "b_used t < 65536" "b_used t + length (name_wire ls) \<le> b_length t"
  shows "\<exists>c t' ns'. dns_name_towire alloc name cctx t = Some (ISC_R_SUCCESS, c, t') \<and> buffer_ok t' \<and>
    take (b_used t) (contents t') = contents t \<and> b_used t' \<le> b_used t + length (name_wire ls) \<and>
    ctx_ok c ns' \<and> msg_ok (sensitive c) (contents t') ns' \<and>
    (\<forall>n src dctx options tgt. buffer_ok src \<and> take (b_active src) (b_base src) = contents t' \<and>
       b_active src = b_used t' \<and> b_current src = b_used t \<and> dc_allowed dctx AND DNS_COMPRESS_GLOBAL14 \<noteq> 0 \<and>
       options AND DNS_NAME_DOWNCASE = 0 \<and> nm_magic n \<and> BINDABLE n \<and> buffer_ok tgt \<and> b_used tgt + 255 \<le> b_length tgt \<longrightarrow>
       (\<exists>n' ls' tgt'. dns_name_fromwire n src dctx options tgt =
          Some (ISC_R_SUCCESS, n', consumed src (b_used t' - b_used t), tgt') \<and>
          represents n' ls' \<and> same_name (sensitive cctx) ls' ls))"
proof -
  obtain res c t' where r: "dns_name_towire alloc name cctx t = Some (res, c, t')" "towire_post cctx ns t ls (res, c, t')"
    using towire_ok [OF assms(1-6), of alloc] by auto
  then have res: "res = ISC_R_SUCCESS" using assms(7) by (auto simp: towire_post_def split: if_splits)
  from r(2) obtain bs new ls' where b: "t' = appended t bs" "b_used t + length bs \<le> b_length t"
      "length bs \<le> length (name_wire ls)" "ctx_ok c (ns @ new)" "cc_allowed c = cc_allowed cctx"
      "msg_ok (sensitive cctx) (contents t') (ns @ new)" "same_name (sensitive cctx) ls' ls"
      "decodes (contents t') (b_used t') (b_used t) (b_used t) ls' (length bs)"
    unfolding towire_post_def prod.case res by auto
  have ct: "buffer_ok t'" "contents t' = contents t @ bs" using appended_ok [OF assms(1) b(2)] b(1) by simp_all
  have wl: "length (name_wire ls') \<le> 255"
    using low_wire_length [OF same_name_low [OF b(7)]] representsD(3,6) [OF assms(4)] by simp
  have read: "\<exists>n' ls' tgt'. dns_name_fromwire n src dctx options tgt =
      Some (ISC_R_SUCCESS, n', consumed src (b_used t' - b_used t), tgt') \<and>
      represents n' ls' \<and> same_name (sensitive cctx) ls' ls"
    if a: "buffer_ok src" "take (b_active src) (b_base src) = contents t'" "b_active src = b_used t'"
      "b_current src = b_used t" "dc_allowed dctx AND DNS_COMPRESS_GLOBAL14 \<noteq> 0" "options AND DNS_NAME_DOWNCASE = 0"
      "nm_magic n" "BINDABLE n" "buffer_ok tgt" "b_used tgt + 255 \<le> b_length tgt" for n src dctx options tgt
  proof -
    have dec: "decodes (b_base src) (b_active src) (b_current src) (b_current src) ls' (length bs)"
      unfolding a(3,4) using a(2,3) length_contents [OF ct(1)] by (intro decodes_extend [OF b(8)]) simp_all
    have "b_used tgt + length (name_wire ls') \<le> b_length tgt" "b_current src \<le> b_active src"
      using wl a(3,4,10) b(1) by simp_all
    then show ?thesis
      using fromwire_decodes [OF a(1,9,7,8,5,6) dec wl] b(1,7) by auto
  qed
  have "sensitive c = sensitive cctx" using b(5) by (simp add: sensitive_def)
  then have "dns_name_towire alloc name cctx t = Some (ISC_R_SUCCESS, c, t') \<and> buffer_ok t' \<and>
      take (b_used t) (contents t') = contents t \<and> b_used t' \<le> b_used t + length (name_wire ls) \<and>
      ctx_ok c (ns @ new) \<and> msg_ok (sensitive c) (contents t') (ns @ new)"
    using r(1) res ct b(1,3,4,6) length_contents [OF assms(1)] by simp
  then show ?thesis using read by blast
qed

definition ex_message :: isc_buffer where
  "ex_message = isc_buffer_init (replicate 40 0) 40"

lemma ex_message_ok: "buffer_ok ex_message" "contents ex_message = []" "b_used ex_message = 0" "b_length ex_message = 40"
  by (simp_all add: ex_message_def buffer_ok_init) (simp_all add: isc_buffer_init_def)

theorem towire_fromwire_witness:
  "\<exists>c t'. dns_name_towire (\<lambda>_. True) (name_of ex_labels) (dns_compress_init 0) ex_message = Some (ISC_R_SUCCESS, c, t') \<and>
    b_used t' \<le> length (name_wire ex_labels)"
proof -
  have r: "represents (name_of ex_labels) ex_labels" "abs_labels ex_labels"
    by (rule represents_name_of [OF ex_labels_wf(1)]) (simp add: ex_labels_def abs_labels_def)
  have "b_used ex_message < 65536" "b_used ex_message + length (name_wire ex_labels) \<le> b_length ex_message"
    by (simp_all add: ex_message_ok ex_labels_def)
  from towire_fromwire [OF ex_message_ok(1) init_ok msg_ok_Nil r this, of "\<lambda>_. True" 0]
  show ?thesis by (auto simp: ex_message_ok)
qed

text \<open>
  How a renderer builds a message: it appends names and other bytes, sets the methods that are
  allowed, and at times gives up what it has written since some earlier point, when it restores the
  used length of the target and rolls the context back to it.
\<close>

inductive name_writes :: "(nat \<Rightarrow> bool) \<Rightarrow> dns_compress \<times> isc_buffer \<Rightarrow> dns_compress \<times> isc_buffer \<Rightarrow> bool"
  for alloc where
  writes_nothing: "name_writes alloc s s"
| writes_name: "name_writes alloc s (c, t) \<Longrightarrow> represents name ls \<Longrightarrow> abs_labels ls \<Longrightarrow> b_used t < 65536 \<Longrightarrow>
    dns_name_towire alloc name c t = Some (res, c', t') \<Longrightarrow> name_writes alloc s (c', t')"
| writes_bytes: "name_writes alloc s (c, t) \<Longrightarrow> b_used t + length bs \<le> b_length t \<Longrightarrow>
    isc_buffer_putmem t bs = Some t' \<Longrightarrow> name_writes alloc s (c, t')"
| writes_methods: "name_writes alloc s (c, t) \<Longrightarrow> dns_compress_setmethods c allowed = Some c' \<Longrightarrow>
    name_writes alloc s (c', t)"
| writes_rollback: "name_writes alloc s (c, t) \<Longrightarrow> name_writes alloc (c, t) (c', t') \<Longrightarrow> b_used t < 65536 \<Longrightarrow>
    dns_compress_rollback c' (b_used t) = Some c'' \<Longrightarrow> name_writes alloc s (c'', t\<lparr>b_base := b_base t'\<rparr>)"

lemma name_writes_trans:
  assumes "name_writes alloc s2 s3" "name_writes alloc s1 s2"
  shows "name_writes alloc s1 s3"
  using assms
proof (induction rule: name_writes.induct)
  case (writes_name s c t name ls res c' t')
  then show ?case by (intro name_writes.writes_name [OF _ writes_name.hyps(2-5)])
next
  case (writes_bytes s c t bs t')
  then show ?case by (intro name_writes.writes_bytes [OF _ writes_bytes.hyps(2,3)])
next
  case (writes_methods s c t allowed c')
  then show ?case by (intro name_writes.writes_methods [OF _ writes_methods.hyps(2)])
next
  case (writes_rollback s c t c' t' c'')
  then show ?case by (intro name_writes.writes_rollback [OF _ writes_rollback.hyps(2-4)])
qed

definition writes_ok :: "dns_compress \<times> isc_buffer \<Rightarrow> cdict \<Rightarrow> bool" where
  "writes_ok s ns \<longleftrightarrow> (case s of (c, t) \<Rightarrow> buffer_ok t \<and> ctx_ok c ns \<and> msg_ok (sensitive c) (contents t) ns)"

text \<open>Contexts that are the same but for the methods that are allowed.\<close>

definition same_ctx :: "dns_compress \<Rightarrow> dns_compress \<Rightarrow> bool" where
  "same_ctx c c' \<longleftrightarrow> c' = c\<lparr>cc_allowed := cc_allowed c'\<rparr> \<and> sensitive c' = sensitive c"

lemma same_ctx_refl [simp]: "same_ctx c c"
  by (simp add: same_ctx_def)

lemma same_ctx_ok: "same_ctx c c' \<Longrightarrow> ctx_ok c' ns = ctx_ok c ns" "same_ctx c c' \<Longrightarrow> sensitive c' = sensitive c"
proof -
  assume a: "same_ctx c c'"
  then have eq: "c' = c\<lparr>cc_allowed := cc_allowed c'\<rparr>" by (simp add: same_ctx_def)
  have "cc_magic c' = cc_magic c" "cc_count c' = cc_count c" "cc_table c' = cc_table c"
    using arg_cong [OF eq, of cc_magic] arg_cong [OF eq, of cc_count] arg_cong [OF eq, of cc_table] by simp_all
  then show "ctx_ok c' ns = ctx_ok c ns" by (simp add: ctx_ok_def)
  show "sensitive c' = sensitive c" using a by (simp add: same_ctx_def)
qed

lemma ctx_ok_unique:
  "ctx_ok c ns \<Longrightarrow> ctx_ok c' ns \<Longrightarrow> sensitive c' = sensitive c \<Longrightarrow> cc_edns c' = cc_edns c \<Longrightarrow> same_ctx c c'"
  by (simp add: ctx_ok_def same_ctx_def)

lemma setmethods_ok:
  assumes "ctx_ok c ns"
  shows "\<exists>c'. dns_compress_setmethods c allowed = Some c' \<and> same_ctx c c'"
proof -
  let ?a = "(cc_allowed c AND NOT DNS_COMPRESS_ALL) OR (allowed AND DNS_COMPRESS_ALL)"
  have "?a AND DNS_COMPRESS_CASESENSITIVE = cc_allowed c AND DNS_COMPRESS_CASESENSITIVE"
    by (simp add: DNS_COMPRESS_ALL_def DNS_COMPRESS_CASESENSITIVE_def bit.conj_disj_distrib2 and.assoc)
  then show ?thesis
    using assms by (simp add: ctx_ok_def dns_compress_setmethods_def same_ctx_def sensitive_def)
qed

text \<open>What every sequence of such steps keeps of the state that it starts from.\<close>

definition grown :: "dns_compress \<times> isc_buffer \<Rightarrow> cdict \<Rightarrow> dns_compress \<times> isc_buffer \<Rightarrow> cdict \<Rightarrow> bool" where
  "grown s ns s' new \<longleftrightarrow> (case s of (c, t) \<Rightarrow> case s' of (c', t') \<Rightarrow>
     writes_ok s' (ns @ new) \<and> (\<forall>e \<in> set new. b_used t \<le> snd e) \<and>
     sensitive c' = sensitive c \<and> cc_edns c' = cc_edns c \<and> b_length t' = b_length t \<and>
     length (b_base t') = length (b_base t) \<and> b_used t \<le> b_used t' \<and> take (b_used t) (b_base t') = contents t)"

lemma grown_refl: "writes_ok s ns \<Longrightarrow> grown s ns s []"
  by (cases s) (simp add: grown_def contents_def)

lemma writes_old: "writes_ok (c, t) ns \<Longrightarrow> \<forall>e \<in> set ns. snd e < b_used t"
  using msg_okD length_contents by (fastforce simp: writes_ok_def)

lemma writes_ok_ctx: "writes_ok (c, t) ns \<Longrightarrow> same_ctx c c' \<Longrightarrow> writes_ok (c', t) ns"
  by (simp add: writes_ok_def same_ctx_ok)

lemma grown_ctx: "grown s ns (c, t) new \<Longrightarrow> same_ctx c c' \<Longrightarrow> grown s ns (c', t) new"
proof -
  assume a: "grown s ns (c, t) new" "same_ctx c c'"
  have "c' = c\<lparr>cc_allowed := cc_allowed c'\<rparr>" using a(2) by (simp add: same_ctx_def)
  from arg_cong [OF this, of cc_edns] have "cc_edns c' = cc_edns c" by simp
  then show ?thesis
    using a writes_ok_ctx [OF _ a(2), of t "ns @ new"] same_ctx_ok(2) [OF a(2)] by (cases s) (simp add: grown_def)
qed

lemma grown_appended:
  assumes "grown s ns (c, t) new" "b_used t + length bs \<le> b_length t"
    and "writes_ok (c', appended t bs) (ns @ new @ more')" "\<forall>e \<in> set more'. b_used t \<le> snd e"
    and "sensitive c' = sensitive c" "cc_edns c' = cc_edns c"
  shows "grown s ns (c', appended t bs) (new @ more')"
proof -
  obtain c0 t0 where s: "s = (c0, t0)" by (cases s)
  have t: "buffer_ok t" "b_used t0 \<le> b_used t" "take (b_used t0) (b_base t) = contents t0"
    using assms(1) by (simp_all add: grown_def s writes_ok_def)
  have "take (b_used t0) (b_base (appended t bs)) = take (b_used t0) (contents t)"
    using t(1,2) length_contents [OF t(1)] by (simp add: appended_def)
  also have "\<dots> = contents t0" using t(2,3) by (simp add: contents_def min_absorb1)
  finally have keep: "take (b_used t0) (b_base (appended t bs)) = contents t0" .
  show ?thesis
    using assms appended_ok(3) [OF t(1) assms(2)] t(2) keep by (auto simp: grown_def s intro: order_trans)
qed

lemma grown_name:
  assumes "grown s ns (c, t) new" "represents name ls" "abs_labels ls" "b_used t < 65536"
    and "dns_name_towire alloc name c t = Some (res, c', t')"
  shows "\<exists>new'. grown s ns (c', t') new'"
proof -
  have ok: "buffer_ok t" "ctx_ok c (ns @ new)" "msg_ok (sensitive c) (contents t) (ns @ new)"
    using assms(1) by (cases s, simp add: grown_def writes_ok_def)+
  have post: "towire_post c (ns @ new) t ls (res, c', t')"
    using towire_ok [OF ok assms(2-4), of alloc] assms(5) by simp
  then obtain bs where bs: "t' = appended t bs" "b_used t + length bs \<le> b_length t"
    by (auto simp: towire_post_def)
  have ok': "buffer_ok t'" "contents t' = contents t @ bs" using appended_ok [OF ok(1) bs(2)] bs(1) by simp_all
  show ?thesis
  proof (cases "res = ISC_R_SUCCESS")
    case True
    then obtain new' where "ctx_ok c' ((ns @ new) @ new')" "cc_allowed c' = cc_allowed c" "cc_edns c' = cc_edns c"
        "\<forall>e \<in> set new'. b_used t \<le> snd e" "msg_ok (sensitive c) (contents t') ((ns @ new) @ new')"
      using post unfolding towire_post_def by auto
    then show ?thesis
      using ok' bs by (intro exI [of _ "new @ new'"]) (auto intro!: grown_appended [OF assms(1) bs(2)] simp: writes_ok_def sensitive_def)
  next
    case False
    then have "c' = c" using post by (auto simp: towire_post_def)
    then have "writes_ok (c', appended t bs) (ns @ new @ [])"
      using ok ok' bs(1) msg_ok_append [OF ok(3), of bs] by (simp add: writes_ok_def)
    then show ?thesis
      using grown_appended [OF assms(1) bs(2), of c' "[]"] \<open>c' = c\<close> bs(1) by auto
  qed
qed

lemma grown_bytes:
  assumes "grown s ns (c, t) new" "b_used t + length bs \<le> b_length t" "isc_buffer_putmem t bs = Some t'"
  shows "grown s ns (c, t') new"
proof -
  have ok: "buffer_ok t" "ctx_ok c (ns @ new)" "msg_ok (sensitive c) (contents t) (ns @ new)"
    using assms(1) by (cases s, simp add: grown_def writes_ok_def)+
  have t': "t' = appended t bs" using putmem_ok [OF ok(1) assms(2)] assms(3) by simp
  then have "writes_ok (c, appended t bs) (ns @ new @ [])"
    using ok appended_ok [OF ok(1) assms(2)] msg_ok_append [OF ok(3), of bs] by (simp add: writes_ok_def)
  then show ?thesis using grown_appended [OF assms(1,2), of c "[]"] t' by simp
qed

text \<open>To roll back is to undo.\<close>

lemma rollback_undoes:
  assumes "writes_ok (c, t) ns" "grown (c, t) ns (c', t') new"
  shows "\<exists>c''. dns_compress_rollback c' (b_used t) = Some c'' \<and> same_ctx c c''"
    "writes_ok (c, t\<lparr>b_base := b_base t'\<rparr>) ns" "contents (t\<lparr>b_base := b_base t'\<rparr>) = contents t"
proof -
  have g: "ctx_ok c' (ns @ new)" "\<forall>e \<in> set new. \<not> snd e < b_used t" "sensitive c' = sensitive c" "cc_edns c' = cc_edns c"
      "length (b_base t') = length (b_base t)" "take (b_used t) (b_base t') = contents t"
    using assms(2) by (auto simp: grown_def writes_ok_def)
  have "filter (\<lambda>e. snd e < b_used t) (ns @ new) = ns"
    using writes_old [OF assms(1)] g(2) by (auto simp: filter_id_conv filter_empty_conv)
  then obtain c2 where c2: "dns_compress_rollback c' (b_used t) = Some c2" "ctx_ok c2 ns"
      "cc_allowed c2 = cc_allowed c'" "cc_edns c2 = cc_edns c'"
    using rollback_ok [OF g(1), of "b_used t"] by auto
  have "same_ctx c c2"
    using c2 g(3,4) assms(1) by (intro ctx_ok_unique [of c ns]) (simp_all add: writes_ok_def sensitive_def)
  then show "\<exists>c''. dns_compress_rollback c' (b_used t) = Some c'' \<and> same_ctx c c''" using c2(1) by simp
  show "contents (t\<lparr>b_base := b_base t'\<rparr>) = contents t" using g(6) by (simp add: contents_def)
  then show "writes_ok (c, t\<lparr>b_base := b_base t'\<rparr>) ns"
    using assms(1) g(5) by (simp add: writes_ok_def buffer_ok_def)
qed

lemma grown_trans_undo:
  assumes "grown s ns (c, t) new" "grown (c, t) (ns @ new) (c', t') new'"
  shows "grown s ns (c, t\<lparr>b_base := b_base t'\<rparr>) new"
proof -
  obtain c0 t0 where s: "s = (c0, t0)" by (cases s)
  have w: "writes_ok (c, t) (ns @ new)" using assms(1) by (simp add: grown_def s)
  have le: "b_used t0 \<le> b_used t" and c0: "take (b_used t0) (b_base t) = contents t0"
    using assms(1) by (simp_all add: grown_def s)
  have len: "length (b_base t') = length (b_base t)" and same: "take (b_used t) (b_base t') = contents t"
    using assms(2) by (simp_all add: grown_def)
  have "take (b_used t0) (b_base t') = take (b_used t0) (take (b_used t) (b_base t'))"
    using le by (simp add: min_absorb1)
  also have "\<dots> = contents t0" using le c0 unfolding same by (simp add: contents_def min_absorb1)
  finally show ?thesis
    using assms(1) rollback_undoes(2) [OF w assms(2)] len by (simp add: grown_def s)
qed

lemma name_writes_grown:
  assumes "name_writes alloc s s'" "writes_ok s ns"
  shows "\<exists>new. grown s ns s' new"
  using assms
proof (induction arbitrary: ns rule: name_writes.induct)
  case (writes_nothing s)
  then show ?case using grown_refl by blast
next
  case (writes_name s c t name ls res c' t')
  then show ?case using grown_name by blast
next
  case (writes_bytes s c t bs t')
  then show ?case using grown_bytes by blast
next
  case (writes_methods s c t allowed c')
  obtain new where new: "grown s ns (c, t) new" using writes_methods.IH [OF writes_methods.prems] by blast
  then have "ctx_ok c (ns @ new)" by (cases s) (simp add: grown_def writes_ok_def)
  then obtain c2 where "dns_compress_setmethods c allowed = Some c2" "same_ctx c c2"
    using setmethods_ok by blast
  then have "same_ctx c c'" using writes_methods.hyps(2) by simp
  then show ?case using grown_ctx [OF new] by blast
next
  case (writes_rollback s c t c' t' c'')
  obtain new where new: "grown s ns (c, t) new" using writes_rollback.IH(1) [OF writes_rollback.prems] by blast
  then have w: "writes_ok (c, t) (ns @ new)" by (cases s) (simp add: grown_def)
  obtain new' where new': "grown (c, t) (ns @ new) (c', t') new'" using writes_rollback.IH(2) [OF w] by blast
  have "same_ctx c c''" using rollback_undoes(1) [OF w new'] writes_rollback.hyps(4) by auto
  then show ?case using grown_ctx [OF grown_trans_undo [OF new new']] by blast
qed

lemma writes_from_start:
  assumes "name_writes alloc (dns_compress_init edns, isc_buffer_init m n) (c, t)" "n \<le> length m" "length m < 4294967296"
  obtains ns where "writes_ok (c, t) ns"
proof -
  have "writes_ok (dns_compress_init edns, isc_buffer_init m n) []"
    using assms(2,3) by (simp add: writes_ok_def init_ok buffer_ok_init)
  then show thesis using that name_writes_grown [OF assms(1)] by (auto simp: grown_def)
qed

text \<open>
  C36: However a message is built from an empty one, with a fresh context, by writing names and other
  bytes, changing the allowed methods and rolling back to earlier points, every entry of the
  compression table stays the offset of a name in the message which reads, up to case unless the
  context is case sensitive, as the entry says; and rolling back to the point where a part of the
  message began gives the context of that point, but for the methods that are allowed, and the
  message keeps the bytes it had there.
\<close>

theorem compression_consistent:
  assumes "name_writes alloc (dns_compress_init edns, isc_buffer_init m n) (c, t)" "n \<le> length m" "length m < 4294967296"
    and "name_writes alloc (c, t) (c', t')"
  shows "(\<exists>ns. ctx_ok c' ns \<and> (\<forall>(ls, off) \<in> set ns. \<exists>ls' u. same_name (sensitive c') ls' ls \<and>
        decodes (contents t') (b_used t') off off ls' u)) \<and>
    (\<exists>c''. dns_compress_rollback c' (b_used t) = Some c'' \<and> same_ctx c c'') \<and>
    buffer_ok t' \<and> take (b_used t) (contents t') = contents t"
proof -
  obtain ns where w: "writes_ok (c, t) ns" by (rule writes_from_start [OF assms(1-3)])
  then obtain new where g: "grown (c, t) ns (c', t') new" using name_writes_grown [OF assms(4)] by blast
  then have w': "buffer_ok t'" "ctx_ok c' (ns @ new)" "msg_ok (sensitive c') (contents t') (ns @ new)"
      and k: "take (b_used t) (b_base t') = contents t" "b_used t \<le> b_used t'"
    unfolding grown_def writes_ok_def prod.case by blast+
  have "\<forall>(ls, off) \<in> set (ns @ new). \<exists>ls' u. same_name (sensitive c') ls' ls \<and>
      decodes (contents t') (b_used t') off off ls' u"
    using w'(3) unfolding msg_ok_def length_contents [OF w'(1)] by blast
  moreover have "take (b_used t) (contents t') = contents t"
    using k by (simp add: contents_def min_absorb1)
  ultimately show ?thesis using w'(1,2) rollback_undoes(1) [OF w g] by blast
qed

text \<open>A message with one name.\<close>

lemma ex_written:
  obtains c t where "name_writes (\<lambda>_. True) (dns_compress_init 0, ex_message) (c, t)" "0 < b_used t"
proof -
  have r: "represents (name_of ex_labels) ex_labels" "abs_labels ex_labels"
    by (rule represents_name_of [OF ex_labels_wf(1)]) (simp add: ex_labels_def abs_labels_def)
  have u: "b_used ex_message < 65536" by (simp add: ex_message_ok)
  obtain res c t where w: "dns_name_towire (\<lambda>_. True) (name_of ex_labels) (dns_compress_init 0) ex_message = Some (res, c, t)"
      "towire_post (dns_compress_init 0) [] ex_message ex_labels (res, c, t)"
    using towire_ok [OF ex_message_ok(1) init_ok msg_ok_Nil r u, of "\<lambda>_. True" 0] by auto
  have "0 < b_used t"
    using w(2) by (auto simp: towire_post_def ex_message_ok ex_labels_def split: if_splits dest: decodes_inside)
  moreover have "name_writes (\<lambda>_. True) (dns_compress_init 0, ex_message) (c, t)"
    by (rule writes_name [OF writes_nothing r _ w(1)]) (simp add: ex_message_ok)
  ultimately show thesis using that by blast
qed

theorem compression_consistent_witness:
  "\<exists>c c' t. name_writes (\<lambda>_. True) (dns_compress_init 0, ex_message) (c, t) \<and> 0 < b_used t \<and>
     dns_compress_rollback c 0 = Some c' \<and> same_ctx (dns_compress_init 0) c' \<and> buffer_ok t"
proof -
  obtain c t where n: "name_writes (\<lambda>_. True) (dns_compress_init 0, ex_message) (c, t)" and pos: "0 < b_used t" by (rule ex_written)
  have "\<exists>c'. dns_compress_rollback c (b_used ex_message) = Some c' \<and> same_ctx (dns_compress_init 0) c'" "buffer_ok t"
    using compression_consistent [of "\<lambda>_. True" 0 "replicate 40 0" 40, folded ex_message_def,
        OF writes_nothing _ _ n] by simp_all
  then show ?thesis using n pos by (auto simp: ex_message_ok)
qed

text \<open>
  C37: The 16-bit counter of the context and its 16-bit offsets never wrap around, however a message is built: the counter is
  the number of nodes in the table, which is at most 16639, every node has a smaller number of its own, and its offset is
  below 16639 and inside the message.
\<close>

theorem compress_count_bounds:
  assumes "name_writes alloc (dns_compress_init edns, isc_buffer_init m n) (c, t)" "n \<le> length m" "length m < 4294967296"
  shows "cc_count c = length (concat (cc_table c)) \<and> cc_count c \<le> 16639 \<and>
    (\<forall>node \<in> set (concat (cc_table c)). cn_count node < cc_count c \<and> cn_offset node < 16639 \<and> cn_offset node < b_used t)"
proof -
  obtain ns where w: "writes_ok (c, t) ns" by (rule writes_from_start [OF assms])
  then have c: "dict_ok ns" "cc_count c = length ns" "cc_table c = map (dict_bucket (dict_nodes ns)) [0..<DNS_COMPRESS_TABLESIZE]"
      and t: "buffer_ok t" "msg_ok (sensitive c) (contents t) ns"
    by (simp_all add: writes_ok_def ctx_ok_def)
  have "cn_count node < length ns \<and> cn_offset node < 16639 \<and> cn_offset node < b_used t" if n: "node \<in> set (dict_nodes ns)" for node
  proof -
    obtain e i where e: "e \<in> set ns" "node = node_of i e"
      using n by (fastforce simp: dict_nodes_def dest: set_zip_rightD)
    then have "snd e < length (contents t)" using t(2) by (auto simp: msg_ok_def)
    then show ?thesis using dict_nodes_count [OF n] e c(1) length_contents [OF t(1)] by (auto simp: dict_ok_def entry_ok_def)
  qed
  then show ?thesis using c(2) dict_small [OF c(1)] unfolding c(3) buckets_set buckets_length by simp
qed

theorem compress_count_bounds_witness:
  "\<exists>c t. name_writes (\<lambda>_. True) (dns_compress_init 0, ex_message) (c, t) \<and> 0 < b_used t \<and>
     cc_count c = length (concat (cc_table c)) \<and> cc_count c \<le> 16639"
proof -
  obtain c t where n: "name_writes (\<lambda>_. True) (dns_compress_init 0, ex_message) (c, t)" "0 < b_used t" by (rule ex_written)
  then show ?thesis
    using compress_count_bounds [of "\<lambda>_. True" 0 "replicate 40 0" 40, folded ex_message_def, OF n(1)] by auto
qed

end
