(* ===== verification/Rdata_Wire.thy ===== *)
theory Rdata_Wire
  imports Name_Compress Rdata
begin

text \<open>
  Resource data on the wire: \<open>dns_rdata_towire\<close> of \<^verbatim>\<open>lib/dns/rdata.c\<close> and the functions it dispatches to
  for the addresses, texts and names of \<^verbatim>\<open>lib/dns/rdata/\<close>.

  The dispatch itself, \<^verbatim>\<open>TOWIRESWITCH\<close>, is a macro that the build generates; it is the argument \<open>tw\<close>
  of the model, which gives for a class and a type the function of that type, or \<open>None\<close> where the
  macro sets \<open>use_default\<close>.  What the callers rely on is the locale \<open>rdata_renderer\<close>, with its
  interpretation for the functions below; \<open>known_switch\<close> has these functions and leaves the rest of the
  switch open.  At the end is what a reader finds in the message (\<open>fields_at\<close>).
\<close>

type_synonym towire_result = "(isc_result \<times> dns_compress \<times> isc_buffer) option"
type_synonym towire_fun = "dns_rdata \<Rightarrow> dns_compress \<Rightarrow> isc_buffer \<Rightarrow> towire_result"
type_synonym towireswitch = "nat \<Rightarrow> nat \<Rightarrow> towire_fun option"

section \<open>Helpers\<close>

text \<open>\<^verbatim>\<open>RETERR\<close>: anything but success is returned at once.\<close>

definition RETERR :: "towire_result \<Rightarrow> (dns_compress \<Rightarrow> isc_buffer \<Rightarrow> towire_result) \<Rightarrow> towire_result" where
  "RETERR m k =
     do { (res, cctx, target) \<leftarrow> m;
          if res \<noteq> ISC_R_SUCCESS then Some (res, cctx, target) else k cctx target }"

definition isc_region_consume :: "u8 list \<Rightarrow> nat \<Rightarrow> u8 list option" where
  "isc_region_consume r l = (if l \<le> length r then Some (drop l r) else None)"

definition dns_rdata_toregion :: "dns_rdata \<Rightarrow> u8 list option" where
  "dns_rdata_toregion rdata = (if dns_rdata_validflags rdata then Some (rd_bytes rdata) else None)"

definition mem_tobuffer :: "u8 list \<Rightarrow> nat \<Rightarrow> dns_compress \<Rightarrow> isc_buffer \<Rightarrow> towire_result" where
  "mem_tobuffer base len cctx target =
     do { tr \<leftarrow> isc_buffer_availableregion target;
          if len > length tr then Some (ISC_R_NOSPACE, cctx, target)
          else do { src \<leftarrow> mem_blk base 0 len;
                    base' \<leftarrow> mem_wr (b_base target) (b_used target) src;
                    target \<leftarrow> isc_buffer_add (target\<lparr>b_base := base'\<rparr>) len;
                    Some (ISC_R_SUCCESS, cctx, target) } }"

text \<open>The name that a region starts with; it has an offsets table.\<close>

definition region_name :: "u8 list \<Rightarrow> dns_name option" where
  "region_name region = dns_name_fromregion (dns_name_init (Some [])) region"

section \<open>The functions of the types\<close>

definition towire_in_a :: towire_fun where
  "towire_in_a rdata cctx target =
     (if rd_type rdata = 1 \<and> rd_class rdata = 1 \<and> rd_length rdata = 4
      then mem_tobuffer (rd_bytes rdata) (rd_length rdata) cctx target else None)"

definition towire_in_aaaa :: towire_fun where
  "towire_in_aaaa rdata cctx target =
     (if rd_type rdata = 28 \<and> rd_class rdata = 1 \<and> rd_length rdata = 16
      then mem_tobuffer (rd_bytes rdata) (rd_length rdata) cctx target else None)"

definition towire_txt :: towire_fun where
  "towire_txt rdata cctx target =
     (if rd_type rdata = 16 then mem_tobuffer (rd_bytes rdata) (rd_length rdata) cctx target else None)"

definition towire_ns :: "(nat \<Rightarrow> bool) \<Rightarrow> towire_fun" where
  "towire_ns alloc rdata cctx target =
     (if rd_type rdata = 2 \<and> rd_length rdata \<noteq> 0
      then do { cctx \<leftarrow> dns_compress_setmethods cctx DNS_COMPRESS_GLOBAL14;
                region \<leftarrow> dns_rdata_toregion rdata;
                name \<leftarrow> region_name region;
                dns_name_towire alloc name cctx target }
      else None)"

definition towire_cname :: "(nat \<Rightarrow> bool) \<Rightarrow> towire_fun" where
  "towire_cname alloc rdata cctx target =
     (if rd_type rdata = 5 \<and> rd_length rdata \<noteq> 0
      then do { cctx \<leftarrow> dns_compress_setmethods cctx DNS_COMPRESS_GLOBAL14;
                region \<leftarrow> dns_rdata_toregion rdata;
                name \<leftarrow> region_name region;
                dns_name_towire alloc name cctx target }
      else None)"

definition towire_ptr :: "(nat \<Rightarrow> bool) \<Rightarrow> towire_fun" where
  "towire_ptr alloc rdata cctx target =
     (if rd_type rdata = 12 \<and> rd_length rdata \<noteq> 0
      then do { cctx \<leftarrow> dns_compress_setmethods cctx DNS_COMPRESS_GLOBAL14;
                region \<leftarrow> dns_rdata_toregion rdata;
                name \<leftarrow> region_name region;
                dns_name_towire alloc name cctx target }
      else None)"

definition towire_dname :: "(nat \<Rightarrow> bool) \<Rightarrow> towire_fun" where
  "towire_dname alloc rdata cctx target =
     (if rd_type rdata = 39 \<and> rd_length rdata \<noteq> 0
      then do { cctx \<leftarrow> dns_compress_setmethods cctx DNS_COMPRESS_NONE;
                region \<leftarrow> dns_rdata_toregion rdata;
                name \<leftarrow> region_name region;
                dns_name_towire alloc name cctx target }
      else None)"

definition towire_mx :: "(nat \<Rightarrow> bool) \<Rightarrow> towire_fun" where
  "towire_mx alloc rdata cctx target =
     (if rd_type rdata = 15 \<and> rd_length rdata \<noteq> 0
      then do { cctx \<leftarrow> dns_compress_setmethods cctx DNS_COMPRESS_GLOBAL14;
                region \<leftarrow> dns_rdata_toregion rdata;
                RETERR (mem_tobuffer region 2 cctx target) (\<lambda>cctx target.
                  do { region \<leftarrow> isc_region_consume region 2;
                       name \<leftarrow> region_name region;
                       dns_name_towire alloc name cctx target }) }
      else None)"

definition towire_in_srv :: "(nat \<Rightarrow> bool) \<Rightarrow> towire_fun" where
  "towire_in_srv alloc rdata cctx target =
     (if rd_type rdata = 33 \<and> rd_length rdata \<noteq> 0
      then do { cctx \<leftarrow> dns_compress_setmethods cctx DNS_COMPRESS_NONE;
                sr \<leftarrow> dns_rdata_toregion rdata;
                RETERR (mem_tobuffer sr 6 cctx target) (\<lambda>cctx target.
                  do { sr \<leftarrow> isc_region_consume sr 6;
                       name \<leftarrow> region_name sr;
                       dns_name_towire alloc name cctx target }) }
      else None)"

definition towire_rrsig :: "(nat \<Rightarrow> bool) \<Rightarrow> towire_fun" where
  "towire_rrsig alloc rdata cctx target =
     (if rd_type rdata = 46 \<and> rd_length rdata \<noteq> 0
      then do { cctx \<leftarrow> dns_compress_setmethods cctx DNS_COMPRESS_NONE;
                sr \<leftarrow> dns_rdata_toregion rdata;
                RETERR (mem_tobuffer sr 18 cctx target) (\<lambda>cctx target.
                  do { sr \<leftarrow> isc_region_consume sr 18;
                       name \<leftarrow> region_name sr;
                       sr \<leftarrow> isc_region_consume sr (nm_length name);
                       RETERR (dns_name_towire alloc name cctx target) (\<lambda>cctx target.
                         mem_tobuffer sr (length sr) cctx target) }) }
      else None)"

definition towire_soa :: "(nat \<Rightarrow> bool) \<Rightarrow> towire_fun" where
  "towire_soa alloc rdata cctx target =
     (if rd_type rdata = 6 \<and> rd_length rdata \<noteq> 0
      then do { cctx \<leftarrow> dns_compress_setmethods cctx DNS_COMPRESS_GLOBAL14;
                sregion \<leftarrow> dns_rdata_toregion rdata;
                mname \<leftarrow> region_name sregion;
                sregion \<leftarrow> isc_region_consume sregion (nm_length mname);
                RETERR (dns_name_towire alloc mname cctx target) (\<lambda>cctx target.
                  do { rname \<leftarrow> region_name sregion;
                       sregion \<leftarrow> isc_region_consume sregion (nm_length rname);
                       RETERR (dns_name_towire alloc rname cctx target) (\<lambda>cctx target.
                         mem_tobuffer sregion 20 cctx target) }) }
      else None)"

section \<open>Dispatch\<close>

text \<open>
  A failing function has its traces removed: the structure of the target is restored (its memory
  keeps what was written) and the context is rolled back.
\<close>

definition dns_rdata_towire :: "towireswitch \<Rightarrow> towire_fun" where
  "dns_rdata_towire tw rdata cctx target =
     (if dns_rdata_validflags rdata
      then if rd_flags rdata AND DNS_RDATA_UPDATE \<noteq> 0
           then if rd_length rdata = 0 then Some (ISC_R_SUCCESS, cctx, target) else None
           else case tw (rd_class rdata) (rd_type rdata) of
                  None \<Rightarrow> mem_tobuffer (rd_bytes rdata) (rd_length rdata) cctx target
                | Some f \<Rightarrow>
                    do { (result, cctx', target') \<leftarrow> f rdata cctx target;
                         if result \<noteq> ISC_R_SUCCESS
                         then if b_used target < 65536
                              then do { cctx'' \<leftarrow> dns_compress_rollback cctx' (b_used target);
                                        Some (result, cctx'', target\<lparr>b_base := b_base target'\<rparr>) }
                              else None
                         else Some (result, cctx', target') }
      else None)"

section \<open>Writers\<close>

text \<open>
  What it means to append to a message: for a given context, position and room, the bytes and the
  new context are the same whatever the message holds; there are at most \<open>n\<close> of them; the only
  failure is that \<open>n\<close> bytes do not fit; and all happens by steps of a renderer.  \<open>Q\<close> is what is
  known of the bytes of a success.
\<close>

definition writer ::
    "(nat \<Rightarrow> bool) \<Rightarrow> nat \<Rightarrow> (u8 list \<Rightarrow> bool) \<Rightarrow> (dns_compress \<Rightarrow> isc_buffer \<Rightarrow> towire_result) \<Rightarrow> bool" where
  "writer alloc n Q f \<longleftrightarrow> (\<forall>c u L. \<exists>res c' bs. \<forall>t ns.
     writes_ok (c, t) ns \<and> b_used t = u \<and> b_length t = L \<and> L < 65536 \<longrightarrow>
       f c t = Some (res, c', appended t bs) \<and> u + length bs \<le> L \<and> length bs \<le> n \<and>
       (if res = ISC_R_SUCCESS then Q bs else res = ISC_R_NOSPACE \<and> L < u + n) \<and>
       name_writes alloc (c, t) (c', appended t bs))"

lemma writerI:
  assumes "\<And>t ns c. writes_ok (c, t) ns \<Longrightarrow> b_length t < 65536 \<Longrightarrow>
      f c t = Some (res c (b_used t) (b_length t), c' c (b_used t) (b_length t), appended t (bs c (b_used t) (b_length t))) \<and>
      b_used t + length (bs c (b_used t) (b_length t)) \<le> b_length t \<and> length (bs c (b_used t) (b_length t)) \<le> n \<and>
      (if res c (b_used t) (b_length t) = ISC_R_SUCCESS then Q (bs c (b_used t) (b_length t))
       else res c (b_used t) (b_length t) = ISC_R_NOSPACE \<and> b_length t < b_used t + n) \<and>
      name_writes alloc (c, t) (c' c (b_used t) (b_length t), appended t (bs c (b_used t) (b_length t)))"
  shows "writer alloc n Q f"
  unfolding writer_def
proof (intro allI, goal_cases)
  case (1 c u L)
  then show ?case using assms by (intro exI [of _ "res c u L"] exI [of _ "c' c u L"] exI [of _ "bs c u L"]) blast
qed

lemma writerE:
  assumes "writer alloc n Q f" "writes_ok (c, t) ns" "b_length t < 65536"
  obtains res c' bs where "f c t = Some (res, c', appended t bs)" "b_used t + length bs \<le> b_length t" "length bs \<le> n"
    "if res = ISC_R_SUCCESS then Q bs else res = ISC_R_NOSPACE \<and> b_length t < b_used t + n"
    "name_writes alloc (c, t) (c', appended t bs)"
  using assms unfolding writer_def by blast

lemma writes_append:
  assumes "writes_ok (c, t) ns" "b_used t + length bs \<le> b_length t"
  shows "name_writes alloc (c, t) (c, appended t bs)"
  using assms putmem_ok [of t bs]
  by (intro writes_bytes [OF writes_nothing assms(2)]) (simp add: writes_ok_def)

lemma writer_weaken:
  assumes "writer alloc n Q f" "n \<le> n'" "\<And>bs. Q bs \<Longrightarrow> Q' bs"
  shows "writer alloc n' Q' f"
  unfolding writer_def
proof (intro allI, goal_cases)
  case (1 c u L)
  obtain res c' bs where *: "\<forall>t ns. writes_ok (c, t) ns \<and> b_used t = u \<and> b_length t = L \<and> L < 65536 \<longrightarrow>
       f c t = Some (res, c', appended t bs) \<and> u + length bs \<le> L \<and> length bs \<le> n \<and>
       (if res = ISC_R_SUCCESS then Q bs else res = ISC_R_NOSPACE \<and> L < u + n) \<and>
       name_writes alloc (c, t) (c', appended t bs)"
    using assms(1) unfolding writer_def by blast
  then show ?case
    using assms(2,3) by (intro exI [of _ res] exI [of _ c'] exI [of _ bs] allI impI) (auto split: if_splits)
qed

lemma writer_bytes:
  assumes "length src = len"
  shows "writer alloc len (\<lambda>bs. bs = src) (mem_tobuffer (src @ rest) len)"
proof (rule writerI [where bs = "\<lambda>c u L. if len > L - u then [] else src" and c' = "\<lambda>c u L. c"
      and res = "\<lambda>c u L. if len > L - u then ISC_R_NOSPACE else ISC_R_SUCCESS"], goal_cases)
  case (1 t ns c)
  have ok: "buffer_ok t" using 1(1) by (simp add: writes_ok_def)
  note d = buffer_okD [OF ok]
  have av: "isc_buffer_availableregion t = Some (take (b_length t - b_used t) (drop (b_used t) (b_base t)))"
    using d by (simp add: isc_buffer_availableregion_def isc_buffer_availablelength_def mem_blk_def)
  have avl: "length (take (b_length t - b_used t) (drop (b_used t) (b_base t))) = b_length t - b_used t"
    using d by simp
  show ?case
  proof (cases "len > b_length t - b_used t")
    case True
    then show ?thesis
      using d writes_nothing av avl by (auto simp: mem_tobuffer_def)
  next
    case False
    then have fit: "b_used t + length src \<le> b_length t" using d assms by simp
    have "mem_blk (src @ rest) 0 len = Some src" using assms by (simp add: mem_blk_def)
    then have "mem_tobuffer (src @ rest) len c t = Some (ISC_R_SUCCESS, c, appended t src)"
      using False av avl add_after_store [OF ok fit] assms by (simp add: mem_tobuffer_def)
    then show ?thesis using False fit assms writes_append [OF 1(1) fit] by simp
  qed
qed

lemma mem_tobuffer_nospace:
  "mem_tobuffer base len c t = Some (ISC_R_NOSPACE, c', t') \<Longrightarrow> c' = c \<and> t' = t"
  by (auto simp: mem_tobuffer_def split: if_splits bind_splits)

lemma writer_reterr:
  assumes "writer alloc n Q f" "writer alloc m R g"
  shows "writer alloc (n + m) (\<lambda>bs. \<exists>as ds. bs = as @ ds \<and> Q as \<and> R ds) (\<lambda>c t. RETERR (f c t) g)"
  unfolding writer_def
proof (intro allI, goal_cases)
  case (1 c u L)
  obtain res c1 as where f: "\<forall>t ns. writes_ok (c, t) ns \<and> b_used t = u \<and> b_length t = L \<and> L < 65536 \<longrightarrow>
       f c t = Some (res, c1, appended t as) \<and> u + length as \<le> L \<and> length as \<le> n \<and>
       (if res = ISC_R_SUCCESS then Q as else res = ISC_R_NOSPACE \<and> L < u + n) \<and>
       name_writes alloc (c, t) (c1, appended t as)"
    using assms(1) unfolding writer_def by blast
  obtain res2 c2 ds where g: "\<forall>t ns. writes_ok (c1, t) ns \<and> b_used t = u + length as \<and> b_length t = L \<and> L < 65536 \<longrightarrow>
       g c1 t = Some (res2, c2, appended t ds) \<and> u + length as + length ds \<le> L \<and> length ds \<le> m \<and>
       (if res2 = ISC_R_SUCCESS then R ds else res2 = ISC_R_NOSPACE \<and> L < u + length as + m) \<and>
       name_writes alloc (c1, t) (c2, appended t ds)"
    using assms(2) unfolding writer_def by blast
  show ?case
  proof (cases "res = ISC_R_SUCCESS")
    case False
    show ?thesis
    proof (intro exI allI impI)
      fix t ns assume a: "writes_ok (c, t) ns \<and> b_used t = u \<and> b_length t = L \<and> L < 65536"
      then show "RETERR (f c t) g = Some (res, c1, appended t as) \<and> u + length as \<le> L \<and> length as \<le> n + m \<and>
          (if res = ISC_R_SUCCESS then (\<exists>as' ds. as = as' @ ds \<and> Q as' \<and> R ds)
           else res = ISC_R_NOSPACE \<and> L < u + (n + m)) \<and> name_writes alloc (c, t) (c1, appended t as)"
        using f False by (auto simp: RETERR_def)
    qed
  next
    case True
    show ?thesis
    proof (intro exI allI impI)
      fix t ns assume a: "writes_ok (c, t) ns \<and> b_used t = u \<and> b_length t = L \<and> L < 65536"
      then have f': "f c t = Some (res, c1, appended t as)" "u + length as \<le> L" "length as \<le> n" "Q as"
          "name_writes alloc (c, t) (c1, appended t as)"
        using f True by auto
      have ok: "buffer_ok t" using a by (simp add: writes_ok_def)
      obtain new where new: "grown (c, t) ns (c1, appended t as) new" using name_writes_grown [OF f'(5)] a by blast
      then have w1: "writes_ok (c1, appended t as) (ns @ new)" by (simp add: grown_def)
      have app: "appended (appended t as) ds = appended t (as @ ds)"
        using appended_appended [OF ok, of as ds] a f'(2) by simp
      have "writes_ok (c1, appended t as) (ns @ new) \<and> b_used (appended t as) = u + length as \<and>
          b_length (appended t as) = L \<and> L < 65536" using w1 a by simp
      then have g': "g c1 (appended t as) = Some (res2, c2, appended t (as @ ds))" "u + length as + length ds \<le> L"
          "length ds \<le> m" "if res2 = ISC_R_SUCCESS then R ds else res2 = ISC_R_NOSPACE \<and> L < u + length as + m"
          "name_writes alloc (c1, appended t as) (c2, appended t (as @ ds))"
        using g app by (metis)+
      show "RETERR (f c t) g = Some (res2, c2, appended t (as @ ds)) \<and> u + length (as @ ds) \<le> L \<and>
          length (as @ ds) \<le> n + m \<and>
          (if res2 = ISC_R_SUCCESS then (\<exists>as' ds'. as @ ds = as' @ ds' \<and> Q as' \<and> R ds')
           else res2 = ISC_R_NOSPACE \<and> L < u + (n + m)) \<and> name_writes alloc (c, t) (c2, appended t (as @ ds))"
        using f' g' True name_writes_trans [OF g'(5) f'(5)] by (auto simp: RETERR_def split: if_splits)
    qed
  qed
qed

text \<open>
  The bytes and the context of \<open>dns_name_towire\<close> depend on the target only through its position and
  its room.
\<close>

definition name_bytes ::
    "(nat \<Rightarrow> bool) \<Rightarrow> dns_name \<Rightarrow> dns_compress \<Rightarrow> nat \<Rightarrow> nat \<Rightarrow> (isc_result \<times> dns_compress \<times> u8 list) option" where
  "name_bytes alloc name c u L =
     do { name \<leftarrow> (if nm_offsets name = None then dns_name_clone name (dns_name_init (Some [])) else Some name);
          g \<leftarrow> towire_find c name;
          case g of
            None \<Rightarrow>
              if L - u < nm_length name then Some (ISC_R_NOSPACE, c, [])
              else do { c' \<leftarrow> dns_compress_add alloc c name name (u mod 65536);
                        Some (ISC_R_SUCCESS, c', nm_ndata name) }
          | Some (gp, go) \<Rightarrow>
              if L - u < nm_length gp then Some (ISC_R_NOSPACE, c, [])
              else if L - (u + nm_length gp) < 2 then Some (ISC_R_NOSPACE, c, nm_ndata gp)
              else do { c' \<leftarrow> (if nm_length gp \<noteq> 0 then dns_compress_add alloc c name gp (u mod 65536) else Some c);
                        Some (ISC_R_SUCCESS, c', nm_ndata gp @ put16 (go OR 0xc000)) } }"

lemma towire_plain_bytes:
  assumes "buffer_ok t"
  shows "towire_plain alloc name c t off =
    (if b_length t - b_used t < nm_length name then Some (ISC_R_NOSPACE, c, t)
     else do { c' \<leftarrow> dns_compress_add alloc c name name off; Some (ISC_R_SUCCESS, c', appended t (nm_ndata name)) })"
proof -
  have room: "u32_sub (b_length t) (b_used t) = b_length t - b_used t" using buffer_okD [OF assms] by simp
  show ?thesis
  proof (cases "b_length t - b_used t < nm_length name")
    case False
    then have "b_used t + length (nm_ndata name) \<le> b_length t" using buffer_okD(4) [OF assms] by linarith
    then show ?thesis using False towire_copy_ok [OF assms refl] by (simp add: towire_plain_def room)
  qed (simp add: towire_plain_def room)
qed

lemma towire_pointer_bytes:
  assumes "buffer_ok t"
  shows "towire_pointer alloc name c t off gp go =
    (if b_length t - b_used t < nm_length gp then Some (ISC_R_NOSPACE, c, t)
     else if b_length t - (b_used t + nm_length gp) < 2 then Some (ISC_R_NOSPACE, c, appended t (nm_ndata gp))
     else do { c' \<leftarrow> (if nm_length gp \<noteq> 0 then dns_compress_add alloc c name gp off else Some c);
               Some (ISC_R_SUCCESS, c', appended t (nm_ndata gp @ put16 (go OR 0xc000))) })"
proof -
  have room: "u32_sub (b_length t) (b_used t) = b_length t - b_used t" using buffer_okD [OF assms] by simp
  show ?thesis
  proof (cases "b_length t - b_used t < nm_length gp")
    case False
    then have fit: "b_used t + length (nm_ndata gp) \<le> b_length t" using buffer_okD(4) [OF assms] by linarith
    have ok: "buffer_ok (appended t (nm_ndata gp))" by (rule appended_ok(1) [OF assms fit])
    have room1: "u32_sub (b_length (appended t (nm_ndata gp))) (b_used (appended t (nm_ndata gp))) =
        b_length t - (b_used t + nm_length gp)"
      using fit buffer_okD [OF assms] by simp
    show ?thesis
    proof (cases "b_length t - (b_used t + nm_length gp) < 2")
      case True
      then show ?thesis
        using False towire_copy_ok [OF assms refl fit] by (simp add: towire_pointer_def room room1 Let_def del: appended_fields)
    next
      case two: False
      then have "b_used (appended t (nm_ndata gp)) + 2 \<le> b_length (appended t (nm_ndata gp))" using fit by simp
      then have "isc_buffer_putuint16 (appended t (nm_ndata gp)) (go OR 0xc000) =
          Some (appended t (nm_ndata gp @ put16 (go OR 0xc000)))"
        using put_ok(2) [OF ok] appended_appended [OF assms fit] by simp
      then show ?thesis
        using False two towire_copy_ok [OF assms refl fit] by (simp add: towire_pointer_def room room1 Let_def del: appended_fields)
    qed
  qed (simp add: towire_pointer_def room)
qed

lemma towire_bytes:
  assumes "buffer_ok t" "nm_magic name"
  shows "dns_name_towire alloc name c t =
    map_option (\<lambda>(res, c', bs). (res, c', appended t bs)) (name_bytes alloc name c (b_used t) (b_length t))"
proof -
  have b: "map_option h (Option.bind m k) = Option.bind m (\<lambda>x. map_option h (k x))" for h m k
    by (cases m) simp_all
  let ?h = "\<lambda>(res, c', bs). (res, c', appended t bs)"
  have step: "(case g of Some (gp, go) \<Rightarrow> towire_pointer alloc n c t (b_used t mod 65536) gp go
        | None \<Rightarrow> towire_plain alloc n c t (b_used t mod 65536)) =
      map_option ?h (case g of
            None \<Rightarrow>
              if b_length t - b_used t < nm_length n then Some (ISC_R_NOSPACE, c, [])
              else do { c' \<leftarrow> dns_compress_add alloc c n n (b_used t mod 65536);
                        Some (ISC_R_SUCCESS, c', nm_ndata n) }
          | Some (gp, go) \<Rightarrow>
              if b_length t - b_used t < nm_length gp then Some (ISC_R_NOSPACE, c, [])
              else if b_length t - (b_used t + nm_length gp) < 2 then Some (ISC_R_NOSPACE, c, nm_ndata gp)
              else do { c' \<leftarrow> (if nm_length gp \<noteq> 0 then dns_compress_add alloc c n gp (b_used t mod 65536) else Some c);
                        Some (ISC_R_SUCCESS, c', nm_ndata gp @ put16 (go OR 0xc000)) })" for g n
    by (cases g) (auto simp: towire_plain_bytes [OF assms(1)] towire_pointer_bytes [OF assms(1)] b)
  show ?thesis
    unfolding dns_name_towire_def name_bytes_def b Let_def step
    using assms(2) buffer_okD(1) [OF assms(1)] by simp
qed

lemma writer_name:
  assumes "represents name ls" "abs_labels ls"
  shows "writer alloc (length (name_wire ls)) (\<lambda>_. True) (dns_name_towire alloc name)"
  unfolding writer_def
proof (intro allI, goal_cases)
  case (1 c u L)
  let ?r = "the (name_bytes alloc name c u L)"
  show ?case
  proof (intro exI [of _ "fst ?r"] exI [of _ "fst (snd ?r)"] exI [of _ "snd (snd ?r)"] allI impI)
    fix t ns assume a: "writes_ok (c, t) ns \<and> b_used t = u \<and> b_length t = L \<and> L < 65536"
    then have ok: "buffer_ok t" "ctx_ok c ns" "msg_ok (sensitive c) (contents t) ns" "b_used t < 65536"
      using buffer_okD(4) [of t] by (auto simp: writes_ok_def)
    obtain res c' t' where r: "dns_name_towire alloc name c t = Some (res, c', t')" "towire_post c ns t ls (res, c', t')"
      using towire_ok [OF ok(1-3) assms ok(4), of alloc] by auto
    then obtain bs where bs: "name_bytes alloc name c u L = Some (res, c', bs)" "t' = appended t bs"
      using towire_bytes [OF ok(1) representsD(1) [OF assms(1)], of alloc c] a by (auto split: prod.splits)
    obtain bs' where bs': "appended t bs = appended t bs'" "b_used t + length bs' \<le> b_length t"
        "if res = ISC_R_SUCCESS then length bs' \<le> length (name_wire ls)
         else res = ISC_R_NOSPACE \<and> c' = c \<and> b_length t < b_used t + length (name_wire ls)"
      using r(2) bs(2) by (auto simp: towire_post_def split: if_splits)
    have "length bs = length bs'" using arg_cong [OF bs'(1), of b_used] by simp
    moreover have "name_writes alloc (c, t) (c', appended t bs)"
      using writes_name [OF writes_nothing assms ok(4) r(1)] bs(2) by simp
    ultimately show "dns_name_towire alloc name c t = Some (fst ?r, fst (snd ?r), appended t (snd (snd ?r))) \<and>
        u + length (snd (snd ?r)) \<le> L \<and> length (snd (snd ?r)) \<le> length (name_wire ls) \<and>
        (if fst ?r = ISC_R_SUCCESS then True else fst ?r = ISC_R_NOSPACE \<and> L < u + length (name_wire ls)) \<and>
        name_writes alloc (c, t) (fst (snd ?r), appended t (snd (snd ?r)))"
      using r(1) bs bs'(2,3) a by (auto split: if_splits)
  qed
qed

lemma writer_methods:
  assumes "writer alloc n Q f"
  shows "writer alloc n Q (\<lambda>c t. do { c \<leftarrow> dns_compress_setmethods c methods; f c t })"
  unfolding writer_def
proof (intro allI, goal_cases)
  case (1 c u L)
  let ?c = "the (dns_compress_setmethods c methods)"
  obtain res c' bs where f: "\<forall>t ns. writes_ok (?c, t) ns \<and> b_used t = u \<and> b_length t = L \<and> L < 65536 \<longrightarrow>
       f ?c t = Some (res, c', appended t bs) \<and> u + length bs \<le> L \<and> length bs \<le> n \<and>
       (if res = ISC_R_SUCCESS then Q bs else res = ISC_R_NOSPACE \<and> L < u + n) \<and>
       name_writes alloc (?c, t) (c', appended t bs)"
    using assms unfolding writer_def by blast
  show ?case
  proof (intro exI allI impI)
    fix t ns assume a: "writes_ok (c, t) ns \<and> b_used t = u \<and> b_length t = L \<and> L < 65536"
    then have "ctx_ok c ns" by (simp add: writes_ok_def)
    then have c: "dns_compress_setmethods c methods = Some ?c" "same_ctx c ?c"
      using setmethods_ok [of c ns methods] by auto
    have "writes_ok (?c, t) ns" using writes_ok_ctx [OF _ c(2)] a by blast
    then have f': "f ?c t = Some (res, c', appended t bs) \<and> u + length bs \<le> L \<and> length bs \<le> n \<and>
       (if res = ISC_R_SUCCESS then Q bs else res = ISC_R_NOSPACE \<and> L < u + n) \<and>
       name_writes alloc (?c, t) (c', appended t bs)" using f a by blast
    moreover have "name_writes alloc (c, t) (c', appended t bs)"
      using f' by (intro name_writes_trans [OF _ writes_methods [OF writes_nothing c(1)]]) blast
    ultimately show "do { c \<leftarrow> dns_compress_setmethods c methods; f c t } = Some (res, c', appended t bs) \<and>
        u + length bs \<le> L \<and> length bs \<le> n \<and>
        (if res = ISC_R_SUCCESS then Q bs else res = ISC_R_NOSPACE \<and> L < u + n) \<and>
        name_writes alloc (c, t) (c', appended t bs)"
      using c(1) by (metis (no_types, lifting) bind.bind_lunit)
  qed
qed

lemma set_offsets_loop_rest:
  "set_offsets_loop nd off offs = Some (o', p, True) \<Longrightarrow> set_offsets_loop (nd @ rest) off offs = Some (o', p, True)"
proof (induction nd off offs rule: set_offsets_loop.induct)
  case (1 nd off offs)
  have ne: "off \<noteq> length nd" "length offs < 128"
    using 1(2) by (subst (asm) set_offsets_loop.simps, simp split: if_splits)+
  obtain c where c: "mem_rd nd off = Some c"
    using 1(2) ne by (subst (asm) set_offsets_loop.simps) (cases "mem_rd nd off", auto)
  then have off: "off < length nd" "mem_rd (nd @ rest) off = Some c"
    by (auto simp: mem_rd_def nth_append split: if_splits)
  have b: "unat c \<le> 63 \<and> off + 1 + unat c \<le> length nd"
    using 1(2) ne c by (subst (asm) set_offsets_loop.simps) (auto simp: Let_def split: if_splits)
  show ?case
  proof (cases "unat c = 0")
    case True
    then show ?thesis
      using 1(2) ne c b off by (subst (asm) set_offsets_loop.simps, subst set_offsets_loop.simps) (auto simp: Let_def)
  next
    case False
    have step: "set_offsets_loop nd off offs = set_offsets_loop nd (off + 1 + unat c) (offs @ [off])"
      using ne c b False by (subst set_offsets_loop.simps) (simp add: Let_def)
    then have "set_offsets_loop (nd @ rest) (off + 1 + unat c) (offs @ [off]) = Some (o', p, True)"
      using 1(1) [OF ne c refl b False] 1(2) by simp
    then show ?thesis
      using ne c b off False by (subst set_offsets_loop.simps) (simp add: Let_def)
  qed
qed

text \<open>A region that starts with an absolute name.\<close>

lemma region_name_ok:
  assumes "wf_labels ls" "abs_labels ls"
  shows "\<exists>n. region_name (name_wire ls @ rest) = Some n \<and> represents n ls"
proof -
  have len: "length (name_wire ls) \<le> 255" "name_wire ls \<noteq> []"
    using wf_labelsD(3) [OF assms(1)] assms(2) by (auto simp: abs_labels_def name_wire_def)
  let ?r = "take (255 - length (name_wire ls)) rest"
  have cut: "(if length (name_wire ls @ rest) \<le> DNS_NAME_MAXWIRE then name_wire ls @ rest
      else take DNS_NAME_MAXWIRE (name_wire ls @ rest)) = name_wire ls @ ?r"
    using len by (simp add: DNS_NAME_MAXWIRE_def)
  have "set_offsets_loop (name_wire ls @ ?r) 0 [] = Some (map (name_off ls) [0..<length ls], length (name_wire ls), True)"
    using set_offsets_loop_ok [OF assms(1)] assms(2) by (intro set_offsets_loop_rest) simp
  then have "region_name (name_wire ls @ rest) = Some ((dns_name_init (Some []))\<lparr>nm_ndata := name_wire ls,
      nm_labels := length ls, nm_attributes := nm_attributes (dns_name_init (Some [])) OR DNS_NAMEATTR_ABSOLUTE,
      nm_offsets := Some (map (name_off ls) [0..<length ls])\<rparr>)"
    using len(2) cut by (simp add: region_name_def dns_name_fromregion_def fromregion_ndata_def dns_name_init_def BINDABLE_def set_offsets_name_def)
  then show ?thesis
    using assms by (auto intro!: representsI simp: is_abs_def dns_name_init_def)
qed

section \<open>The contract of the renderers\<close>

text \<open>
  What the callers of \<open>dns_rdata_towire\<close> rely on, for the rdata that are \<open>good\<close>: each function of the
  switch appends at most as many bytes as the rdata has, and \<open>wrote\<close> relates the rdata to the bytes.
\<close>

locale rdata_renderer =
  fixes alloc :: "nat \<Rightarrow> bool" and tw :: towireswitch
    and good :: "dns_rdata \<Rightarrow> bool" and wrote :: "dns_rdata \<Rightarrow> u8 list \<Rightarrow> bool"
  assumes switch_writer: "good x \<Longrightarrow> tw (rd_class x) (rd_type x) = Some f \<Longrightarrow> writer alloc (rd_length x) (wrote x) (f x)"
    and default_wrote: "good x \<Longrightarrow> tw (rd_class x) (rd_type x) = None \<Longrightarrow> wrote x (rd_bytes x)"
    and good_flags: "good x \<Longrightarrow> dns_rdata_validflags x \<and> rd_flags x AND DNS_RDATA_UPDATE = 0"
begin

lemma rdata_towire_ok:
  assumes "good x" "writes_ok (c, t) ns" "b_length t < 65536"
  shows "(\<exists>c' bs. (\<forall>t0 ns0. writes_ok (c, t0) ns0 \<and> b_used t0 = b_used t \<and> b_length t0 = b_length t \<longrightarrow>
        dns_rdata_towire tw x c t0 = Some (ISC_R_SUCCESS, c', appended t0 bs) \<and>
        name_writes alloc (c, t0) (c', appended t0 bs)) \<and>
      b_used t + length bs \<le> b_length t \<and> length bs \<le> rd_length x \<and> wrote x bs) \<or>
    (\<exists>c' t'. dns_rdata_towire tw x c t = Some (ISC_R_NOSPACE, c', t') \<and> name_writes alloc (c, t) (c', t') \<and>
      b_length t < b_used t + rd_length x \<and> contents t' = contents t \<and> same_ctx c c')"
proof -
  have flags: "dns_rdata_validflags x" "rd_flags x AND DNS_RDATA_UPDATE = 0" using good_flags [OF assms(1)] by simp_all
  show ?thesis
  proof (cases "tw (rd_class x) (rd_type x)")
    case None
    have eq: "dns_rdata_towire tw x = mem_tobuffer (rd_bytes x @ []) (rd_length x)"
      using flags None by (simp add: dns_rdata_towire_def fun_eq_iff)
    have w: "writer alloc (rd_length x) (\<lambda>bs. bs = rd_bytes x) (dns_rdata_towire tw x)"
      unfolding eq by (rule writer_bytes) (simp add: rd_length_def)
    obtain res c' bs where r: "\<forall>t0 ns0. writes_ok (c, t0) ns0 \<and> b_used t0 = b_used t \<and> b_length t0 = b_length t \<and>
          b_length t < 65536 \<longrightarrow>
        dns_rdata_towire tw x c t0 = Some (res, c', appended t0 bs) \<and> b_used t + length bs \<le> b_length t \<and>
        length bs \<le> rd_length x \<and>
        (if res = ISC_R_SUCCESS then bs = rd_bytes x else res = ISC_R_NOSPACE \<and> b_length t < b_used t + rd_length x) \<and>
        name_writes alloc (c, t0) (c', appended t0 bs)"
      using w unfolding writer_def by blast
    show ?thesis
    proof (cases "res = ISC_R_SUCCESS")
      case True
      then show ?thesis using r assms(2,3) default_wrote [OF assms(1) None] by (intro disjI1 exI [of _ c'] exI [of _ bs]) auto
    next
      case False
      then have n: "dns_rdata_towire tw x c t = Some (ISC_R_NOSPACE, c', appended t bs)"
        using r assms(2,3) by auto
      have "c' = c" "appended t bs = t" using mem_tobuffer_nospace n unfolding eq by blast+
      then show ?thesis using r assms(2,3) False by (intro disjI2 exI [of _ c'] exI [of _ "appended t bs"]) auto
    qed
  next
    case (Some f)
    have w: "writer alloc (rd_length x) (wrote x) (f x)" by (rule switch_writer [OF assms(1) Some])
    obtain res c' bs where r: "\<forall>t0 ns0. writes_ok (c, t0) ns0 \<and> b_used t0 = b_used t \<and> b_length t0 = b_length t \<and>
          b_length t < 65536 \<longrightarrow>
        f x c t0 = Some (res, c', appended t0 bs) \<and> b_used t + length bs \<le> b_length t \<and> length bs \<le> rd_length x \<and>
        (if res = ISC_R_SUCCESS then wrote x bs else res = ISC_R_NOSPACE \<and> b_length t < b_used t + rd_length x) \<and>
        name_writes alloc (c, t0) (c', appended t0 bs)"
      using w unfolding writer_def by blast
    show ?thesis
    proof (cases "res = ISC_R_SUCCESS")
      case True
      have "dns_rdata_towire tw x c t0 = Some (ISC_R_SUCCESS, c', appended t0 bs)"
        if "f x c t0 = Some (ISC_R_SUCCESS, c', appended t0 bs)" for t0
        using that flags Some by (simp add: dns_rdata_towire_def)
      then show ?thesis using r assms(2,3) True by (intro disjI1 exI [of _ c'] exI [of _ bs]) auto
    next
      case False
      have f: "f x c t = Some (ISC_R_NOSPACE, c', appended t bs)" "b_length t < b_used t + rd_length x"
          "name_writes alloc (c, t) (c', appended t bs)"
        using r assms(2,3) False by auto
      have u: "b_used t < 65536" using assms(2,3) buffer_okD(4) [of t] by (simp add: writes_ok_def)
      obtain new where new: "grown (c, t) ns (c', appended t bs) new" using name_writes_grown [OF f(3) assms(2)] by blast
      obtain c2 where c2: "dns_compress_rollback c' (b_used t) = Some c2"
        using rollback_undoes(1) [OF assms(2) new] by blast
      have "dns_rdata_towire tw x c t = Some (ISC_R_NOSPACE, c2, t\<lparr>b_base := b_base (appended t bs)\<rparr>)"
        using f(1) flags Some c2 u by (simp add: dns_rdata_towire_def)
      moreover have "name_writes alloc (c, t) (c2, t\<lparr>b_base := b_base (appended t bs)\<rparr>)"
        by (rule writes_rollback [OF writes_nothing f(3) u c2])
      moreover have "same_ctx c c2" using rollback_undoes(1) [OF assms(2) new] c2 by auto
      ultimately show ?thesis using f(2) rollback_undoes(3) [OF assms(2) new] by blast
    qed
  qed
qed

end

section \<open>The renderers of the modelled types\<close>

text \<open>What the rdata of a type look like, in their internal form: names are absolute and uncompressed.\<close>

definition name_rdata :: "u8 list \<Rightarrow> bool" where
  "name_rdata bs \<longleftrightarrow> (\<exists>ls. wf_labels ls \<and> abs_labels ls \<and> bs = name_wire ls)"

definition modelled_type :: "nat \<Rightarrow> nat \<Rightarrow> bool" where
  "modelled_type rdclass type \<longleftrightarrow> type \<in> {2, 5, 6, 12, 15, 16, 39, 46} \<or> rdclass = 1 \<and> type \<in> {1, 28, 33}"

definition rdata_form :: "dns_rdata \<Rightarrow> bool" where
  "rdata_form x \<longleftrightarrow> modelled_type (rd_class x) (rd_type x) \<and> dns_rdata_validflags x \<and> rd_flags x AND DNS_RDATA_UPDATE = 0 \<and>
     (rd_type x = 1 \<and> rd_class x = 1 \<longrightarrow> rd_length x = 4) \<and>
     (rd_type x = 28 \<and> rd_class x = 1 \<longrightarrow> rd_length x = 16) \<and>
     (rd_type x \<in> {2, 5, 12, 39} \<longrightarrow> name_rdata (rd_bytes x)) \<and>
     (rd_type x = 15 \<longrightarrow> (\<exists>p n. length p = 2 \<and> name_rdata n \<and> rd_bytes x = p @ n)) \<and>
     (rd_type x = 33 \<and> rd_class x = 1 \<longrightarrow> (\<exists>p n. length p = 6 \<and> name_rdata n \<and> rd_bytes x = p @ n)) \<and>
     (rd_type x = 46 \<longrightarrow> (\<exists>p n sig. length p = 18 \<and> name_rdata n \<and> rd_bytes x = p @ n @ sig)) \<and>
     (rd_type x = 6 \<longrightarrow> (\<exists>m r n. name_rdata m \<and> name_rdata r \<and> length n = 20 \<and> rd_bytes x = m @ r @ n))"

text \<open>
  The cases of the generated switch for these types.  The rest of the switch, with the functions of the
  other types and the default for unknown ones, is the argument \<open>other\<close>, of which nothing is assumed.
\<close>

definition known_switch :: "towireswitch \<Rightarrow> (nat \<Rightarrow> bool) \<Rightarrow> towireswitch" where
  "known_switch other alloc rdclass type =
     (if type = 2 then Some (towire_ns alloc)
      else if type = 5 then Some (towire_cname alloc)
      else if type = 6 then Some (towire_soa alloc)
      else if type = 12 then Some (towire_ptr alloc)
      else if type = 15 then Some (towire_mx alloc)
      else if type = 16 then Some towire_txt
      else if type = 39 then Some (towire_dname alloc)
      else if type = 46 then Some (towire_rrsig alloc)
      else if rdclass = 1 \<and> type = 1 then Some towire_in_a
      else if rdclass = 1 \<and> type = 28 then Some towire_in_aaaa
      else if rdclass = 1 \<and> type = 33 then Some (towire_in_srv alloc)
      else other rdclass type)"

lemma known_switch_defined: "modelled_type rdclass type \<Longrightarrow> known_switch other alloc rdclass type \<noteq> None"
  by (auto simp: modelled_type_def known_switch_def)

text \<open>Rdata without names go to the wire as they are.\<close>

definition wire_of :: "dns_rdata \<Rightarrow> u8 list \<Rightarrow> bool" where
  "wire_of x bs \<longleftrightarrow> (rd_type x \<notin> {2, 5, 6, 12, 15, 33, 39, 46} \<longrightarrow> bs = rd_bytes x)"

lemma writer_region_name:
  assumes "name_rdata n"
  shows "\<exists>name. region_name (n @ rest) = Some name \<and> nm_length name = length n \<and>
    writer alloc (length n) (\<lambda>_. True) (dns_name_towire alloc name)"
proof -
  obtain ls where ls: "wf_labels ls" "abs_labels ls" "n = name_wire ls" using assms by (auto simp: name_rdata_def)
  obtain name where name: "region_name (n @ rest) = Some name" "represents name ls"
    using region_name_ok [OF ls(1,2)] ls(3) by blast
  then show ?thesis using writer_name [OF name(2) ls(2)] representsD(3) [OF name(2)] ls(3) by auto
qed

lemma name_rdata_neq_Nil: "name_rdata n \<Longrightarrow> n \<noteq> []"
  by (auto simp: name_rdata_def abs_labels_def name_wire_def)

lemma writer_single_name:
  assumes "rdata_form x" "rd_type x \<in> {2, 5, 12, 39}"
  shows "writer alloc (rd_length x) (\<lambda>_. True) (\<lambda>c t.
      do { c \<leftarrow> dns_compress_setmethods c methods; region \<leftarrow> dns_rdata_toregion x; name \<leftarrow> region_name region;
           dns_name_towire alloc name c t })" "rd_length x \<noteq> 0"
proof -
  have n: "name_rdata (rd_bytes x)" "dns_rdata_toregion x = Some (rd_bytes x)"
    using assms by (auto simp: rdata_form_def dns_rdata_toregion_def)
  then show "rd_length x \<noteq> 0" using name_rdata_neq_Nil by (simp add: rd_length_def)
  obtain name where name: "region_name (rd_bytes x @ []) = Some name"
      "writer alloc (length (rd_bytes x)) (\<lambda>_. True) (dns_name_towire alloc name)"
    using writer_region_name [OF n(1), of "[]" alloc] by blast
  then show "writer alloc (rd_length x) (\<lambda>_. True) (\<lambda>c t.
      do { c \<leftarrow> dns_compress_setmethods c methods; region \<leftarrow> dns_rdata_toregion x; name \<leftarrow> region_name region;
           dns_name_towire alloc name c t })"
    using writer_methods [OF name(2), of methods] n(2) by (simp add: rd_length_def)
qed

lemma writer_prefixed_name:
  assumes "dns_rdata_validflags x" "rd_bytes x = p @ n" "length p = k" "name_rdata n"
  shows "writer alloc (rd_length x) (\<lambda>_. True) (\<lambda>c t.
      do { c \<leftarrow> dns_compress_setmethods c methods; region \<leftarrow> dns_rdata_toregion x;
           RETERR (mem_tobuffer region k c t) (\<lambda>c t.
             do { region \<leftarrow> isc_region_consume region k; name \<leftarrow> region_name region;
                  dns_name_towire alloc name c t }) })" "rd_length x \<noteq> 0"
proof -
  have r: "dns_rdata_toregion x = Some (p @ n)" "isc_region_consume (p @ n) k = Some n"
    using assms by (simp_all add: dns_rdata_toregion_def isc_region_consume_def)
  show "rd_length x \<noteq> 0" using name_rdata_neq_Nil [OF assms(4)] assms(2) by (simp add: rd_length_def)
  obtain name where name: "region_name (n @ []) = Some name"
      "writer alloc (length n) (\<lambda>_. True) (dns_name_towire alloc name)"
    using writer_region_name [OF assms(4), of "[]" alloc] by blast
  have eq: "(\<lambda>c t. do { region \<leftarrow> isc_region_consume (p @ n) k; name \<leftarrow> region_name region;
      dns_name_towire alloc name c t }) = dns_name_towire alloc name"
    using r(2) name(1) by (simp add: fun_eq_iff)
  have "writer alloc (k + length n) (\<lambda>bs. \<exists>as ds. bs = as @ ds \<and> as = p \<and> True)
      (\<lambda>c t. RETERR (mem_tobuffer (p @ n) k c t) (dns_name_towire alloc name))"
    by (rule writer_reterr [OF writer_bytes [OF assms(3)] name(2)])
  from writer_methods [OF writer_weaken [OF this order_refl, of "\<lambda>_. True"], of methods]
  show "writer alloc (rd_length x) (\<lambda>_. True) (\<lambda>c t.
      do { c \<leftarrow> dns_compress_setmethods c methods; region \<leftarrow> dns_rdata_toregion x;
           RETERR (mem_tobuffer region k c t) (\<lambda>c t.
             do { region \<leftarrow> isc_region_consume region k; name \<leftarrow> region_name region;
                  dns_name_towire alloc name c t }) })"
    unfolding r(1) using assms(2,3) by (simp add: eq rd_length_def)
qed

lemma writer_rrsig:
  assumes "rdata_form x" "rd_type x = 46"
  shows "writer alloc (rd_length x) (\<lambda>_. True) (towire_rrsig alloc x)"
proof -
  obtain p n sig where x: "length p = 18" "name_rdata n" "rd_bytes x = p @ n @ sig" "dns_rdata_validflags x"
    using assms by (auto simp: rdata_form_def)
  obtain name where name: "region_name (n @ sig) = Some name" "nm_length name = length n"
      "writer alloc (length n) (\<lambda>_. True) (dns_name_towire alloc name)"
    using writer_region_name [OF x(2), of sig alloc] by blast
  have w: "writer alloc (18 + (length n + length sig)) (\<lambda>_. True)
      (\<lambda>c t. RETERR (mem_tobuffer (p @ n @ sig) 18 c t)
        (\<lambda>c t. RETERR (dns_name_towire alloc name c t) (mem_tobuffer (sig @ []) (length sig))))"
    by (rule writer_weaken [OF writer_reterr [OF writer_bytes [OF x(1)]
          writer_reterr [OF name(3) writer_bytes [OF refl]]] order_refl]) simp
  have "towire_rrsig alloc x = (\<lambda>c t. do { c \<leftarrow> dns_compress_setmethods c DNS_COMPRESS_NONE;
      RETERR (mem_tobuffer (p @ n @ sig) 18 c t)
        (\<lambda>c t. RETERR (dns_name_towire alloc name c t) (mem_tobuffer (sig @ []) (length sig))) })"
    using assms(2) x name(1,2)
    by (simp add: towire_rrsig_def fun_eq_iff dns_rdata_toregion_def isc_region_consume_def rd_length_def)
  then show ?thesis using writer_methods [OF w, of DNS_COMPRESS_NONE] x(1,3) by (simp add: rd_length_def)
qed

lemma writer_soa:
  assumes "rdata_form x" "rd_type x = 6"
  shows "writer alloc (rd_length x) (\<lambda>_. True) (towire_soa alloc x)"
proof -
  obtain m r n where x: "name_rdata m" "name_rdata r" "length n = 20" "rd_bytes x = m @ r @ n" "dns_rdata_validflags x"
    using assms by (auto simp: rdata_form_def)
  obtain mname where mname: "region_name (m @ r @ n) = Some mname" "nm_length mname = length m"
      "writer alloc (length m) (\<lambda>_. True) (dns_name_towire alloc mname)"
    using writer_region_name [OF x(1), of "r @ n" alloc] by blast
  obtain rname where rname: "region_name (r @ n) = Some rname" "nm_length rname = length r"
      "writer alloc (length r) (\<lambda>_. True) (dns_name_towire alloc rname)"
    using writer_region_name [OF x(2), of n alloc] by blast
  have w: "writer alloc (length m + (length r + 20)) (\<lambda>_. True)
      (\<lambda>c t. RETERR (dns_name_towire alloc mname c t)
        (\<lambda>c t. RETERR (dns_name_towire alloc rname c t) (mem_tobuffer (n @ []) 20)))"
    by (rule writer_weaken [OF writer_reterr [OF mname(3)
          writer_reterr [OF rname(3) writer_bytes [OF x(3)]]] order_refl]) simp
  have "towire_soa alloc x = (\<lambda>c t. do { c \<leftarrow> dns_compress_setmethods c DNS_COMPRESS_GLOBAL14;
      RETERR (dns_name_towire alloc mname c t)
        (\<lambda>c t. RETERR (dns_name_towire alloc rname c t) (mem_tobuffer (n @ []) 20)) })"
    using assms(2) x mname(1,2) rname(1,2) name_rdata_neq_Nil [OF x(1)]
    by (simp add: towire_soa_def fun_eq_iff dns_rdata_toregion_def isc_region_consume_def rd_length_def)
  then show ?thesis using writer_methods [OF w, of DNS_COMPRESS_GLOBAL14] x(3,4) by (simp add: rd_length_def)
qed

lemma writer_verbatim: "writer alloc (rd_length x) (\<lambda>bs. bs = rd_bytes x) (mem_tobuffer (rd_bytes x) (rd_length x))"
  using writer_bytes [of "rd_bytes x" "rd_length x" alloc "[]"] by (simp add: rd_length_def)

lemma known_switch_writer:
  assumes "rdata_form x" "known_switch other alloc (rd_class x) (rd_type x) = Some f"
  shows "writer alloc (rd_length x) (wire_of x) (f x)"
proof -
  have any: "writer alloc (rd_length x) (wire_of x) g"
    if "writer alloc (rd_length x) (\<lambda>_. True) g" "rd_type x \<in> {2, 5, 6, 12, 15, 33, 39, 46}" for g
    using that by (intro writer_weaken [OF that(1)]) (auto simp: wire_of_def)
  have verb: "writer alloc (rd_length x) (wire_of x) (mem_tobuffer (rd_bytes x) (rd_length x))"
    by (rule writer_weaken [OF writer_verbatim]) (simp_all add: wire_of_def)
  note single = writer_single_name [OF assms(1)]
  have "modelled_type (rd_class x) (rd_type x)" using assms(1) by (simp add: rdata_form_def)
  then consider "rd_type x = 2" | "rd_type x = 5" | "rd_type x = 6" | "rd_type x = 12" | "rd_type x = 15" | "rd_type x = 16"
    | "rd_type x = 39" | "rd_type x = 46" | "rd_type x = 1" "rd_class x = 1" | "rd_type x = 28" "rd_class x = 1"
    | "rd_type x = 33" "rd_class x = 1"
    by (auto simp: modelled_type_def)
  then show ?thesis
  proof cases
    case 1
    then have "f x = towire_ns alloc x" using assms(2) by (simp add: known_switch_def)
    then show ?thesis using any single(1) [of alloc DNS_COMPRESS_GLOBAL14] single(2) 1 by (simp add: towire_ns_def [abs_def])
  next
    case 2
    then have "f x = towire_cname alloc x" using assms(2) by (simp add: known_switch_def)
    then show ?thesis using any single(1) [of alloc DNS_COMPRESS_GLOBAL14] single(2) 2 by (simp add: towire_cname_def [abs_def])
  next
    case 3
    then show ?thesis using any [OF writer_soa [OF assms(1) 3]] assms(2) by (simp add: known_switch_def)
  next
    case 4
    then have "f x = towire_ptr alloc x" using assms(2) by (simp add: known_switch_def)
    then show ?thesis using any single(1) [of alloc DNS_COMPRESS_GLOBAL14] single(2) 4 by (simp add: towire_ptr_def [abs_def])
  next
    case 5
    then obtain p n where pn: "length p = 2" "name_rdata n" "rd_bytes x = p @ n" "dns_rdata_validflags x"
      using assms(1) by (auto simp: rdata_form_def)
    have "f x = towire_mx alloc x" using 5 assms(2) by (simp add: known_switch_def)
    then show ?thesis
      using any writer_prefixed_name(1) [OF pn(4,3,1,2), of alloc DNS_COMPRESS_GLOBAL14] writer_prefixed_name(2) [OF pn(4,3,1,2)] 5 by (simp add: towire_mx_def [abs_def])
  next
    case 6
    then have "f x = towire_txt x" using assms(2) by (simp add: known_switch_def)
    then show ?thesis using verb 6 by (simp add: towire_txt_def [abs_def])
  next
    case 7
    then have "f x = towire_dname alloc x" using assms(2) by (simp add: known_switch_def)
    then show ?thesis using any single(1) [of alloc DNS_COMPRESS_NONE] single(2) 7 by (simp add: towire_dname_def [abs_def])
  next
    case 8
    then show ?thesis using any [OF writer_rrsig [OF assms(1) 8]] assms(2) by (simp add: known_switch_def)
  next
    case 9
    then have "f x = towire_in_a x" using assms(2) by (simp add: known_switch_def)
    then show ?thesis using verb 9 assms(1) by (simp add: towire_in_a_def [abs_def] rdata_form_def)
  next
    case 10
    then have "f x = towire_in_aaaa x" using assms(2) by (simp add: known_switch_def)
    then show ?thesis using verb 10 assms(1) by (simp add: towire_in_aaaa_def [abs_def] rdata_form_def)
  next
    case 11
    then obtain p n where pn: "length p = 6" "name_rdata n" "rd_bytes x = p @ n" "dns_rdata_validflags x"
      using assms(1) by (auto simp: rdata_form_def)
    have "f x = towire_in_srv alloc x" using 11 assms(2) by (simp add: known_switch_def)
    then show ?thesis
      using any writer_prefixed_name(1) [OF pn(4,3,1,2), of alloc DNS_COMPRESS_NONE] writer_prefixed_name(2) [OF pn(4,3,1,2)] 11 by (simp add: towire_in_srv_def [abs_def])
  qed
qed

interpretation known_renderer: rdata_renderer alloc "known_switch other alloc" rdata_form wire_of for other alloc
proof (unfold_locales, goal_cases)
  case (2 x)
  then show ?case using known_switch_defined [of "rd_class x" "rd_type x" other alloc] by (simp add: rdata_form_def)
qed (auto simp: known_switch_writer rdata_form_def)

section \<open>The fields of rdata in a message\<close>

text \<open>
  What a reader of the message finds: bytes as they are in the rdata, and names that may be compressed,
  which decode to the name of the rdata up to case (exactly, in a case sensitive context).
\<close>

datatype wire_field = Verbatim "u8 list" | Compressible "label list"

fun fields_at :: "bool \<Rightarrow> wire_field list \<Rightarrow> mem \<Rightarrow> nat \<Rightarrow> nat \<Rightarrow> bool" where
  "fields_at cs [] msg p q \<longleftrightarrow> q = p"
| "fields_at cs (Verbatim bs # fs) msg p q \<longleftrightarrow>
     p + length bs \<le> length msg \<and> take (length bs) (drop p msg) = bs \<and> fields_at cs fs msg (p + length bs) q"
| "fields_at cs (Compressible ls # fs) msg p q \<longleftrightarrow>
     (\<exists>ls' u. decodes msg (length msg) p p ls' u \<and> same_name cs ls' ls \<and> fields_at cs fs msg (p + u) q)"

text \<open>
  The fields of each type.  The names of NS, CNAME, PTR, MX and SOA may be compressed; SRV, DNAME and RRSIG,
  like the types without names, go to the wire as they are.
\<close>

definition legal :: "label list \<Rightarrow> bool" where
  "legal ls \<longleftrightarrow> wf_labels ls \<and> abs_labels ls"

definition fields_of :: "dns_rdata \<Rightarrow> wire_field list \<Rightarrow> bool" where
  "fields_of x fs \<longleftrightarrow>
     (if rd_type x \<in> {2, 5, 12} then \<exists>ls. legal ls \<and> rd_bytes x = name_wire ls \<and> fs = [Compressible ls]
      else if rd_type x = 15
      then \<exists>p ls. length p = 2 \<and> legal ls \<and> rd_bytes x = p @ name_wire ls \<and> fs = [Verbatim p, Compressible ls]
      else if rd_type x = 6
      then \<exists>m r n. legal m \<and> legal r \<and> length n = 20 \<and> rd_bytes x = name_wire m @ name_wire r @ n \<and>
             fs = [Compressible m, Compressible r, Verbatim n]
      else fs = [Verbatim (rd_bytes x)])"

lemma fields_at_append: "fields_at cs (fs @ gs) msg p q \<longleftrightarrow> (\<exists>r. fields_at cs fs msg p r \<and> fields_at cs gs msg r q)"
  by (induction cs fs msg p q rule: fields_at.induct) auto

lemma fields_at_verbatim: "fields_at cs [Verbatim (as @ bs)] msg p q \<longleftrightarrow> fields_at cs [Verbatim as, Verbatim bs] msg p q"
  by (auto simp: take_add add.commute add.left_commute)

text \<open>
  A function that writes the fields \<open>fs\<close>, in contexts with \<open>K\<close>; they stay there when the message grows.
\<close>

definition emits :: "(dns_compress \<Rightarrow> bool) \<Rightarrow> (dns_compress \<Rightarrow> isc_buffer \<Rightarrow> towire_result) \<Rightarrow> wire_field list \<Rightarrow> bool" where
  "emits K f fs \<longleftrightarrow> (\<forall>c t ns c' t'. writes_ok (c, t) ns \<and> b_length t < 65536 \<and> K c \<and> f c t = Some (ISC_R_SUCCESS, c', t') \<longrightarrow>
     (\<exists>bs ns'. t' = appended t bs \<and> b_used t + length bs \<le> b_length t \<and> writes_ok (c', t') ns' \<and> K c' \<and>
        sensitive c' = sensitive c \<and> (\<forall>more. fields_at (sensitive c) fs (contents t' @ more) (b_used t) (b_used t'))))"

lemma emitsI:
  assumes "\<And>c t ns c' t'. writes_ok (c, t) ns \<Longrightarrow> b_length t < 65536 \<Longrightarrow> K c \<Longrightarrow> f c t = Some (ISC_R_SUCCESS, c', t') \<Longrightarrow>
     \<exists>bs ns'. t' = appended t bs \<and> b_used t + length bs \<le> b_length t \<and> writes_ok (c', t') ns' \<and> K c' \<and>
        sensitive c' = sensitive c \<and> (\<forall>more. fields_at (sensitive c) fs (contents t' @ more) (b_used t) (b_used t'))"
  shows "emits K f fs"
  using assms unfolding emits_def by blast

lemma emitsE:
  assumes "emits K f fs" "writes_ok (c, t) ns" "b_length t < 65536" "K c" "f c t = Some (ISC_R_SUCCESS, c', t')"
  obtains bs ns' where "t' = appended t bs" "b_used t + length bs \<le> b_length t" "writes_ok (c', t') ns'" "K c'"
    "sensitive c' = sensitive c" "\<forall>more. fields_at (sensitive c) fs (contents t' @ more) (b_used t) (b_used t')"
  using assms unfolding emits_def by blast

lemma emits_bytes:
  assumes "length src = len"
  shows "emits K (mem_tobuffer (src @ rest) len) [Verbatim src]"
proof (rule emitsI)
  fix c t ns c' t' assume a: "writes_ok (c, t) ns" "b_length t < 65536" "K c" "mem_tobuffer (src @ rest) len c t = Some (ISC_R_SUCCESS, c', t')"
  obtain res c1 bs where "mem_tobuffer (src @ rest) len c t = Some (res, c1, appended t bs)" "b_used t + length bs \<le> b_length t"
      "if res = ISC_R_SUCCESS then bs = src else res = ISC_R_NOSPACE \<and> b_length t < b_used t + len"
      "name_writes (\<lambda>_. True) (c, t) (c1, appended t bs)"
    by (rule writerE [OF writer_bytes [OF assms, of "\<lambda>_. True" rest] a(1,2)])
  then have t': "t' = appended t src" "b_used t + length src \<le> b_length t" "name_writes (\<lambda>_. True) (c, t) (c', t')"
    using a(4) by simp_all
  have "c' = c" using a(4) by (auto simp: mem_tobuffer_def split: if_splits bind_splits)
  moreover obtain new where "grown (c, t) ns (c', t') new" using name_writes_grown [OF t'(3) a(1)] by blast
  then have "writes_ok (c', t') (ns @ new)" by (simp add: grown_def)
  moreover have "contents t' = contents t @ src" "length (contents t) = b_used t"
    using appended_ok [of t src] t' a(1) by (simp_all add: writes_ok_def)
  ultimately show "\<exists>bs ns'. t' = appended t bs \<and> b_used t + length bs \<le> b_length t \<and> writes_ok (c', t') ns' \<and> K c' \<and>
      sensitive c' = sensitive c \<and> (\<forall>more. fields_at (sensitive c) [Verbatim src] (contents t' @ more) (b_used t) (b_used t'))"
    using t'(1,2) a(3) by (intro exI [of _ src] exI [of _ "ns @ new"]) simp
qed

lemma towire_success:
  assumes "represents name ls" "abs_labels ls" "writes_ok (c, t) ns" "b_length t < 65536"
    and "dns_name_towire alloc name c t = Some (ISC_R_SUCCESS, c', t')"
  obtains bs new ls' where "t' = appended t bs" "b_used t + length bs \<le> b_length t" "writes_ok (c', t') (ns @ new)"
    "cc_allowed c' = cc_allowed c" "sensitive c' = sensitive c" "contents t' = contents t @ bs" "length (contents t) = b_used t"
    "same_name (sensitive c) ls' ls" "decodes (contents t') (length (contents t')) (b_used t) (b_used t) ls' (length bs)"
proof -
  have ok: "buffer_ok t" "ctx_ok c ns" "msg_ok (sensitive c) (contents t) ns" "b_used t < 65536"
    using assms(3,4) buffer_okD(4) [of t] by (auto simp: writes_ok_def)
  obtain bs new ls' where b: "t' = appended t bs" "b_used t + length bs \<le> b_length t" "ctx_ok c' (ns @ new)" "cc_allowed c' = cc_allowed c"
      "msg_ok (sensitive c) (contents t') (ns @ new)" "same_name (sensitive c) ls' ls"
      "decodes (contents t') (b_used t') (b_used t) (b_used t) ls' (length bs)"
    using towire_ok [OF ok(1-3) assms(1,2) ok(4), of alloc] assms(5) by (auto simp: towire_post_def)
  moreover have "buffer_ok t'" "contents t' = contents t @ bs" using appended_ok [OF ok(1) b(2)] b(1) by simp_all
  moreover have "sensitive c' = sensitive c" using b(4) by (simp add: sensitive_def)
  ultimately show thesis using that [of bs new ls'] ok(1) length_contents [of t'] by (simp add: writes_ok_def)
qed

lemma emits_name:
  assumes "represents name ls" "abs_labels ls"
  shows "emits (\<lambda>_. True) (dns_name_towire alloc name) [Compressible ls]"
proof (rule emitsI)
  fix c t ns c' t' assume a: "writes_ok (c, t) ns" "b_length t < 65536" "dns_name_towire alloc name c t = Some (ISC_R_SUCCESS, c', t')"
  obtain bs new ls' where s: "t' = appended t bs" "b_used t + length bs \<le> b_length t" "writes_ok (c', t') (ns @ new)"
      "sensitive c' = sensitive c" "same_name (sensitive c) ls' ls"
      "decodes (contents t') (length (contents t')) (b_used t) (b_used t) ls' (length bs)"
    by (rule towire_success [OF assms a])
  then have "fields_at (sensitive c) [Compressible ls] (contents t' @ more) (b_used t) (b_used t')" for more
    using decodes_append [OF s(6), of more] by auto
  then show "\<exists>bs ns'. t' = appended t bs \<and> b_used t + length bs \<le> b_length t \<and> writes_ok (c', t') ns' \<and> True \<and>
      sensitive c' = sensitive c \<and> (\<forall>more. fields_at (sensitive c) [Compressible ls] (contents t' @ more) (b_used t) (b_used t'))"
    using s(1-4) by blast
qed

text \<open>Without the method of pointers the name is written as it is.\<close>

definition no_pointers :: "dns_compress \<Rightarrow> bool" where
  "no_pointers c \<longleftrightarrow> cc_allowed c AND DNS_COMPRESS_GLOBAL14 = 0"

lemma emits_plain_name:
  assumes "represents name ls" "abs_labels ls"
  shows "emits no_pointers (dns_name_towire alloc name) [Verbatim (name_wire ls)]"
proof (rule emitsI)
  fix c t ns c' t'
  assume a: "writes_ok (c, t) ns" "b_length t < 65536" "no_pointers c" "dns_name_towire alloc name c t = Some (ISC_R_SUCCESS, c', t')"
  obtain bs new ls' where s: "t' = appended t bs" "b_used t + length bs \<le> b_length t" "writes_ok (c', t') (ns @ new)"
      "cc_allowed c' = cc_allowed c" "sensitive c' = sensitive c" "contents t' = contents t @ bs" "length (contents t) = b_used t"
    by (rule towire_success [OF assms a(1,2,4)])
  have ok: "buffer_ok t" "cc_magic c" using a(1) by (auto simp: writes_ok_def ctx_ok_def)
  have "ls \<noteq> []" using assms(2) by (simp add: abs_labels_def)
  then obtain n where n: "(if nm_offsets name = None then dns_name_clone name (dns_name_init (Some [])) else Some name) = Some n" "represents n ls"
    using clone_represents [OF assms(1)] assms(1) by (cases "nm_offsets name") auto
  have "towire_find c n = Some None"
    using a(3) ok(2) by (simp add: towire_find_def dns_compress_getmethods_def no_pointers_def and.assoc and.left_commute)
  then have "name_bytes alloc name c (b_used t) (b_length t) =
      (if b_length t - b_used t < nm_length n then Some (ISC_R_NOSPACE, c, [])
       else do { c' \<leftarrow> dns_compress_add alloc c n n (b_used t mod 65536); Some (ISC_R_SUCCESS, c', name_wire ls) })"
    using n(1) representsD(3) [OF n(2)] by (simp add: name_bytes_def)
  then have t': "t' = appended t (name_wire ls)"
    using a(4) towire_bytes [OF ok(1) representsD(1) [OF assms(1)], of alloc c] by (auto split: if_splits bind_splits)
  have "b_used t' = b_used t + length bs" unfolding s(1) by simp
  moreover have "b_used t' = b_used t + length (name_wire ls)" unfolding t' by simp
  ultimately have "b_used t + length (name_wire ls) \<le> b_length t" using s(2) by simp
  then have "contents t' = contents t @ name_wire ls" unfolding t' by (rule appended_ok(2) [OF ok(1)])
  then have "bs = name_wire ls" using s(6) by simp
  then show "\<exists>bs ns'. t' = appended t bs \<and> b_used t + length bs \<le> b_length t \<and> writes_ok (c', t') ns' \<and> no_pointers c' \<and>
      sensitive c' = sensitive c \<and> (\<forall>more. fields_at (sensitive c) [Verbatim (name_wire ls)] (contents t' @ more) (b_used t) (b_used t'))"
    using s(2-7) a(3) \<open>b_used t' = b_used t + length bs\<close>
    by (intro exI [of _ bs] exI [of _ "ns @ new"]) (simp add: no_pointers_def t' [symmetric])
qed

lemma emits_reterr:
  assumes "emits K f fs" "emits K g gs"
  shows "emits K (\<lambda>c t. RETERR (f c t) g) (fs @ gs)"
proof (rule emitsI)
  fix c t ns c' t' assume a: "writes_ok (c, t) ns" "b_length t < 65536" "K c" "RETERR (f c t) g = Some (ISC_R_SUCCESS, c', t')"
  then obtain c1 t1 where f: "f c t = Some (ISC_R_SUCCESS, c1, t1)" and g: "g c1 t1 = Some (ISC_R_SUCCESS, c', t')"
    by (auto simp: RETERR_def split: bind_splits if_splits)
  obtain as ns1 where s: "t1 = appended t as" "b_used t + length as \<le> b_length t" "writes_ok (c1, t1) ns1" "K c1"
      "sensitive c1 = sensitive c" "\<forall>more. fields_at (sensitive c) fs (contents t1 @ more) (b_used t) (b_used t1)"
    by (rule emitsE [OF assms(1) a(1-3) f])
  have "b_length t1 < 65536" using s(1) a(2) by simp
  then obtain bs ns2 where r: "t' = appended t1 bs" "b_used t1 + length bs \<le> b_length t1" "writes_ok (c', t') ns2" "K c'"
      "sensitive c' = sensitive c1" "\<forall>more. fields_at (sensitive c1) gs (contents t' @ more) (b_used t1) (b_used t')"
    by (rule emitsE [OF assms(2) s(3) _ s(4) g])
  have fit: "b_used t + length (as @ bs) \<le> b_length t" using r(2) s(1) by simp
  have t': "t' = appended t (as @ bs)"
    using appended_appended [of t as bs] a(1) fit r(1) s(1) by (simp add: writes_ok_def)
  have "contents t' = contents t1 @ bs" using appended_ok(2) [of t1 bs] s(3) r(1,2) by (simp add: writes_ok_def)
  then have "fields_at (sensitive c) (fs @ gs) (contents t' @ more) (b_used t) (b_used t')" for more
    using s(5) spec [OF s(6), of "bs @ more"] spec [OF r(6), of more] unfolding fields_at_append by auto
  then show "\<exists>bs ns'. t' = appended t bs \<and> b_used t + length bs \<le> b_length t \<and> writes_ok (c', t') ns' \<and> K c' \<and>
      sensitive c' = sensitive c \<and> (\<forall>more. fields_at (sensitive c) (fs @ gs) (contents t' @ more) (b_used t) (b_used t'))"
    using t' fit r(3-5) s(5) by metis
qed

lemma emits_methods:
  assumes "emits K f fs" "\<And>c c'. dns_compress_setmethods c methods = Some c' \<Longrightarrow> K c'"
  shows "emits (\<lambda>_. True) (\<lambda>c t. do { c \<leftarrow> dns_compress_setmethods c methods; f c t }) fs"
proof (rule emitsI)
  fix c t ns c' t'
  assume a: "writes_ok (c, t) ns" "b_length t < 65536" "do { c \<leftarrow> dns_compress_setmethods c methods; f c t } = Some (ISC_R_SUCCESS, c', t')"
  have "ctx_ok c ns" using a(1) by (simp add: writes_ok_def)
  then obtain c1 where c1: "dns_compress_setmethods c methods = Some c1" "same_ctx c c1" using setmethods_ok by blast
  then have "f c1 t = Some (ISC_R_SUCCESS, c', t')" using a(3) by simp
  then obtain bs ns' where "t' = appended t bs" "b_used t + length bs \<le> b_length t" "writes_ok (c', t') ns'" "sensitive c' = sensitive c1"
      "\<forall>more. fields_at (sensitive c1) fs (contents t' @ more) (b_used t) (b_used t')"
    by (rule emitsE [OF assms(1) writes_ok_ctx [OF a(1) c1(2)] a(2) assms(2) [OF c1(1)]])
  then show "\<exists>bs ns'. t' = appended t bs \<and> b_used t + length bs \<le> b_length t \<and> writes_ok (c', t') ns' \<and> True \<and>
      sensitive c' = sensitive c \<and> (\<forall>more. fields_at (sensitive c) fs (contents t' @ more) (b_used t) (b_used t'))"
    using same_ctx_ok(2) [OF c1(2)] by auto
qed

lemma emits_methods_any:
  assumes "emits (\<lambda>_. True) f fs"
  shows "emits (\<lambda>_. True) (\<lambda>c t. do { c \<leftarrow> dns_compress_setmethods c methods; f c t }) fs"
  by (rule emits_methods [OF assms]) simp

lemma emits_methods_none:
  assumes "emits no_pointers f fs"
  shows "emits (\<lambda>_. True) (\<lambda>c t. do { c \<leftarrow> dns_compress_setmethods c DNS_COMPRESS_NONE; f c t }) fs"
proof (rule emits_methods [OF assms])
  fix c c' assume "dns_compress_setmethods c DNS_COMPRESS_NONE = Some c'"
  then have "cc_allowed c' = cc_allowed c AND NOT DNS_COMPRESS_ALL"
    by (auto simp: dns_compress_setmethods_def DNS_COMPRESS_NONE_def split: if_splits)
  then show "no_pointers c'"
    by (simp add: no_pointers_def and.assoc DNS_COMPRESS_ALL_def DNS_COMPRESS_GLOBAL14_def)
qed

text \<open>Adjacent bytes are one field.\<close>

lemma emits_weaken:
  assumes "emits K f fs" "\<And>cs msg p q. fields_at cs fs msg p q \<Longrightarrow> fields_at cs gs msg p q"
  shows "emits K f gs"
  using assms unfolding emits_def by meson

lemma emits_verbatim2: "emits K f [Verbatim as, Verbatim bs] \<Longrightarrow> emits K f [Verbatim (as @ bs)]"
  by (erule emits_weaken) (unfold fields_at_verbatim)

lemma emits_verbatim3:
  assumes "emits K f [Verbatim as, Verbatim bs, Verbatim cs]"
  shows "emits K f [Verbatim (as @ bs @ cs)]"
proof (rule emits_weaken [OF assms])
  fix c msg p q assume "fields_at c [Verbatim as, Verbatim bs, Verbatim cs] msg p q"
  then have "fields_at c [Verbatim as, Verbatim (bs @ cs)] msg p q" using fields_at_verbatim [of c bs cs msg "p + length as" q] by simp
  then show "fields_at c [Verbatim (as @ bs @ cs)] msg p q" unfolding fields_at_verbatim .
qed

text \<open>A name at the start of a region.\<close>

lemma legal_region_name:
  assumes "legal ls"
  obtains name where "region_name (name_wire ls @ rest) = Some name" "represents name ls" "abs_labels ls" "nm_length name = length (name_wire ls)"
  using region_name_ok [of ls rest] assms representsD(3) that by (fastforce simp: legal_def)

lemma name_rdata_legal: "name_rdata bs \<longleftrightarrow> (\<exists>ls. legal ls \<and> bs = name_wire ls)"
  by (auto simp: name_rdata_def legal_def)

lemma legal_wire_neq_Nil: "legal ls \<Longrightarrow> name_wire ls \<noteq> []"
  by (auto simp: legal_def abs_labels_def name_wire_def)

text \<open>The parts of well-formed rdata.\<close>

lemma rdata_formD:
  assumes "rdata_form x"
  shows "modelled_type (rd_class x) (rd_type x)" "dns_rdata_toregion x = Some (rd_bytes x)"
    and "rd_type x = 1 \<Longrightarrow> rd_class x = 1 \<Longrightarrow> rd_length x = 4" "rd_type x = 28 \<Longrightarrow> rd_class x = 1 \<Longrightarrow> rd_length x = 16"
    and "rd_type x \<in> {2, 5, 12, 39} \<Longrightarrow> \<exists>ls. legal ls \<and> rd_bytes x = name_wire ls"
    and "rd_type x = 15 \<Longrightarrow> \<exists>p ls. length p = 2 \<and> legal ls \<and> rd_bytes x = p @ name_wire ls"
    and "rd_type x = 33 \<Longrightarrow> rd_class x = 1 \<Longrightarrow> \<exists>p ls. length p = 6 \<and> legal ls \<and> rd_bytes x = p @ name_wire ls"
    and "rd_type x = 46 \<Longrightarrow> \<exists>p ls s. length p = 18 \<and> legal ls \<and> rd_bytes x = p @ name_wire ls @ s"
    and "rd_type x = 6 \<Longrightarrow> \<exists>m r n. legal m \<and> legal r \<and> length n = 20 \<and> rd_bytes x = name_wire m @ name_wire r @ n"
proof -
  note form = assms [unfolded rdata_form_def name_rdata_legal]
  show "modelled_type (rd_class x) (rd_type x)" using form by (rule conjunct1)
  show "dns_rdata_toregion x = Some (rd_bytes x)" using conjunct1 [OF conjunct2 [OF form]] by (simp add: dns_rdata_toregion_def)
  show "rd_type x = 1 \<Longrightarrow> rd_class x = 1 \<Longrightarrow> rd_length x = 4" "rd_type x = 28 \<Longrightarrow> rd_class x = 1 \<Longrightarrow> rd_length x = 16"
    using form by simp_all
  show "rd_type x \<in> {2, 5, 12, 39} \<Longrightarrow> \<exists>ls. legal ls \<and> rd_bytes x = name_wire ls" using form by blast
  show "rd_type x = 15 \<Longrightarrow> \<exists>p ls. length p = 2 \<and> legal ls \<and> rd_bytes x = p @ name_wire ls" using form by blast
  show "rd_type x = 33 \<Longrightarrow> rd_class x = 1 \<Longrightarrow> \<exists>p ls. length p = 6 \<and> legal ls \<and> rd_bytes x = p @ name_wire ls" using form by blast
  show "rd_type x = 46 \<Longrightarrow> \<exists>p ls s. length p = 18 \<and> legal ls \<and> rd_bytes x = p @ name_wire ls @ s" using form by blast
  show "rd_type x = 6 \<Longrightarrow> \<exists>m r n. legal m \<and> legal r \<and> length n = 20 \<and> rd_bytes x = name_wire m @ name_wire r @ n"
    using form by blast
qed

lemma emits_single:
  assumes "dns_rdata_toregion x = Some (name_wire ls)" "rd_length x \<noteq> 0" "legal ls"
  shows "rd_type x = 2 \<Longrightarrow> emits (\<lambda>_. True) (towire_ns alloc x) [Compressible ls]"
    and "rd_type x = 5 \<Longrightarrow> emits (\<lambda>_. True) (towire_cname alloc x) [Compressible ls]"
    and "rd_type x = 12 \<Longrightarrow> emits (\<lambda>_. True) (towire_ptr alloc x) [Compressible ls]"
    and "rd_type x = 39 \<Longrightarrow> emits (\<lambda>_. True) (towire_dname alloc x) [Verbatim (name_wire ls)]"
proof -
  obtain name where n: "region_name (name_wire ls @ []) = Some name" "represents name ls" "abs_labels ls"
    by (rule legal_region_name [OF assms(3), of "[]"])
  note f = towire_ns_def [abs_def] towire_cname_def [abs_def] towire_ptr_def [abs_def] towire_dname_def [abs_def]
  show "rd_type x = 2 \<Longrightarrow> emits (\<lambda>_. True) (towire_ns alloc x) [Compressible ls]"
    "rd_type x = 5 \<Longrightarrow> emits (\<lambda>_. True) (towire_cname alloc x) [Compressible ls]"
    "rd_type x = 12 \<Longrightarrow> emits (\<lambda>_. True) (towire_ptr alloc x) [Compressible ls]"
    "rd_type x = 39 \<Longrightarrow> emits (\<lambda>_. True) (towire_dname alloc x) [Verbatim (name_wire ls)]"
    using emits_methods_any [OF emits_name [OF n(2,3)]] emits_methods_none [OF emits_plain_name [OF n(2,3)]] assms(1,2) n(1)
    by (simp_all add: f)
qed

lemma emits_rdata: "emits K (mem_tobuffer (rd_bytes x) (rd_length x)) [Verbatim (rd_bytes x)]"
  using emits_bytes [of "rd_bytes x" "rd_length x" K "[]"] by (simp add: rd_length_def)

lemma emits_mx:
  assumes "dns_rdata_toregion x = Some (p @ name_wire ls)" "length p = 2" "legal ls" "rd_type x = 15" "rd_length x \<noteq> 0"
  shows "emits (\<lambda>_. True) (towire_mx alloc x) [Verbatim p, Compressible ls]"
proof -
  obtain name where n: "region_name (name_wire ls @ []) = Some name" "represents name ls" "abs_labels ls"
    by (rule legal_region_name [OF assms(3), of "[]"])
  show ?thesis
    using emits_methods_any [OF emits_reterr [OF emits_bytes [OF assms(2)] emits_name [OF n(2,3)]]] assms n(1)
      legal_wire_neq_Nil [OF assms(3)] by (simp add: towire_mx_def [abs_def] isc_region_consume_def)
qed

lemma emits_srv:
  assumes "dns_rdata_toregion x = Some (p @ name_wire ls)" "length p = 6" "legal ls" "rd_type x = 33" "rd_length x \<noteq> 0"
  shows "emits (\<lambda>_. True) (towire_in_srv alloc x) [Verbatim (p @ name_wire ls)]"
proof -
  obtain name where n: "region_name (name_wire ls @ []) = Some name" "represents name ls" "abs_labels ls"
    by (rule legal_region_name [OF assms(3), of "[]"])
  show ?thesis
    using emits_methods_none [OF emits_reterr [OF emits_bytes [OF assms(2)] emits_plain_name [OF n(2,3)]]] assms n(1)
      legal_wire_neq_Nil [OF assms(3)]
    by (intro emits_verbatim2) (simp add: towire_in_srv_def [abs_def] isc_region_consume_def)
qed

lemma emits_rrsig:
  assumes "dns_rdata_toregion x = Some (p @ name_wire ls @ s)" "length p = 18" "legal ls" "rd_type x = 46" "rd_length x \<noteq> 0"
  shows "emits (\<lambda>_. True) (towire_rrsig alloc x) [Verbatim (p @ name_wire ls @ s)]"
proof -
  obtain name where n: "region_name (name_wire ls @ s) = Some name" "represents name ls" "abs_labels ls" "nm_length name = length (name_wire ls)"
    by (rule legal_region_name [OF assms(3)])
  show ?thesis
    using emits_methods_none [OF emits_reterr [OF emits_bytes [OF assms(2)]
      emits_reterr [OF emits_plain_name [OF n(2,3)] emits_bytes [OF refl, where rest = "[]"]]]] assms n(1,4)
      legal_wire_neq_Nil [OF assms(3)]
    by (intro emits_verbatim3) (simp add: towire_rrsig_def [abs_def] isc_region_consume_def)
qed

lemma emits_soa:
  assumes "dns_rdata_toregion x = Some (name_wire a @ name_wire b @ n)" "rd_length x \<noteq> 0" "legal a" "legal b" "length n = 20" "rd_type x = 6"
  shows "emits (\<lambda>_. True) (towire_soa alloc x) [Compressible a, Compressible b, Verbatim n]"
proof -
  obtain mname where m: "region_name (name_wire a @ name_wire b @ n) = Some mname" "represents mname a" "abs_labels a" "nm_length mname = length (name_wire a)"
    by (rule legal_region_name [OF assms(3)])
  obtain rname where r: "region_name (name_wire b @ n) = Some rname" "represents rname b" "abs_labels b" "nm_length rname = length (name_wire b)"
    by (rule legal_region_name [OF assms(4)])
  show ?thesis
    using emits_methods_any [OF emits_reterr [OF emits_name [OF m(2,3)] emits_reterr [OF emits_name [OF r(2,3)] emits_bytes [OF assms(5), where rest = "[]"]]]]
      assms m(1,4) r(1,4) by (simp add: towire_soa_def [abs_def] isc_region_consume_def)
qed

lemma rdata_emits:
  assumes "rdata_form x" "known_switch other alloc (rd_class x) (rd_type x) = Some f"
  shows "\<exists>fs. fields_of x fs \<and> emits (\<lambda>_. True) (f x) fs"
proof -
  note r = rdata_formD [OF assms(1)]
  have nonempty: "legal ls \<Longrightarrow> rd_bytes x = p @ name_wire ls @ q \<Longrightarrow> rd_length x \<noteq> 0" for p ls q
    using legal_wire_neq_Nil by (simp add: rd_length_def)
  consider (single) "rd_type x \<in> {2, 5, 12, 39}" | (mx) "rd_type x = 15" | (soa) "rd_type x = 6"
    | (srv) "rd_type x = 33" "rd_class x = 1" | (rrsig) "rd_type x = 46" | (strings) "rd_type x = 16"
    | (a) "rd_type x = 1" "rd_class x = 1" | (aaaa) "rd_type x = 28" "rd_class x = 1"
    using r(1) unfolding modelled_type_def by blast
  then show ?thesis
  proof cases
    case single
    then obtain ls where ls: "legal ls" "rd_bytes x = name_wire ls" using r(5) by blast
    have "rd_length x \<noteq> 0" using nonempty [OF ls(1), of "[]" "[]"] ls(2) by simp
    note e = emits_single [OF r(2) [unfolded ls(2)] this ls(1), of alloc]
    show ?thesis using single e ls assms(2) by (auto simp: fields_of_def known_switch_def)
  next
    case mx
    then obtain p ls where ls: "length p = 2" "legal ls" "rd_bytes x = p @ name_wire ls" using r(6) by blast
    then have "emits (\<lambda>_. True) (towire_mx alloc x) [Verbatim p, Compressible ls]"
      using emits_mx r(2) mx nonempty [of ls p "[]"] by simp
    moreover have "f = towire_mx alloc" "fields_of x [Verbatim p, Compressible ls]"
      using mx assms(2) ls by (simp add: known_switch_def, auto simp: fields_of_def)
    ultimately show ?thesis by blast
  next
    case soa
    then obtain m r n where s: "legal m" "legal r" "length n = 20" "rd_bytes x = name_wire m @ name_wire r @ n" using r(9) by blast
    then have "emits (\<lambda>_. True) (towire_soa alloc x) [Compressible m, Compressible r, Verbatim n]"
      using emits_soa rdata_formD(2) [OF assms(1)] soa nonempty [of m "[]"] by simp
    moreover have "f = towire_soa alloc" "fields_of x [Compressible m, Compressible r, Verbatim n]"
      using soa assms(2) s by (simp add: known_switch_def, auto simp: fields_of_def)
    ultimately show ?thesis by blast
  next
    case srv
    then obtain p ls where ls: "length p = 6" "legal ls" "rd_bytes x = p @ name_wire ls" using r(7) by blast
    then have "emits (\<lambda>_. True) (towire_in_srv alloc x) [Verbatim (rd_bytes x)]"
      using emits_srv r(2) srv nonempty [of ls p "[]"] by simp
    then show ?thesis using srv assms(2) by (simp add: known_switch_def fields_of_def)
  next
    case rrsig
    then obtain p ls s where ls: "length p = 18" "legal ls" "rd_bytes x = p @ name_wire ls @ s" using r(8) by blast
    then have "emits (\<lambda>_. True) (towire_rrsig alloc x) [Verbatim (rd_bytes x)]"
      using emits_rrsig r(2) rrsig nonempty [of ls p s] by simp
    then show ?thesis using rrsig assms(2) by (simp add: known_switch_def fields_of_def)
  next
    case strings
    then show ?thesis using emits_rdata [where x = x] assms(2) by (auto simp: known_switch_def fields_of_def towire_txt_def [abs_def])
  next
    case a
    then show ?thesis using emits_rdata [where x = x] r(3) assms(2) by (auto simp: known_switch_def fields_of_def towire_in_a_def [abs_def])
  next
    case aaaa
    then show ?thesis using emits_rdata [where x = x] r(4) assms(2) by (auto simp: known_switch_def fields_of_def towire_in_aaaa_def [abs_def])
  qed
qed

lemma rdata_fields:
  assumes "rdata_form x" "writes_ok (c, t) ns" "b_length t < 65536"
    and "dns_rdata_towire (known_switch other alloc) x c t = Some (ISC_R_SUCCESS, c', t')"
  shows "\<exists>fs. fields_of x fs \<and> (\<forall>more. fields_at (sensitive c) fs (contents t' @ more) (b_used t) (b_used t'))"
proof -
  have "rd_flags x AND DNS_RDATA_UPDATE = 0" using assms(1) unfolding rdata_form_def by blast
  moreover obtain f where s: "known_switch other alloc (rd_class x) (rd_type x) = Some f"
    using known_switch_defined [OF rdata_formD(1) [OF assms(1)], of other alloc] by blast
  ultimately have f: "f x c t = Some (ISC_R_SUCCESS, c', t')"
    using assms(4) by (auto simp: dns_rdata_towire_def split: bind_splits if_splits)
  obtain fs where "fields_of x fs" "emits (\<lambda>_. True) (f x) fs" using rdata_emits [OF assms(1) s] by blast
  moreover from emitsE [OF this(2) assms(2,3) _ f]
  have "\<forall>more. fields_at (sensitive c) fs (contents t' @ more) (b_used t) (b_used t')" by blast
  ultimately show ?thesis by blast
qed

section \<open>Property of rdata on the wire\<close>

text \<open>
  C38: For A, AAAA and SRV records of class IN and NS, CNAME, SOA, PTR, MX, TXT, DNAME and RRSIG records in
  their internal form, whatever the generated switch does for other types: \<open>dns_rdata_towire\<close> appends at
  most as many bytes as the rdata has, and these, alone or with more of the message behind them, read as
  the fields of the rdata.  A, AAAA, TXT, SRV, DNAME and RRSIG are there byte for byte; the names of NS,
  CNAME, PTR, MX and SOA, possibly compressed, decode to the names of the rdata, up to case unless the
  context is case sensitive, and their other fields are there byte for byte.  Or there is no room for the
  rdata, the result is NOSPACE, the target holds what it held before and the compression context is the
  one before, but for the methods that are allowed.
\<close>

theorem rdata_towire_correct:
  assumes "rdata_form x" "writes_ok (c, t) ns" "b_length t < 65536"
  shows "(\<exists>c' bs. dns_rdata_towire (known_switch other alloc) x c t = Some (ISC_R_SUCCESS, c', appended t bs) \<and>
      length bs \<le> rd_length x \<and> (\<exists>ns'. writes_ok (c', appended t bs) ns') \<and>
      (\<exists>fs. fields_of x fs \<and>
        (\<forall>more. fields_at (sensitive c) fs (contents t @ bs @ more) (b_used t) (b_used t + length bs)))) \<or>
    (\<exists>c' t'. dns_rdata_towire (known_switch other alloc) x c t = Some (ISC_R_NOSPACE, c', t') \<and>
      b_length t < b_used t + rd_length x \<and> contents t' = contents t \<and> same_ctx c c')"
proof -
  from known_renderer.rdata_towire_ok [OF assms, of other alloc] show ?thesis
  proof (elim disjE exE conjE)
    fix c' bs
    assume a: "\<forall>t0 ns0. writes_ok (c, t0) ns0 \<and> b_used t0 = b_used t \<and> b_length t0 = b_length t \<longrightarrow>
        dns_rdata_towire (known_switch other alloc) x c t0 = Some (ISC_R_SUCCESS, c', appended t0 bs) \<and>
        name_writes alloc (c, t0) (c', appended t0 bs)"
      and b: "length bs \<le> rd_length x" "b_used t + length bs \<le> b_length t"
    from a assms(2) have r: "dns_rdata_towire (known_switch other alloc) x c t = Some (ISC_R_SUCCESS, c', appended t bs)"
        "name_writes alloc (c, t) (c', appended t bs)" by blast+
    obtain new where "grown (c, t) ns (c', appended t bs) new" using name_writes_grown [OF r(2) assms(2)] by blast
    then have "writes_ok (c', appended t bs) (ns @ new)" by (simp add: grown_def)
    moreover have "contents (appended t bs) = contents t @ bs" using appended_ok(2) [of t bs] assms(2) b(2) by (simp add: writes_ok_def)
    ultimately show ?thesis using rdata_fields [OF assms r(1)] r(1) b by auto
  qed blast
qed

text \<open>A mail exchanger at the start of a message: preference 10, host \<open>a.\<close>\<close>

definition ex_mx :: dns_rdata where
  "ex_mx = \<lparr>rd_data = Some [0, 10, 1, 97, 0], rd_class = 1, rd_type = 15, rd_flags = 0\<rparr>"

lemma ex_mx_form: "rdata_form ex_mx"
proof -
  have "name_rdata [1, 97, 0]"
    unfolding name_rdata_def
    by (rule exI [of _ "[[97], []]"]) (simp add: wf_labels_def abs_labels_def name_wire_def enc_label_def DNS_NAME_MAXWIRE_def)
  then have "\<exists>p n. length p = 2 \<and> name_rdata n \<and> rd_bytes ex_mx = p @ n"
    by (intro exI [of _ "[0, 10]"] exI [of _ "[1, 97, 0]"]) (simp add: ex_mx_def rd_bytes_def)
  then show ?thesis by (simp add: ex_mx_def rdata_form_def modelled_type_def)
qed

theorem rdata_towire_correct_witness:
  "(\<exists>c' bs. dns_rdata_towire (known_switch (\<lambda>_ _. None) (\<lambda>_. True)) ex_mx (dns_compress_init 0) ex_message =
      Some (ISC_R_SUCCESS, c', appended ex_message bs) \<and>
      (\<exists>p ls. [0, 10, 1, 97, 0] = p @ name_wire ls \<and> length p = 2 \<and>
        fields_at False [Verbatim p, Compressible ls] (contents ex_message @ bs) (b_used ex_message) (b_used ex_message + length bs))) \<and>
   rdata_form ex_mx"
proof -
  have len: "rd_length ex_mx = 5" "rd_type ex_mx = 15" "rd_bytes ex_mx = [0, 10, 1, 97, 0]"
    by (simp_all add: ex_mx_def rd_length_def rd_bytes_def)
  have w: "writes_ok (dns_compress_init 0, ex_message) []" by (simp add: writes_ok_def init_ok ex_message_ok)
  have s: "sensitive (dns_compress_init 0) = False" by (simp add: sensitive_def dns_compress_init_def)
  have "b_length ex_message < 65536" by (simp add: ex_message_ok)
  from rdata_towire_correct [OF ex_mx_form w this, of "\<lambda>_ _. None" "\<lambda>_. True", unfolded s len]
  show ?thesis
  proof (elim disjE exE conjE)
    fix c' bs fs
    assume r: "dns_rdata_towire (known_switch (\<lambda>_ _. None) (\<lambda>_. True)) ex_mx (dns_compress_init 0) ex_message =
        Some (ISC_R_SUCCESS, c', appended ex_message bs)"
      and f: "fields_of ex_mx fs" "\<forall>more. fields_at False fs (contents ex_message @ bs @ more) (b_used ex_message) (b_used ex_message + length bs)"
    obtain p ls where "length p = 2" "[0, 10, 1, 97, 0] = p @ name_wire ls" "fs = [Verbatim p, Compressible ls]"
      using f(1) len by (auto simp: fields_of_def)
    then show ?thesis using r spec [OF f(2), of "[]", unfolded append_Nil2] ex_mx_form by metis
  qed (simp add: ex_message_ok)
qed

end
