(* ===== verification/Towire.thy ===== *)
theory Towire
  imports Rdata_Wire Slab_Cursor
begin

text \<open>
  Rendering of an rdataset into a message: \<open>towiresorted\<close> of \<^verbatim>\<open>lib/dns/rdataset.c\<close> and its wrappers, the
  negative cache entries of \<^verbatim>\<open>lib/dns/ncache.c\<close>, and the additional data.

  What comes from outside is in \<open>wire_env\<close>: which nodes of the compression context can be allocated,
  whether the two arrays for more than \<open>MAX_SHUFFLE\<close> rdata can be allocated, the numbers of
  \<open>isc_random_get\<close>, the C library's \<^verbatim>\<open>qsort\<close>, the generated switch and the generated attribute
  \<^verbatim>\<open>DNS_RDATATYPEATTR_DNSSEC\<close> of the types.  \<open>lb\<close> and \<open>m\<close> are the build variant and the memory of the
  slabs, as for the cursor methods.

  Copies of the target (\<open>savedbuffer\<close>, \<open>rrbuffer\<close>, \<open>rdlen\<close>) share its memory: where such a copy is
  written or restored, the memory is passed on explicitly.
\<close>

record wire_env =
  we_alloc :: "nat \<Rightarrow> bool"
  we_getmem :: bool
  we_random :: "nat \<Rightarrow> u32"
  we_qsort :: "(int \<times> nat \<Rightarrow> int \<times> nat \<Rightarrow> int) \<Rightarrow> (int \<times> nat) list \<Rightarrow> (int \<times> nat) list"
  we_switch :: towireswitch
  we_dnssec :: "nat \<Rightarrow> bool"

section \<open>The order of the rdata\<close>

definition MAX_SHUFFLE :: nat where "MAX_SHUFFLE = 32"

definition WANT_FIXED :: "dns_rdataset \<Rightarrow> bool" where
  "WANT_FIXED r \<longleftrightarrow> rs_attributes r AND DNS_RDATASETATTR_FIXEDORDER \<noteq> 0"

definition WANT_RANDOM :: "dns_rdataset \<Rightarrow> bool" where
  "WANT_RANDOM r \<longleftrightarrow> rs_attributes r AND DNS_RDATASETATTR_RANDOMIZE \<noteq> 0"

text \<open>
  An element of \<open>sorted\<close>: the key and the index of the rdata in \<open>shuffled\<close>.  The difference of two
  keys is undefined when it is not an \<open>int\<close>, see \<open>keys_ok\<close>.
\<close>

definition towire_compare :: "int \<times> nat \<Rightarrow> int \<times> nat \<Rightarrow> int" where
  "towire_compare a b = fst a - fst b"

definition keys_ok :: "(int \<times> nat) list \<Rightarrow> bool" where
  "keys_ok keyed = list_all (\<lambda>a. list_all (\<lambda>b. - 2147483648 \<le> towire_compare a b \<and>
     towire_compare a b \<le> 2147483647) keyed) keyed"

definition order_key :: "(dns_rdata \<Rightarrow> int) option \<Rightarrow> dns_rdata \<Rightarrow> int" where
  "order_key order rdata = (case order of Some f \<Rightarrow> f rdata | None \<Rightarrow> 0)"

text \<open>The handles to all of the rdata; \<open>k\<close> of them are still expected.\<close>

fun get_shuffled :: "(dns_rdataset \<Rightarrow> dns_rdata \<Rightarrow> dns_rdata option) \<Rightarrow>
    (dns_rdataset \<Rightarrow> (isc_result \<times> dns_rdataset) option) \<Rightarrow> nat \<Rightarrow> dns_rdata list \<Rightarrow> dns_rdataset \<Rightarrow>
    (isc_result \<times> dns_rdata list \<times> dns_rdataset) option" where
  "get_shuffled current nxt 0 shuffled r = None"
| "get_shuffled current nxt (Suc k) shuffled r =
     do { rdata \<leftarrow> current r dns_rdata_init;
          (result, r') \<leftarrow> nxt r;
          if result = ISC_R_SUCCESS then get_shuffled current nxt k (shuffled @ [rdata]) r'
          else Some (result, shuffled @ [rdata], r') }"

text \<open>\<^emph>\<open>Random\<close> order: an exchange for each index from \<open>i\<close> on.\<close>

fun shuffle_random :: "(nat \<Rightarrow> u32) \<Rightarrow> (dns_rdata \<Rightarrow> int) option \<Rightarrow> nat \<Rightarrow> nat \<Rightarrow> dns_rdata list \<Rightarrow>
    (int \<times> nat) list \<Rightarrow> dns_rdata list \<times> (int \<times> nat) list" where
  "shuffle_random rnd order i 0 shuffled keyed = (shuffled, keyed)"
| "shuffle_random rnd order i (Suc k) shuffled keyed =
     (let choice = i + unat (rnd i) mod Suc k;
          shuffled' = shuffled[i := shuffled ! choice, choice := shuffled ! i]
      in shuffle_random rnd order (i + 1) k shuffled' (keyed @ [(order_key order (shuffled' ! i), i)]))"

text \<open>\<^emph>\<open>Cyclic\<close> order: from \<open>j\<close> on, around the end.\<close>

fun shuffle_cyclic :: "(dns_rdata \<Rightarrow> int) option \<Rightarrow> dns_rdata list \<Rightarrow> nat \<Rightarrow> nat \<Rightarrow> (int \<times> nat) list" where
  "shuffle_cyclic order shuffled j 0 = []"
| "shuffle_cyclic order shuffled j (Suc k) =
     (order_key order (shuffled ! j), j) #
       shuffle_cyclic order shuffled (if j + 1 = length shuffled then 0 else j + 1) k"

definition cyclic_start :: "(nat \<Rightarrow> u32) \<Rightarrow> dns_rdataset \<Rightarrow> nat \<Rightarrow> nat" where
  "cyclic_start rnd r cnt =
     (let val = (if rs_count r = - 1 then rnd 0 else rs_count r) in unat val mod cnt)"

definition shuffle_order :: "wire_env \<Rightarrow> dns_rdataset \<Rightarrow> (dns_rdata \<Rightarrow> int) option \<Rightarrow> dns_rdata list \<Rightarrow>
    dns_rdata list option" where
  "shuffle_order env r order shuffled =
     (let cnt = length shuffled;
          (shuffled, keyed) =
            (if WANT_FIXED r then (shuffled, map (\<lambda>i. (order_key order (shuffled ! i), i)) [0..<cnt])
             else if WANT_RANDOM r then shuffle_random (we_random env) order 0 cnt shuffled []
             else (shuffled, shuffle_cyclic order shuffled (cyclic_start (we_random env) r cnt) cnt))
      in if order = None
         then if WANT_FIXED r then None else Some (map (\<lambda>(key, i). shuffled ! i) keyed)
         else if keys_ok keyed then Some (map (\<lambda>(key, i). shuffled ! i) (we_qsort env towire_compare keyed))
         else None)"

section \<open>One resource record\<close>

text \<open>The owner name, type and class; the TTL and room for the length of the rdata except in a question.\<close>

definition rr_head :: "wire_env \<Rightarrow> bool \<Rightarrow> dns_name \<Rightarrow> nat \<Rightarrow> nat \<Rightarrow> nat \<Rightarrow> dns_compress \<Rightarrow> isc_buffer \<Rightarrow> towire_result" where
  "rr_head env question owner_name type rdclass ttl cctx target =
     do { cctx \<leftarrow> dns_compress_setmethods cctx DNS_COMPRESS_GLOBAL14;
          (result, cctx, target) \<leftarrow> dns_name_towire (we_alloc env) owner_name cctx target;
          if result \<noteq> ISC_R_SUCCESS then Some (result, cctx, target)
          else do { let headlen = 2 + 2 + (if question then 0 else 4 + 2);
                    r \<leftarrow> isc_buffer_availableregion target;
                    if length r < headlen then Some (ISC_R_NOSPACE, cctx, target)
                    else do { target \<leftarrow> isc_buffer_putuint16 target type;
                              target \<leftarrow> isc_buffer_putuint16 target rdclass;
                              target \<leftarrow> (if question then Some target else isc_buffer_putuint32 target ttl);
                              Some (ISC_R_SUCCESS, cctx, target) } } }"

text \<open>The rdata, behind its length, which is known at the end.\<close>

definition rr_data :: "wire_env \<Rightarrow> dns_rdata \<Rightarrow> dns_compress \<Rightarrow> isc_buffer \<Rightarrow> towire_result" where
  "rr_data env rdata cctx target =
     do { let rdlen = target;
          target \<leftarrow> isc_buffer_add target 2;
          (result, cctx, target) \<leftarrow> dns_rdata_towire (we_switch env) rdata cctx target;
          if result \<noteq> ISC_R_SUCCESS then Some (result, cctx, target)
          else if u32_of (b_used rdlen + 2) \<le> b_used target \<and>
                  u32_sub (u32_sub (b_used target) (b_used rdlen)) 2 < 65536
          then do { rdlen \<leftarrow> isc_buffer_putuint16 (rdlen\<lparr>b_base := b_base target\<rparr>)
                      (u32_sub (u32_sub (b_used target) (b_used rdlen)) 2 mod 65536);
                    Some (ISC_R_SUCCESS, cctx, target\<lparr>b_base := b_base rdlen\<rparr>) }
          else None }"

section \<open>The records of an rdataset\<close>

text \<open>
  The loop that writes the records.  \<open>order\<close> holds the shuffled rdata, if they are shuffled; \<open>i\<close> is
  the index in them.  The result has the result code at the end of the loop, the target at the
  beginning of the last round (\<open>rrbuffer\<close>) and the number of records written.
\<close>

record wire_state =
  ws_rdata :: dns_rdata
  ws_rdataset :: dns_rdataset
  ws_added :: nat
  ws_cctx :: dns_compress
  ws_target :: isc_buffer

definition towire_round :: "wire_env \<Rightarrow> bool \<Rightarrow> mem \<Rightarrow> bool \<Rightarrow> dns_rdata list option \<Rightarrow> dns_name \<Rightarrow> nat \<Rightarrow>
    wire_state \<Rightarrow> (isc_result \<times> wire_state) option" where
  "towire_round env lb m question order owner_name i s =
     do { let r = ws_rdataset s;
          (result, cctx, target) \<leftarrow>
            rr_head env question owner_name (rs_type r) (rs_class r) (rs_ttl r) (ws_cctx s) (ws_target s);
          let s = s\<lparr>ws_cctx := cctx, ws_target := target\<rparr>;
          if result \<noteq> ISC_R_SUCCESS then Some (result, s)
          else if question then Some (ISC_R_SUCCESS, s)
          else do { rdata \<leftarrow> (case order of
                                Some xs \<Rightarrow> if i < length xs then Some (xs ! i) else None
                              | None \<Rightarrow> do { rdata \<leftarrow> dns_rdata_reset (ws_rdata s);
                                            dns_rdataset_current lb m r rdata });
                    (result, cctx, target) \<leftarrow> rr_data env rdata cctx target;
                    let s = s\<lparr>ws_rdata := rdata, ws_cctx := cctx, ws_target := target\<rparr>;
                    Some (result, if result = ISC_R_SUCCESS then s\<lparr>ws_added := ws_added s + 1\<rparr> else s) } }"

definition towire_advance :: "bool \<Rightarrow> mem \<Rightarrow> dns_rdata list option \<Rightarrow> nat \<Rightarrow> dns_rdataset \<Rightarrow>
    (isc_result \<times> dns_rdataset) option" where
  "towire_advance lb m order i r =
     (case order of
        Some xs \<Rightarrow> Some (if i + 1 = length xs then ISC_R_NOMORE else ISC_R_SUCCESS, r)
      | None \<Rightarrow> dns_rdataset_next lb m r)"

partial_function (option) towire_loop :: "wire_env \<Rightarrow> bool \<Rightarrow> mem \<Rightarrow> bool \<Rightarrow> dns_rdata list option \<Rightarrow> dns_name \<Rightarrow> nat \<Rightarrow>
    wire_state \<Rightarrow> (isc_result \<times> isc_buffer \<times> wire_state) option" where
  "towire_loop env lb m question order owner_name i s =
     do { let rrbuffer = ws_target s;
          (result, s) \<leftarrow> towire_round env lb m question order owner_name i s;
          if result \<noteq> ISC_R_SUCCESS then Some (result, rrbuffer, s)
          else do { (result, r) \<leftarrow> towire_advance lb m order i (ws_rdataset s);
                    let s = s\<lparr>ws_rdataset := r\<rparr>;
                    if result = ISC_R_SUCCESS
                    then towire_loop env lb m question order owner_name (i + 1) s
                    else Some (result, rrbuffer, s) } }"

text \<open>
  The end of the loop: success, or the rollback to the last whole record, or to the beginning.  The
  result has the result code, the context, the target and \<open>*countp\<close>.
\<close>

definition towire_end :: "bool \<Rightarrow> nat \<Rightarrow> nat \<Rightarrow> isc_buffer \<Rightarrow> isc_result \<times> isc_buffer \<times> wire_state \<Rightarrow>
    (isc_result \<times> dns_rdataset \<times> dns_compress \<times> isc_buffer \<times> nat) option" where
  "towire_end part cnt countp savedbuffer = (\<lambda>(result, rrbuffer, s).
     let base = b_base (ws_target s)
     in if result = ISC_R_NOMORE
        then Some (ISC_R_SUCCESS, ws_rdataset s, ws_cctx s, ws_target s, countp + cnt)
        else if part \<and> result = ISC_R_NOSPACE
        then if b_used rrbuffer < 65536
             then do { cctx \<leftarrow> dns_compress_rollback (ws_cctx s) (b_used rrbuffer);
                       Some (result, ws_rdataset s, cctx, rrbuffer\<lparr>b_base := base\<rparr>, countp + ws_added s) }
             else None
        else if b_used savedbuffer < 65536
        then do { cctx \<leftarrow> dns_compress_rollback (ws_cctx s) (b_used savedbuffer);
                  Some (result, ws_rdataset s, cctx, savedbuffer\<lparr>b_base := base\<rparr>, 0) }
        else None)"

text \<open>The records of an rdataset that has \<open>cnt\<close> of them, with the cursor on the first one.\<close>

definition towire_records :: "wire_env \<Rightarrow> bool \<Rightarrow> mem \<Rightarrow> bool \<Rightarrow> nat \<Rightarrow> dns_rdataset \<Rightarrow> dns_name \<Rightarrow> dns_compress \<Rightarrow>
    isc_buffer \<Rightarrow> (dns_rdata \<Rightarrow> int) option \<Rightarrow> bool \<Rightarrow> nat \<Rightarrow>
    (isc_result \<times> dns_rdataset \<times> dns_compress \<times> isc_buffer \<times> nat) option" where
  "towire_records env lb m question cnt r owner_name cctx target order part countp =
     do { let shuffle = (\<not> question \<and> cnt > 1 \<and> (\<not> WANT_FIXED r \<or> order \<noteq> None) \<and>
                         rs_type r \<noteq> dns_rdatatype_rrsig \<and> (cnt > MAX_SHUFFLE \<longrightarrow> we_getmem env));
          let start = (\<lambda>r. \<lparr>ws_rdata = dns_rdata_init, ws_rdataset = r, ws_added = 0, ws_cctx = cctx, ws_target = target\<rparr>);
          if shuffle
          then do { (result, shuffled, r) \<leftarrow>
                      get_shuffled (dns_rdataset_current lb m) (dns_rdataset_next lb m) cnt [] r;
                    if result \<noteq> ISC_R_NOMORE then Some (result, r, cctx, target, countp)
                    else if length shuffled = cnt
                    then do { xs \<leftarrow> shuffle_order env r order shuffled;
                              l \<leftarrow> towire_loop env lb m question (Some xs) owner_name 0 (start r);
                              towire_end part cnt countp target l }
                    else None }
          else do { l \<leftarrow> towire_loop env lb m question None owner_name 0 (start r);
                    towire_end part cnt countp target l } }"

section \<open>Negative cache entries\<close>

definition DNS_RDATASETTOWIRE_OMITDNSSEC :: u32 where "DNS_RDATASETTOWIRE_OMITDNSSEC = 1"
definition DNS_NCACHETOWIRE_OMITDNSSEC :: u32 where "DNS_NCACHETOWIRE_OMITDNSSEC = 1"

text \<open>The rdata of one entry, \<open>k\<close> of which are left; the last component is the number written.\<close>

fun ncache_rdatas :: "wire_env \<Rightarrow> u32 \<Rightarrow> dns_name \<Rightarrow> nat \<Rightarrow> nat \<Rightarrow> nat \<Rightarrow> nat \<Rightarrow> isc_buffer \<Rightarrow> dns_compress \<Rightarrow>
    isc_buffer \<Rightarrow> nat \<Rightarrow> (isc_result \<times> isc_buffer \<times> dns_compress \<times> isc_buffer \<times> nat) option" where
  "ncache_rdatas env options name type rdclass ttl 0 source cctx target cnt =
     Some (ISC_R_SUCCESS, source, cctx, target, cnt)"
| "ncache_rdatas env options name type rdclass ttl (Suc k) source cctx target cnt =
     do { remaining \<leftarrow> isc_buffer_remainingregion source;
          if length remaining \<ge> 2
          then do { (len, source) \<leftarrow> isc_buffer_getuint16 source;
                    remaining \<leftarrow> isc_buffer_remainingregion source;
                    if length remaining \<ge> len
                    then do { let rdata = \<lparr>rd_data = Some (take len remaining), rd_class = rdclass, rd_type = type, rd_flags = 0\<rparr>;
                              source \<leftarrow> isc_buffer_forward source len;
                              if options AND DNS_NCACHETOWIRE_OMITDNSSEC \<noteq> 0 \<and> we_dnssec env type
                              then ncache_rdatas env options name type rdclass ttl k source cctx target cnt
                              else do { (result, cctx, target) \<leftarrow> rr_head env False name type rdclass ttl cctx target;
                                        if result \<noteq> ISC_R_SUCCESS then Some (result, source, cctx, target, cnt)
                                        else do { (result, cctx, target) \<leftarrow> rr_data env rdata cctx target;
                                                  if result \<noteq> ISC_R_SUCCESS
                                                  then Some (result, source, cctx, target, cnt)
                                                  else ncache_rdatas env options name type rdclass ttl k source cctx target
                                                         (cnt + 1) } } }
                    else None }
          else None }"

text \<open>One entry: the owner name, the type, a byte of trust, the number of rdata and the rdata.\<close>

definition ncache_entry :: "wire_env \<Rightarrow> u32 \<Rightarrow> dns_rdataset \<Rightarrow> dns_rdata \<Rightarrow> dns_compress \<Rightarrow> isc_buffer \<Rightarrow> nat \<Rightarrow>
    (isc_result \<times> dns_compress \<times> isc_buffer \<times> nat) option" where
  "ncache_entry env options r rdata cctx target cnt =
     do { source \<leftarrow> isc_buffer_add (isc_buffer_init (rd_bytes rdata) (rd_length rdata)) (rd_length rdata);
          remaining \<leftarrow> isc_buffer_remainingregion source;
          name \<leftarrow> dns_name_fromregion (dns_name_init None) remaining;
          if length remaining \<ge> nm_length name
          then do { source \<leftarrow> isc_buffer_forward source (nm_length name);
                    if length remaining - nm_length name \<ge> 5
                    then do { (type, source) \<leftarrow> isc_buffer_getuint16 source;
                              source \<leftarrow> isc_buffer_forward source 1;
                              (rcount, source) \<leftarrow> isc_buffer_getuint16 source;
                              (result, source, cctx, target, cnt) \<leftarrow>
                                ncache_rdatas env options name type (rs_class r) (rs_ttl r) rcount source cctx target cnt;
                              if result = ISC_R_SUCCESS \<and> isc_buffer_remaininglength source \<noteq> 0 then None
                              else Some (result, cctx, target, cnt) }
                    else None }
          else None }"

partial_function (option) ncache_loop :: "wire_env \<Rightarrow> bool \<Rightarrow> mem \<Rightarrow> u32 \<Rightarrow> isc_result \<Rightarrow> dns_rdataset \<Rightarrow>
    dns_compress \<Rightarrow> isc_buffer \<Rightarrow> nat \<Rightarrow> (isc_result \<times> dns_rdataset \<times> dns_compress \<times> isc_buffer \<times> nat) option" where
  "ncache_loop env lb m options result r cctx target cnt =
     (if result \<noteq> ISC_R_SUCCESS then Some (result, r, cctx, target, cnt)
      else do { rdata \<leftarrow> dns_rdataset_current lb m r dns_rdata_init;
                (result, cctx, target, cnt) \<leftarrow> ncache_entry env options r rdata cctx target cnt;
                if result \<noteq> ISC_R_SUCCESS then Some (result, r, cctx, target, cnt)
                else do { (result, r) \<leftarrow> dns_rdataset_next lb m r;
                          ncache_loop env lb m options result r cctx target cnt } })"

definition dns_ncache_towire :: "wire_env \<Rightarrow> bool \<Rightarrow> mem \<Rightarrow> dns_rdataset \<Rightarrow> dns_compress \<Rightarrow> isc_buffer \<Rightarrow> u32 \<Rightarrow> nat \<Rightarrow>
    (isc_result \<times> dns_rdataset \<times> dns_compress \<times> isc_buffer \<times> nat) option" where
  "dns_ncache_towire env lb m r cctx target options countp =
     (if rs_type r = 0 \<and> rs_attributes r AND DNS_RDATASETATTR_NEGATIVE \<noteq> 0
      then do { (result, r) \<leftarrow> dns_rdataset_first lb m r;
                (result, r, cctx, t, cnt) \<leftarrow> ncache_loop env lb m options result r cctx target 0;
                if result = ISC_R_NOMORE then Some (ISC_R_SUCCESS, r, cctx, t, cnt)
                else if b_used target < 65536
                then do { cctx \<leftarrow> dns_compress_rollback cctx (b_used target);
                          Some (result, r, cctx, target\<lparr>b_base := b_base t\<rparr>, 0) }
                else None }
      else None)"

section \<open>Rdatasets\<close>

definition towiresorted :: "wire_env \<Rightarrow> bool \<Rightarrow> mem \<Rightarrow> dns_rdataset \<Rightarrow> dns_name \<Rightarrow> dns_compress \<Rightarrow> isc_buffer \<Rightarrow>
    (dns_rdata \<Rightarrow> int) option \<Rightarrow> bool \<Rightarrow> u32 \<Rightarrow> nat \<Rightarrow>
    (isc_result \<times> dns_rdataset \<times> dns_compress \<times> isc_buffer \<times> nat) option" where
  "towiresorted env lb m r owner_name cctx target order part options countp =
     (if rs_magic r
      then if rs_attributes r AND DNS_RDATASETATTR_QUESTION \<noteq> 0
           then do { (result, r) \<leftarrow> dns_rdataset_first lb m r;
                     if result = ISC_R_NOMORE
                     then towire_records env lb m True 1 r owner_name cctx target order part countp
                     else None }
           else if rs_attributes r AND DNS_RDATASETATTR_NEGATIVE \<noteq> 0
           then dns_ncache_towire env lb m r cctx target
                  (if options AND DNS_RDATASETTOWIRE_OMITDNSSEC \<noteq> 0 then DNS_NCACHETOWIRE_OMITDNSSEC else 0) countp
           else do { cnt \<leftarrow> dns_rdataset_count lb m r;
                     (result, r) \<leftarrow> dns_rdataset_first lb m r;
                     if result = ISC_R_NOMORE then Some (ISC_R_SUCCESS, r, cctx, target, countp)
                     else if result \<noteq> ISC_R_SUCCESS then Some (result, r, cctx, target, countp)
                     else towire_records env lb m False cnt r owner_name cctx target order part countp }
      else None)"

definition dns_rdataset_towiresorted where
  "dns_rdataset_towiresorted env lb m r owner_name cctx target order options countp =
     towiresorted env lb m r owner_name cctx target order False options countp"

definition dns_rdataset_towirepartial where
  "dns_rdataset_towirepartial env lb m r owner_name cctx target order options countp =
     towiresorted env lb m r owner_name cctx target order True options countp"

definition dns_rdataset_towire where
  "dns_rdataset_towire env lb m r owner_name cctx target options countp =
     towiresorted env lb m r owner_name cctx target None False options countp"

text \<open>
  \<open>add\<close> is what \<open>dns_rdata_additionaldata\<close> does for one rdata with the callback of the caller, whose
  state is threaded through.
\<close>

partial_function (option) additionaldata_loop :: "(dns_rdata \<Rightarrow> 's \<Rightarrow> (isc_result \<times> 's) option) \<Rightarrow> bool \<Rightarrow> mem \<Rightarrow>
    dns_rdataset \<Rightarrow> 's \<Rightarrow> (isc_result \<times> dns_rdataset \<times> 's) option" where
  "additionaldata_loop add lb m r s =
     do { rdata \<leftarrow> dns_rdataset_current lb m r dns_rdata_init;
          (result, s) \<leftarrow> add rdata s;
          if result \<noteq> ISC_R_SUCCESS then Some (result, r, s)
          else do { (result, r) \<leftarrow> dns_rdataset_next lb m r;
                    if result = ISC_R_SUCCESS then additionaldata_loop add lb m r s
                    else Some (result, r, s) } }"

definition dns_rdataset_additionaldata :: "(dns_rdata \<Rightarrow> 's \<Rightarrow> (isc_result \<times> 's) option) \<Rightarrow> bool \<Rightarrow> mem \<Rightarrow>
    dns_rdataset \<Rightarrow> 's \<Rightarrow> (isc_result \<times> dns_rdataset \<times> 's) option" where
  "dns_rdataset_additionaldata add lb m r s =
     (if rs_magic r \<and> rs_attributes r AND DNS_RDATASETATTR_QUESTION = 0
      then do { (result, r) \<leftarrow> dns_rdataset_first lb m r;
                if result \<noteq> ISC_R_SUCCESS then Some (result, r, s)
                else do { (result, r, s) \<leftarrow> additionaldata_loop add lb m r s;
                          Some (if result \<noteq> ISC_R_NOMORE then result else ISC_R_SUCCESS, r, s) } }
      else None)"

section \<open>The order is a permutation\<close>

lemma shuffle_random_ok:
  assumes "i + k = length shuffled"
  shows "\<exists>xs. shuffle_random rnd order i k shuffled keyed =
      (xs, keyed @ map (\<lambda>j. (order_key order (xs ! j), j)) [i..<i + k]) \<and> mset xs = mset shuffled \<and> take i xs = take i shuffled"
  using assms
proof (induction k arbitrary: i shuffled keyed)
  case (Suc k)
  let ?c = "i + unat (rnd i) mod Suc k"
  let ?s = "shuffled[i := shuffled ! ?c, ?c := shuffled ! i]"
  have c: "?c < length shuffled" "i < length shuffled" using Suc.prems mod_less_divisor [of "Suc k" "unat (rnd i)"] by linarith+
  have len: "i + 1 + k = length ?s" using Suc.prems by simp
  obtain xs where xs: "shuffle_random rnd order (i + 1) k ?s (keyed @ [(order_key order (?s ! i), i)]) =
      (xs, (keyed @ [(order_key order (?s ! i), i)]) @ map (\<lambda>j. (order_key order (xs ! j), j)) [i + 1..<i + 1 + k])"
      "mset xs = mset ?s" "take (i + 1) xs = take (i + 1) ?s"
    using Suc.IH [OF len] by blast
  have lx: "length xs = length shuffled" using mset_eq_length [OF xs(2)] by simp
  have "xs ! i = take (i + 1) xs ! i" by simp
  also have "\<dots> = ?s ! i" unfolding xs(3) by simp
  finally have i: "xs ! i = ?s ! i" .
  have upt: "[i..<i + Suc k] = i # [i + 1..<i + 1 + k]" by (simp add: upt_rec)
  have "take i xs = take i (take (i + 1) xs)" by (simp add: min_def)
  also have "\<dots> = take i ?s" unfolding xs(3) by (simp add: min_def)
  also have "\<dots> = take i shuffled" by simp
  finally have t: "take i xs = take i shuffled" .
  have "mset xs = mset shuffled" using xs(2) mset_swap [OF c] by simp
  then show ?case using xs(1) i t upt by (simp add: Let_def)
qed simp

lemma shuffle_cyclic_ok:
  assumes "j < length shuffled"
  shows "shuffle_cyclic order shuffled j k =
    map (\<lambda>q. (order_key order (shuffled ! ((j + q) mod length shuffled)), (j + q) mod length shuffled)) [0..<k]"
  using assms
proof (induction k arbitrary: j)
  case (Suc k)
  let ?n = "length shuffled" and ?j = "if j + 1 = length shuffled then 0 else j + 1"
  have jn: "?j < ?n" using Suc.prems by auto
  have m: "(?j + q) mod ?n = (j + Suc q) mod ?n" for q
  proof (cases "j + 1 = ?n")
    case True
    then have "j + Suc q = ?n + q" by linarith
    then have "(j + Suc q) mod ?n = (?n + q) mod ?n" by (simp only:)
    also have "\<dots> = q mod ?n" by (rule mod_add_self1)
    finally show ?thesis using True by (simp only: simp_thms if_True add_0)
  qed simp
  have tail: "shuffle_cyclic order shuffled ?j k =
      map (\<lambda>q. (order_key order (shuffled ! ((j + Suc q) mod ?n)), (j + Suc q) mod ?n)) [0..<k]"
    using Suc.IH [OF jn] unfolding m .
  have upt: "[0..<Suc k] = 0 # map Suc [0..<k]" by (simp only: map_Suc_upt) (rule upt_conv_Cons, simp)
  show ?case unfolding shuffle_cyclic.simps tail upt using Suc.prems by simp
qed simp

text \<open>The list \<open>keyed\<close> names every rdata once, with its key.\<close>

definition keys_for :: "(dns_rdata \<Rightarrow> int) option \<Rightarrow> dns_rdata list \<Rightarrow> (int \<times> nat) list \<Rightarrow> bool" where
  "keys_for order xs keyed \<longleftrightarrow> mset (map snd keyed) = mset [0..<length xs] \<and>
     (\<forall>(k, i) \<in> set keyed. k = order_key order (xs ! i))"

lemma keys_for_perm:
  assumes "keys_for order xs keyed"
  shows "mset (map (\<lambda>(k, i). xs ! i) keyed) = mset xs"
proof -
  have "map (\<lambda>(k, i). xs ! i) keyed = map ((!) xs) (map snd keyed)" by (simp add: case_prod_beta')
  then have "mset (map (\<lambda>(k, i). xs ! i) keyed) = image_mset ((!) xs) (mset (map snd keyed))" by (metis mset_map)
  also have "\<dots> = mset (map ((!) xs) [0..<length xs])" using assms by (simp add: keys_for_def)
  finally show ?thesis by (simp add: map_nth)
qed

lemma keys_for_mset: "keys_for order xs keyed \<Longrightarrow> mset keyed' = mset keyed \<Longrightarrow> keys_for order xs keyed'"
  unfolding keys_for_def by (metis mset_map mset_eq_setD)

lemma keys_for_all: "keys_for order xs (map (\<lambda>j. (order_key order (xs ! j), j)) [0..<length xs])"
  by (simp add: keys_for_def comp_def)

lemma keys_for_cyclic:
  assumes "j < length xs"
  shows "keys_for order xs (shuffle_cyclic order xs j (length xs))"
    "map (\<lambda>(k, i). xs ! i) (shuffle_cyclic order xs j (length xs)) = rotate j xs"
proof -
  have n: "map snd (shuffle_cyclic order xs j (length xs)) = rotate j [0..<length xs]"
  proof (rule nth_equalityI)
    fix i assume "i < length (map snd (shuffle_cyclic order xs j (length xs)))"
    moreover have "(j + i) mod length xs < length xs" using assms by (intro mod_less_divisor) linarith
    ultimately show "map snd (shuffle_cyclic order xs j (length xs)) ! i = rotate j [0..<length xs] ! i"
      by (simp add: shuffle_cyclic_ok [OF assms] nth_rotate)
  qed (simp add: shuffle_cyclic_ok [OF assms])
  have "mset (rotate j ys) = mset ys" for ys :: "nat list"
    by (metis rotate_drop_take mset_append union_commute append_take_drop_id)
  then show "keys_for order xs (shuffle_cyclic order xs j (length xs))"
    unfolding keys_for_def n by (simp add: shuffle_cyclic_ok [OF assms])
  show "map (\<lambda>(k, i). xs ! i) (shuffle_cyclic order xs j (length xs)) = rotate j xs"
    by (rule nth_equalityI) (simp_all add: shuffle_cyclic_ok [OF assms] nth_rotate)
qed

lemma towire_compare_cmp: "cmp_on towire_compare A"
  by unfold_locales (auto simp: towire_compare_def)

lemma ascending_keys:
  assumes "ascending towire_compare keyed" "keys_for (Some f) xs keyed"
  shows "sorted (map f (map (\<lambda>(k, i). xs ! i) keyed))"
  using assms
proof -
  have eq: "map f (map (\<lambda>(k, i). xs ! i) keyed) = map fst keyed"
    using assms(2) by (auto simp: keys_for_def order_key_def)
  have "ascending towire_compare ks \<Longrightarrow> sorted (map fst ks)" for ks
    by (induction ks) (auto simp: towire_compare_def)
  then show ?thesis unfolding eq using assms(1) by blast
qed

text \<open>Keys that can be subtracted from one another.\<close>

definition order_fits :: "(dns_rdata \<Rightarrow> int) option \<Rightarrow> dns_rdata list \<Rightarrow> bool" where
  "order_fits order xs \<longleftrightarrow> (\<forall>f. order = Some f \<longrightarrow> (\<forall>x \<in> set xs. \<forall>y \<in> set xs. \<bar>f x - f y\<bar> \<le> 2147483647))"

lemma keys_for_fit:
  assumes "keys_for order xs keyed" "order_fits order xs"
  shows "keys_ok keyed"
proof -
  have key: "\<exists>i < length xs. snd a = i \<and> fst a = order_key order (xs ! i)" if "a \<in> set keyed" for a
  proof -
    have "snd a \<in> set (map snd keyed)" using that by simp
    then have "snd a < length xs" using mset_eq_setD [of "map snd keyed" "[0..<length xs]"] assms(1)
      by (auto simp: keys_for_def)
    then show ?thesis using assms(1) that by (auto simp: keys_for_def)
  qed
  have "\<bar>order_key order x - order_key order y\<bar> \<le> 2147483647" if "x \<in> set xs" "y \<in> set xs" for x y
    using assms(2) that by (cases order) (auto simp: order_fits_def order_key_def)
  then have "\<bar>towire_compare a b\<bar> \<le> 2147483647" if "a \<in> set keyed" "b \<in> set keyed" for a b
    using key [OF that(1)] key [OF that(2)] by (auto simp: towire_compare_def)
  then show ?thesis by (fastforce simp: keys_ok_def list_all_iff abs_le_iff)
qed

lemma shuffle_order_ok:
  assumes "c_qsort (we_qsort env)" "shuffled \<noteq> []" "WANT_FIXED r \<Longrightarrow> order \<noteq> None" "order_fits order shuffled"
  shows "\<exists>xs. shuffle_order env r order shuffled = Some xs \<and> mset xs = mset shuffled \<and>
    (\<forall>f. order = Some f \<longrightarrow> sorted (map f xs)) \<and>
    (order = None \<and> \<not> WANT_FIXED r \<and> \<not> WANT_RANDOM r \<longrightarrow>
       xs = rotate (cyclic_start (we_random env) r (length shuffled)) shuffled)"
proof -
  let ?p = "if WANT_FIXED r then (shuffled, map (\<lambda>i. (order_key order (shuffled ! i), i)) [0..<length shuffled])
    else if WANT_RANDOM r then shuffle_random (we_random env) order 0 (length shuffled) shuffled []
    else (shuffled, shuffle_cyclic order shuffled (cyclic_start (we_random env) r (length shuffled)) (length shuffled))"
  let ?j = "cyclic_start (we_random env) r (length shuffled)"
  have j: "?j < length shuffled" using assms(2) by (simp add: cyclic_start_def Let_def)
  obtain ss keyed where p: "?p = (ss, keyed)" by (cases ?p)
  have k: "mset ss = mset shuffled \<and> keys_for order ss keyed"
  proof -
    obtain xs where xs: "shuffle_random (we_random env) order 0 (length shuffled) shuffled [] =
        (xs, [] @ map (\<lambda>j. (order_key order (xs ! j), j)) [0..<0 + length shuffled])" "mset xs = mset shuffled"
      using shuffle_random_ok [of 0 "length shuffled" shuffled "we_random env" order "[]"] by auto
    have "length xs = length shuffled" using xs(2) by (rule mset_eq_length)
    then have "keys_for order xs (map (\<lambda>j. (order_key order (xs ! j), j)) [0..<length shuffled])"
      using keys_for_all [of order xs] by simp
    then show ?thesis
      using p xs keys_for_all [of order shuffled] keys_for_cyclic(1) [OF j, of order] by (auto split: if_splits)
  qed
  have so: "shuffle_order env r order shuffled =
      (if order = None then if WANT_FIXED r then None else Some (map (\<lambda>(key, i). ss ! i) keyed)
       else if keys_ok keyed then Some (map (\<lambda>(key, i). ss ! i) (we_qsort env towire_compare keyed)) else None)"
    unfolding shuffle_order_def Let_def p by simp
  show ?thesis
  proof (cases order)
    case None
    then have nf: "\<not> WANT_FIXED r" using assms(3) by blast
    have "map (\<lambda>(key, i). ss ! i) keyed = rotate ?j shuffled" if "\<not> WANT_RANDOM r"
      using p that nf keys_for_cyclic(2) [OF j, of order] by auto
    moreover have "mset (map (\<lambda>(key, i). ss ! i) keyed) = mset shuffled" using keys_for_perm k by metis
    ultimately show ?thesis using so None nf by simp
  next
    case (Some f)
    let ?q = "we_qsort env towire_compare keyed"
    have q: "mset ?q = mset keyed" "ascending towire_compare ?q"
      using assms(1) towire_compare_cmp by (auto intro: c_qsort.qsort_mset c_qsort.qsort_ascending)
    have kq: "keys_for order ss ?q" using keys_for_mset [OF _ q(1)] k by blast
    have "set ss = set shuffled" using k mset_eq_setD by blast
    then have "keys_ok keyed" using keys_for_fit [of order ss keyed] k assms(4) by (simp add: order_fits_def)
    moreover have "mset (map (\<lambda>(key, i). ss ! i) ?q) = mset shuffled" using keys_for_perm [OF kq] k by simp
    moreover have "sorted (map f (map (\<lambda>(key, i). ss ! i) ?q))" using ascending_keys [OF q(2)] kq Some by simp
    ultimately show ?thesis using so Some by auto
  qed
qed

section \<open>Writing the records\<close>

text \<open>
  The records that a message holds from a position on: for each rdata an owner name that reads as
  the given one, the type, class and TTL, the length of the rdata and its bytes.
\<close>

inductive rrs_at :: "bool \<Rightarrow> (dns_rdata \<Rightarrow> u8 list \<Rightarrow> bool) \<Rightarrow> label list \<Rightarrow> nat \<Rightarrow> nat \<Rightarrow> nat \<Rightarrow> mem \<Rightarrow> nat \<Rightarrow>
    dns_rdata list \<Rightarrow> nat \<Rightarrow> bool" for cs wrote ls type rdclass ttl msg where
  rrs_nil: "rrs_at cs wrote ls type rdclass ttl msg p [] p"
| rrs_cons: "decodes msg (length msg) p p ls' u \<Longrightarrow> same_name cs ls' ls \<Longrightarrow> p + u + 10 + length bs \<le> length msg \<Longrightarrow>
    take (10 + length bs) (drop (p + u) msg) = put16 type @ put16 rdclass @ put32 ttl @ put16 (length bs) @ bs \<Longrightarrow>
    wrote x bs \<Longrightarrow> rrs_at cs wrote ls type rdclass ttl msg (p + u + 10 + length bs) xs q \<Longrightarrow>
    rrs_at cs wrote ls type rdclass ttl msg p (x # xs) q"

lemma rrs_at_extend:
  assumes "rrs_at cs wrote ls type rdclass ttl msg p xs q"
  shows "rrs_at cs wrote ls type rdclass ttl (msg @ more') p xs q"
  using assms
proof (induction rule: rrs_at.induct)
  case (rrs_cons p ls' u bs x xs q)
  show ?case
  proof (rule rrs_at.rrs_cons [OF decodes_append [OF rrs_cons.hyps(1)] rrs_cons.hyps(2) _ _ rrs_cons.hyps(5) rrs_cons.IH])
    show "p + u + 10 + length bs \<le> length (msg @ more')" using rrs_cons.hyps(3) by simp
    show "take (10 + length bs) (drop (p + u) (msg @ more')) =
        put16 type @ put16 rdclass @ put32 ttl @ put16 (length bs) @ bs"
      using rrs_cons.hyps(3,4) by simp
  qed
qed (rule rrs_nil)

lemma rrs_at_append:
  assumes "rrs_at cs wrote ls type rdclass ttl msg p xs q" "rrs_at cs wrote ls type rdclass ttl msg q ys z"
  shows "rrs_at cs wrote ls type rdclass ttl msg p (xs @ ys) z"
  using assms by (induction rule: rrs_at.induct) (auto intro: rrs_at.rrs_cons)

lemma rrs_at_snoc:
  assumes "rrs_at cs wrote ls type rdclass ttl msg p xs (length msg)"
    and "decodes (msg @ nb) (length (msg @ nb)) (length msg) (length msg) ls' (length nb)" "same_name cs ls' ls" "wrote x bs"
  defines "new \<equiv> nb @ put16 type @ put16 rdclass @ put32 ttl @ put16 (length bs) @ bs"
  shows "rrs_at cs wrote ls type rdclass ttl (msg @ new) p (xs @ [x]) (length (msg @ new))"
proof -
  have len: "length new = length nb + 10 + length bs" by (simp add: new_def)
  have "decodes ((msg @ nb) @ put16 type @ put16 rdclass @ put32 ttl @ put16 (length bs) @ bs)
      (length ((msg @ nb) @ put16 type @ put16 rdclass @ put32 ttl @ put16 (length bs) @ bs))
      (length msg) (length msg) ls' (length nb)" by (rule decodes_append [OF assms(2)])
  then have d: "decodes (msg @ new) (length (msg @ new)) (length msg) (length msg) ls' (length nb)"
    unfolding new_def by (simp only: append_assoc)
  have "rrs_at cs wrote ls type rdclass ttl (msg @ new) (length msg) [x] (length msg + length nb + 10 + length bs)"
  proof (rule rrs_cons [where bs = bs and u = "length nb", OF d assms(3)])
    show "wrote x bs" by (rule assms(4))
    show "length msg + length nb + 10 + length bs \<le> length (msg @ new)" by (simp add: len)
    show "take (10 + length bs) (drop (length msg + length nb) (msg @ new)) =
        put16 type @ put16 rdclass @ put32 ttl @ put16 (length bs) @ bs" by (simp add: new_def)
  qed (rule rrs_nil)
  moreover have "length msg + length nb + 10 + length bs = length (msg @ new)" by (simp add: len)
  ultimately show ?thesis using rrs_at_append [OF rrs_at_extend [OF assms(1)]] by metis
qed

text \<open>The steps of a renderer keep the state in order and the earlier message.\<close>

lemma writes_next:
  assumes "writes_ok (c, t) ns" "name_writes alloc (c, t) (c', t')"
  obtains ns' where "writes_ok (c', t') ns'" "b_length t' = b_length t" "b_used t \<le> b_used t'"
    "take (b_used t) (contents t') = contents t" "sensitive c' = sensitive c"
proof -
  obtain new where g: "grown (c, t) ns (c', t') new" using name_writes_grown [OF assms(2,1)] by blast
  then have "writes_ok (c', t') (ns @ new)" "b_length t' = b_length t" "b_used t \<le> b_used t'" "sensitive c' = sensitive c"
      "take (b_used t) (b_base t') = contents t"
    unfolding grown_def prod.case by blast+
  then show thesis using that [of "ns @ new"] by (simp add: contents_def min_absorb1)
qed

lemma available_ok:
  assumes "buffer_ok t"
  shows "\<exists>r. isc_buffer_availableregion t = Some r \<and> length r = b_length t - b_used t"
  using buffer_okD [OF assms]
  by (simp add: isc_buffer_availableregion_def isc_buffer_availablelength_def mem_blk_def)

definition head_bytes :: "bool \<Rightarrow> nat \<Rightarrow> nat \<Rightarrow> nat \<Rightarrow> u8 list" where
  "head_bytes question type rdclass ttl = put16 type @ put16 rdclass @ (if question then [] else put32 ttl)"

definition head_room :: "bool \<Rightarrow> nat" where
  "head_room question = (if question then 4 else 10)"

lemma put_head:
  assumes "buffer_ok t" "b_used t + head_room question \<le> b_length t"
  shows "do { target \<leftarrow> isc_buffer_putuint16 t type; target \<leftarrow> isc_buffer_putuint16 target rdclass;
      target \<leftarrow> (if question then Some target else isc_buffer_putuint32 target ttl);
      Some (ISC_R_SUCCESS, c, target) } = Some (ISC_R_SUCCESS, c, appended t (head_bytes question type rdclass ttl))"
proof -
  let ?t1 = "appended t (put16 type)" and ?t2 = "appended t (put16 type @ put16 rdclass)"
  have l: "b_used t + length (put16 type) \<le> b_length t" "b_used t + length (put16 type @ put16 rdclass) \<le> b_length t"
    using assms(2) by (simp_all add: head_room_def split: if_splits)
  have ok: "buffer_ok ?t1" "buffer_ok ?t2" using appended_ok(1) [OF assms(1)] l by blast+
  have 1: "isc_buffer_putuint16 t type = Some ?t1" using put_ok(2) [OF assms(1)] l(1) by simp
  have 2: "isc_buffer_putuint16 ?t1 rdclass = Some ?t2"
    using put_ok(2) [OF ok(1)] l(2) appended_appended [OF assms(1) l(1)] by simp
  have 3: "\<not> question \<Longrightarrow> isc_buffer_putuint32 ?t2 ttl = Some (appended t (put16 type @ put16 rdclass @ put32 ttl))"
    using put_ok(3) [OF ok(2)] assms(2) appended_appended [OF assms(1) l(2)] by (simp add: head_room_def)
  show ?thesis using 1 2 3 by (cases question) (simp_all add: head_bytes_def)
qed

lemma rr_head_ok:
  assumes "writes_ok (c, t) ns" "b_length t < 65536" "represents owner ls" "abs_labels ls"
  shows "(\<exists>c' nb ls'. rr_head env question owner type rdclass ttl c t =
        Some (ISC_R_SUCCESS, c', appended t (nb @ head_bytes question type rdclass ttl)) \<and>
      name_writes (we_alloc env) (c, t) (c', appended t (nb @ head_bytes question type rdclass ttl)) \<and>
      b_used t + length nb + head_room question \<le> b_length t \<and> length nb \<le> length (name_wire ls) \<and>
      same_name (sensitive c) ls' ls \<and>
      decodes (contents t @ nb) (length (contents t @ nb)) (b_used t) (b_used t) ls' (length nb)) \<or>
    (\<exists>c' t'. rr_head env question owner type rdclass ttl c t = Some (ISC_R_NOSPACE, c', t') \<and>
      name_writes (we_alloc env) (c, t) (c', t') \<and>
      b_length t < b_used t + length (name_wire ls) + head_room question)"
proof -
  let ?h = "head_bytes question type rdclass ttl"
  have ok: "buffer_ok t" "ctx_ok c ns" using assms(1) by (simp_all add: writes_ok_def)
  have u: "b_used t < 65536" using buffer_okD(4) [OF ok(1)] assms(2) by simp
  obtain c1 where c1: "dns_compress_setmethods c DNS_COMPRESS_GLOBAL14 = Some c1" "same_ctx c c1"
    using setmethods_ok [OF ok(2)] by blast
  have w1: "writes_ok (c1, t) ns" by (rule writes_ok_ctx [OF assms(1) c1(2)])
  then have ok1: "ctx_ok c1 ns" "msg_ok (sensitive c1) (contents t) ns" by (simp_all add: writes_ok_def)
  have sens: "sensitive c1 = sensitive c" by (rule same_ctx_ok(2) [OF c1(2)])
  obtain res c2 t2 where r: "dns_name_towire (we_alloc env) owner c1 t = Some (res, c2, t2)" "towire_post c1 ns t ls (res, c2, t2)"
    using towire_ok [OF ok(1) ok1 assms(3,4) u, of "we_alloc env"] by auto
  have n1: "name_writes (we_alloc env) (c, t) (c1, t)" by (rule writes_methods [OF writes_nothing c1(1)])
  have n2: "name_writes (we_alloc env) (c, t) (c2, t2)" by (rule writes_name [OF n1 assms(3,4) u r(1)])
  show ?thesis
  proof (cases "res = ISC_R_SUCCESS")
    case False
    then have "res = ISC_R_NOSPACE" "b_length t < b_used t + length (name_wire ls)" using r(2) by (auto simp: towire_post_def)
    then show ?thesis using c1(1) r(1) n2 by (intro disjI2) (simp add: rr_head_def)
  next
    case True
    then obtain nb ls' where nb: "t2 = appended t nb" "b_used t + length nb \<le> b_length t" "length nb \<le> length (name_wire ls)"
        "same_name (sensitive c1) ls' ls" "decodes (contents t2) (b_used t2) (b_used t) (b_used t) ls' (length nb)"
      using r(2) by (auto simp: towire_post_def)
    have ok2: "buffer_ok t2" "contents t2 = contents t @ nb" using appended_ok [OF ok(1) nb(2)] nb(1) by simp_all
    obtain av where av: "isc_buffer_availableregion t2 = Some av" "length av = b_length t - (b_used t + length nb)"
      using available_ok [OF ok2(1)] nb(1) by auto
    have hl: "2 + 2 + (if question then 0 else 4 + 2) = head_room question" by (simp add: head_room_def)
    have run: "rr_head env question owner type rdclass ttl c t =
        (if length av < head_room question then Some (ISC_R_NOSPACE, c2, t2)
         else do { target \<leftarrow> isc_buffer_putuint16 t2 type; target \<leftarrow> isc_buffer_putuint16 target rdclass;
           target \<leftarrow> (if question then Some target else isc_buffer_putuint32 target ttl);
           Some (ISC_R_SUCCESS, c2, target) })"
      unfolding rr_head_def Let_def hl using c1(1) r(1) True av(1) by simp
    show ?thesis
    proof (cases "length av < head_room question")
      case True
      then have "b_length t < b_used t + length (name_wire ls) + head_room question" using av(2) nb(2,3) by linarith
      then show ?thesis using run True n2 by auto
    next
      case False
      then have room: "b_used t2 + head_room question \<le> b_length t2" using av(2) nb(1,2) by simp
      have hb: "length ?h \<le> head_room question" by (simp add: head_bytes_def head_room_def)
      have app: "appended t2 ?h = appended t (nb @ ?h)" using appended_appended [OF ok(1) nb(2)] nb(1) by simp
      have "rr_head env question owner type rdclass ttl c t = Some (ISC_R_SUCCESS, c2, appended t (nb @ ?h))"
        using run False unfolding put_head [OF ok2(1) room] app by simp
      moreover have "name_writes (we_alloc env) (c, t) (c2, appended t (nb @ ?h))"
        using writes_bytes [OF n2, of ?h] putmem_ok [OF ok2(1), of ?h] room hb app by simp
      moreover have "decodes (contents t @ nb) (length (contents t @ nb)) (b_used t) (b_used t) ls' (length nb)"
        using nb(5) length_contents [OF ok2(1)] unfolding ok2(2) by simp
      ultimately show ?thesis using nb room sens by (intro disjI1) auto
    qed
  qed
qed

text \<open>The length of the rdata is stored into the bytes that were left for it.\<close>

lemma patch_length:
  assumes "buffer_ok t" "length junk = 2" "b_used t + 2 + length bs \<le> b_length t"
  shows "isc_buffer_putuint16 (t\<lparr>b_base := b_base (appended t (junk @ bs))\<rparr>) v =
    Some (t\<lparr>b_base := b_base (appended t (put16 v @ bs)), b_used := b_used t + 2\<rparr>)"
proof -
  let ?m = "b_base (appended t (junk @ bs))"
  have m: "?m = contents t @ junk @ bs @ drop (b_used t + 2 + length bs) (b_base t)"
    using assms(2) by (simp add: appended_def)
  have "mem_wr ?m (length (contents t)) (put16 v) = Some (contents t @ put16 v @ bs @ drop (b_used t + 2 + length bs) (b_base t))"
    unfolding m using assms(2) by (intro mem_wr_mid) simp_all
  then have "mem_wr ?m (b_used t) (put16 v) = Some (b_base (appended t (put16 v @ bs)))"
    using length_contents [OF assms(1)] by (simp add: appended_def)
  then show ?thesis
    using assms(1,3) buffer_okD [OF assms(1)] by (simp add: isc_buffer_putuint16_def isc_buffer_putmem_def)
qed

context rdata_renderer
begin

lemma rr_data_ok:
  assumes "we_alloc env = alloc" "we_switch env = tw" "good x" "writes_ok (c, t) ns" "b_length t < 65536"
    and "b_used t + 2 \<le> b_length t"
  shows "(\<exists>c' bs. rr_data env x c t = Some (ISC_R_SUCCESS, c', appended t (put16 (length bs) @ bs)) \<and>
      name_writes alloc (c, t) (c', appended t (put16 (length bs) @ bs)) \<and>
      b_used t + 2 + length bs \<le> b_length t \<and> length bs \<le> rd_length x \<and> wrote x bs) \<or>
    (\<exists>c' t'. rr_data env x c t = Some (ISC_R_NOSPACE, c', t') \<and> name_writes alloc (c, t) (c', t') \<and>
      b_length t < b_used t + 2 + rd_length x)"
proof -
  let ?junk = "take 2 (drop (b_used t) (b_base t))"
  have ok: "buffer_ok t" using assms(4) by (simp add: writes_ok_def)
  note d = buffer_okD [OF ok]
  have junk: "length ?junk = 2" using d assms(6) by simp
  have fit2: "b_used t + length two \<le> b_length t" if "length two = 2" for two :: "u8 list" using assms(6) that by simp
  have t1: "isc_buffer_add t 2 = Some (appended t ?junk)" using add_ok [OF ok assms(6)] .
  have two: "name_writes alloc (c, t) (c, appended t two)" "b_used (appended t two) = b_used t + 2"
      "b_length (appended t two) = b_length t" if "length two = 2" for two
    using writes_append [OF assms(4) fit2 [OF that]] that by simp_all
  obtain ns1 where w1: "writes_ok (c, appended t ?junk) ns1" by (rule writes_next [OF assms(4) two(1) [OF junk]])
  have l1: "b_length (appended t ?junk) < 65536" using assms(5) by simp
  from rdata_towire_ok [OF assms(3) w1 l1] show ?thesis
  proof (elim disjE exE conjE)
    fix c' bs
    assume a: "\<forall>t0 ns0. writes_ok (c, t0) ns0 \<and> b_used t0 = b_used (appended t ?junk) \<and>
          b_length t0 = b_length (appended t ?junk) \<longrightarrow>
        dns_rdata_towire tw x c t0 = Some (ISC_R_SUCCESS, c', appended t0 bs) \<and> name_writes alloc (c, t0) (c', appended t0 bs)"
      and f: "b_used (appended t ?junk) + length bs \<le> b_length (appended t ?junk)" and b: "length bs \<le> rd_length x" "wrote x bs"
    let ?len = "put16 (length bs)"
    have fit: "b_used t + 2 + length bs \<le> b_length t" using f two(2,3) [OF junk] by simp
    have app: "appended (appended t two) bs = appended t (two @ bs)" if "length two = 2" for two
      using appended_appended [OF ok fit2 [OF that]] .
    have r1: "dns_rdata_towire tw x c (appended t ?junk) = Some (ISC_R_SUCCESS, c', appended t (?junk @ bs))"
      using a w1 app [OF junk] by auto
    have len2: "length ?len = 2" by simp
    obtain ns2 where w2: "writes_ok (c, appended t ?len) ns2" by (rule writes_next [OF assms(4) two(1) [OF len2]])
    have "name_writes alloc (c, appended t ?len) (c', appended (appended t ?len) bs)"
      using a w2 two(2,3) [of ?len] two(2,3) [OF junk] by auto
    then have n: "name_writes alloc (c, t) (c', appended t (?len @ bs))"
      using name_writes_trans [OF _ two(1)] app [of ?len] by simp
    have used: "b_used (appended t (?junk @ bs)) = b_used t + 2 + length bs" using junk by simp
    have sub: "u32_sub (u32_sub (b_used t + 2 + length bs) (b_used t)) 2 = length bs" "u32_of (b_used t + 2) = b_used t + 2"
      "length bs < 65536"
      using d fit assms(5) by simp_all
    have "appended t (?junk @ bs)\<lparr>b_base := b_base (appended t (?len @ bs))\<rparr> = appended t (?len @ bs)"
      using junk by (simp add: appended_def)
    then have "rr_data env x c t = Some (ISC_R_SUCCESS, c', appended t (?len @ bs))"
      unfolding rr_data_def Let_def assms(2)
      using t1 r1 sub patch_length [OF ok junk fit, of "length bs"] by (simp add: used del: appended_fields)
    then show ?thesis using n fit b by blast
  next
    fix c' t'
    assume a: "dns_rdata_towire tw x c (appended t ?junk) = Some (ISC_R_NOSPACE, c', t')"
        "name_writes alloc (c, appended t ?junk) (c', t')"
        "b_length (appended t ?junk) < b_used (appended t ?junk) + rd_length x"
    have "rr_data env x c t = Some (ISC_R_NOSPACE, c', t')" using t1 a(1) by (simp add: rr_data_def Let_def assms(2))
    then show ?thesis using name_writes_trans [OF a(2) two(1) [OF junk]] a(3) two(2,3) [OF junk] by auto
  qed
qed

end

section \<open>The loop over the records\<close>

text \<open>The loop takes the \<open>i\<close>-th of the rdata \<open>ys\<close>, from the array or through the cursor.\<close>

definition feeds :: "bool \<Rightarrow> mem \<Rightarrow> dns_rdata list option \<Rightarrow> dns_rdata list \<Rightarrow> nat \<Rightarrow> dns_rdataset \<Rightarrow> bool" where
  "feeds lb m order ys i r \<longleftrightarrow> (case order of Some xs \<Rightarrow> xs = ys
     | None \<Rightarrow> rds_valid m r \<and> rds_items lb m r = ys \<and> rds_at lb m r i)"

lemma feeds_current:
  assumes "feeds lb m order ys i r" "i < length ys" "dns_rdata_validflags x"
  shows "(case order of Some xs \<Rightarrow> if i < length xs then Some (xs ! i) else None
    | None \<Rightarrow> do { rdata \<leftarrow> dns_rdata_reset x; dns_rdataset_current lb m r rdata }) = Some (ys ! i)"
  using assms rds_cursor.current_item [of m r lb i]
  by (cases order) (auto simp: feeds_def dns_rdata_reset_def)

lemma feeds_advance:
  assumes "feeds lb m order ys i r" "i < length ys"
  shows "\<exists>r'. towire_advance lb m order i r = Some (if i + 1 = length ys then ISC_R_NOMORE else ISC_R_SUCCESS, r') \<and>
    same_set r r' \<and> (i + 1 < length ys \<longrightarrow> feeds lb m order ys (i + 1) r')"
proof (cases order)
  case None
  then have f: "rds_valid m r" "rds_items lb m r = ys" "rds_at lb m r i" using assms(1) by (simp_all add: feeds_def)
  show ?thesis
  proof (cases "i + 1 = length ys")
    case True
    then obtain r' where "dns_rdataset_next lb m r = Some (ISC_R_NOMORE, r')"
      using rds_cursor.next_none [OF f(1,3)] f(2) by auto
    then show ?thesis using None True dns_rdataset_next_same by (auto simp: towire_advance_def)
  next
    case False
    then obtain r' where "dns_rdataset_next lb m r = Some (ISC_R_SUCCESS, r')" "rds_valid m r'"
        "rds_items lb m r' = ys" "rds_at lb m r' (Suc i)"
      using rds_cursor.next_some [OF f(1,3)] f(2) assms(2) by auto
    then show ?thesis using None False dns_rdataset_next_same by (auto simp: towire_advance_def feeds_def)
  qed
next
  case (Some xs)
  then show ?thesis using assms(1) by (simp add: feeds_def towire_advance_def same_set_def)
qed

text \<open>The room that a record can take.\<close>

definition rec_size :: "label list \<Rightarrow> dns_rdata \<Rightarrow> nat" where
  "rec_size ls x = length (name_wire ls) + 10 + rd_length x"

text \<open>What the message has got since \<open>t0\<close>: the records of \<open>xs\<close>.\<close>

definition written :: "bool \<Rightarrow> (dns_rdata \<Rightarrow> u8 list \<Rightarrow> bool) \<Rightarrow> label list \<Rightarrow> dns_rdataset \<Rightarrow> isc_buffer \<Rightarrow> isc_buffer \<Rightarrow>
    dns_rdata list \<Rightarrow> bool" where
  "written cs wrote ls r t0 t xs \<longleftrightarrow>
     rrs_at cs wrote ls (rs_type r) (rs_class r) (rs_ttl r) (contents t) (b_used t0) xs (b_used t) \<and>
     b_used t \<le> b_used t0 + (\<Sum>x \<leftarrow> xs. rec_size ls x)"

lemma written_nothing: "written cs wrote ls r t t []"
  by (simp add: written_def rrs_nil)

lemma written_snoc:
  assumes "written cs wrote ls r t0 t xs" "buffer_ok t" "wrote x bs" "same_name cs ls' ls"
    and "decodes (contents t @ nb) (length (contents t @ nb)) (b_used t) (b_used t) ls' (length nb)"
    and "b_used t + length nb + 10 + length bs \<le> b_length t" "length nb \<le> length (name_wire ls)" "length bs \<le> rd_length x"
  defines "new \<equiv> nb @ put16 (rs_type r) @ put16 (rs_class r) @ put32 (rs_ttl r) @ put16 (length bs) @ bs"
  shows "written cs wrote ls r t0 (appended t new) (xs @ [x])"
proof -
  have len: "length new = length nb + 10 + length bs" by (simp add: new_def)
  have u: "length (contents t) = b_used t" by (rule length_contents [OF assms(2)])
  have ct: "contents (appended t new) = contents t @ new" using appended_ok(2) [OF assms(2)] len assms(6) by simp
  have "rrs_at cs wrote ls (rs_type r) (rs_class r) (rs_ttl r) (contents t) (b_used t0) xs (length (contents t))"
    using assms(1) u by (simp add: written_def)
  moreover have "decodes (contents t @ nb) (length (contents t @ nb)) (length (contents t)) (length (contents t)) ls' (length nb)"
    using assms(5) u by simp
  ultimately have "rrs_at cs wrote ls (rs_type r) (rs_class r) (rs_ttl r) (contents t @ new) (b_used t0) (xs @ [x])
      (length (contents t @ new))"
    unfolding new_def using assms(4,3) by (rule rrs_at_snoc)
  moreover have "length (contents t @ new) = b_used (appended t new)" using u by simp
  moreover have "b_used (appended t new) \<le> b_used t0 + (\<Sum>x \<leftarrow> xs @ [x]. rec_size ls x)"
    using assms(1,7,8) len by (simp add: written_def rec_size_def)
  ultimately show ?thesis unfolding written_def ct by metis
qed

context rdata_renderer
begin

lemma towire_round_ok:
  assumes env: "we_alloc env = alloc" "we_switch env = tw"
    and "feeds lb m order ys i (ws_rdataset s)" "i < length ys" "good (ys ! i)" "dns_rdata_validflags (ws_rdata s)"
    and "writes_ok (ws_cctx s, ws_target s) ns" "b_length (ws_target s) < 65536" "represents owner ls" "abs_labels ls"
    and "written (sensitive (ws_cctx s)) wrote ls (ws_rdataset s) t0 (ws_target s) xs"
  shows "(\<exists>s'. towire_round env lb m False order owner i s = Some (ISC_R_SUCCESS, s') \<and>
      ws_rdataset s' = ws_rdataset s \<and> ws_rdata s' = ys ! i \<and> ws_added s' = ws_added s + 1 \<and>
      written (sensitive (ws_cctx s)) wrote ls (ws_rdataset s) t0 (ws_target s') (xs @ [ys ! i]) \<and>
      name_writes alloc (ws_cctx s, ws_target s) (ws_cctx s', ws_target s')) \<or>
    (\<exists>s'. towire_round env lb m False order owner i s = Some (ISC_R_NOSPACE, s') \<and>
      ws_rdataset s' = ws_rdataset s \<and> ws_added s' = ws_added s \<and>
      name_writes alloc (ws_cctx s, ws_target s) (ws_cctx s', ws_target s') \<and>
      b_length (ws_target s) < b_used (ws_target s) + rec_size ls (ys ! i))"
proof -
  let ?r = "ws_rdataset s" and ?c = "ws_cctx s" and ?t = "ws_target s"
  let ?h = "head_bytes False (rs_type ?r) (rs_class ?r) (rs_ttl ?r)"
  have ok: "buffer_ok ?t" using assms(7) by (simp add: writes_ok_def)
  from rr_head_ok [OF assms(7-10), of env False "rs_type ?r" "rs_class ?r" "rs_ttl ?r"] show ?thesis
  proof (elim disjE exE conjE)
    fix c' t'
    assume a: "rr_head env False owner (rs_type ?r) (rs_class ?r) (rs_ttl ?r) ?c ?t = Some (ISC_R_NOSPACE, c', t')"
        "name_writes (we_alloc env) (?c, ?t) (c', t')" "b_length ?t < b_used ?t + length (name_wire ls) + head_room False"
    then show ?thesis
      by (intro disjI2 exI [of _ "s\<lparr>ws_cctx := c', ws_target := t'\<rparr>"])
        (simp add: towire_round_def Let_def env rec_size_def head_room_def)
  next
    fix c1 nb ls'
    assume a: "rr_head env False owner (rs_type ?r) (rs_class ?r) (rs_ttl ?r) ?c ?t = Some (ISC_R_SUCCESS, c1, appended ?t (nb @ ?h))"
        "name_writes (we_alloc env) (?c, ?t) (c1, appended ?t (nb @ ?h))"
        "b_used ?t + length nb + head_room False \<le> b_length ?t" "length nb \<le> length (name_wire ls)"
        "same_name (sensitive ?c) ls' ls"
        "decodes (contents ?t @ nb) (length (contents ?t @ nb)) (b_used ?t) (b_used ?t) ls' (length nb)"
    let ?t1 = "appended ?t (nb @ ?h)"
    have h: "length ?h = 8" by (simp add: head_bytes_def)
    obtain ns1 where w1: "writes_ok (c1, ?t1) ns1" by (rule writes_next [OF assms(7) a(2)])
    have l1: "b_length ?t1 < 65536" "b_used ?t1 + 2 \<le> b_length ?t1"
      using assms(8) a(3) h by (simp_all add: head_room_def)
    note cur = feeds_current [OF assms(3,4,6)]
    have round: "towire_round env lb m False order owner i s =
        do { (result, cctx, target) \<leftarrow> rr_data env (ys ! i) c1 ?t1;
             let s = s\<lparr>ws_rdata := ys ! i, ws_cctx := cctx, ws_target := target\<rparr>;
             Some (result, if result = ISC_R_SUCCESS then s\<lparr>ws_added := ws_added s + 1\<rparr> else s) }"
      unfolding towire_round_def Let_def
      using a(1) cur by (cases order) (simp_all cong: if_cong)
    from rr_data_ok [OF env assms(5) w1 l1] show ?thesis
    proof (elim disjE exE conjE)
      fix c2 bs
      assume b: "rr_data env (ys ! i) c1 ?t1 = Some (ISC_R_SUCCESS, c2, appended ?t1 (put16 (length bs) @ bs))"
          "name_writes alloc (c1, ?t1) (c2, appended ?t1 (put16 (length bs) @ bs))"
          "b_used ?t1 + 2 + length bs \<le> b_length ?t1" "length bs \<le> rd_length (ys ! i)" "wrote (ys ! i) bs"
      let ?new = "nb @ put16 (rs_type ?r) @ put16 (rs_class ?r) @ put32 (rs_ttl ?r) @ put16 (length bs) @ bs"
      have fit: "b_used ?t + length nb + 10 + length bs \<le> b_length ?t" using b(3) h by simp
      have fit1: "b_used ?t + length (nb @ ?h) \<le> b_length ?t" using fit h by simp
      have app: "appended ?t1 (put16 (length bs) @ bs) = appended ?t ?new"
        using appended_appended [OF ok fit1] by (simp add: head_bytes_def)
      have "written (sensitive ?c) wrote ls ?r t0 (appended ?t ?new) (xs @ [ys ! i])"
        by (rule written_snoc [OF assms(11) ok b(5) a(5,6) fit a(4) b(4)])
      then show ?thesis
        using round b(1) app name_writes_trans [OF b(2) a(2) [unfolded env]]
        by (intro disjI1 exI [of _ "s\<lparr>ws_rdata := ys ! i, ws_cctx := c2, ws_target := appended ?t ?new,
              ws_added := ws_added s + 1\<rparr>"]) simp
    next
      fix c' t'
      assume b: "rr_data env (ys ! i) c1 ?t1 = Some (ISC_R_NOSPACE, c', t')" "name_writes alloc (c1, ?t1) (c', t')"
          "b_length ?t1 < b_used ?t1 + 2 + rd_length (ys ! i)"
      have "b_length ?t < b_used ?t + rec_size ls (ys ! i)" using b(3) a(4) h by (simp add: rec_size_def)
      then show ?thesis
        using round b(1) name_writes_trans [OF b(2) a(2) [unfolded env]]
        by (intro disjI2 exI [of _ "s\<lparr>ws_rdata := ys ! i, ws_cctx := c', ws_target := t'\<rparr>"]) simp
    qed
  qed
qed

end

text \<open>How the loop over \<open>ys\<close> ends, when it began with \<open>(c0, t0)\<close>: all is written, or there is no room.\<close>

definition loop_post :: "(nat \<Rightarrow> bool) \<Rightarrow> (dns_rdata \<Rightarrow> u8 list \<Rightarrow> bool) \<Rightarrow> label list \<Rightarrow> dns_rdataset \<Rightarrow> dns_rdata list \<Rightarrow>
    dns_compress \<Rightarrow> isc_buffer \<Rightarrow> isc_result \<times> isc_buffer \<times> wire_state \<Rightarrow> bool" where
  "loop_post alloc wrote ls r ys c0 t0 res \<longleftrightarrow> (case res of (result, rrbuffer, s) \<Rightarrow>
     (result = ISC_R_NOMORE \<and> name_writes alloc (c0, t0) (ws_cctx s, ws_target s) \<and>
        written (sensitive c0) wrote ls r t0 (ws_target s) ys) \<or>
     (result = ISC_R_NOSPACE \<and> b_length t0 < b_used t0 + (\<Sum>x \<leftarrow> ys. rec_size ls x) \<and>
        (\<exists>k c. k < length ys \<and> ws_added s = k \<and> name_writes alloc (c0, t0) (c, rrbuffer) \<and>
           name_writes alloc (c, rrbuffer) (ws_cctx s, ws_target s) \<and>
           written (sensitive c0) wrote ls r t0 rrbuffer (take k ys))))"

lemma sum_list_take_Suc:
  fixes f :: "'a \<Rightarrow> nat"
  assumes "i < length ys"
  shows "(\<Sum>x \<leftarrow> take i ys. f x) + f (ys ! i) \<le> (\<Sum>x \<leftarrow> ys. f x)"
proof -
  have "ys = take i ys @ ys ! i # drop (Suc i) ys" using assms by (rule id_take_nth_drop)
  then have "(\<Sum>x \<leftarrow> ys. f x) = (\<Sum>x \<leftarrow> take i ys @ ys ! i # drop (Suc i) ys. f x)" by metis
  then show ?thesis by simp
qed

lemma written_same: "same_set r r' \<Longrightarrow> written cs wrote ls r' t0 t xs = written cs wrote ls r t0 t xs"
  by (simp add: written_def same_set_def)

context rdata_renderer
begin

lemma towire_loop_ok:
  assumes env: "we_alloc env = alloc" "we_switch env = tw"
    and owner: "represents owner ls" "abs_labels ls" and good: "\<forall>x \<in> set ys. good x"
    and start: "writes_ok (c0, t0) ns" "b_length t0 < 65536"
    and "feeds lb m order ys i (ws_rdataset s)" "i < length ys" "ws_added s = i" "same_set r (ws_rdataset s)"
    and "dns_rdata_validflags (ws_rdata s)" "name_writes alloc (c0, t0) (ws_cctx s, ws_target s)"
    and "written (sensitive c0) wrote ls r t0 (ws_target s) (take i ys)"
  shows "\<exists>res. towire_loop env lb m False order owner i s = Some res \<and> loop_post alloc wrote ls r ys c0 t0 res"
  using assms(8-14)
proof (induction "length ys - i" arbitrary: i s)
  case (Suc n)
  obtain ns1 where w: "writes_ok (ws_cctx s, ws_target s) ns1" "b_length (ws_target s) = b_length t0"
      "sensitive (ws_cctx s) = sensitive c0"
    by (rule writes_next [OF start(1) Suc.prems(6)])
  have l: "b_length (ws_target s) < 65536" using w(2) start(2) by simp
  have g: "good (ys ! i)" using good Suc.prems(2) by simp
  have wr: "written (sensitive (ws_cctx s)) wrote ls (ws_rdataset s) t0 (ws_target s) (take i ys)"
    using Suc.prems(4,7) w(3) by (simp add: written_same)
  from towire_round_ok [OF env Suc.prems(1,2) g Suc.prems(5) w(1) l owner wr]
  show ?case
  proof (elim disjE exE conjE)
    fix s'
    assume a: "towire_round env lb m False order owner i s = Some (ISC_R_NOSPACE, s')" "ws_added s' = ws_added s"
        "name_writes alloc (ws_cctx s, ws_target s) (ws_cctx s', ws_target s')"
        "b_length (ws_target s) < b_used (ws_target s) + rec_size ls (ys ! i)"
    have "b_used (ws_target s) \<le> b_used t0 + (\<Sum>x \<leftarrow> take i ys. rec_size ls x)" using Suc.prems(7) by (simp add: written_def)
    then have "b_length t0 < b_used t0 + (\<Sum>x \<leftarrow> ys. rec_size ls x)"
      using a(4) w(2) sum_list_take_Suc [OF Suc.prems(2), of "rec_size ls"] by linarith
    moreover have "towire_loop env lb m False order owner i s = Some (ISC_R_NOSPACE, ws_target s, s')"
      by (subst towire_loop.simps) (simp add: a(1))
    ultimately show ?thesis
      using a(2,3) Suc.prems(2,3,6,7) by (intro exI [of _ "(ISC_R_NOSPACE, ws_target s, s')"]) (auto simp: loop_post_def)
  next
    fix s'
    assume a: "towire_round env lb m False order owner i s = Some (ISC_R_SUCCESS, s')" "ws_rdataset s' = ws_rdataset s"
        "ws_rdata s' = ys ! i" "ws_added s' = ws_added s + 1"
        "written (sensitive (ws_cctx s)) wrote ls (ws_rdataset s) t0 (ws_target s') (take i ys @ [ys ! i])"
        "name_writes alloc (ws_cctx s, ws_target s) (ws_cctx s', ws_target s')"
    have n: "name_writes alloc (c0, t0) (ws_cctx s', ws_target s')" by (rule name_writes_trans [OF a(6) Suc.prems(6)])
    have wr': "written (sensitive c0) wrote ls r t0 (ws_target s') (take (Suc i) ys)"
      using a(5) Suc.prems(2,4) w(3) by (simp add: take_Suc_conv_app_nth written_same)
    obtain r' where adv: "towire_advance lb m order i (ws_rdataset s) =
          Some (if i + 1 = length ys then ISC_R_NOMORE else ISC_R_SUCCESS, r')"
        "same_set (ws_rdataset s) r'" "i + 1 < length ys \<longrightarrow> feeds lb m order ys (i + 1) r'"
      using feeds_advance [OF Suc.prems(1,2)] by blast
    let ?s = "s'\<lparr>ws_rdataset := r'\<rparr>"
    have step: "towire_loop env lb m False order owner i s =
        (if i + 1 = length ys then Some (ISC_R_NOMORE, ws_target s, ?s) else towire_loop env lb m False order owner (i + 1) ?s)"
      by (subst towire_loop.simps) (simp add: a(1,2) adv(1) Let_def)
    show ?thesis
    proof (cases "i + 1 = length ys")
      case True
      then show ?thesis
        using step n wr' by (intro exI [of _ "(ISC_R_NOMORE, ws_target s, ?s)"]) (simp add: loop_post_def)
    next
      case False
      then have lt: "i + 1 < length ys" "n = length ys - (i + 1)" using Suc.prems(2) Suc.hyps(2) by simp_all
      have "same_set r (ws_rdataset ?s)" using Suc.prems(4) adv(2) by (simp add: same_set_def)
      moreover have "dns_rdata_validflags (ws_rdata ?s)" using a(3) good_flags [OF g] by simp
      ultimately show ?thesis
        using Suc.hyps(1) [OF lt(2), of ?s] adv(3) lt(1) a(4) Suc.prems(3) n wr' step False by simp
    qed
  qed
qed simp

end

section \<open>Whole rdatasets\<close>

lemma get_shuffled_from:
  assumes "rds_valid m r" "rds_at lb m r i" "i + Suc k = length (rds_items lb m r)"
  shows "\<exists>r'. get_shuffled (dns_rdataset_current lb m) (dns_rdataset_next lb m) (Suc k) (take i (rds_items lb m r)) r =
    Some (ISC_R_NOMORE, rds_items lb m r, r') \<and> same_set r r'"
  using assms
proof (induction k arbitrary: i r)
  case 0
  then have i: "i < length (rds_items lb m r)" by simp
  obtain r' where r': "dns_rdataset_next lb m r = Some (ISC_R_NOMORE, r')"
    using rds_cursor.next_none [OF 0(1,2)] 0(3) by auto
  have "take i (rds_items lb m r) @ [rds_items lb m r ! i] = take (Suc i) (rds_items lb m r)"
    using i by (simp add: take_Suc_conv_app_nth)
  then show ?case
    using rds_cursor.current_item [OF 0(1,2) i] r' dns_rdataset_next_same [OF r'] 0(3) by simp
next
  case (Suc k)
  then have i: "i < length (rds_items lb m r)" "Suc i < length (rds_items lb m r)" by simp_all
  obtain r1 where r1: "dns_rdataset_next lb m r = Some (ISC_R_SUCCESS, r1)" "rds_valid m r1"
      "rds_items lb m r1 = rds_items lb m r" "rds_at lb m r1 (Suc i)"
    using rds_cursor.next_some [OF Suc.prems(1,2) i(2)] by blast
  obtain r' where r': "get_shuffled (dns_rdataset_current lb m) (dns_rdataset_next lb m) (Suc k)
        (take (Suc i) (rds_items lb m r)) r1 = Some (ISC_R_NOMORE, rds_items lb m r, r')" "same_set r1 r'"
    using Suc.IH [OF r1(2,4)] Suc.prems(3) r1(3) by auto
  have t: "take i (rds_items lb m r) @ [rds_items lb m r ! i] = take (Suc i) (rds_items lb m r)"
    using i by (simp add: take_Suc_conv_app_nth)
  have "get_shuffled (dns_rdataset_current lb m) (dns_rdataset_next lb m) (Suc (Suc k)) (take i (rds_items lb m r)) r =
      Some (ISC_R_NOMORE, rds_items lb m r, r')"
    using rds_cursor.current_item [OF Suc.prems(1,2) i(1)] r1(1) r'(1)
    by (subst get_shuffled.simps) (simp add: t del: get_shuffled.simps)
  moreover have "same_set r r'" using dns_rdataset_next_same [OF r1(1)] r'(2) by (simp add: same_set_def)
  ultimately show ?case by blast
qed

text \<open>
  The order in which the records of an rdataset are rendered.  It is always a rearrangement; RRSIG
  records, and records of an rdataset with a fixed order and no order function, stay in the order of
  the cursor; otherwise, as long as memory can be had for more than \<open>MAX_SHUFFLE\<close> records, an order
  function sorts the records, and without one the cyclic order rotates them.
\<close>

definition rendered :: "wire_env \<Rightarrow> dns_rdataset \<Rightarrow> (dns_rdata \<Rightarrow> int) option \<Rightarrow> dns_rdata list \<Rightarrow> dns_rdata list \<Rightarrow> bool" where
  "rendered env r order xs ys \<longleftrightarrow> mset ys = mset xs \<and>
     (rs_type r = dns_rdatatype_rrsig \<or> (WANT_FIXED r \<and> order = None) \<longrightarrow> ys = xs) \<and>
     (rs_type r \<noteq> dns_rdatatype_rrsig \<and> (length xs > MAX_SHUFFLE \<longrightarrow> we_getmem env) \<longrightarrow>
        (\<forall>f. order = Some f \<longrightarrow> sorted (map f ys)) \<and>
        (order = None \<and> \<not> WANT_FIXED r \<and> \<not> WANT_RANDOM r \<longrightarrow>
           ys = rotate (cyclic_start (we_random env) r (length xs)) xs))"

lemma rendered_cursor_order:
  assumes "rs_type r = dns_rdatatype_rrsig \<or> (WANT_FIXED r \<and> order = None) \<or> length xs \<le> 1 \<or>
    \<not> (length xs > MAX_SHUFFLE \<longrightarrow> we_getmem env)"
  shows "rendered env r order xs xs"
proof -
  have "length xs \<le> 1 \<Longrightarrow> rotate n xs = xs" for n by (rule rotate_length01)
  moreover have "length xs \<le> 1 \<Longrightarrow> sorted (map f xs)" for f :: "dns_rdata \<Rightarrow> int" by (cases xs) auto
  ultimately show ?thesis using assms by (auto simp: rendered_def)
qed

text \<open>What rendering an rdataset gives, for the records \<open>ys\<close> in the order of rendering.\<close>

definition towire_outcome :: "(dns_rdata \<Rightarrow> u8 list \<Rightarrow> bool) \<Rightarrow> label list \<Rightarrow> dns_rdataset \<Rightarrow> dns_compress \<Rightarrow> isc_buffer \<Rightarrow>
    dns_rdata list \<Rightarrow> bool \<Rightarrow> nat \<Rightarrow> isc_result \<times> dns_rdataset \<times> dns_compress \<times> isc_buffer \<times> nat \<Rightarrow> bool" where
  "towire_outcome wrote ls r c t ys part countp out \<longleftrightarrow> (case out of (res, r', c', t', n) \<Rightarrow>
     (\<exists>ns. writes_ok (c', t') ns) \<and>
     ((res = ISC_R_SUCCESS \<and> written (sensitive c) wrote ls r t t' ys \<and> take (b_used t) (contents t') = contents t \<and>
         n = countp + length ys) \<or>
      (res = ISC_R_NOSPACE \<and> b_length t < b_used t + (\<Sum>x \<leftarrow> ys. rec_size ls x) \<and>
         (if part then \<exists>k < length ys. written (sensitive c) wrote ls r t t' (take k ys) \<and>
                         take (b_used t) (contents t') = contents t \<and> n = countp + k
          else contents t' = contents t \<and> same_ctx c c' \<and> n = 0))))"

lemma towire_end_ok:
  assumes "loop_post alloc wrote ls r ys c t l" "writes_ok (c, t) ns" "b_length t < 65536"
  shows "\<exists>out. towire_end part (length ys) countp t l = Some out \<and> towire_outcome wrote ls r c t ys part countp out"
proof -
  obtain res rrb s where l: "l = (res, rrb, s)" by (cases l)
  have u: "b_used t < 65536" using assms(2,3) buffer_okD(4) [of t] by (simp add: writes_ok_def)
  have "loop_post alloc wrote ls r ys c t (res, rrb, s)" using assms(1) l by simp
  then consider (full) "res = ISC_R_NOMORE" "name_writes alloc (c, t) (ws_cctx s, ws_target s)"
      "written (sensitive c) wrote ls r t (ws_target s) ys"
    | (space) k c1 where "res = ISC_R_NOSPACE" "b_length t < b_used t + (\<Sum>x \<leftarrow> ys. rec_size ls x)" "k < length ys"
      "ws_added s = k" "name_writes alloc (c, t) (c1, rrb)" "name_writes alloc (c1, rrb) (ws_cctx s, ws_target s)"
      "written (sensitive c) wrote ls r t rrb (take k ys)"
    unfolding loop_post_def by auto
  then show ?thesis
  proof cases
    case full
    obtain ns' where "writes_ok (ws_cctx s, ws_target s) ns'" "take (b_used t) (contents (ws_target s)) = contents t"
      by (rule writes_next [OF assms(2) full(2)])
    then show ?thesis using full by (simp add: l towire_end_def Let_def towire_outcome_def) blast
  next
    case space
    obtain ns1 where w1: "writes_ok (c1, rrb) ns1" "b_length rrb = b_length t" "take (b_used t) (contents rrb) = contents t"
      by (rule writes_next [OF assms(2) space(5)])
    have u1: "b_used rrb < 65536" using w1(1,2) assms(3) buffer_okD(4) [of rrb] by (simp add: writes_ok_def)
    show ?thesis
    proof (cases part)
      case True
      obtain new where g: "grown (c1, rrb) ns1 (ws_cctx s, ws_target s) new" using name_writes_grown [OF space(6) w1(1)] by blast
      obtain c2 where c2: "dns_compress_rollback (ws_cctx s) (b_used rrb) = Some c2" "same_ctx c1 c2"
        using rollback_undoes(1) [OF w1(1) g] by blast
      let ?t = "rrb\<lparr>b_base := b_base (ws_target s)\<rparr>"
      have ct: "contents ?t = contents rrb" by (rule rollback_undoes(3) [OF w1(1) g])
      have "writes_ok (c2, ?t) ns1" by (rule writes_ok_ctx [OF rollback_undoes(2) [OF w1(1) g] c2(2)])
      moreover have "written (sensitive c) wrote ls r t ?t (take k ys)" using space(7) ct by (simp add: written_def)
      ultimately show ?thesis
        using space(1-4) True u1 c2(1) ct w1(3) by (auto simp: l towire_end_def Let_def towire_outcome_def)
    next
      case False
      have n: "name_writes alloc (c, t) (ws_cctx s, ws_target s)" by (rule name_writes_trans [OF space(6,5)])
      obtain new where g: "grown (c, t) ns (ws_cctx s, ws_target s) new" using name_writes_grown [OF n assms(2)] by blast
      obtain c2 where c2: "dns_compress_rollback (ws_cctx s) (b_used t) = Some c2" "same_ctx c c2"
        using rollback_undoes(1) [OF assms(2) g] by blast
      let ?t = "t\<lparr>b_base := b_base (ws_target s)\<rparr>"
      have ct: "contents ?t = contents t" by (rule rollback_undoes(3) [OF assms(2) g])
      have "writes_ok (c2, ?t) ns" by (rule writes_ok_ctx [OF rollback_undoes(2) [OF assms(2) g] c2(2)])
      then show ?thesis
        using space(1,2) False u c2 ct by (auto simp: l towire_end_def Let_def towire_outcome_def)
    qed
  qed
qed

context rdata_renderer
begin

lemma towiresorted_ok:
  assumes env: "we_alloc env = alloc" "we_switch env = tw" "c_qsort (we_qsort env)"
    and owner: "represents owner ls" "abs_labels ls"
    and set: "rds_valid m r" "\<forall>x \<in> set (rds_items lb m r). good x" "order_fits order (rds_items lb m r)"
      "rs_attributes r AND DNS_RDATASETATTR_QUESTION = 0" "rs_attributes r AND DNS_RDATASETATTR_NEGATIVE = 0"
    and start: "writes_ok (c, t) ns" "b_length t < 65536"
  shows "\<exists>ys out. rendered env r order (rds_items lb m r) ys \<and>
    towiresorted env lb m r owner c t order part options countp = Some out \<and>
    towire_outcome wrote ls r c t ys part countp out"
proof -
  let ?xs = "rds_items lb m r" and ?n = "length (rds_items lb m r)"
  have pre: "rs_magic r" "dns_rdataset_count lb m r = Some ?n"
    using set(1) rds_cursor.count_items [OF set(1)] by (auto simp: rds_valid_def)
  show ?thesis
  proof (cases "?xs = []")
    case True
    then obtain r' where r': "dns_rdataset_first lb m r = Some (ISC_R_NOMORE, r')"
      using rds_cursor.first_none [OF set(1)] by blast
    have "towiresorted env lb m r owner c t order part options countp = Some (ISC_R_SUCCESS, r', c, t, countp)"
      using pre r' set(4,5) by (simp add: towiresorted_def)
    moreover have "rendered env r order ?xs []" using rendered_cursor_order [of r order "[]" env] True by simp
    moreover have "towire_outcome wrote ls r c t [] part countp (ISC_R_SUCCESS, r', c, t, countp)"
      using start(1) written_nothing by (auto simp: towire_outcome_def contents_def)
    ultimately show ?thesis by blast
  next
    case False
    then obtain r1 where r1: "dns_rdataset_first lb m r = Some (ISC_R_SUCCESS, r1)" "rds_valid m r1"
        "rds_items lb m r1 = ?xs" "rds_at lb m r1 0"
      using rds_cursor.first_some [OF set(1)] by blast
    have same1: "same_set r r1" by (rule dns_rdataset_first_same [OF r1(1)])
    have run: "towiresorted env lb m r owner c t order part options countp =
        towire_records env lb m False ?n r1 owner c t order part countp"
      using pre r1(1) set(4,5) by (simp add: towiresorted_def)
    let ?shuffle = "?n > 1 \<and> (\<not> WANT_FIXED r1 \<or> order \<noteq> None) \<and> rs_type r1 \<noteq> dns_rdatatype_rrsig \<and>
      (?n > MAX_SHUFFLE \<longrightarrow> we_getmem env)"
    let ?s = "\<lambda>r'. \<lparr>ws_rdata = dns_rdata_init, ws_rdataset = r', ws_added = 0, ws_cctx = c, ws_target = t\<rparr>"
    have fx: "WANT_FIXED r1 = WANT_FIXED r" "WANT_RANDOM r1 = WANT_RANDOM r" "rs_type r1 = rs_type r"
        "cyclic_start (we_random env) r' ?n = cyclic_start (we_random env) r ?n" if "same_set r r'" for r'
      using same1 that by (simp_all add: same_set_def WANT_FIXED_def WANT_RANDOM_def cyclic_start_def)
    have loop: "\<exists>out. do { l \<leftarrow> towire_loop env lb m False ord owner 0 (?s r'); towire_end part ?n countp t l } = Some out \<and>
        towire_outcome wrote ls r c t ys part countp out"
      if f: "feeds lb m ord ys 0 r'" "same_set r r'" "mset ys = mset ?xs" for ord ys r'
    proof -
      have ys: "\<forall>x \<in> set ys. good x" "0 < length ys" "length ys = ?n"
        using set(2) False mset_eq_setD [OF f(3)] mset_eq_length [OF f(3)] by auto
      obtain l where l: "towire_loop env lb m False ord owner 0 (?s r') = Some l" "loop_post alloc wrote ls r ys c t l"
        using towire_loop_ok [OF env(1,2) owner ys(1) start, of lb m ord 0 "?s r'" r] f(1,2) ys(2)
          writes_nothing written_nothing by auto
      then show ?thesis using towire_end_ok [OF l(2) start, of part countp] ys(3) by simp
    qed
    show ?thesis
    proof (cases ?shuffle)
      case True
      obtain r2 where r2: "get_shuffled (dns_rdataset_current lb m) (dns_rdataset_next lb m) ?n [] r1 =
          Some (ISC_R_NOMORE, ?xs, r2)" "same_set r1 r2"
        using get_shuffled_from [OF r1(2,4), of "?n - 1"] r1(3) False by auto
      have same2: "same_set r r2" using same1 r2(2) by (simp add: same_set_def)
      have fix2: "WANT_FIXED r2 = WANT_FIXED r" "WANT_RANDOM r2 = WANT_RANDOM r"
        using same2 by (simp_all add: same_set_def WANT_FIXED_def WANT_RANDOM_def)
      have "WANT_FIXED r2 \<Longrightarrow> order \<noteq> None" using True fx(1) [OF same2] fix2 by auto
      then obtain ys where ys: "shuffle_order env r2 order ?xs = Some ys" "mset ys = mset ?xs"
          "\<forall>f. order = Some f \<longrightarrow> sorted (map f ys)"
          "order = None \<and> \<not> WANT_FIXED r2 \<and> \<not> WANT_RANDOM r2 \<longrightarrow> ys = rotate (cyclic_start (we_random env) r2 ?n) ?xs"
        using shuffle_order_ok [OF env(3) False _ set(3), of r2] by blast
      have rend: "rendered env r order ?xs ys"
        using ys(2-4) True fx [OF same2] fix2 by (auto simp: rendered_def)
      have "feeds lb m (Some ys) ys 0 r2" by (simp add: feeds_def)
      from loop [OF this same2 ys(2)] obtain out where out:
          "do { l \<leftarrow> towire_loop env lb m False (Some ys) owner 0 (?s r2); towire_end part ?n countp t l } = Some out"
          "towire_outcome wrote ls r c t ys part countp out" by blast
      have "towire_records env lb m False ?n r1 owner c t order part countp = Some out"
        using True r2(1) ys(1) out(1) by (simp add: towire_records_def Let_def)
      then show ?thesis using run rend out(2) by auto
    next
      case no: False
      have "feeds lb m None ?xs 0 r1" using r1 by (simp add: feeds_def)
      from loop [OF this same1 refl] obtain out where out:
          "do { l \<leftarrow> towire_loop env lb m False None owner 0 (?s r1); towire_end part ?n countp t l } = Some out"
          "towire_outcome wrote ls r c t ?xs part countp out" by blast
      have "towire_records env lb m False ?n r1 owner c t order part countp = Some out"
        using no out(1) by (auto simp: towire_records_def Let_def)
      moreover have "rendered env r order ?xs ?xs"
        using no fx [OF same1] by (intro rendered_cursor_order) auto
      ultimately show ?thesis using run out(2) by auto
    qed
  qed
qed

end

section \<open>Properties of rendering\<close>

text \<open>
  C39: When the target has room for the records with their names uncompressed, rendering an rdataset
  completes: the message keeps what it held and gets one record for each rdata, each with an owner
  name that reads as the given one, the type, class and TTL of the rdataset, the length of the rdata
  and its bytes; the order is that of the cursor for an rdataset with a fixed order and no order
  function, sorted by the order function if there is one, and a rotation in the cyclic case; and
  the count grows by the number of records.
\<close>

theorem towiresorted_completes:
  assumes "rdata_renderer alloc tw good wrote" "we_alloc env = alloc" "we_switch env = tw" "c_qsort (we_qsort env)"
    and "represents owner ls" "abs_labels ls" "rds_valid m r" "\<forall>x \<in> set (rds_items lb m r). good x"
    and "order_fits order (rds_items lb m r)" "rs_attributes r AND DNS_RDATASETATTR_QUESTION = 0"
    and "rs_attributes r AND DNS_RDATASETATTR_NEGATIVE = 0" "writes_ok (c, t) ns" "b_length t < 65536"
    and "b_used t + (\<Sum>x \<leftarrow> rds_items lb m r. rec_size ls x) \<le> b_length t"
  shows "\<exists>ys r' c' t'. rendered env r order (rds_items lb m r) ys \<and>
    towiresorted env lb m r owner c t order part options countp = Some (ISC_R_SUCCESS, r', c', t', countp + length ys) \<and>
    take (b_used t) (contents t') = contents t \<and>
    rrs_at (sensitive c) wrote ls (rs_type r) (rs_class r) (rs_ttl r) (contents t') (b_used t) ys (b_used t')"
proof -
  obtain ys out where o: "rendered env r order (rds_items lb m r) ys"
      "towiresorted env lb m r owner c t order part options countp = Some out"
      "towire_outcome wrote ls r c t ys part countp out"
    using rdata_renderer.towiresorted_ok [OF assms(1-13)] by blast
  have "mset ys = mset (rds_items lb m r)" using o(1) by (simp add: rendered_def)
  then have "\<not> b_length t < b_used t + (\<Sum>x \<leftarrow> ys. rec_size ls x)" using assms(14) sum_list_perm [of ys] by (simp add: not_less)
  moreover obtain res r' c' t' n where out: "out = (res, r', c', t', n)" by (cases out)
  ultimately have "res = ISC_R_SUCCESS" "written (sensitive c) wrote ls r t t' ys" "n = countp + length ys"
      "take (b_used t) (contents t') = contents t"
    using o(3) by (auto simp: towire_outcome_def)
  then show ?thesis using o(1,2) out by (auto simp: written_def)
qed

text \<open>Two addresses in a list, and the environment of the examples.\<close>

definition ex_a :: dns_rdata where
  "ex_a = \<lparr>rd_data = Some [192, 0, 2, 1], rd_class = 1, rd_type = 1, rd_flags = 0\<rparr>"

definition ex_rdataset :: dns_rdataset where
  "ex_rdataset = dns_rdataset_init\<lparr>rs_methods := Some Rdatalist_methods, rs_class := 1, rs_type := 1, rs_ttl := 60,
     rs_count := 1, rs_private1 := Some [ex_a, ex_a\<lparr>rd_data := Some [192, 0, 2, 2]\<rparr>]\<rparr>"

definition ex_env :: wire_env where
  "ex_env = \<lparr>we_alloc = \<lambda>_. True, we_getmem = True, we_random = \<lambda>_. 0, we_qsort = msort,
     we_switch = known_switch (\<lambda>_ _. None) (\<lambda>_. True), we_dnssec = \<lambda>_. False\<rparr>"

definition ex_target :: "nat \<Rightarrow> isc_buffer" where
  "ex_target n = isc_buffer_init (replicate n 0) n"

lemma ex_target_ok: "n < 65536 \<Longrightarrow> writes_ok (dns_compress_init 0, ex_target n) []"
  by (simp add: writes_ok_def init_ok ex_target_def buffer_ok_init)

lemma ex_rdataset_ok:
  "rds_valid m ex_rdataset" "rds_items lb m ex_rdataset = [ex_a, ex_a\<lparr>rd_data := Some [192, 0, 2, 2]\<rparr>]"
  "\<forall>x \<in> set (rds_items lb m ex_rdataset). rdata_form x" "order_fits None xs"
  "rs_attributes ex_rdataset AND DNS_RDATASETATTR_QUESTION = 0" "rs_attributes ex_rdataset AND DNS_RDATASETATTR_NEGATIVE = 0"
  by (simp_all add: ex_rdataset_def rds_valid_def rds_items_def rdatalist_valid_def rdatalist_items_def dns_rdataset_init_def
      ex_a_def dns_rdata_validflags_def order_fits_def rdata_form_def modelled_type_def rd_length_def rd_bytes_def)

lemma ex_sizes: "(\<Sum>x \<leftarrow> rds_items lb m ex_rdataset. rec_size ex_labels x) = 28 + 2 * length (name_wire ex_labels)"
  by (simp add: ex_rdataset_ok rec_size_def rd_length_def rd_bytes_def ex_a_def)

lemma ex_name_ok: "represents (name_of ex_labels) ex_labels" "abs_labels ex_labels"
  by (rule represents_name_of [OF ex_labels_wf(1)]) (simp add: ex_labels_def abs_labels_def)

theorem towiresorted_completes_witness:
  "\<exists>r' c' t'. towiresorted ex_env True [] ex_rdataset (name_of ex_labels) (dns_compress_init 0) (ex_target 512) None False 0 0 =
      Some (ISC_R_SUCCESS, r', c', t', 2) \<and>
    rrs_at False wire_of ex_labels 1 1 60 (contents t') 0 [ex_a\<lparr>rd_data := Some [192, 0, 2, 2]\<rparr>, ex_a] (b_used t')"
proof -
  have e: "we_alloc ex_env = (\<lambda>_. True)" "we_switch ex_env = known_switch (\<lambda>_ _. None) (\<lambda>_. True)" "c_qsort (we_qsort ex_env)"
    by (simp_all add: ex_env_def merge_sort.c_qsort_axioms)
  have t: "writes_ok (dns_compress_init 0, ex_target 512) []" "b_length (ex_target 512) < 65536"
      "b_used (ex_target 512) + (\<Sum>x \<leftarrow> rds_items True [] ex_rdataset. rec_size ex_labels x) \<le> b_length (ex_target 512)"
    unfolding ex_sizes by (simp_all add: ex_target_ok) (simp_all add: ex_target_def isc_buffer_init_def ex_labels_def)
  obtain ys r' c' t' where o: "rendered ex_env ex_rdataset None (rds_items True [] ex_rdataset) ys"
      "towiresorted ex_env True [] ex_rdataset (name_of ex_labels) (dns_compress_init 0) (ex_target 512) None False 0 0 =
        Some (ISC_R_SUCCESS, r', c', t', 0 + length ys)"
      "rrs_at (sensitive (dns_compress_init 0)) wire_of ex_labels (rs_type ex_rdataset) (rs_class ex_rdataset)
        (rs_ttl ex_rdataset) (contents t') (b_used (ex_target 512)) ys (b_used t')"
    using towiresorted_completes [OF known_renderer.rdata_renderer_axioms e ex_name_ok ex_rdataset_ok(1,3,4,5,6) t,
        of False 0 0] by blast
  have "ys = [ex_a\<lparr>rd_data := Some [192, 0, 2, 2]\<rparr>, ex_a]"
    using o(1) unfolding ex_rdataset_ok(2)
    by (simp add: rendered_def cyclic_start_def ex_rdataset_def dns_rdataset_init_def dns_rdatatype_rrsig_def MAX_SHUFFLE_def
        WANT_FIXED_def WANT_RANDOM_def rotate_drop_take)
  then show ?thesis
    using o(2,3) by (simp add: sensitive_def dns_compress_init_def ex_rdataset_def ex_target_def isc_buffer_init_def)
qed



end
