(* ===== verification/Answer.thy ===== *)
theory Answer
  imports Towire
begin

text \<open>
  The way of an rdataset from the database into an answer: \<open>bind_rdataset\<close> of \<^verbatim>\<open>lib/dns/rbtdb.c\<close>, which makes a handle of the
  slab behind a header, the table of \<^verbatim>\<open>rrset-order\<close> statements of \<^verbatim>\<open>lib/dns/order.c\<close>, and \<open>query_addrdataset\<close> of
  \<^verbatim>\<open>bin/named/query.c\<close>, which looks the order up.

  A header lies at a position of the memory object that holds its slab.  Of the fields of a header those are represented that
  binding uses.  The database (\<open>private1\<close>) and the proof of the closest encloser (\<open>private7\<close>) have no field in the model of the
  handle.  A node has its two counters of references.
\<close>

section \<open>Headers and handles\<close>

definition RBTDB_RDATATYPE_BASE :: "nat \<Rightarrow> nat" where "RBTDB_RDATATYPE_BASE type = type mod 65536"
definition RBTDB_RDATATYPE_EXT :: "nat \<Rightarrow> nat" where "RBTDB_RDATATYPE_EXT type = type div 65536"

definition RDATASET_ATTR_NXDOMAIN :: "16 word" where "RDATASET_ATTR_NXDOMAIN = 0x10"
definition RDATASET_ATTR_RESIGN :: "16 word" where "RDATASET_ATTR_RESIGN = 0x20"
definition RDATASET_ATTR_OPTOUT :: "16 word" where "RDATASET_ATTR_OPTOUT = 0x80"
definition RDATASET_ATTR_NEGATIVE :: "16 word" where "RDATASET_ATTR_NEGATIVE = 0x100"

definition DNS_RDATASETATTR_NXDOMAIN :: u32 where "DNS_RDATASETATTR_NXDOMAIN = 0x2000"
definition DNS_RDATASETATTR_NOQNAME :: u32 where "DNS_RDATASETATTR_NOQNAME = 0x4000"
definition DNS_RDATASETATTR_RESIGN :: u32 where "DNS_RDATASETATTR_RESIGN = 0x40000"
definition DNS_RDATASETATTR_CLOSEST :: u32 where "DNS_RDATASETATTR_CLOSEST = 0x80000"
definition DNS_RDATASETATTR_OPTOUT :: u32 where "DNS_RDATASETATTR_OPTOUT = 0x100000"

record rdatasetheader =
  hd_ttl :: nat
  hd_type :: nat
  hd_attributes :: "16 word"
  hd_trust :: nat
  hd_noqname :: "nat option"
  hd_closest :: "nat option"
  hd_count :: u32
  hd_resign :: nat

record node_refs =
  nr_deadlinked :: bool
  nr_references :: u32
  nr_lockrefs :: u32

definition new_reference :: "node_refs \<Rightarrow> node_refs option" where
  "new_reference refs =
     (if nr_deadlinked refs then None
      else let noderefs = nr_references refs + 1;
               refs1 = refs\<lparr>nr_references := noderefs\<rparr>
           in if noderefs = 1
              then let lockrefs = nr_lockrefs refs1 + 1
                   in if lockrefs \<noteq> 0 then Some (refs1\<lparr>nr_lockrefs := lockrefs\<rparr>) else None
              else if noderefs \<noteq> 0 then Some refs1 else None)"

definition set_if :: "bool \<Rightarrow> u32 \<Rightarrow> u32 \<Rightarrow> u32" where
  "set_if b attr attributes = (if b then attributes OR attr else attributes)"

definition bind_rdataset :: "nat \<Rightarrow> nat \<Rightarrow> nat \<Rightarrow> nat \<Rightarrow> node_refs \<Rightarrow> rdatasetheader \<Rightarrow> nat \<Rightarrow> dns_rdataset option \<Rightarrow>
    (node_refs \<times> rdatasetheader \<times> dns_rdataset option) option" where
  "bind_rdataset sizeof_header rdclass node hpos refs header now rdataset =
     (case rdataset of
        None \<Rightarrow> Some (refs, header, None)
      | Some r \<Rightarrow>
          do { refs \<leftarrow> new_reference refs;
               if rs_methods r \<noteq> None then None
               else let raw = hpos + sizeof_header;
                        flag = \<lambda>attr. hd_attributes header AND attr \<noteq> 0;
                        r1 = r\<lparr>rs_methods := Some Rbtdb_methods, rs_class := rdclass,
                               rs_type := RBTDB_RDATATYPE_BASE (hd_type header), rs_covers := RBTDB_RDATATYPE_EXT (hd_type header),
                               rs_ttl := u32_sub (hd_ttl header) now, rs_trust := hd_trust header,
                               rs_attributes := set_if (flag RDATASET_ATTR_OPTOUT) DNS_RDATASETATTR_OPTOUT
                                 (set_if (flag RDATASET_ATTR_NXDOMAIN) DNS_RDATASETATTR_NXDOMAIN
                                   (set_if (flag RDATASET_ATTR_NEGATIVE) DNS_RDATASETATTR_NEGATIVE (rs_attributes r))),
                               rs_private2 := Some node, rs_private3 := Some raw,
                               rs_count := (if hd_count header = - 1 then 0 else hd_count header),
                               rs_privateuint4 := 0, rs_private5 := None, rs_private6 := hd_noqname header\<rparr>;
                        r2 = r1\<lparr>rs_attributes := set_if (flag RDATASET_ATTR_RESIGN) DNS_RDATASETATTR_RESIGN
                                  (set_if (hd_closest header \<noteq> None) DNS_RDATASETATTR_CLOSEST
                                    (set_if (hd_noqname header \<noteq> None) DNS_RDATASETATTR_NOQNAME (rs_attributes r1))),
                                rs_resign := (if flag RDATASET_ATTR_RESIGN then hd_resign header else 0)\<rparr>
                    in Some (refs, header\<lparr>hd_count := hd_count header + 1\<rparr>, Some r2) })"

section \<open>The order of rdatasets\<close>

definition dns_rdatatype_any :: nat where "dns_rdatatype_any = 255"
definition dns_rdataclass_any :: nat where "dns_rdataclass_any = 255"

record dns_order_ent =
  oe_name :: dns_name
  oe_rdclass :: nat
  oe_rdtype :: nat
  oe_mode :: u32

record dns_order =
  or_magic :: bool
  or_references :: nat
  or_ents :: "dns_order_ent list"

text \<open>The argument says if memory can be had, and the other what \<open>isc_refcount_init\<close> returns.\<close>

definition dns_order_create :: "bool \<Rightarrow> isc_result \<Rightarrow> isc_result \<times> dns_order option" where
  "dns_order_create getmem refcount_init =
     (if \<not> getmem then (ISC_R_NOMEMORY, None)
      else if refcount_init \<noteq> ISC_R_SUCCESS then (refcount_init, None)
      else (ISC_R_SUCCESS, Some \<lparr>or_magic = True, or_references = 1, or_ents = []\<rparr>))"

text \<open>An entry has the memory of its name in itself: \<open>data\<close> is what the allocator gives for it.\<close>

definition dns_order_add :: "mem option \<Rightarrow> dns_order \<Rightarrow> dns_name \<Rightarrow> nat \<Rightarrow> nat \<Rightarrow> u32 \<Rightarrow> (isc_result \<times> dns_order) option" where
  "dns_order_add data order name rdtype rdclass mode =
     (if or_magic order \<and> (mode = DNS_RDATASETATTR_RANDOMIZE \<or> mode = DNS_RDATASETATTR_FIXEDORDER \<or> mode = 0)
      then case data of
             None \<Rightarrow> Some (ISC_R_NOMEMORY, order)
           | Some bs \<Rightarrow>
               do { (result, ename, _) \<leftarrow> dns_name_copy name (dns_name_init (Some [])) (isc_buffer_init bs DNS_NAME_MAXWIRE);
                    if result = ISC_R_SUCCESS
                    then Some (ISC_R_SUCCESS, order\<lparr>or_ents := or_ents order @
                           [\<lparr>oe_name = ename, oe_rdclass = rdclass, oe_rdtype = rdtype, oe_mode = mode\<rparr>]\<rparr>)
                    else None }
      else None)"

definition order_match :: "dns_name \<Rightarrow> dns_name \<Rightarrow> bool option" where
  "order_match name1 name2 =
     do { wild \<leftarrow> dns_name_iswildcard name2;
          if wild then dns_name_matcheswildcard name1 name2 else dns_name_equal name1 name2 }"

fun order_find_loop :: "dns_order_ent list \<Rightarrow> dns_name \<Rightarrow> nat \<Rightarrow> nat \<Rightarrow> u32 option" where
  "order_find_loop [] name rdtype rdclass = Some 0"
| "order_find_loop (ent # ents) name rdtype rdclass =
     (if oe_rdtype ent \<noteq> rdtype \<and> oe_rdtype ent \<noteq> dns_rdatatype_any then order_find_loop ents name rdtype rdclass
      else if oe_rdclass ent \<noteq> rdclass \<and> oe_rdclass ent \<noteq> dns_rdataclass_any then order_find_loop ents name rdtype rdclass
      else do { m \<leftarrow> order_match name (oe_name ent);
                if m then Some (oe_mode ent) else order_find_loop ents name rdtype rdclass })"

definition dns_order_find :: "dns_order \<Rightarrow> dns_name \<Rightarrow> nat \<Rightarrow> nat \<Rightarrow> u32 option" where
  "dns_order_find order name rdtype rdclass =
     (if or_magic order then order_find_loop (or_ents order) name rdtype rdclass else None)"

definition dns_order_attach :: "dns_order \<Rightarrow> dns_order option" where
  "dns_order_attach source =
     (if or_magic source \<and> or_references source > 0
      then Some (source\<lparr>or_references := or_references source + 1\<rparr>) else None)"

text \<open>The last reference frees the object.\<close>

definition dns_order_detach :: "dns_order \<Rightarrow> dns_order option option" where
  "dns_order_detach order =
     (if or_magic order \<and> or_references order > 0
      then if or_references order - 1 \<noteq> 0 then Some (Some (order\<lparr>or_references := or_references order - 1\<rparr>))
           else Some None
      else None)"

section \<open>Adding to the answer\<close>

text \<open>
  The list of the rdatasets of \<open>fname\<close>, the order of the view and the client's wish for no additional data are arguments.  The
  callback for additional data, which works on the client \<open>s\<close>, is \<open>add\<close>.
\<close>

definition query_addrdataset :: "(dns_rdata \<Rightarrow> 's \<Rightarrow> (isc_result \<times> 's) option) \<Rightarrow> bool \<Rightarrow> mem \<Rightarrow> dns_order option \<Rightarrow> bool \<Rightarrow>
    dns_name \<Rightarrow> dns_rdataset list \<Rightarrow> dns_rdataset \<Rightarrow> 's \<Rightarrow> (dns_rdataset list \<times> 's) option" where
  "query_addrdataset add lb m order noadditional fname fnlist rdataset s =
     do { mode \<leftarrow> (case order of None \<Rightarrow> Some 0
                    | Some order \<Rightarrow> dns_order_find order fname (rs_type rdataset) (rs_class rdataset));
          let r = rdataset\<lparr>rs_attributes := rs_attributes rdataset OR mode OR DNS_RDATASETATTR_LOADORDER\<rparr>;
          if noadditional then Some (fnlist @ [r], s)
          else do { (_, r, s) \<leftarrow> dns_rdataset_additionaldata add lb m r s;
                    Some (fnlist @ [r], s) } }"

section \<open>Looking the order up\<close>

text \<open>
  The specification: a table is a list of patterns, and the first one that fits counts.  A pattern that begins with an asterisk
  fits the names strictly below the rest, any other only itself.
\<close>

type_synonym order_table = "(label list \<times> nat \<times> nat \<times> u32) list"

definition fits :: "label list \<Rightarrow> nat \<Rightarrow> nat \<Rightarrow> label list \<times> nat \<times> nat \<times> u32 \<Rightarrow> bool" where
  "fits ls rdtype rdclass = (\<lambda>(ws, t, c, mode). (t = rdtype \<or> t = dns_rdatatype_any) \<and> (c = rdclass \<or> c = dns_rdataclass_any) \<and>
     (if hd ws = [0x2a] then suffix (low (tl ws)) (low ls) \<and> low ls \<noteq> low (tl ws) else low ls = low ws))"

definition order_mode :: "order_table \<Rightarrow> label list \<Rightarrow> nat \<Rightarrow> nat \<Rightarrow> u32" where
  "order_mode es ls rdtype rdclass = (case find (fits ls rdtype rdclass) es of None \<Rightarrow> 0 | Some (_, _, _, mode) \<Rightarrow> mode)"

definition ent_as :: "dns_order_ent \<Rightarrow> label list \<times> nat \<times> nat \<times> u32 \<Rightarrow> bool" where
  "ent_as ent = (\<lambda>(ws, t, c, mode). represents (oe_name ent) ws \<and> abs_labels ws \<and> oe_rdtype ent = t \<and> oe_rdclass ent = c \<and>
     oe_mode ent = mode)"

definition order_as :: "dns_order \<Rightarrow> order_table \<Rightarrow> bool" where
  "order_as order es \<longleftrightarrow> or_magic order \<and> or_references order > 0 \<and> list_all2 ent_as (or_ents order) es"

lemma order_match_ok:
  assumes "represents name ls" "abs_labels ls" "represents wname ws" "abs_labels ws"
  shows "order_match name wname =
    Some (if hd ws = [0x2a] then suffix (low (tl ws)) (low ls) \<and> low ls \<noteq> low (tl ws) else low ls = low ws)"
proof -
  have "ws \<noteq> []" using assms(4) by (auto simp: abs_labels_def)
  then show ?thesis
    using iswildcard_ok [OF assms(3)] matcheswildcard_ok [OF assms(1,3,2,4)] equal_ok [OF assms(1,3)] assms(2,4)
    by (simp add: order_match_def)
qed

lemma order_find_loop_ok:
  assumes "represents name ls" "abs_labels ls"
  shows "list_all2 ent_as ents es \<Longrightarrow> order_find_loop ents name rdtype rdclass = Some (order_mode es ls rdtype rdclass)"
proof (induction ents arbitrary: es)
  case (Cons ent ents)
  then obtain ws t c mode es' where es: "es = (ws, t, c, mode) # es'" "ent_as ent (ws, t, c, mode)" "list_all2 ent_as ents es'"
    by (auto simp: list_all2_Cons1)
  note m = order_match_ok [OF assms, of "oe_name ent" ws]
  show ?case
    using es(2) m Cons.IH [OF es(3)] by (auto simp: es(1) ent_as_def order_mode_def fits_def)
qed (simp add: order_mode_def)

lemma order_find_ok:
  assumes "represents name ls" "abs_labels ls" "order_as order es"
  shows "dns_order_find order name rdtype rdclass = Some (order_mode es ls rdtype rdclass)"
  using order_find_loop_ok [OF assms(1,2), of "or_ents order" es] assms(3) by (simp add: dns_order_find_def order_as_def)

text \<open>Adding a statement appends to the table; copies of the name and of the reference are kept.\<close>

lemma copy_offsets_ok:
  assumes "represents source ls" "nm_magic d" "nm_ndata d = name_wire ls" "nm_labels d = length ls" "is_abs d \<longleftrightarrow> abs_labels ls"
  shows "\<exists>d'. copy_offsets source d = Some d' \<and> represents d' ls \<and> nm_length d' = length (name_wire ls)"
proof -
  note s = representsD [OF assms(1)]
  have offs: "take (length ls) offs = map (name_off ls) [0..<length ls]" if "nm_offsets source = Some offs" for offs
    using assms(1) that by (simp add: represents_def)
  show ?thesis
    using assms(2-5) s(2,4) offs set_offsets_ok [OF s(2) assms(3,4)]
    by (cases "nm_offsets source") (auto intro!: representsI simp: copy_offsets_def is_abs_def)
qed

lemma order_add_ok:
  assumes "order_as order es" "represents name ls" "abs_labels ls" "length bs = 255"
    and "mode = DNS_RDATASETATTR_RANDOMIZE \<or> mode = DNS_RDATASETATTR_FIXEDORDER \<or> mode = 0"
  shows "\<exists>order'. dns_order_add (Some bs) order name rdtype rdclass mode = Some (ISC_R_SUCCESS, order') \<and>
    order_as order' (es @ [(ls, rdtype, rdclass, mode)])"
proof -
  note n = representsD [OF assms(2)]
  let ?t = "isc_buffer_init bs DNS_NAME_MAXWIRE"
  let ?d = "(dns_name_init (Some []))\<lparr>nm_ndata := nm_ndata name, nm_labels := nm_labels name,
    nm_attributes := (if nm_attributes name AND DNS_NAMEATTR_ABSOLUTE \<noteq> 0 then DNS_NAMEATTR_ABSOLUTE else 0)\<rparr>"
  have t: "buffer_ok ?t" "b_used ?t = 0" "b_length ?t = 255" "b_base ?t = bs"
    using assms(4) by (auto simp: buffer_ok_init DNS_NAME_MAXWIRE_def) (simp_all add: isc_buffer_init_def DNS_NAME_MAXWIRE_def)
  have fit: "b_used ?t + length (nm_ndata name) \<le> b_length ?t" using t n(6) by (simp add: n(3))
  have ne: "0 < length ls" using assms(3) by (auto simp: abs_labels_def)
  obtain d where d: "copy_offsets name ?d = Some d" "represents d ls" "nm_length d = length (name_wire ls)"
    using copy_offsets_ok [OF assms(2), of ?d] n by (auto simp: dns_name_init_def is_abs_def)
  have "dns_name_copy name (dns_name_init (Some [])) ?t = Some (ISC_R_SUCCESS, d, appended ?t (nm_ndata name))"
    using add_after_store [OF t(1) fit] d(1,3) n ne fit t(2,3)
    by (simp add: dns_name_copy_def dns_name_init_def BINDABLE_def n(3) Let_def)
  then show ?thesis
    using assms(1,3,5) d(2) by (auto simp: dns_order_add_def order_as_def ent_as_def list_all2_appendI)
qed

section \<open>The handle of an answer\<close>

text \<open>Fetching additional data moves the cursor of the rdataset only, and it ends.\<close>

lemma additionaldata_loop_ok:
  assumes "\<And>x s. add x s \<noteq> None"
  shows "rds_valid m r \<Longrightarrow> rds_at lb m r i \<Longrightarrow> Suc (i + n) = length (rds_items lb m r) \<Longrightarrow>
    \<exists>res r' s'. additionaldata_loop add lb m r s = Some (res, r', s') \<and> same_set r r'"
proof (induction n arbitrary: i r s)
  case (0 i r s)
  then obtain r' where r': "dns_rdataset_next lb m r = Some (ISC_R_NOMORE, r')"
    using rds_cursor.next_none [OF 0(1,2)] by auto
  obtain res s' where a: "add (rds_items lb m r ! i) s = Some (res, s')" using assms by (metis option.exhaust prod.exhaust)
  show ?case
    using rds_cursor.current_item [OF 0(1,2)] 0(3) a r' dns_rdataset_next_same [OF r']
    by (subst additionaldata_loop.simps) (auto simp: same_set_def)
next
  case (Suc n i r s)
  then obtain r' where r': "dns_rdataset_next lb m r = Some (ISC_R_SUCCESS, r')" "rds_valid m r'"
      "rds_items lb m r' = rds_items lb m r" "rds_at lb m r' (Suc i)"
    using rds_cursor.next_some [OF Suc.prems(1,2)] by auto
  obtain res s' where a: "add (rds_items lb m r ! i) s = Some (res, s')" using assms by (metis option.exhaust prod.exhaust)
  obtain res2 r2 s2 where l: "additionaldata_loop add lb m r' s' = Some (res2, r2, s2)" "same_set r' r2"
    using Suc.IH [OF r'(2,4), of s'] Suc.prems(3) r'(3) by auto
  have "same_set r r2" using l(2) dns_rdataset_next_same [OF r'(1)] by (simp add: same_set_def)
  then show ?case
    using rds_cursor.current_item [OF Suc.prems(1,2)] Suc.prems(3) a r' l
    by (subst additionaldata_loop.simps) (auto simp: same_set_def)
qed

lemma additionaldata_ok:
  assumes "\<And>x s. add x s \<noteq> None" "rds_valid m r" "rs_attributes r AND DNS_RDATASETATTR_QUESTION = 0"
  shows "\<exists>res r' s'. dns_rdataset_additionaldata add lb m r s = Some (res, r', s') \<and> same_set r r'"
proof (cases "rds_items lb m r")
  case Nil
  then obtain r' where "dns_rdataset_first lb m r = Some (ISC_R_NOMORE, r')" using rds_cursor.first_none [OF assms(2)] by blast
  then show ?thesis
    using assms(2,3) dns_rdataset_first_same by (fastforce simp: dns_rdataset_additionaldata_def rds_valid_def)
next
  case (Cons x xs)
  then obtain r1 where r1: "dns_rdataset_first lb m r = Some (ISC_R_SUCCESS, r1)" "rds_valid m r1"
      "rds_items lb m r1 = x # xs" "rds_at lb m r1 0"
    using rds_cursor.first_some [OF assms(2), of lb] by auto
  obtain res r' s' where l: "additionaldata_loop add lb m r1 s = Some (res, r', s')" "same_set r1 r'"
    using additionaldata_loop_ok [where add = add and n = "length xs", OF assms(1) r1(2,4), of s] r1(3) by auto
  then show ?thesis
    using assms(2,3) r1(1) dns_rdataset_first_same [OF r1(1)]
    by (auto simp: dns_rdataset_additionaldata_def rds_valid_def same_set_def)
qed

text \<open>A node that can take another reference.\<close>

definition referable :: "node_refs \<Rightarrow> bool" where
  "referable refs \<longleftrightarrow> \<not> nr_deadlinked refs \<and> nr_references refs \<noteq> - 1 \<and> nr_lockrefs refs \<noteq> - 1"

lemma new_reference_ok:
  assumes "referable refs"
  shows "\<exists>refs'. new_reference refs = Some refs' \<and> nr_references refs' = nr_references refs + 1"
proof -
  have "w + 1 \<noteq> 0" if "w \<noteq> - 1" for w :: u32 using that by (metis add_eq_0_iff2)
  then show ?thesis using assms by (auto simp: new_reference_def referable_def Let_def)
qed

text \<open>
  Binding a fresh handle to a header that is not a negative entry: it reads the slab behind the header, with what is left of
  the TTL.
\<close>

lemma set_if_and: "set_if b attr a AND c = set_if b (attr AND c) (a AND c)"
  by (simp add: set_if_def bit.conj_disj_distrib2)

lemma set_if_0 [simp]: "set_if b 0 a = a" "set_if False attr a = a"
  by (simp_all add: set_if_def)

lemmas attr_defs = DNS_RDATASETATTR_QUESTION_def DNS_RDATASETATTR_NEGATIVE_def DNS_RDATASETATTR_FIXEDORDER_def
  DNS_RDATASETATTR_NXDOMAIN_def DNS_RDATASETATTR_NOQNAME_def DNS_RDATASETATTR_RESIGN_def DNS_RDATASETATTR_CLOSEST_def
  DNS_RDATASETATTR_OPTOUT_def DNS_RDATASETATTR_LOADORDER_def

lemma bind_rdataset_ok:
  assumes "referable refs" "hd_attributes header AND RDATASET_ATTR_NEGATIVE = 0"
  obtains refs' r where "bind_rdataset sizeof_header rdclass node hpos refs header now (Some dns_rdataset_init) =
      Some (refs', header\<lparr>hd_count := hd_count header + 1\<rparr>, Some r)"
    "nr_references refs' = nr_references refs + 1" "rs_magic r" "rs_methods r = Some Rbtdb_methods" "rs_class r = rdclass"
    "rs_type r = hd_type header mod 65536" "rs_ttl r = u32_sub (hd_ttl header) now" "rs_private3 r = Some (hpos + sizeof_header)"
    "rs_attributes r AND DNS_RDATASETATTR_QUESTION = 0" "rs_attributes r AND DNS_RDATASETATTR_NEGATIVE = 0"
proof -
  obtain refs' where refs': "new_reference refs = Some refs'" "nr_references refs' = nr_references refs + 1"
    using new_reference_ok [OF assms(1)] by blast
  show thesis
    by (rule that [of refs' "the (snd (snd (the (bind_rdataset sizeof_header rdclass node hpos refs header now (Some dns_rdataset_init)))))"])
      (simp_all add: bind_rdataset_def refs' dns_rdataset_init_def Let_def RBTDB_RDATATYPE_BASE_def set_if_and attr_defs assms(2))
qed

lemma query_addrdataset_ok:
  assumes "\<And>x s. add x s \<noteq> None" "rds_valid m r" "rs_attributes r AND DNS_RDATASETATTR_QUESTION = 0"
    and "represents fname ls" "abs_labels ls" "order_as order es"
    and "order_mode es ls (rs_type r) (rs_class r) = DNS_RDATASETATTR_FIXEDORDER"
  shows "\<exists>r' s'. query_addrdataset add lb m (Some order) noadditional fname fnlist r s = Some (fnlist @ [r'], s') \<and>
    same_set (r\<lparr>rs_attributes := rs_attributes r OR DNS_RDATASETATTR_FIXEDORDER OR DNS_RDATASETATTR_LOADORDER\<rparr>) r'"
proof -
  let ?r = "r\<lparr>rs_attributes := rs_attributes r OR DNS_RDATASETATTR_FIXEDORDER OR DNS_RDATASETATTR_LOADORDER\<rparr>"
  have find: "dns_order_find order fname (rs_type r) (rs_class r) = Some DNS_RDATASETATTR_FIXEDORDER"
    using order_find_ok [OF assms(4-6)] assms(7) by simp
  have v: "rds_valid m ?r" using assms(2) by (auto simp: rds_valid_def slab_valid_def rdatalist_valid_def split: option.splits rdataset_methods.splits)
  have q: "rs_attributes ?r AND DNS_RDATASETATTR_QUESTION = 0"
    using assms(3) by (simp add: bit.conj_disj_distrib2) (simp add: attr_defs)
  obtain res r' s' where "dns_rdataset_additionaldata add lb m ?r s = Some (res, r', s')" "same_set ?r r'"
    using additionaldata_ok [where add = add, OF assms(1) v q] by blast
  then show ?thesis
    using find by (cases noadditional) (auto simp: query_addrdataset_def Let_def same_set_def)
qed

end
