(* ===== verification/Name_Text.thy ===== *)
theory Name_Text
  imports Name_Decode
begin

text \<open>
  Names as text: \<open>dns_name_fromtext\<close>, \<open>dns_name_totext2\<close> with its wrappers, and \<open>dns_name_tofilenametext\<close> of \<^verbatim>\<open>lib/dns/name.c\<close>.
  Reading is a state machine over the characters of the source, which writes the name into the memory of the target byte by
  byte and stores the length of a label when the label ends.

  The type \<^verbatim>\<open>char\<close> is signed, as on the platform of the profiler: an index \<open>(int)c\<close> for a character above 127 lies before the
  table \<open>maptolower\<close>, which is \<open>None\<close>.  A filter that a thread may have set for the text of names, and what the initialisation of
  the thread key returns, are arguments.  A name that an error leaves empty uses no entry of its table of offsets, so the table
  keeps its value in the model.
\<close>

section \<open>From text\<close>

datatype ft_state = ft_init | ft_start | ft_ordinary | ft_initialescape | ft_escape | ft_escdecimal | ft_at

text \<open>
  The local variables.  \<open>t_label\<close> is the position of \<open>label\<close> in the target; \<open>ndata\<close> is always \<open>t_nused\<close> bytes from the start
  \<open>t_pos\<close> of the free part of the target.  The table of offsets has 128 elements.
\<close>

record ft =
  t_state :: ft_state
  t_label :: nat
  t_value :: nat
  t_count :: nat
  t_digits :: nat
  t_nrem :: nat
  t_nused :: nat
  t_labels :: nat
  t_tused :: nat
  t_done :: bool
  t_offsets :: "nat list"
  t_mem :: mem
  t_pos :: nat

type_synonym ft_result = "(isc_result option \<times> ft) option"

text \<open>\<open>*ndata++ = c; nrem--; nused++;\<close>\<close>

definition ft_put :: "ft \<Rightarrow> u8 \<Rightarrow> ft option" where
  "ft_put s c =
     do { m \<leftarrow> mem_wr (t_mem s) (t_pos s + t_nused s) [c];
          Some (s\<lparr>t_mem := m, t_nrem := t_nrem s - 1, t_nused := t_nused s + 1\<rparr>) }"

text \<open>\<open>offsets[labels] = nused;\<close>\<close>

definition ft_offset :: "ft \<Rightarrow> ft option" where
  "ft_offset s =
     (if t_labels s < 128 \<and> t_labels s \<le> length (t_offsets s)
      then Some (s\<lparr>t_offsets := take (t_labels s) (t_offsets s) @ [t_nused s] @ drop (t_labels s + 1) (t_offsets s)\<rparr>)
      else None)"

text \<open>The end of a label: its length is stored.\<close>

definition ft_endlabel :: "ft \<Rightarrow> ft option" where
  "ft_endlabel s =
     do { m \<leftarrow> mem_wr (t_mem s) (t_label s) [word_of_nat (t_count s)];
          let s1 = s\<lparr>t_mem := m, t_labels := t_labels s + 1\<rparr>;
          if t_labels s1 \<le> 127 then ft_offset s1 else None }"

definition lower_char :: "bool \<Rightarrow> u8 \<Rightarrow> u8 option" where
  "lower_char downcase c = (if downcase then if c < 128 then Some (maptolower c) else None else Some c)"

text \<open>A character of a label.\<close>

definition ft_char :: "bool \<Rightarrow> u8 \<Rightarrow> ft \<Rightarrow> ft_result" where
  "ft_char downcase c s =
     (if t_count s \<ge> 63 then Some (Some DNS_R_LABELTOOLONG, s)
      else do { c \<leftarrow> lower_char downcase c;
                s \<leftarrow> ft_put (s\<lparr>t_count := t_count s + 1\<rparr>) c;
                Some (None, s\<lparr>t_state := ft_ordinary\<rparr>) })"

text \<open>The cases of the switch from the last to the first, each falls through to the one before.\<close>

definition isdigit :: "u8 \<Rightarrow> bool" where
  "isdigit c \<longleftrightarrow> 0x30 \<le> c \<and> c \<le> 0x39"

definition ft_do_escdecimal :: "bool \<Rightarrow> u8 \<Rightarrow> ft \<Rightarrow> ft_result" where
  "ft_do_escdecimal downcase c s =
     (if \<not> isdigit c then Some (Some DNS_R_BADESCAPE, s)
      else let s1 = s\<lparr>t_value := t_value s * 10 + unat (c - 0x30), t_digits := t_digits s + 1\<rparr>
           in if t_digits s1 = 3
              then if t_value s1 > 255 then Some (Some DNS_R_BADESCAPE, s1)
                   else if t_count s1 \<ge> 63 then Some (Some DNS_R_LABELTOOLONG, s1)
                   else do { let v = word_of_nat (t_value s1);
                             s2 \<leftarrow> ft_put (s1\<lparr>t_count := t_count s1 + 1\<rparr>) (if downcase then maptolower v else v);
                             Some (None, s2\<lparr>t_state := ft_ordinary\<rparr>) }
              else Some (None, s1))"

definition ft_do_escape :: "bool \<Rightarrow> u8 \<Rightarrow> ft \<Rightarrow> ft_result" where
  "ft_do_escape downcase c s =
     (if \<not> isdigit c then ft_char downcase c s
      else ft_do_escdecimal downcase c (s\<lparr>t_digits := 0, t_value := 0, t_state := ft_escdecimal\<rparr>))"

definition ft_do_initialescape :: "bool \<Rightarrow> u8 \<Rightarrow> ft \<Rightarrow> ft_result" where
  "ft_do_initialescape downcase c s =
     (if c = 0x5b then Some (Some DNS_R_BADLABELTYPE, s) else ft_do_escape downcase c (s\<lparr>t_state := ft_escape\<rparr>))"

definition ft_do_ordinary :: "bool \<Rightarrow> nat \<Rightarrow> u8 \<Rightarrow> ft \<Rightarrow> ft_result" where
  "ft_do_ordinary downcase tlen c s =
     (if c = 0x2e
      then if t_count s = 0 then Some (Some DNS_R_EMPTYLABEL, s)
           else do { s1 \<leftarrow> ft_endlabel s;
                     s2 \<leftarrow> (if tlen = 0
                            then do { s2 \<leftarrow> ft_put (s1\<lparr>t_labels := t_labels s1 + 1\<rparr>) 0; Some (s2\<lparr>t_done := True\<rparr>) }
                            else Some s1);
                     Some (None, s2\<lparr>t_state := ft_start\<rparr>) }
      else if c = 0x5c then Some (None, s\<lparr>t_state := ft_escape\<rparr>)
      else ft_char downcase c s)"

definition ft_do_start :: "bool \<Rightarrow> nat \<Rightarrow> u8 \<Rightarrow> ft \<Rightarrow> ft_result" where
  "ft_do_start downcase tlen c s =
     (let s1 = s\<lparr>t_label := t_pos s + t_nused s, t_nrem := t_nrem s - 1, t_nused := t_nused s + 1, t_count := 0\<rparr>
      in if c = 0x5c then Some (None, s1\<lparr>t_state := ft_initialescape\<rparr>)
         else let s2 = s1\<lparr>t_state := ft_ordinary\<rparr>
              in if t_nrem s2 = 0 then Some (Some ISC_R_NOSPACE, s2) else ft_do_ordinary downcase tlen c s2)"

definition ft_do_init :: "bool \<Rightarrow> nat \<Rightarrow> u8 \<Rightarrow> ft \<Rightarrow> ft_result" where
  "ft_do_init downcase tlen c s =
     (if c = 0x2e
      then if tlen \<noteq> 0 then Some (Some DNS_R_EMPTYLABEL, s)
           else do { s1 \<leftarrow> ft_put (s\<lparr>t_labels := t_labels s + 1\<rparr>) 0; Some (None, s1\<lparr>t_done := True\<rparr>) }
      else if c = 0x40 \<and> tlen = 0 then Some (None, s\<lparr>t_state := ft_at\<rparr>)
      else ft_do_start downcase tlen c s)"

text \<open>One round for the character \<open>c\<close>, with \<open>tlen\<close> characters after it, and the loop.\<close>

definition ft_step :: "bool \<Rightarrow> nat \<Rightarrow> u8 \<Rightarrow> ft \<Rightarrow> ft_result" where
  "ft_step downcase tlen c s =
     (let s1 = s\<lparr>t_tused := t_tused s + 1\<rparr>
      in case t_state s of
           ft_init \<Rightarrow> ft_do_init downcase tlen c s1
         | ft_start \<Rightarrow> ft_do_start downcase tlen c s1
         | ft_ordinary \<Rightarrow> ft_do_ordinary downcase tlen c s1
         | ft_initialescape \<Rightarrow> ft_do_initialescape downcase c s1
         | ft_escape \<Rightarrow> ft_do_escape downcase c s1
         | ft_escdecimal \<Rightarrow> ft_do_escdecimal downcase c s1
         | ft_at \<Rightarrow> None)"

fun ft_loop :: "bool \<Rightarrow> u8 list \<Rightarrow> ft \<Rightarrow> (isc_result option \<times> nat \<times> ft) option" where
  "ft_loop downcase [] s = Some (None, 0, s)"
| "ft_loop downcase (c # text) s =
     (if t_nrem s > 0 \<and> \<not> t_done s
      then do { (e, s) \<leftarrow> ft_step downcase (length text) c s;
                if e = None then ft_loop downcase text s else Some (e, length text, s) }
      else Some (None, length (c # text), s))"

text \<open>The labels of the origin, copied one by one; \<open>ndata\<close> is what is left of it.\<close>

fun ft_copy :: "bool \<Rightarrow> u8 list \<Rightarrow> ft \<Rightarrow> ft option" where
  "ft_copy downcase [] s = Some s"
| "ft_copy downcase (c # cs) s =
     do { c \<leftarrow> lower_char downcase c;
          m \<leftarrow> mem_wr (t_mem s) (t_pos s + t_nused s) [c];
          ft_copy downcase cs (s\<lparr>t_mem := m, t_nused := t_nused s + 1\<rparr>) }"

function (sequential) ft_origin :: "bool \<Rightarrow> u8 list \<Rightarrow> ft \<Rightarrow> ft option" where
  "ft_origin downcase [] s = Some s"
| "ft_origin downcase (b # ndata) s =
     (let n2 = unat b
      in if n2 \<le> 63 \<and> n2 \<le> length ndata
         then do { m \<leftarrow> mem_wr (t_mem s) (t_pos s + t_nused s) [b];
                   s1 \<leftarrow> ft_copy downcase (take n2 ndata) (s\<lparr>t_mem := m, t_nused := t_nused s + 1\<rparr>);
                   let s2 = s1\<lparr>t_labels := t_labels s1 + 1\<rparr>;
                   s3 \<leftarrow> (if length (drop n2 ndata) > 0 then if t_labels s2 \<le> 127 then ft_offset s2 else None else Some s2);
                   ft_origin downcase (drop n2 ndata) s3 }
         else None)"
  by pat_completeness auto
termination by (relation "measure (\<lambda>(_, ndata, _). length ndata)") auto

definition ft_begin :: "isc_buffer \<Rightarrow> ft" where
  "ft_begin target =
     \<lparr>t_state = ft_init, t_label = 0, t_value = 0, t_count = 0, t_digits = 0,
      t_nrem = min 255 (isc_buffer_availablelength target), t_nused = 0, t_labels = 0, t_tused = 0, t_done = False,
      t_offsets = [0], t_mem = b_base target, t_pos = b_used target\<rparr>"

text \<open>After the loop: the result code, if the function returns early, whether the name is absolute, and the state.\<close>

definition ft_end :: "bool \<Rightarrow> dns_name option \<Rightarrow> nat \<Rightarrow> ft \<Rightarrow> (isc_result option \<times> bool \<times> ft) option" where
  "ft_end downcase origin tlen s =
     (if t_done s then Some (None, True, s)
      else if t_nrem s = 0 then Some (Some ISC_R_NOSPACE, False, s)
      else if tlen \<noteq> 0 then None
      else if t_state s \<noteq> ft_ordinary \<and> t_state s \<noteq> ft_at then Some (Some ISC_R_UNEXPECTEDEND, False, s)
      else do { s1 \<leftarrow> (if t_state s = ft_ordinary then if t_count s \<noteq> 0 then ft_endlabel s else None else Some s);
                case origin of
                  None \<Rightarrow> Some (None, False, s1)
                | Some origin \<Rightarrow>
                    if t_nrem s1 < nm_length origin then Some (Some ISC_R_NOSPACE, False, s1)
                    else do { s2 \<leftarrow> ft_origin downcase (nm_ndata origin) (s1\<lparr>t_nrem := t_nrem s1 - nm_length origin\<rparr>);
                              Some (None, nm_attributes origin AND DNS_NAMEATTR_ABSOLUTE \<noteq> 0, s2) } })"

text \<open>\<open>dns_name_fromtext\<close> for a target that is given; \<open>source\<close> and \<open>target\<close> are different buffers.\<close>

definition dns_name_fromtext :: "dns_name \<Rightarrow> isc_buffer \<Rightarrow> dns_name option \<Rightarrow> u32 \<Rightarrow> isc_buffer \<Rightarrow>
    (isc_result \<times> dns_name \<times> isc_buffer \<times> isc_buffer) option" where
  "dns_name_fromtext name source origin options target =
     (if nm_magic name \<and> b_magic source \<and> b_magic target \<and> BINDABLE name
      then do { let downcase = (options AND DNS_NAME_DOWNCASE \<noteq> 0);
                let empty = MAKE_EMPTY name;
                text \<leftarrow> mem_blk (b_base source) (b_current source) (isc_buffer_remaininglength source);
                (e, tlen, s) \<leftarrow> ft_loop downcase text (ft_begin target);
                (e, absolute, s) \<leftarrow> (if e = None then ft_end downcase origin tlen s else Some (e, False, s));
                case e of
                  Some result \<Rightarrow> Some (result, empty, source, target\<lparr>b_base := t_mem s\<rparr>)
                | None \<Rightarrow>
                    do { ndata \<leftarrow> mem_blk (t_mem s) (b_used target) (t_nused s);
                         let n = empty\<lparr>nm_ndata := ndata, nm_labels := t_labels s,
                               nm_attributes := (if absolute then nm_attributes empty OR DNS_NAMEATTR_ABSOLUTE
                                                 else nm_attributes empty),
                               nm_offsets := (if nm_offsets name = None then None else Some (t_offsets s))\<rparr>;
                         source \<leftarrow> isc_buffer_forward source (t_tused s);
                         target \<leftarrow> isc_buffer_add (target\<lparr>b_base := t_mem s\<rparr>) (nm_length n);
                         Some (ISC_R_SUCCESS, n, source, target) } }
      else None)"

section \<open>To text\<close>

definition DNS_NAME_OMITFINALDOT :: u32 where "DNS_NAME_OMITFINALDOT = 0x1"
definition DNS_NAME_MASTERFILE :: u32 where "DNS_NAME_MASTERFILE = 0x2"

definition DNS_NAME_MAXTEXT :: nat where "DNS_NAME_MAXTEXT = 1023"

definition totext_char :: "u32 \<Rightarrow> u8 \<Rightarrow> u8 list" where
  "totext_char options c =
     (if c \<in> {0x22, 0x28, 0x29, 0x2e, 0x3b, 0x5c} \<or> (c \<in> {0x40, 0x24} \<and> options AND DNS_NAME_MASTERFILE \<noteq> 0)
      then [0x5c, c]
      else if 0x20 < c \<and> c < 0x7f then [c]
      else [0x5c, 0x30 + c div 100 mod 10, 0x30 + c div 10 mod 10, 0x30 + c mod 10])"

text \<open>The characters of a label at position \<open>p\<close>, with \<open>trem\<close> bytes of room.\<close>

fun totext_label :: "u32 \<Rightarrow> u8 list \<Rightarrow> mem \<Rightarrow> nat \<Rightarrow> nat \<Rightarrow> (isc_result option \<times> mem \<times> nat \<times> nat) option" where
  "totext_label options [] m p trem = Some (None, m, p, trem)"
| "totext_label options (c # cs) m p trem =
     (let bs = totext_char options c
      in if trem < length bs then Some (Some ISC_R_NOSPACE, m, p, trem)
         else do { m \<leftarrow> mem_wr m p bs; totext_label options cs m (p + length bs) (trem - length bs) })"

text \<open>The loop: an error, if the root was seen, what is left of the name, and memory, position and room.\<close>

fun totext_loop :: "u32 \<Rightarrow> nat \<Rightarrow> u8 list \<Rightarrow> mem \<Rightarrow> nat \<Rightarrow> nat \<Rightarrow>
    (isc_result option \<times> bool \<times> nat \<times> mem \<times> nat \<times> nat) option" where
  "totext_loop options 0 ndata m p trem = Some (None, False, length ndata, m, p, trem)"
| "totext_loop options (Suc labels) ndata m p trem =
     (if ndata = [] \<or> trem = 0 then Some (None, False, length ndata, m, p, trem)
      else let cnt = unat (hd ndata); rest = tl ndata
           in if cnt = 0 then Some (None, True, length rest, m, p, trem)
              else if cnt < 64
              then if length rest < cnt then None
                   else do { (e, m, p, trem) \<leftarrow> totext_label options (take cnt rest) m p trem;
                             if e \<noteq> None then Some (e, False, 0, m, p, trem)
                             else if trem = 0 then Some (Some ISC_R_NOSPACE, False, 0, m, p, trem)
                             else do { m \<leftarrow> mem_wr m p [0x2e];
                                       totext_loop options labels (drop cnt rest) m (p + 1) (trem - 1) } }
              else None)"

text \<open>The single character of an empty name or of the root.\<close>

definition totext_single :: "u8 \<Rightarrow> mem \<Rightarrow> nat \<Rightarrow> nat \<Rightarrow> (isc_result option \<times> bool \<times> nat \<times> mem \<times> nat \<times> nat) option" where
  "totext_single c m p trem =
     (if trem = 0 then Some (Some ISC_R_NOSPACE, False, 0, m, p, trem)
      else do { m \<leftarrow> mem_wr m p [c]; Some (None, True, 0, m, p + 1, trem - 1) })"

type_synonym totextfilter = "isc_buffer \<Rightarrow> nat \<Rightarrow> bool \<Rightarrow> (isc_result \<times> isc_buffer) option"

definition dns_name_totext2 :: "isc_result \<Rightarrow> totextfilter option \<Rightarrow> dns_name \<Rightarrow> u32 \<Rightarrow> isc_buffer \<Rightarrow> (isc_result \<times> isc_buffer) option" where
  "dns_name_totext2 keyinit totext_filter_proc name options target =
     (if nm_magic name \<and> b_magic target
      then if keyinit \<noteq> ISC_R_SUCCESS then Some (keyinit, target)
           else do {
             let tlen = isc_buffer_availablelength target;
             let empty = (nm_labels name = 0 \<and> nm_length name = 0);
             let root = (nm_length name = 1 \<and> nm_labels name = 1 \<and> nm_ndata name ! 0 = 0);
             let omit_final_dot = (options AND DNS_NAME_OMITFINALDOT \<noteq> 0 \<and> \<not> empty \<and> \<not> root);
             (e, saw_root, nlen, m, _, trem) \<leftarrow>
               (if empty then totext_single 0x40 (b_base target) (b_used target) tlen
                else if root then totext_single 0x2e (b_base target) (b_used target) tlen
                else totext_loop options (nm_labels name) (nm_ndata name) (b_base target) (b_used target) tlen);
             case e of
               Some result \<Rightarrow> Some (result, target\<lparr>b_base := m\<rparr>)
             | None \<Rightarrow>
                 if nlen \<noteq> 0 \<and> trem = 0 then Some (ISC_R_NOSPACE, target\<lparr>b_base := m\<rparr>)
                 else do { let trem = (if \<not> saw_root \<or> omit_final_dot then trem + 1 else trem);
                           t \<leftarrow> isc_buffer_add (target\<lparr>b_base := m\<rparr>) (u32_sub tlen trem);
                           case totext_filter_proc of
                             None \<Rightarrow> Some (ISC_R_SUCCESS, t)
                           | Some proc \<Rightarrow> proc t (b_used target) saw_root } }
      else None)"

definition dns_name_totext :: "isc_result \<Rightarrow> totextfilter option \<Rightarrow> dns_name \<Rightarrow> bool \<Rightarrow> isc_buffer \<Rightarrow> (isc_result \<times> isc_buffer) option" where
  "dns_name_totext keyinit totext_filter_proc name omit_final_dot target =
     dns_name_totext2 keyinit totext_filter_proc name
       (if omit_final_dot then DNS_NAME_MASTERFILE OR DNS_NAME_OMITFINALDOT else DNS_NAME_MASTERFILE) target"

definition dns_name_toprincipal :: "isc_result \<Rightarrow> totextfilter option \<Rightarrow> dns_name \<Rightarrow> isc_buffer \<Rightarrow> (isc_result \<times> isc_buffer) option" where
  "dns_name_toprincipal keyinit totext_filter_proc name target = dns_name_totext2 keyinit totext_filter_proc name DNS_NAME_OMITFINALDOT target"

section \<open>To a file name\<close>

definition hex_digit :: "u8 \<Rightarrow> u8" where
  "hex_digit d = (if d < 10 then 0x30 + d else 0x41 + (d - 10))"

definition filename_plain :: "u8 \<Rightarrow> bool" where
  "filename_plain c \<longleftrightarrow> (0x30 \<le> c \<and> c \<le> 0x39) \<or> (0x41 \<le> c \<and> c \<le> 0x5a) \<or> (0x61 \<le> c \<and> c \<le> 0x7a) \<or> c = 0x2d \<or> c = 0x5f"

text \<open>\<^verbatim>\<open>sprintf\<close> ends the three characters of an escape with a zero.\<close>

fun filename_label :: "u8 list \<Rightarrow> mem \<Rightarrow> nat \<Rightarrow> nat \<Rightarrow> (isc_result option \<times> mem \<times> nat \<times> nat) option" where
  "filename_label [] m p trem = Some (None, m, p, trem)"
| "filename_label (c # cs) m p trem =
     (if filename_plain c
      then if trem = 0 then Some (Some ISC_R_NOSPACE, m, p, trem)
           else do { m \<leftarrow> mem_wr m p [if 0x41 \<le> c \<and> c \<le> 0x5a then c + 0x20 else c];
                     filename_label cs m (p + 1) (trem - 1) }
      else if trem < 3 then Some (Some ISC_R_NOSPACE, m, p, trem)
      else do { m \<leftarrow> mem_wr m p [0x25, hex_digit (c div 16), hex_digit (c mod 16), 0];
                filename_label cs m (p + 3) (trem - 3) })"

fun filename_loop :: "nat \<Rightarrow> u8 list \<Rightarrow> mem \<Rightarrow> nat \<Rightarrow> nat \<Rightarrow> (isc_result option \<times> nat \<times> mem \<times> nat \<times> nat) option" where
  "filename_loop 0 ndata m p trem = Some (None, length ndata, m, p, trem)"
| "filename_loop (Suc labels) ndata m p trem =
     (if ndata = [] \<or> trem = 0 then Some (None, length ndata, m, p, trem)
      else let cnt = unat (hd ndata); rest = tl ndata
           in if cnt = 0 then Some (None, length rest, m, p, trem)
              else if cnt < 64
              then if length rest < cnt then None
                   else do { (e, m, p, trem) \<leftarrow> filename_label (take cnt rest) m p trem;
                             if e \<noteq> None then Some (e, 0, m, p, trem)
                             else if trem = 0 then Some (Some ISC_R_NOSPACE, 0, m, p, trem)
                             else do { m \<leftarrow> mem_wr m p [0x2e];
                                       filename_loop labels (drop cnt rest) m (p + 1) (trem - 1) } }
              else None)"

definition dns_name_tofilenametext :: "dns_name \<Rightarrow> bool \<Rightarrow> isc_buffer \<Rightarrow> (isc_result \<times> isc_buffer) option" where
  "dns_name_tofilenametext name omit_final_dot target =
     (if nm_magic name \<and> nm_attributes name AND DNS_NAMEATTR_ABSOLUTE \<noteq> 0 \<and> b_magic target
      then do { let tlen = isc_buffer_availablelength target;
                let root = (nm_length name = 1 \<and> nm_labels name = 1 \<and> nm_ndata name ! 0 = 0);
                (e, nlen, m, _, trem) \<leftarrow>
                  (if root
                   then if tlen = 0 then Some (Some ISC_R_NOSPACE, 0, b_base target, b_used target, tlen)
                        else do { m \<leftarrow> mem_wr (b_base target) (b_used target) [0x2e];
                                  Some (None, 0, m, b_used target + 1, tlen - 1) }
                   else filename_loop (nm_labels name) (nm_ndata name) (b_base target) (b_used target) tlen);
                case e of
                  Some result \<Rightarrow> Some (result, target\<lparr>b_base := m\<rparr>)
                | None \<Rightarrow>
                    if nlen \<noteq> 0 \<and> trem = 0 then Some (ISC_R_NOSPACE, target\<lparr>b_base := m\<rparr>)
                    else do { let trem = (if omit_final_dot \<and> \<not> root then trem + 1 else trem);
                              t \<leftarrow> isc_buffer_add (target\<lparr>b_base := m\<rparr>) (u32_sub tlen trem);
                              Some (ISC_R_SUCCESS, t) } }
      else None)"

text \<open>The zero that ends an escape is not counted: it is stored behind the end of a target that is full.\<close>

lemma tofilenametext_overflow:
  "dns_name_tofilenametext (name_of [[0x20], []]) False (isc_buffer_init [0, 0, 0] 3) = None"
  "dns_name_tofilenametext (name_of [[0x20], []]) False (isc_buffer_init [0, 0, 0, 0] 3) = Some (ISC_R_NOSPACE, isc_buffer_init [0x25, 0x32, 0x30, 0] 3)"
  by (simp_all add: dns_name_tofilenametext_def name_of_def enc_label_def isc_buffer_init_def isc_buffer_availablelength_def
      abs_labels_def filename_plain_def hex_digit_def mem_wr_def Let_def)

section \<open>The state of reading\<close>

text \<open>
  The memory of the target: \<open>out\<close> has been written behind \<open>pre\<close>, where there is room for \<open>nmax\<close> bytes; the memory has
  \<open>len\<close> bytes behind \<open>pre\<close>.
\<close>

definition ft_frame :: "u8 list \<Rightarrow> nat \<Rightarrow> ft \<Rightarrow> bool" where
  "ft_frame pre len s \<longleftrightarrow> take (length pre) (t_mem s) = pre \<and> length (t_mem s) = length pre + len"

definition ft_holds :: "nat \<Rightarrow> nat \<Rightarrow> u8 list \<Rightarrow> u8 list \<Rightarrow> ft \<Rightarrow> bool" where
  "ft_holds nmax len pre out s \<longleftrightarrow> nmax \<le> 255 \<and> nmax \<le> len \<and> t_pos s = length pre \<and> t_nused s = length out \<and>
     t_nused s + t_nrem s = nmax \<and> (\<exists>post. t_mem s = pre @ out @ post \<and> length out + length post = len)"

definition good_labels :: "label list \<Rightarrow> bool" where
  "good_labels ls \<longleftrightarrow> [] \<notin> set ls \<and> (\<forall>l \<in> set ls. length l \<le> 63)"

definition ft_labels :: "ft \<Rightarrow> label list \<Rightarrow> bool" where
  "ft_labels s ls \<longleftrightarrow> good_labels ls \<and> t_labels s = length ls \<and> t_offsets s = offs_of (ls @ [[]])"

text \<open>Before a label, in a label and at the end.\<close>

definition ft_between :: "nat \<Rightarrow> nat \<Rightarrow> u8 list \<Rightarrow> ft \<Rightarrow> label list \<Rightarrow> bool" where
  "ft_between nmax len pre s ls \<longleftrightarrow> ft_holds nmax len pre (name_wire ls) s \<and> ft_labels s ls \<and> \<not> t_done s"

definition ft_inside :: "nat \<Rightarrow> nat \<Rightarrow> u8 list \<Rightarrow> ft \<Rightarrow> label list \<Rightarrow> label \<Rightarrow> bool" where
  "ft_inside nmax len pre s ls cur \<longleftrightarrow> (\<exists>g. ft_holds nmax len pre (name_wire ls @ g # cur) s) \<and> ft_labels s ls \<and> \<not> t_done s \<and>
     t_label s = length pre + length (name_wire ls) \<and> t_count s = length cur \<and> length cur \<le> 63"

definition ft_finished :: "nat \<Rightarrow> nat \<Rightarrow> u8 list \<Rightarrow> ft \<Rightarrow> label list \<Rightarrow> bool" where
  "ft_finished nmax len pre s ls \<longleftrightarrow> ft_holds nmax len pre (name_wire (ls @ [[]])) s \<and> good_labels ls \<and> t_done s \<and>
     t_labels s = length ls + 1 \<and> t_offsets s = offs_of (ls @ [[]])"

lemmas ft_shape_defs = ft_between_def ft_inside_def ft_finished_def

lemma ft_holds_frame: "ft_holds nmax len pre out s \<Longrightarrow> ft_frame pre len s"
  by (auto simp: ft_holds_def ft_frame_def)

lemma ft_inside_frame: "ft_inside nmax len pre s ls cur \<Longrightarrow> ft_frame pre len s"
  using ft_holds_frame by (auto simp: ft_inside_def)

lemma ft_between_frame: "ft_between nmax len pre s ls \<Longrightarrow> ft_frame pre len s"
  using ft_holds_frame by (auto simp: ft_between_def)

text \<open>These only look at some of the variables.\<close>

lemma ft_shape_cong [simp]:
  "ft_holds nmax len pre out (s\<lparr>t_state := st\<rparr>) = ft_holds nmax len pre out s"
  "ft_holds nmax len pre out (s\<lparr>t_tused := n\<rparr>) = ft_holds nmax len pre out s"
  "ft_between nmax len pre (s\<lparr>t_state := st\<rparr>) ls = ft_between nmax len pre s ls"
  "ft_between nmax len pre (s\<lparr>t_tused := n\<rparr>) ls = ft_between nmax len pre s ls"
  "ft_inside nmax len pre (s\<lparr>t_state := st\<rparr>) ls cur = ft_inside nmax len pre s ls cur"
  "ft_inside nmax len pre (s\<lparr>t_tused := n\<rparr>) ls cur = ft_inside nmax len pre s ls cur"
  "ft_inside nmax len pre (s\<lparr>t_digits := d, t_value := v\<rparr>) ls cur = ft_inside nmax len pre s ls cur"
  "ft_inside nmax len pre (s\<lparr>t_value := v, t_digits := d\<rparr>) ls cur = ft_inside nmax len pre s ls cur"
  "ft_finished nmax len pre (s\<lparr>t_state := st\<rparr>) ls = ft_finished nmax len pre s ls"
  "ft_finished nmax len pre (s\<lparr>t_tused := n\<rparr>) ls = ft_finished nmax len pre s ls"
  by (simp_all add: ft_shape_defs ft_holds_def ft_labels_def)

lemma ft_put_ok:
  assumes "ft_holds nmax len pre out s" "0 < t_nrem s"
  shows "\<exists>m. ft_put s c = Some (s\<lparr>t_mem := m, t_nrem := t_nrem s - 1, t_nused := t_nused s + 1\<rparr>) \<and>
    ft_holds nmax len pre (out @ [c]) (s\<lparr>t_mem := m, t_nrem := t_nrem s - 1, t_nused := t_nused s + 1\<rparr>)"
proof -
  obtain post where p: "t_mem s = pre @ out @ post" "length out + length post = len" using assms(1) by (auto simp: ft_holds_def)
  then obtain x post' where x: "post = x # post'" using assms by (cases post) (auto simp: ft_holds_def)
  have "mem_wr (t_mem s) (t_pos s + t_nused s) [c] = Some (pre @ (out @ [c]) @ post')"
    using mem_wr_mid [of "t_pos s + t_nused s" "pre @ out" "[c]" "[x]" post'] assms(1) p x by (simp add: ft_holds_def)
  then show ?thesis using assms p x by (auto simp: ft_put_def ft_holds_def)
qed

lemma ft_char_ok:
  assumes "ft_inside nmax len pre s ls cur" "length cur < 63" "0 < t_nrem s"
  shows "\<exists>s'. ft_put (s\<lparr>t_count := t_count s + 1\<rparr>) d = Some s' \<and> ft_inside nmax len pre s' ls (cur @ [d]) \<and> t_tused s' = t_tused s"
proof -
  obtain g where g: "ft_holds nmax len pre (name_wire ls @ g # cur) (s\<lparr>t_count := t_count s + 1\<rparr>)"
    using assms(1) by (auto simp: ft_inside_def ft_holds_def)
  obtain m where "ft_put (s\<lparr>t_count := t_count s + 1\<rparr>) d =
      Some (s\<lparr>t_count := t_count s + 1, t_mem := m, t_nrem := t_nrem s - 1, t_nused := t_nused s + 1\<rparr>)"
    "ft_holds nmax len pre ((name_wire ls @ g # cur) @ [d])
       (s\<lparr>t_count := t_count s + 1, t_mem := m, t_nrem := t_nrem s - 1, t_nused := t_nused s + 1\<rparr>)"
    using ft_put_ok [OF g, of d] assms(3) by auto
  then show ?thesis using assms(1,2) by (auto simp: ft_inside_def ft_labels_def)
qed

lemma good_labels_small:
  assumes "good_labels ls"
  shows "2 * length ls \<le> length (name_wire ls)"
  using assms length_name_wire_ge by (simp add: good_labels_def)

lemma ft_offset_next:
  assumes "t_offsets s = offs_of (ls @ [[]])" "t_labels s = length ls + 1" "t_labels s < 128" "length (name_wire (ls @ [l])) = t_nused s"
  shows "ft_offset s = Some (s\<lparr>t_offsets := offs_of (ls @ [l] @ [[]])\<rparr>)"
  using assms by (simp add: ft_offset_def offs_of_snoc [of "ls @ [l]", simplified] offs_of_snoc)

lemma ft_endlabel_ok:
  assumes "ft_inside nmax len pre s ls cur" "cur \<noteq> []"
  shows "\<exists>s'. ft_endlabel s = Some s' \<and> ft_between nmax len pre s' (ls @ [cur]) \<and> t_tused s' = t_tused s \<and>
    t_state s' = t_state s \<and> t_nrem s' = t_nrem s"
proof -
  obtain g where h: "ft_holds nmax len pre (name_wire ls @ g # cur) s" and
    i: "ft_labels s ls" "\<not> t_done s" "t_label s = length pre + length (name_wire ls)" "t_count s = length cur" "length cur \<le> 63"
    using assms(1) by (auto simp: ft_inside_def)
  obtain post where p: "t_mem s = pre @ (name_wire ls @ g # cur) @ post" "length (name_wire ls @ g # cur) + length post = len"
    using h by (auto simp: ft_holds_def)
  let ?m = "pre @ name_wire (ls @ [cur]) @ post"
  have wr: "mem_wr (t_mem s) (t_label s) [word_of_nat (t_count s)] = Some ?m"
    using mem_wr_mid [of "t_label s" "pre @ name_wire ls" "[word_of_nat (t_count s)]" "[g]" "cur @ post"] p(1) i(3,4)
    by (simp add: enc_label_def)
  have good: "good_labels (ls @ [cur])" using i(1,5) assms(2) by (auto simp: ft_labels_def good_labels_def)
  have used: "t_nused s = length (name_wire (ls @ [cur]))" "t_nused s \<le> 255" using h by (auto simp: ft_holds_def)
  then have few: "length ls + 1 \<le> 127" using good_labels_small [OF good] by simp
  let ?s = "s\<lparr>t_mem := ?m, t_labels := t_labels s + 1\<rparr>"
  have "ft_offset ?s = Some (?s\<lparr>t_offsets := offs_of (ls @ [cur] @ [[]])\<rparr>)"
    by (rule ft_offset_next) (use i(1) few used in \<open>simp_all add: ft_labels_def\<close>)
  moreover have "ft_between nmax len pre (?s\<lparr>t_offsets := offs_of (ls @ [cur] @ [[]])\<rparr>) (ls @ [cur])"
    using h i(1,2) good p(2) used by (auto simp: ft_between_def ft_holds_def ft_labels_def)
  ultimately show ?thesis using wr i(1) few by (auto simp: ft_endlabel_def Let_def ft_labels_def)
qed

lemma ft_root_ok:
  assumes "ft_between nmax len pre s ls" "0 < t_nrem s"
  shows "\<exists>s'. do { s1 \<leftarrow> ft_put (s\<lparr>t_labels := t_labels s + 1\<rparr>) 0; Some (s1\<lparr>t_done := True\<rparr>) } = Some s' \<and>
    ft_finished nmax len pre s' ls \<and> t_tused s' = t_tused s"
proof -
  have h: "ft_holds nmax len pre (name_wire ls) (s\<lparr>t_labels := t_labels s + 1\<rparr>)" using assms(1) by (simp add: ft_between_def ft_holds_def)
  obtain m where "ft_put (s\<lparr>t_labels := t_labels s + 1\<rparr>) 0 =
      Some (s\<lparr>t_labels := t_labels s + 1, t_mem := m, t_nrem := t_nrem s - 1, t_nused := t_nused s + 1\<rparr>)"
    "ft_holds nmax len pre (name_wire ls @ [0]) (s\<lparr>t_labels := t_labels s + 1, t_mem := m, t_nrem := t_nrem s - 1, t_nused := t_nused s + 1\<rparr>)"
    using ft_put_ok [OF h, of 0] assms(2) by auto
  then show ?thesis
    using assms(1) by (auto simp: ft_finished_def ft_between_def ft_labels_def ft_holds_def enc_label_def)
qed

section \<open>Every text is handled\<close>

text \<open>The invariant of the loop, with \<open>tlen\<close> characters to come, and what a round gives.\<close>

definition ft_inv :: "nat \<Rightarrow> nat \<Rightarrow> u8 list \<Rightarrow> nat \<Rightarrow> ft \<Rightarrow> bool" where
  "ft_inv nmax len pre tlen s \<longleftrightarrow> (\<exists>ls. ft_finished nmax len pre s ls) \<and> tlen = 0 \<or>
     (case t_state s of
        ft_init \<Rightarrow> ft_between nmax len pre s []
      | ft_at \<Rightarrow> ft_between nmax len pre s [] \<and> tlen = 0
      | ft_start \<Rightarrow> \<exists>ls. ft_between nmax len pre s ls
      | ft_ordinary \<Rightarrow> \<exists>ls cur. ft_inside nmax len pre s ls cur \<and> cur \<noteq> []
      | ft_initialescape \<Rightarrow> \<exists>ls. ft_inside nmax len pre s ls []
      | ft_escape \<Rightarrow> \<exists>ls cur. ft_inside nmax len pre s ls cur
      | ft_escdecimal \<Rightarrow> \<exists>ls cur. ft_inside nmax len pre s ls cur \<and> t_digits s < 3)"

definition ft_errors :: "isc_result set" where
  "ft_errors = {ISC_R_NOSPACE, ISC_R_UNEXPECTEDEND, DNS_R_LABELTOOLONG, DNS_R_BADESCAPE, DNS_R_EMPTYLABEL, DNS_R_BADLABELTYPE}"

definition ft_good :: "nat \<Rightarrow> nat \<Rightarrow> u8 list \<Rightarrow> nat \<Rightarrow> nat \<Rightarrow> ft_result \<Rightarrow> bool" where
  "ft_good nmax len pre tlen n x \<longleftrightarrow> (case x of
     None \<Rightarrow> False
   | Some (None, s) \<Rightarrow> ft_inv nmax len pre tlen s \<and> t_tused s = n
   | Some (Some res, s) \<Rightarrow> res \<in> ft_errors \<and> ft_frame pre len s)"

lemma ft_good_error:
  "res \<in> ft_errors \<Longrightarrow> ft_frame pre len s \<Longrightarrow> ft_good nmax len pre tlen n (Some (Some res, s))"
  by (simp add: ft_good_def)

lemma ft_good_ordinary:
  "ft_inside nmax len pre s ls (cur @ [d]) \<Longrightarrow> ft_good nmax len pre tlen (t_tused s) (Some (None, s\<lparr>t_state := ft_ordinary\<rparr>))"
  by (auto simp: ft_good_def ft_inv_def intro!: exI [of _ ls] exI [of _ "cur @ [d]"])

lemma ft_char_good:
  assumes "ft_inside nmax len pre s ls cur" "0 < t_nrem s" "lower_char downcase c \<noteq> None"
  shows "ft_good nmax len pre tlen (t_tused s) (ft_char downcase c s)"
proof (cases "length cur < 63")
  case True
  obtain d where d: "lower_char downcase c = Some d" using assms(3) by blast
  obtain s' where "ft_put (s\<lparr>t_count := t_count s + 1\<rparr>) d = Some s'" "ft_inside nmax len pre s' ls (cur @ [d])" "t_tused s' = t_tused s"
    using ft_char_ok [OF assms(1) True assms(2), of d] by blast
  then show ?thesis
    using assms(1) True d ft_good_ordinary [of nmax len pre s' ls cur d tlen] by (simp add: ft_char_def ft_inside_def [of _ _ _ s])
next
  case False
  then show ?thesis
    using assms(1) ft_inside_frame [OF assms(1)] by (simp add: ft_char_def ft_good_error ft_inside_def ft_errors_def)
qed

lemma ft_escdecimal_good:
  assumes "ft_inside nmax len pre s ls cur" "0 < t_nrem s" "t_digits s < 3" "t_state s = ft_escdecimal"
  shows "ft_good nmax len pre tlen (t_tused s) (ft_do_escdecimal downcase c s)"
proof -
  let ?s = "s\<lparr>t_value := t_value s * 10 + unat (c - 0x30), t_digits := t_digits s + 1\<rparr>"
  let ?v = "word_of_nat (t_value ?s) :: u8"
  have i: "ft_inside nmax len pre ?s ls cur" using assms(1) by simp
  note f = ft_inside_frame [OF assms(1)] ft_inside_frame [OF i]
  show ?thesis
  proof (cases "isdigit c \<and> t_digits ?s = 3 \<and> t_value ?s \<le> 255 \<and> length cur < 63")
    case True
    define d where "d = (if downcase then maptolower ?v else ?v)"
    obtain s' where p: "ft_put (?s\<lparr>t_count := t_count ?s + 1\<rparr>) d = Some s'" and
        i': "ft_inside nmax len pre s' ls (cur @ [d])" and u: "t_tused s' = t_tused s"
      using ft_char_ok [OF i, of d] True assms(2) by auto
    have "t_count s = length cur" using assms(1) by (simp add: ft_inside_def)
    then have "ft_do_escdecimal downcase c s =
        do { s2 \<leftarrow> ft_put (?s\<lparr>t_count := t_count ?s + 1\<rparr>) d; Some (None, s2\<lparr>t_state := ft_ordinary\<rparr>) }"
      using True by (simp add: ft_do_escdecimal_def Let_def d_def)
    then show ?thesis unfolding p using ft_good_ordinary [OF i'] u by simp
  next
    case False
    then show ?thesis
      using f assms(1,3,4) i
      by (auto simp: ft_do_escdecimal_def Let_def ft_good_def ft_errors_def ft_inv_def ft_inside_def [of _ _ _ s] split: ft_state.splits)
  qed
qed

lemma ft_escape_good:
  assumes "ft_inside nmax len pre s ls cur" "0 < t_nrem s" "lower_char downcase c \<noteq> None"
  shows "ft_good nmax len pre tlen (t_tused s) (ft_do_escape downcase c s)"
proof -
  let ?s = "s\<lparr>t_digits := 0, t_value := 0, t_state := ft_escdecimal\<rparr>"
  have "ft_inside nmax len pre ?s ls cur" using assms(1) by (simp add: ft_inside_def ft_holds_def ft_labels_def)
  then have "ft_good nmax len pre tlen (t_tused ?s) (ft_do_escdecimal downcase c ?s)"
    by (rule ft_escdecimal_good) (use assms(2) in simp_all)
  then show ?thesis using ft_char_good [OF assms] by (simp add: ft_do_escape_def)
qed

lemma ft_ordinary_good:
  assumes "ft_inside nmax len pre s ls cur" "0 < t_nrem s" "lower_char downcase c \<noteq> None"
  shows "ft_good nmax len pre tlen (t_tused s) (ft_do_ordinary downcase tlen c s)"
proof -
  consider (dot) "c = 0x2e" | (esc) "c = 0x5c" | (other) "c \<noteq> 0x2e" "c \<noteq> 0x5c" by blast
  then show ?thesis
  proof cases
    case dot
    show ?thesis
    proof (cases "cur = []")
      case True
      then show ?thesis
        using dot assms(1) ft_inside_frame [OF assms(1)] by (simp add: ft_do_ordinary_def ft_good_error ft_errors_def ft_inside_def)
    next
      case False
      obtain s1 where s1: "ft_endlabel s = Some s1" "ft_between nmax len pre s1 (ls @ [cur])" "t_tused s1 = t_tused s" "t_nrem s1 = t_nrem s"
        using ft_endlabel_ok [OF assms(1) False] by blast
      obtain s2 where s2: "do { s2 \<leftarrow> ft_put (s1\<lparr>t_labels := t_labels s1 + 1\<rparr>) 0; Some (s2\<lparr>t_done := True\<rparr>) } = Some s2"
          "ft_finished nmax len pre s2 (ls @ [cur])" "t_tused s2 = t_tused s1"
        using ft_root_ok [OF s1(2)] s1(4) assms(2) by auto
      then obtain s3 where s3: "ft_put (s1\<lparr>t_labels := t_labels s1 + 1\<rparr>) 0 = Some s3" "s2 = s3\<lparr>t_done := True\<rparr>"
        by (auto split: bind_splits)
      have "t_count s \<noteq> 0" using assms(1) False by (simp add: ft_inside_def)
      then show ?thesis
        using dot s1 s2(2,3) s3 by (cases "tlen = 0") (auto simp: ft_do_ordinary_def ft_good_def ft_inv_def)
    qed
  next
    case esc
    then show ?thesis using assms(1) by (auto simp: ft_do_ordinary_def ft_good_def ft_inv_def)
  next
    case other
    then show ?thesis using ft_char_good [OF assms] by (simp add: ft_do_ordinary_def)
  qed
qed

lemma ft_start_inside:
  assumes "ft_between nmax len pre s ls" "0 < t_nrem s"
  shows "ft_inside nmax len pre (s\<lparr>t_label := t_pos s + t_nused s, t_nrem := t_nrem s - 1, t_nused := t_nused s + 1, t_count := 0\<rparr>) ls []"
proof -
  obtain post where p: "t_mem s = pre @ name_wire ls @ post" "length (name_wire ls) + length post = len"
    using assms(1) by (auto simp: ft_between_def ft_holds_def)
  then obtain x post' where "post = x # post'" using assms by (cases post) (auto simp: ft_between_def ft_holds_def)
  then show ?thesis
    using assms p by (auto simp: ft_between_def ft_holds_def ft_inside_def ft_labels_def intro!: exI [of _ x])
qed

lemma ft_start_good:
  assumes "ft_between nmax len pre s ls" "0 < t_nrem s" "lower_char downcase c \<noteq> None"
  shows "ft_good nmax len pre tlen (t_tused s) (ft_do_start downcase tlen c s)"
proof -
  let ?s = "s\<lparr>t_label := t_pos s + t_nused s, t_nrem := t_nrem s - 1, t_nused := t_nused s + 1, t_count := 0\<rparr>"
  have i: "ft_inside nmax len pre (?s\<lparr>t_state := st\<rparr>) ls []" for st using ft_start_inside [OF assms(1,2)] by simp
  have eq: "ft_do_start downcase tlen c s = (if c = 0x5c then Some (None, ?s\<lparr>t_state := ft_initialescape\<rparr>)
      else if t_nrem s - 1 = 0 then Some (Some ISC_R_NOSPACE, ?s\<lparr>t_state := ft_ordinary\<rparr>)
      else ft_do_ordinary downcase tlen c (?s\<lparr>t_state := ft_ordinary\<rparr>))"
    by (simp add: ft_do_start_def Let_def)
  have "ft_good nmax len pre tlen (t_tused s) (ft_do_ordinary downcase tlen c (?s\<lparr>t_state := ft_ordinary\<rparr>))" if "t_nrem s - 1 \<noteq> 0"
    using ft_ordinary_good [OF i _ assms(3), of ft_ordinary tlen] that by simp
  moreover have "ft_good nmax len pre tlen (t_tused s) (Some (None, ?s\<lparr>t_state := ft_initialescape\<rparr>))"
    using i [of ft_initialescape] by (auto simp: ft_good_def ft_inv_def)
  moreover have "ft_good nmax len pre tlen (t_tused s) (Some (Some ISC_R_NOSPACE, ?s\<lparr>t_state := ft_ordinary\<rparr>))"
    by (rule ft_good_error [OF _ ft_inside_frame [OF i]]) (simp add: ft_errors_def)
  ultimately show ?thesis unfolding eq by presburger
qed

lemma ft_init_good:
  assumes "ft_between nmax len pre s []" "0 < t_nrem s" "lower_char downcase c \<noteq> None"
  shows "ft_good nmax len pre tlen (t_tused s) (ft_do_init downcase tlen c s)"
proof -
  obtain s2 where s2: "do { s2 \<leftarrow> ft_put (s\<lparr>t_labels := t_labels s + 1\<rparr>) 0; Some (s2\<lparr>t_done := True\<rparr>) } = Some s2"
      "ft_finished nmax len pre s2 []" "t_tused s2 = t_tused s"
    using ft_root_ok [OF assms(1,2)] by blast
  then obtain s1 where "ft_put (s\<lparr>t_labels := t_labels s + 1\<rparr>) 0 = Some s1" "s2 = s1\<lparr>t_done := True\<rparr>"
    by (auto split: bind_splits)
  then show ?thesis
    using s2(2,3) assms(1) ft_start_good [OF assms, of tlen] ft_between_frame [OF assms(1)]
    by (auto simp: ft_do_init_def ft_good_def ft_inv_def ft_errors_def)
qed

lemma ft_step_good:
  assumes "ft_inv nmax len pre (Suc tlen) s" "0 < t_nrem s" "lower_char downcase c \<noteq> None"
  shows "ft_good nmax len pre tlen (t_tused s + 1) (ft_step downcase tlen c s)"
proof -
  let ?s = "s\<lparr>t_tused := t_tused s + 1\<rparr>"
  note st = assms(1) [unfolded ft_inv_def, simplified]
  note good = ft_init_good [of nmax len pre ?s downcase c tlen] ft_start_good [of nmax len pre ?s _ downcase c tlen]
    ft_ordinary_good [of nmax len pre ?s _ _ downcase c tlen] ft_escape_good [of nmax len pre ?s _ _ downcase c tlen]
    ft_escdecimal_good [of nmax len pre ?s _ _ tlen downcase c]
  show ?thesis
  proof (cases "t_state s")
    case ft_initialescape
    then obtain ls where i: "ft_inside nmax len pre ?s ls []" using st by auto
    then have "ft_inside nmax len pre (?s\<lparr>t_state := ft_escape\<rparr>) ls []" by simp
    from ft_escape_good [OF this, of downcase c tlen] show ?thesis
      using ft_initialescape assms(2,3) ft_inside_frame [OF i]
      by (auto simp: ft_step_def Let_def ft_do_initialescape_def ft_good_error ft_errors_def)
  qed (use st good assms(2,3) in \<open>auto simp: ft_step_def Let_def\<close>)
qed

lemma ft_goodE:
  assumes "ft_good nmax len pre tlen n x"
  obtains s where "x = Some (None, s)" "ft_inv nmax len pre tlen s" "t_tused s = n"
    | res s where "x = Some (Some res, s)" "res \<in> ft_errors" "ft_frame pre len s"
proof (cases x)
  case (Some p)
  then show ?thesis using assms that by (cases "fst p"; cases p) (auto simp: ft_good_def)
qed (use assms in \<open>simp add: ft_good_def\<close>)

lemma ft_loop_good:
  assumes "\<forall>c \<in> set ts. lower_char downcase c \<noteq> None" "ft_inv nmax len pre (length ts) s"
  shows "\<exists>e tlen s'. ft_loop downcase ts s = Some (e, tlen, s') \<and> (case e of
      None \<Rightarrow> ft_inv nmax len pre tlen s' \<and> t_tused s' + tlen = t_tused s + length ts \<and> (\<not> t_done s' \<and> 0 < t_nrem s' \<longrightarrow> tlen = 0)
    | Some res \<Rightarrow> res \<in> ft_errors \<and> ft_frame pre len s')"
  using assms
proof (induction ts arbitrary: s)
  case (Cons c ts)
  show ?case
  proof (cases "0 < t_nrem s \<and> \<not> t_done s")
    case True
    have inv: "ft_inv nmax len pre (Suc (length ts)) s" using Cons.prems(2) by simp
    have "ft_good nmax len pre (length ts) (t_tused s + 1) (ft_step downcase (length ts) c s)"
      by (rule ft_step_good [OF inv]) (use True Cons.prems(1) in auto)
    then consider (go) s1 where "ft_step downcase (length ts) c s = Some (None, s1)" "ft_inv nmax len pre (length ts) s1"
        "t_tused s1 = t_tused s + 1"
      | (stop) res s1 where "ft_step downcase (length ts) c s = Some (Some res, s1)" "res \<in> ft_errors" "ft_frame pre len s1"
      by (rule ft_goodE) auto
    then show ?thesis
    proof cases
      case go
      then obtain e tlen s' where "ft_loop downcase ts s1 = Some (e, tlen, s')" "case e of
          None \<Rightarrow> ft_inv nmax len pre tlen s' \<and> t_tused s' + tlen = t_tused s1 + length ts \<and> (\<not> t_done s' \<and> 0 < t_nrem s' \<longrightarrow> tlen = 0)
        | Some res \<Rightarrow> res \<in> ft_errors \<and> ft_frame pre len s'"
        using Cons.IH [OF _ go(2)] Cons.prems(1) by auto
      then show ?thesis using go True by (cases e) auto
    next
      case stop
      then show ?thesis using True by auto
    qed
  next
    case False
    then show ?thesis using Cons.prems(2) by auto
  qed
qed auto

text \<open>Copying the origin, which needs no count of what is free.\<close>

definition ft_has :: "nat \<Rightarrow> u8 list \<Rightarrow> u8 list \<Rightarrow> ft \<Rightarrow> bool" where
  "ft_has len pre out s \<longleftrightarrow> t_pos s = length pre \<and> t_nused s = length out \<and>
     (\<exists>post. t_mem s = pre @ out @ post \<and> length out + length post = len)"

lemma ft_holds_has: "ft_holds nmax len pre out s \<Longrightarrow> ft_has len pre out s"
  by (auto simp: ft_holds_def ft_has_def)

lemma ft_has_put:
  assumes "ft_has len pre out s" "length out < len"
  shows "\<exists>m. mem_wr (t_mem s) (t_pos s + t_nused s) [c] = Some m \<and> ft_has len pre (out @ [c]) (s\<lparr>t_mem := m, t_nused := t_nused s + 1\<rparr>)"
proof -
  obtain post where p: "t_mem s = pre @ out @ post" "length out + length post = len" using assms(1) by (auto simp: ft_has_def)
  then obtain x post' where x: "post = x # post'" using assms by (cases post) auto
  have "mem_wr (t_mem s) (t_pos s + t_nused s) [c] = Some (pre @ (out @ [c]) @ post')"
    using mem_wr_mid [of "t_pos s + t_nused s" "pre @ out" "[c]" "[x]" post'] assms(1) p x by (simp add: ft_has_def)
  then show ?thesis using assms p x by (auto simp: ft_has_def)
qed

definition low_if :: "bool \<Rightarrow> label \<Rightarrow> label" where
  "low_if downcase l = (if downcase then map maptolower l else l)"

lemma length_low_if [simp]: "length (low_if downcase l) = length l"
  by (simp add: low_if_def)

lemma ft_copy_ok:
  assumes "ft_has len pre out s" "length out + length cs \<le> len" "\<forall>c \<in> set cs. lower_char downcase c \<noteq> None"
  shows "\<exists>s'. ft_copy downcase cs s = Some s' \<and> ft_has len pre (out @ low_if downcase cs) s' \<and> t_labels s' = t_labels s \<and>
    t_offsets s' = t_offsets s \<and> t_tused s' = t_tused s"
  using assms
proof (induction cs arbitrary: out s)
  case (Cons c cs)
  obtain d where d: "lower_char downcase c = Some d" "low_if downcase (c # cs) = d # low_if downcase cs"
    using Cons.prems(3) by (cases downcase) (auto simp: lower_char_def low_if_def split: if_splits)
  obtain m where m: "mem_wr (t_mem s) (t_pos s + t_nused s) [d] = Some m" "ft_has len pre (out @ [d]) (s\<lparr>t_mem := m, t_nused := t_nused s + 1\<rparr>)"
    using ft_has_put [OF Cons.prems(1)] Cons.prems(2) by force
  obtain s' where "ft_copy downcase cs (s\<lparr>t_mem := m, t_nused := t_nused s + 1\<rparr>) = Some s'"
      "ft_has len pre ((out @ [d]) @ low_if downcase cs) s'" "t_labels s' = t_labels s" "t_offsets s' = t_offsets s" "t_tused s' = t_tused s"
    using Cons.IH [OF m(2)] Cons.prems(2,3) by auto
  then show ?case using d m(1) by auto
qed (simp add: low_if_def)

lemma offs_of_last: "offs_of (ls @ [l]) = offs_of (ls @ [l'])"
  by (simp add: offs_of_snoc)

lemma ft_origin_ok:
  assumes "ft_has len pre (name_wire ls) s" "t_labels s = length ls" "t_offsets s = offs_of (ls @ [[]])"
    and "\<forall>l \<in> set os. length l \<le> 63" "length (ls @ os) \<le> 128" "length (name_wire ls) + length (name_wire os) \<le> len"
    and "\<forall>l \<in> set os. \<forall>c \<in> set l. lower_char downcase c \<noteq> None"
  shows "\<exists>s'. ft_origin downcase (name_wire os) s = Some s' \<and> ft_has len pre (name_wire (ls @ map (low_if downcase) os)) s' \<and>
    t_labels s' = length ls + length os \<and> take (length ls + length os) (t_offsets s') = offs_of (ls @ map (low_if downcase) os) \<and>
    t_tused s' = t_tused s"
  using assms
proof (induction os arbitrary: ls s)
  case Nil
  then show ?case by (auto simp: offs_of_snoc)
next
  case (Cons l os)
  have l: "length l \<le> 63" "\<forall>c \<in> set l. lower_char downcase c \<noteq> None" using Cons.prems(4,7) by auto
  let ?b = "word_of_nat (length l) :: u8" and ?l = "low_if downcase l"
  have room: "length (name_wire ls) + Suc (length l) \<le> len" using Cons.prems(6) by simp
  obtain m where m: "mem_wr (t_mem s) (t_pos s + t_nused s) [?b] = Some m"
      "ft_has len pre (name_wire ls @ [?b]) (s\<lparr>t_mem := m, t_nused := t_nused s + 1\<rparr>)"
    using ft_has_put [OF Cons.prems(1)] room by auto
  obtain s1 where s1: "ft_copy downcase l (s\<lparr>t_mem := m, t_nused := t_nused s + 1\<rparr>) = Some s1"
      "ft_has len pre ((name_wire ls @ [?b]) @ ?l) s1" "t_labels s1 = t_labels s" "t_offsets s1 = t_offsets s" "t_tused s1 = t_tused s"
    using ft_copy_ok [OF m(2) _ l(2)] room by auto
  have wire: "(name_wire ls @ [?b]) @ ?l = name_wire (ls @ [?l])" by (simp add: enc_label_def)
  let ?s2 = "s1\<lparr>t_labels := t_labels s1 + 1\<rparr>"
  have h2: "ft_has len pre (name_wire (ls @ [?l])) ?s2" using s1(2) unfolding wire by (simp add: ft_has_def)
  have u: "unat ?b = length l" "name_wire (l # os) = ?b # l @ name_wire os" using l(1) by (simp_all add: unat_len enc_label_def)
  show ?case
  proof (cases os)
    case Nil
    then have "ft_origin downcase (name_wire (l # os)) s = Some ?s2" using m(1) s1(1) u l(1) by (simp add: Let_def)
    then show ?thesis
      using h2 s1(3-5) Cons.prems(2,3) Nil by (auto simp: offs_of_last [of ls ?l "[]"])
  next
    case more: (Cons a os')
    let ?s3 = "?s2\<lparr>t_offsets := offs_of (ls @ [?l] @ [[]])\<rparr>"
    have off: "ft_offset ?s2 = Some ?s3"
      by (rule ft_offset_next) (use s1(3,4) Cons.prems(2,3,5) more h2 in \<open>simp_all add: ft_has_def\<close>)
    obtain s' where s': "ft_origin downcase (name_wire os) ?s3 = Some s'"
        "ft_has len pre (name_wire ((ls @ [?l]) @ map (low_if downcase) os)) s'" "t_labels s' = length (ls @ [?l]) + length os"
        "take (length (ls @ [?l]) + length os) (t_offsets s') = offs_of ((ls @ [?l]) @ map (low_if downcase) os)" "t_tused s' = t_tused ?s3"
      using Cons.IH [of "ls @ [?l]" ?s3] h2 s1(3) Cons.prems(2,4-7) by (auto simp: ft_has_def)
    have "ft_origin downcase (name_wire (l # os)) s = ft_origin downcase (name_wire os) ?s3"
      using m(1) s1(1,3) u l(1) off Cons.prems(2,5) more by (simp add: Let_def)
    then show ?thesis using s' s1(5) by auto
  qed
qed

lemma length_name_wire_low_if [simp]: "length (name_wire (map (low_if downcase) ls)) = length (name_wire ls)"
  by (induction ls) (simp_all add: enc_label_def)

lemma low_if_Nil [simp]: "low_if downcase l = [] \<longleftrightarrow> l = []" "[] = low_if downcase l \<longleftrightarrow> l = []"
  by (auto simp: low_if_def)

text \<open>What the end gives: an early return, or the labels of a legal name in the target.\<close>

definition ft_named :: "nat \<Rightarrow> u8 list \<Rightarrow> ft \<Rightarrow> bool \<Rightarrow> label list \<Rightarrow> bool" where
  "ft_named len pre s absolute ls \<longleftrightarrow> wf_labels ls \<and> (absolute \<longleftrightarrow> abs_labels ls) \<and> ft_has len pre (name_wire ls) s \<and>
     t_labels s = length ls \<and> take (length ls) (t_offsets s) = offs_of ls"

lemma good_labels_wf: "good_labels ls \<Longrightarrow> length (name_wire ls) \<le> 255 \<Longrightarrow> wf_labels ls \<and> \<not> abs_labels ls"
  by (auto simp: good_labels_def wf_labels_def abs_labels_def DNS_NAME_MAXWIRE_def dest: in_set_butlastD) (metis last_in_set)

lemma name_wire_bytes: "l \<in> set ls \<Longrightarrow> c \<in> set l \<Longrightarrow> c \<in> set (name_wire ls)"
  by (induction ls) (auto simp: enc_label_def)

lemma ft_inv_frame: "ft_inv nmax len pre tlen s \<Longrightarrow> ft_frame pre len s"
  by (auto simp: ft_inv_def ft_finished_def ft_holds_frame dest: ft_between_frame ft_inside_frame split: ft_state.splits)

lemma ft_inv_done: "ft_inv nmax len pre tlen s \<Longrightarrow> t_done s \<Longrightarrow> (\<exists>ls. ft_finished nmax len pre s ls) \<and> tlen = 0"
  by (auto simp: ft_inv_def ft_shape_defs split: ft_state.splits)

lemma ft_holds_small: "ft_holds nmax len pre out s \<Longrightarrow> length out \<le> nmax \<and> nmax \<le> 255 \<and> length out \<le> len"
  by (auto simp: ft_holds_def)

lemma ft_between_named: "ft_between nmax len pre s ls \<Longrightarrow> ft_named len pre s False ls \<and> length (name_wire ls) \<le> nmax"
  using good_labels_wf [of ls] ft_holds_small [of nmax len pre "name_wire ls" s]
  by (auto simp: ft_between_def ft_named_def ft_labels_def offs_of_snoc intro: ft_holds_has)

lemma ft_finished_named: "ft_finished nmax len pre s ls \<Longrightarrow> ft_named len pre s True (ls @ [[]]) \<and> length (name_wire (ls @ [[]])) \<le> nmax"
  using good_labels_wf [of ls] ft_holds_small [of nmax len pre "name_wire (ls @ [[]])" s]
  by (auto simp: ft_finished_def ft_named_def good_labels_def wf_labels_def abs_labels_def DNS_NAME_MAXWIRE_def intro: ft_holds_has)

lemma ft_origin_named:
  assumes "ft_between nmax len pre s ls" "represents origin os" "nm_length origin \<le> t_nrem s"
    and "\<forall>c \<in> set (nm_ndata origin). lower_char downcase c \<noteq> None"
  shows "\<exists>s'. ft_origin downcase (nm_ndata origin) (s\<lparr>t_nrem := t_nrem s - nm_length origin\<rparr>) = Some s' \<and>
    ft_named len pre s' (is_abs origin) (ls @ map (low_if downcase) os) \<and>
    length (name_wire (ls @ map (low_if downcase) os)) \<le> nmax \<and> t_tused s' = t_tused s"
proof -
  have h: "ft_holds nmax len pre (name_wire ls) s" and g: "good_labels ls" "t_labels s = length ls" "t_offsets s = offs_of (ls @ [[]])"
    using assms(1) by (auto simp: ft_between_def ft_labels_def)
  have o: "nm_ndata origin = name_wire os" "wf_labels os" "is_abs origin \<longleftrightarrow> abs_labels os" using assms(2) by (auto simp: represents_def)
  have fit: "length (name_wire ls) + length (name_wire os) \<le> nmax" "nmax \<le> 255" "nmax \<le> len"
    using h assms(3) o(1) by (auto simp: ft_holds_def)
  have wf: "wf_labels (ls @ map (low_if downcase) os)"
    using g(1) o(2) fit by (auto simp: wf_labels_def good_labels_def butlast_append DNS_NAME_MAXWIRE_def simp flip: map_butlast dest: in_set_butlastD)
  have few: "length (ls @ os) \<le> 128" using wf_labels_count [OF wf] by simp
  have low: "\<forall>l \<in> set os. \<forall>c \<in> set l. lower_char downcase c \<noteq> None" using assms(4) o(1) name_wire_bytes by auto
  have has: "ft_has len pre (name_wire ls) (s\<lparr>t_nrem := t_nrem s - nm_length origin\<rparr>)"
    using ft_holds_has [OF h] by (simp add: ft_has_def)
  have abs: "abs_labels (ls @ map (low_if downcase) os) \<longleftrightarrow> abs_labels os"
    using g(1) by (cases "os = []") (auto simp: abs_labels_def good_labels_def last_map, metis last_in_set)
  show ?thesis
    using ft_origin_ok [OF has _ _ _ few _ low] g(2,3) o fit wf abs by (auto simp: ft_named_def wf_labels_def)
qed

lemma ft_end_ok:
  assumes "ft_inv nmax len pre tlen s" "\<not> t_done s \<and> 0 < t_nrem s \<longrightarrow> tlen = 0"
    and "\<forall>o'. origin = Some o' \<longrightarrow> (\<exists>os. represents o' os) \<and> (\<forall>c \<in> set (nm_ndata o'). lower_char downcase c \<noteq> None)"
  shows "\<exists>e absolute s'. ft_end downcase origin tlen s = Some (e, absolute, s') \<and> (case e of
      None \<Rightarrow> (\<exists>ls. ft_named len pre s' absolute ls \<and> length (name_wire ls) \<le> nmax) \<and> t_tused s' = t_tused s \<and> tlen = 0
    | Some res \<Rightarrow> res \<in> ft_errors \<and> ft_frame pre len s')"
proof -
  have *: "\<exists>e absolute s'. (case origin of None \<Rightarrow> Some (None, False, s1)
       | Some o' \<Rightarrow> if t_nrem s1 < nm_length o' then Some (Some ISC_R_NOSPACE, False, s1)
            else do { s2 \<leftarrow> ft_origin downcase (nm_ndata o') (s1\<lparr>t_nrem := t_nrem s1 - nm_length o'\<rparr>);
                      Some (None, nm_attributes o' AND DNS_NAMEATTR_ABSOLUTE \<noteq> 0, s2) }) = Some (e, absolute, s') \<and> (case e of
      None \<Rightarrow> (\<exists>ls. ft_named len pre s' absolute ls \<and> length (name_wire ls) \<le> nmax) \<and> t_tused s' = t_tused s \<and> tlen = 0
    | Some res \<Rightarrow> res \<in> ft_errors \<and> ft_frame pre len s')"
    if b: "ft_between nmax len pre s1 ls" and t: "tlen = 0" "t_tused s1 = t_tused s" for s1 ls
  proof (cases origin)
    case None
    then show ?thesis using ft_between_named [OF b] t by auto
  next
    case (Some o')
    then obtain os where os: "represents o' os" "\<forall>c \<in> set (nm_ndata o'). lower_char downcase c \<noteq> None" using assms(3) by auto
    show ?thesis
    proof (cases "t_nrem s1 < nm_length o'")
      case True
      then show ?thesis using Some ft_between_frame [OF b] by (auto simp: ft_errors_def)
    next
      case False
      then show ?thesis using Some ft_origin_named [OF b os(1) _ os(2)] t
        by (auto simp: is_abs_def intro!: exI [of _ "ls @ map (low_if downcase) os"])
    qed
  qed
  show ?thesis
  proof (cases "t_done s \<or> t_nrem s = 0")
    case True
    then show ?thesis
      using ft_finished_named ft_inv_frame [OF assms(1)] ft_inv_done [OF assms(1)]
      by (cases "t_done s") (simp_all only: ft_end_def ft_errors_def if_True if_False, force, force)
  next
    case False
    then have t: "tlen = 0" using assms(2) by auto
    consider (stop) "t_state s \<noteq> ft_ordinary" "t_state s \<noteq> ft_at" | (at) "t_state s = ft_at" | (ord) "t_state s = ft_ordinary" by auto
    then show ?thesis
    proof cases
      case stop
      then show ?thesis using False t ft_inv_frame [OF assms(1)] by (auto simp: ft_end_def ft_errors_def)
    next
      case at
      then have "ft_between nmax len pre s []" using assms(1) False by (auto simp: ft_inv_def ft_finished_def)
      from * [OF this t refl] show ?thesis using False t at by (simp add: ft_end_def)
    next
      case ord
      then obtain ls cur where "ft_inside nmax len pre s ls cur" "cur \<noteq> []" using assms(1) False by (auto simp: ft_inv_def ft_finished_def)
      moreover from ft_endlabel_ok [OF this] obtain s1 where s1: "ft_endlabel s = Some s1" "ft_between nmax len pre s1 (ls @ [cur])" "t_tused s1 = t_tused s" by auto
      ultimately show ?thesis using * [OF s1(2) t s1(3)] False t ord by (simp add: ft_end_def ft_inside_def)
    qed
  qed
qed

text \<open>A name that was read, from what the end of the loop left.\<close>

lemma fromtext_named:
  assumes "nm_magic name" "BINDABLE name" "buffer_ok source" "buffer_ok target"
    and "ft_loop (options AND DNS_NAME_DOWNCASE \<noteq> 0) (remaining source) (ft_begin target) = Some (None, tlen, s1)"
    and "ft_end (options AND DNS_NAME_DOWNCASE \<noteq> 0) origin tlen s1 = Some (None, absolute, s)"
    and "ft_named (length (b_base target) - b_used target) (contents target) s absolute ls" "t_tused s = length (remaining source)"
    and "length (name_wire ls) \<le> b_length target - b_used target"
  shows "\<exists>n target'. dns_name_fromtext name source origin options target = Some (ISC_R_SUCCESS, n, source\<lparr>b_current := b_used source\<rparr>, target') \<and>
    represents n ls \<and> buffer_ok target' \<and> contents target' = contents target @ name_wire ls"
proof -
  have so: "b_magic source" "b_current source \<le> b_used source" "b_used source \<le> length (b_base source)" "b_used source < 4294967296"
    and to: "b_magic target" "b_used target \<le> b_length target" "b_length target \<le> length (b_base target)" "b_length target < 4294967296"
    using assms(3,4) by (auto simp: buffer_ok_def)
  have blk: "mem_blk (b_base source) (b_current source) (isc_buffer_remaininglength source) = Some (remaining source)"
    using assms(3) so by (simp add: mem_blk_def remaining_def contents_def drop_take buffer_lengths_ok)
  obtain post where p: "t_mem s = contents target @ name_wire ls @ post" "t_nused s = length (name_wire ls)"
      "length (name_wire ls) + length post = length (b_base target) - b_used target"
    using assms(7) by (auto simp: ft_named_def ft_has_def)
  let ?n = "(MAKE_EMPTY name)\<lparr>nm_ndata := name_wire ls, nm_labels := length ls,
     nm_attributes := (if absolute then nm_attributes (MAKE_EMPTY name) OR DNS_NAMEATTR_ABSOLUTE else nm_attributes (MAKE_EMPTY name)),
     nm_offsets := (if nm_offsets name = None then None else Some (t_offsets s))\<rparr>"
  let ?t = "target\<lparr>b_base := t_mem s, b_used := b_used target + length (name_wire ls)\<rparr>"
  have fit: "b_used target + length (name_wire ls) \<le> b_length target" using assms(9) to by simp
  have "dns_name_fromtext name source origin options target = Some (ISC_R_SUCCESS, ?n, source\<lparr>b_current := b_used source\<rparr>, ?t)"
    using assms(1,2,5,6,7,8) fit so to blk p length_remaining [OF assms(3)]
    by (simp add: dns_name_fromtext_def Let_def isc_buffer_forward_def isc_buffer_add_def mem_blk_mid ft_named_def MAKE_EMPTY_def length_contents [OF assms(4)])
  moreover have "is_abs ?n \<longleftrightarrow> absolute"
    by (simp add: is_abs_def MAKE_EMPTY_def and.assoc bit.conj_disj_distrib2)
  then have "represents ?n ls" using assms(1,7) by (auto simp: represents_def ft_named_def MAKE_EMPTY_def offs_of_def)
  moreover have "buffer_ok ?t" "contents ?t = contents target @ name_wire ls"
    using assms(4,9) p by (auto simp: buffer_ok_def contents_def)
  ultimately show ?thesis by blast
qed

text \<open>The origin is a legal name, and with \<open>DNS_NAME_DOWNCASE\<close> no character that is looked up is above 127.\<close>

definition fromtext_input :: "isc_buffer \<Rightarrow> dns_name option \<Rightarrow> u32 \<Rightarrow> bool" where
  "fromtext_input source origin options \<longleftrightarrow>
     (\<forall>c \<in> set (remaining source). lower_char (options AND DNS_NAME_DOWNCASE \<noteq> 0) c \<noteq> None) \<and>
     (\<forall>o'. origin = Some o' \<longrightarrow> (\<exists>os. represents o' os) \<and>
        (\<forall>c \<in> set (nm_ndata o'). lower_char (options AND DNS_NAME_DOWNCASE \<noteq> 0) c \<noteq> None))"

lemma ft_begin_inv:
  assumes "buffer_ok target"
  shows "ft_inv (min 255 (b_length target - b_used target)) (length (b_base target) - b_used target) (contents target) tlen (ft_begin target)"
proof -
  have "b_base target = contents target @ drop (b_used target) (b_base target)" by (simp add: contents_def)
  then show ?thesis
    using assms buffer_okD [OF assms] length_contents [OF assms] buffer_lengths_ok [OF assms]
    by (auto simp: ft_inv_def ft_begin_def ft_between_def ft_holds_def ft_labels_def good_labels_def offs_of_def name_off_def)
qed

lemma fromtext_error:
  assumes "nm_magic name" "BINDABLE name" "buffer_ok source" "buffer_ok target" "ft_frame (contents target) (length (b_base target) - b_used target) s"
    and "ft_loop (options AND DNS_NAME_DOWNCASE \<noteq> 0) (remaining source) (ft_begin target) = Some (e, tlen, s1)"
    and "(if e = None then ft_end (options AND DNS_NAME_DOWNCASE \<noteq> 0) origin tlen s1 else Some (e, False, s1)) = Some (Some res, absolute, s)"
  shows "dns_name_fromtext name source origin options target = Some (res, MAKE_EMPTY name, source, target\<lparr>b_base := t_mem s\<rparr>)"
    "contents (target\<lparr>b_base := t_mem s\<rparr>) = contents target"
proof -
  have "mem_blk (b_base source) (b_current source) (isc_buffer_remaininglength source) = Some (remaining source)"
    using assms(3) buffer_okD [OF assms(3)] by (simp add: mem_blk_def remaining_def contents_def drop_take buffer_lengths_ok)
  then show "dns_name_fromtext name source origin options target = Some (res, MAKE_EMPTY name, source, target\<lparr>b_base := t_mem s\<rparr>)"
    using assms(1,2,6,7) buffer_okD(1) [OF assms(3)] buffer_okD(1) [OF assms(4)]
    by (simp add: dns_name_fromtext_def Let_def)
  show "contents (target\<lparr>b_base := t_mem s\<rparr>) = contents target"
    using assms(5) length_contents [OF assms(4)] by (simp add: contents_def ft_frame_def)
qed

text \<open>
  C32: Reading a name from a text returns: no assertion fails and nothing outside of the target is written.  The text is any
  sequence of bytes, and the origin any legal name or none; but with \<open>DNS_NAME_DOWNCASE\<close> the text and the origin have no byte above
  127, with which the function looks outside of \<open>maptolower\<close> (\<open>fromtext_downcase_undefined\<close> below).  Either the whole text is consumed
  and the target grew by a legal name, or one of six errors is returned, with the name empty, the source as it was, and the used part
  of the target as it was.
\<close>

theorem fromtext_safe:
  assumes "nm_magic name" "BINDABLE name" "buffer_ok source" "buffer_ok target" "fromtext_input source origin options"
  shows "\<exists>res n source' target'. dns_name_fromtext name source origin options target = Some (res, n, source', target') \<and>
    (if res = ISC_R_SUCCESS
     then source' = source\<lparr>b_current := b_used source\<rparr> \<and>
       (\<exists>ls. represents n ls \<and> buffer_ok target' \<and> contents target' = contents target @ name_wire ls)
     else res \<in> ft_errors \<and> source' = source \<and> n = MAKE_EMPTY name \<and> contents target' = contents target)"
proof -
  let ?d = "options AND DNS_NAME_DOWNCASE \<noteq> 0" and ?len = "length (b_base target) - b_used target"
  let ?pre = "contents target" and ?room = "b_length target - b_used target"
  have no: "ISC_R_SUCCESS \<notin> ft_errors" by (simp add: ft_errors_def)
  obtain e tlen s1 where l: "ft_loop ?d (remaining source) (ft_begin target) = Some (e, tlen, s1)" and le: "case e of
      None \<Rightarrow> ft_inv (min 255 ?room) ?len ?pre tlen s1 \<and> t_tused s1 + tlen = t_tused (ft_begin target) + length (remaining source) \<and>
        (\<not> t_done s1 \<and> 0 < t_nrem s1 \<longrightarrow> tlen = 0)
    | Some res \<Rightarrow> res \<in> ft_errors \<and> ft_frame ?pre ?len s1"
    using ft_loop_good [OF _ ft_begin_inv [OF assms(4)], of "remaining source" ?d] assms(5) unfolding fromtext_input_def by blast
  show ?thesis
  proof (cases e)
    case (Some res)
    then have r: "res \<in> ft_errors" "ft_frame ?pre ?len s1" using le by auto
    show ?thesis using fromtext_error [OF assms(1-4) r(2) l, of origin res False] Some r(1) no by auto
  next
    case None
    then have i: "ft_inv (min 255 ?room) ?len ?pre tlen s1" "\<not> t_done s1 \<and> 0 < t_nrem s1 \<longrightarrow> tlen = 0"
      "t_tused s1 + tlen = length (remaining source)" using le by (auto simp: ft_begin_def)
    obtain e' absolute s where f: "ft_end ?d origin tlen s1 = Some (e', absolute, s)" and fe: "case e' of
        None \<Rightarrow> (\<exists>ls. ft_named ?len ?pre s absolute ls \<and> length (name_wire ls) \<le> min 255 ?room) \<and> t_tused s = t_tused s1 \<and> tlen = 0
      | Some res \<Rightarrow> res \<in> ft_errors \<and> ft_frame ?pre ?len s"
      using ft_end_ok [OF i(1,2), of origin ?d] assms(5) unfolding fromtext_input_def by blast
    show ?thesis
    proof (cases e')
      case (Some res)
      then have r: "res \<in> ft_errors" "ft_frame ?pre ?len s" using fe by auto
      show ?thesis using fromtext_error [OF assms(1-4) r(2) l, of origin res absolute] f None Some r(1) no by auto
    next
      case n: None
      then obtain ls where ls: "ft_named ?len ?pre s absolute ls" "length (name_wire ls) \<le> ?room" "t_tused s = length (remaining source)"
        using fe i(3) by auto
      show ?thesis using fromtext_named [OF assms(1-4) l [unfolded None] f [unfolded n] ls(1,3,2)] by auto
    qed
  qed
qed

text \<open>The text \<open>a.B\<close>, read below the origin \<open>com.\<close> in lower case.\<close>

definition ex_text :: isc_buffer where
  "ex_text = (isc_buffer_init [0x61, 0x2e, 0x42] 3)\<lparr>b_used := 3\<rparr>"

lemma ex_text_ok: "buffer_ok ex_text" "fromtext_input ex_text (Some (name_of [[0x63, 0x6f, 0x6d], []])) DNS_NAME_DOWNCASE"
proof -
  have "represents (name_of [[0x63, 0x6f, 0x6d], []]) [[0x63, 0x6f, 0x6d], []]"
    by (rule represents_name_of) (simp add: wf_labels_def enc_label_def DNS_NAME_MAXWIRE_def)
  then show "fromtext_input ex_text (Some (name_of [[0x63, 0x6f, 0x6d], []])) DNS_NAME_DOWNCASE"
    by (auto simp: fromtext_input_def ex_text_def isc_buffer_init_def remaining_def contents_def lower_char_def name_of_def enc_label_def)
qed (simp add: ex_text_def isc_buffer_init_def buffer_ok_def)

theorem fromtext_safe_witness:
  "\<exists>res n source' target'. dns_name_fromtext (name_of []) ex_text (Some (name_of [[0x63, 0x6f, 0x6d], []])) DNS_NAME_DOWNCASE (isc_buffer_init (replicate 9 0) 9) =
      Some (res, n, source', target') \<and>
    (if res = ISC_R_SUCCESS
     then source' = ex_text\<lparr>b_current := b_used ex_text\<rparr> \<and>
       (\<exists>ls. represents n ls \<and> buffer_ok target' \<and> contents target' = contents (isc_buffer_init (replicate 9 0) 9) @ name_wire ls)
     else res \<in> ft_errors \<and> source' = ex_text \<and> n = MAKE_EMPTY (name_of []) \<and> contents target' = contents (isc_buffer_init (replicate 9 0) 9))"
  by (rule fromtext_safe) (simp_all add: ex_text_ok buffer_ok_init name_of_def [of "[]"] BINDABLE_def abs_labels_def)

text \<open>A text that begins with a byte above 127: in lower case it indexes \<open>maptolower\<close> with a negative \<open>char\<close>.\<close>

lemma ft_step_undefined: "128 \<le> c \<Longrightarrow> t_state s = ft_init \<Longrightarrow> 1 < t_nrem s \<Longrightarrow> ft_step True tlen c s = None"
  by (auto simp: ft_step_def ft_do_init_def ft_do_start_def ft_do_ordinary_def ft_char_def lower_char_def Let_def)

lemma fromtext_downcase_undefined:
  assumes "buffer_ok source" "buffer_ok target" "remaining source = c # cs" "128 \<le> c" "b_used target + 1 < b_length target"
    and "options AND DNS_NAME_DOWNCASE \<noteq> 0"
  shows "dns_name_fromtext name source origin options target = None"
proof -
  have "mem_blk (b_base source) (b_current source) (isc_buffer_remaininglength source) = Some (c # cs)"
    using assms(1,3) buffer_okD [OF assms(1)] by (simp add: mem_blk_def remaining_def contents_def drop_take buffer_lengths_ok)
  moreover have "ft_loop True (c # cs) (ft_begin target) = None"
    using ft_step_undefined [OF assms(4), of "ft_begin target" "length cs"] buffer_lengths_ok [OF assms(2)] assms(5)
    by (simp add: ft_begin_def)
  ultimately show ?thesis using assms(6) by (simp add: dns_name_fromtext_def)
qed

section \<open>The text of a name\<close>

definition label_text :: "u32 \<Rightarrow> label \<Rightarrow> u8 list" where
  "label_text options l = concat (map (totext_char options) l)"

definition labels_text :: "u32 \<Rightarrow> label list \<Rightarrow> u8 list" where
  "labels_text options ls = concat (map (\<lambda>l. label_text options l @ [0x2e]) ls)"

definition name_text :: "u32 \<Rightarrow> label list \<Rightarrow> u8 list" where
  "name_text options ls = (if ls = [[]] then [0x2e] else labels_text options (butlast ls))"

lemma label_text_simps [simp]:
  "label_text options [] = []"
  "label_text options (c # cs) = totext_char options c @ label_text options cs"
  by (simp_all add: label_text_def)

lemma labels_text_simps [simp]:
  "labels_text options [] = []"
  "labels_text options (l # ls) = label_text options l @ [0x2e] @ labels_text options ls"
  by (simp_all add: labels_text_def)

lemma totext_label_ok:
  assumes "length old = length (label_text options l)" "length old \<le> trem"
  shows "totext_label options l (pre @ old @ post) (length pre) trem =
    Some (None, pre @ label_text options l @ post, length pre + length old, trem - length old)"
  using assms
proof (induction l arbitrary: pre old trem)
  case (Cons c l)
  let ?k = "length (totext_char options c)"
  have e: "pre @ old @ post = pre @ take ?k old @ drop ?k old @ post" by (metis append.assoc append_take_drop_id)
  have w: "mem_wr (pre @ old @ post) (length pre) (totext_char options c) = Some ((pre @ totext_char options c) @ drop ?k old @ post)"
    unfolding e using mem_wr_mid [of "length pre" pre "totext_char options c" "take ?k old" "drop ?k old @ post"] Cons.prems(1) by simp
  have "totext_label options l ((pre @ totext_char options c) @ drop ?k old @ post) (length (pre @ totext_char options c)) (trem - ?k) =
      Some (None, (pre @ totext_char options c) @ label_text options l @ post, length (pre @ totext_char options c) + length (drop ?k old),
        trem - ?k - length (drop ?k old))"
    by (rule Cons.IH) (use Cons.prems in auto)
  then show ?case using Cons.prems w by (simp add: Let_def)
qed simp

lemma totext_loop_ok:
  assumes "length old = length (labels_text options ls)" "length old < trem" "good_labels ls"
  shows "totext_loop options (Suc (length ls)) (name_wire (ls @ [[]])) (pre @ old @ post) (length pre) trem =
    Some (None, True, 0, pre @ labels_text options ls @ post, length pre + length old, trem - length old)"
  using assms
proof (induction ls arbitrary: pre old trem)
  case Nil
  then show ?case by (simp add: enc_label_def)
next
  case (Cons l ls)
  let ?k = "length (label_text options l)"
  have l: "length l \<le> 63" "l \<noteq> []" "good_labels ls" using Cons.prems(3) by (auto simp: good_labels_def)
  let ?a = "take ?k old" and ?b = "drop (Suc ?k) old"
  obtain x where old: "old = ?a @ [x] @ ?b" using Cons.prems(1) id_take_nth_drop [of ?k old] by auto
  have la: "length ?a = ?k" "length ?b = length (labels_text options ls)" using Cons.prems(1) by simp_all
  have e: "pre @ old @ post = pre @ ?a @ ([x] @ ?b @ post)" by (subst old) simp
  have lab: "totext_label options l (pre @ old @ post) (length pre) trem =
      Some (None, pre @ label_text options l @ [x] @ ?b @ post, length pre + ?k, trem - ?k)"
    unfolding e using totext_label_ok [of ?a options l trem pre "[x] @ ?b @ post"] la(1) Cons.prems(1,2) by simp
  have dot: "mem_wr (pre @ label_text options l @ [x] @ ?b @ post) (length pre + ?k) [0x2e] =
      Some ((pre @ label_text options l @ [0x2e]) @ ?b @ post)"
    using mem_wr_mid [of "length pre + ?k" "pre @ label_text options l" "[0x2e]" "[x]" "?b @ post"] by simp
  have go: "totext_loop options (Suc (length ls)) (name_wire (ls @ [[]])) ((pre @ label_text options l @ [0x2e]) @ ?b @ post)
        (length (pre @ label_text options l @ [0x2e])) (trem - ?k - 1) =
      Some (None, True, 0, (pre @ label_text options l @ [0x2e]) @ labels_text options ls @ post,
        length (pre @ label_text options l @ [0x2e]) + length ?b, trem - ?k - 1 - length ?b)"
    by (rule Cons.IH) (use Cons.prems l in auto)
  have w: "name_wire (l # ls @ [[]]) = word_of_nat (length l) # l @ name_wire (ls @ [[]])" "unat (word_of_nat (length l) :: u8) = length l"
    using l(1) by (simp_all add: enc_label_def unat_len)
  have "totext_loop options (Suc (length (l # ls))) (name_wire ((l # ls) @ [[]])) (pre @ old @ post) (length pre) trem =
    totext_loop options (Suc (length ls)) (name_wire (ls @ [[]])) ((pre @ label_text options l @ [0x2e]) @ ?b @ post)
        (length pre + ?k + 1) (trem - ?k - 1)"
    unfolding append_Cons w using lab dot l Cons.prems(1,2) w(2) by (simp add: Let_def)
  then show ?case using go Cons.prems(1) by simp
qed

text \<open>Writing an absolute name that fits, with no filter set and the final dot kept.\<close>

lemma totext_ok:
  assumes "represents name ls" "abs_labels ls" "buffer_ok target" "options AND DNS_NAME_OMITFINALDOT = 0"
    and "length (name_text options ls) < b_length target - b_used target"
  shows "dns_name_totext2 ISC_R_SUCCESS None name options target = Some (ISC_R_SUCCESS, appended target (name_text options ls))"
proof -
  let ?t = "name_text options ls"
  have n: "nm_magic name" "nm_ndata name = name_wire ls" "nm_labels name = length ls" "wf_labels ls" using assms(1) by (auto simp: represents_def)
  obtain ms where ms: "ls = ms @ [[]]" using assms(2) by (auto simp: abs_labels_def) (metis append_butlast_last_id)
  have good: "good_labels ms" using n(4) by (auto simp: ms wf_labels_def good_labels_def)
  note ok = buffer_okD [OF assms(3)]
  have room: "b_used target + length ?t < b_length target" using assms(5) by simp
  let ?old = "take (length ?t) (drop (b_used target) (b_base target))" and ?post = "drop (b_used target + length ?t) (b_base target)"
  have base: "b_base target = contents target @ ?old @ ?post" "length ?old = length ?t"
    using mem_split [of "b_used target" "length ?t" "b_base target"] room ok by (simp_all add: contents_def)
  have c: "length (contents target) = b_used target" using assms(3) by simp
  have main: "(if nm_length name = 1 \<and> nm_labels name = 1 \<and> nm_ndata name ! 0 = 0
       then totext_single 0x2e (b_base target) (b_used target) (b_length target - b_used target)
       else totext_loop options (nm_labels name) (nm_ndata name) (b_base target) (b_used target) (b_length target - b_used target)) =
     Some (None, True, 0, contents target @ ?t @ ?post, b_used target + length ?t, b_length target - b_used target - length ?t)"
  proof (cases "ms = []")
    case True
    then have "?t = [0x2e]" by (simp add: name_text_def ms)
    moreover have "mem_wr (b_base target) (b_used target) [0x2e] = Some (contents target @ [0x2e] @ ?post)"
      using mem_wr_mid [of "b_used target" "contents target" "[0x2e]" ?old ?post] base c calculation by simp
    ultimately show ?thesis using True n(2,3) room by (simp add: ms totext_single_def enc_label_def)
  next
    case False
    then have t: "?t = labels_text options ms" by (auto simp: name_text_def ms)
    have lo: "totext_loop options (Suc (length ms)) (name_wire (ms @ [[]])) (contents target @ ?old @ ?post) (length (contents target)) (b_length target - b_used target) =
      Some (None, True, 0, contents target @ labels_text options ms @ ?post, length (contents target) + length ?old, b_length target - b_used target - length ?old)"
      by (rule totext_loop_ok) (use base(2) t good assms(5) in simp_all)
    have nr: "\<not> (nm_length name = 1 \<and> nm_labels name = 1 \<and> nm_ndata name ! 0 = 0)" using False n(3) by (simp add: ms)
    have nl: "nm_labels name = Suc (length ms)" "nm_ndata name = name_wire (ms @ [[]])" using n(2,3) by (simp_all add: ms)
    show ?thesis unfolding if_not_P [OF nr] unfolding nl using lo [unfolded base(1) [symmetric] c base(2)] unfolding t .
  qed
  have ne: "\<not> (nm_labels name = 0 \<and> nm_length name = 0)" using n(3) by (simp add: ms)
  have "dns_name_totext2 ISC_R_SUCCESS None name options target =
      isc_buffer_add (target\<lparr>b_base := contents target @ ?t @ ?post\<rparr>) (length ?t) \<bind> (\<lambda>t. Some (ISC_R_SUCCESS, t))"
    using n(1) ok main ne assms(4) room unfolding dns_name_totext2_def Let_def buffer_lengths_ok(1) [OF assms(3)] if_not_P [OF ne]
    by simp
  then show ?thesis using ok room by (simp add: isc_buffer_add_def appended_def)
qed

section \<open>Reading what was written\<close>

lemma totext_char_cases:
  obtains (plain) "totext_char options c = [c]" "c \<noteq> 0x2e" "c \<noteq> 0x5c"
    | (special) "totext_char options c = [0x5c, c]" "\<not> isdigit c" "c \<noteq> 0x5b"
    | (decimal) "totext_char options c = [0x5c, 0x30 + c div 100 mod 10, 0x30 + c div 10 mod 10, 0x30 + c mod 10]"
  by (cases "c \<in> {0x22, 0x28, 0x29, 0x2e, 0x3b, 0x5c}"; cases "c \<in> {0x40, 0x24} \<and> options AND DNS_NAME_MASTERFILE \<noteq> 0";
      cases "0x20 < c \<and> c < 0x7f") (auto simp: totext_char_def isdigit_def)

lemma digit_ok:
  fixes d :: u8
  assumes "unat d < 10"
  shows "isdigit (0x30 + d)" "0x30 + d \<noteq> 0x5b"
proof -
  have "unat (0x30 + d) = 48 + unat d" using assms by (simp add: unat_word_ariths)
  then show "isdigit (0x30 + d)" "0x30 + d \<noteq> 0x5b"
    using assms by (auto simp: isdigit_def word_le_nat_alt dest: arg_cong [of _ _ unat])
qed

lemma decimal_value:
  fixes c :: u8
  shows "(unat (c div 100 mod 10) * 10 + unat (c div 10 mod 10)) * 10 + unat (c mod 10) = unat c"
    "unat (c div 100 mod 10) < 10" "unat (c div 10 mod 10) < 10" "unat (c mod 10) < 10"
proof -
  have "unat c < 256" using unsigned_less [of c] by simp
  then have "unat c div 100 mod 10 = unat c div 10 div 10" by (simp add: div_mult2_eq [symmetric])
  then have "(unat c div 100 mod 10 * 10 + unat c div 10 mod 10) * 10 + unat c mod 10 = unat c" by (simp only: div_mult_mod_eq)
  moreover have "unat (100 :: u8) = 100" "unat (10 :: u8) = 10" by simp_all
  ultimately show "(unat (c div 100 mod 10) * 10 + unat (c div 10 mod 10)) * 10 + unat (c mod 10) = unat c"
    by (simp only: unat_div unat_mod)
qed (simp_all add: unat_div unat_mod)

lemma read_put:
  assumes "ft_inside nmax len pre s ls cur" "length cur < 63" "0 < t_nrem s"
  shows "\<exists>s'. do { s2 \<leftarrow> ft_put (s\<lparr>t_count := t_count s + 1\<rparr>) c; Some (None, s2\<lparr>t_state := ft_ordinary\<rparr>) } = Some (None, s') \<and>
    ft_inside nmax len pre s' ls (cur @ [c]) \<and> t_state s' = ft_ordinary"
  using ft_char_ok [OF assms, of c] by fastforce

lemma read_digit:
  fixes d :: u8
  assumes "ft_inside nmax len pre s ls cur" "t_state s = ft_escdecimal" "t_digits s < 2" "unat d < 10"
  shows "\<exists>s'. ft_do_escdecimal downcase (0x30 + d) s = Some (None, s') \<and> ft_inside nmax len pre s' ls cur \<and> t_state s' = ft_escdecimal \<and>
    t_digits s' = t_digits s + 1 \<and> t_value s' = t_value s * 10 + unat d \<and> t_nrem s' = t_nrem s"
  using assms digit_ok [OF assms(4)] by (simp add: ft_do_escdecimal_def Let_def)

lemma read_last_digit:
  fixes d c :: u8
  assumes "ft_inside nmax len pre s ls cur" "t_digits s = 2" "unat d < 10" "t_value s * 10 + unat d = unat c" "length cur < 63" "0 < t_nrem s"
  shows "\<exists>s'. ft_do_escdecimal False (0x30 + d) s = Some (None, s') \<and> ft_inside nmax len pre s' ls (cur @ [c]) \<and> t_state s' = ft_ordinary"
proof -
  let ?s = "s\<lparr>t_value := unat c, t_digits := 3\<rparr>"
  have "ft_inside nmax len pre ?s ls cur" using assms(1) by simp
  moreover have "unat c < 256" using unsigned_less [of c] by simp
  moreover have "t_count s = length cur" using assms(1) by (simp add: ft_inside_def)
  ultimately show ?thesis
    using read_put [of nmax len pre ?s ls cur c] digit_ok [OF assms(3)] assms by (simp add: ft_do_escdecimal_def Let_def)
qed

text \<open>The text of a character, read in a label.\<close>

lemma read_decimal:
  assumes "ft_inside nmax len pre s ls cur" "length cur < 63" "0 < t_nrem s" "t_state s = ft_ordinary"
  shows "\<exists>s'. ft_loop False ([0x5c, 0x30 + c div 100 mod 10, 0x30 + c div 10 mod 10, 0x30 + c mod 10] @ rest) s = ft_loop False rest s' \<and>
    ft_inside nmax len pre s' ls (cur @ [c]) \<and> t_state s' = ft_ordinary"
proof -
  note dv = decimal_value [of c]
  have nd: "\<not> t_done s" using assms(1) by (simp add: ft_inside_def)
  let ?s0 = "s\<lparr>t_tused := t_tused s + 2, t_digits := 0, t_value := 0, t_state := ft_escdecimal\<rparr>"
  have i0: "ft_inside nmax len pre ?s0 ls cur" using assms(1) by (simp add: ft_inside_def ft_holds_def ft_labels_def)
  obtain s1 where s1: "ft_do_escdecimal False (0x30 + c div 100 mod 10) ?s0 = Some (None, s1)" "ft_inside nmax len pre s1 ls cur"
      "t_state s1 = ft_escdecimal" "t_digits s1 = 1" "t_value s1 = unat (c div 100 mod 10)" "t_nrem s1 = t_nrem s"
    using read_digit [OF i0 _ _ dv(2), of False] by auto
  let ?s1 = "s1\<lparr>t_tused := t_tused s1 + 1\<rparr>"
  have i1: "ft_inside nmax len pre ?s1 ls cur" using s1(2) by simp
  obtain s2 where s2: "ft_do_escdecimal False (0x30 + c div 10 mod 10) ?s1 = Some (None, s2)" "ft_inside nmax len pre s2 ls cur"
      "t_state s2 = ft_escdecimal" "t_digits s2 = 2" "t_value s2 = unat (c div 100 mod 10) * 10 + unat (c div 10 mod 10)" "t_nrem s2 = t_nrem s"
    using read_digit [OF i1 _ _ dv(3), of False] s1(3-6) by auto
  let ?s2 = "s2\<lparr>t_tused := t_tused s2 + 1\<rparr>"
  have i2: "ft_inside nmax len pre ?s2 ls cur" using s2(2) by simp
  obtain s3 where s3: "ft_do_escdecimal False (0x30 + c mod 10) ?s2 = Some (None, s3)" "ft_inside nmax len pre s3 ls (cur @ [c])" "t_state s3 = ft_ordinary"
    using read_last_digit [OF i2 _ dv(4), of c] dv(1) s2(4-6) assms(2,3) by auto
  have u: "\<not> t_done s1" "\<not> t_done s2" using s1(2) s2(2) by (auto simp: ft_inside_def)
  have a: "ft_step False n 0x5c s = Some (None, s\<lparr>t_tused := t_tused s + 1, t_state := ft_escape\<rparr>)" for n
    using assms(4) by (simp add: ft_step_def ft_do_ordinary_def)
  have b: "ft_step False n (0x30 + c div 100 mod 10) (s\<lparr>t_tused := t_tused s + 1, t_state := ft_escape\<rparr>) = Some (None, s1)" for n
    using s1(1) digit_ok [OF dv(2)] by (simp add: ft_step_def ft_do_escape_def)
  have "ft_step False n (0x30 + c div 10 mod 10) s1 = Some (None, s2)" "ft_step False n (0x30 + c mod 10) s2 = Some (None, s3)" for n
    using s1(3) s2(1,3) s3(1) by (simp_all add: ft_step_def)
  then have "ft_loop False ([0x5c, 0x30 + c div 100 mod 10, 0x30 + c div 10 mod 10, 0x30 + c mod 10] @ rest) s = ft_loop False rest s3"
    using a b nd u assms(3) s1(6) s2(6) by simp
  then show ?thesis using s3(2,3) by blast
qed

lemma read_char:
  assumes "ft_inside nmax len pre s ls cur" "length cur < 63" "0 < t_nrem s" "t_state s = ft_ordinary"
  shows "\<exists>s'. ft_loop False (totext_char options c @ rest) s = ft_loop False rest s' \<and>
    ft_inside nmax len pre s' ls (cur @ [c]) \<and> t_state s' = ft_ordinary"
proof (cases rule: totext_char_cases [of options c])
  case plain
  let ?s = "s\<lparr>t_tused := t_tused s + 1\<rparr>"
  have i: "ft_inside nmax len pre ?s ls cur" "t_count s = length cur" "\<not> t_done s" using assms(1) by (simp_all add: ft_inside_def [of _ _ _ s])
  obtain s' where s': "ft_put (?s\<lparr>t_count := t_count ?s + 1\<rparr>) c = Some s'" "ft_inside nmax len pre s' ls (cur @ [c])"
    using ft_char_ok [OF i(1), of c] assms(2,3) by auto
  have "ft_loop False (totext_char options c @ rest) s = ft_loop False rest (s'\<lparr>t_state := ft_ordinary\<rparr>)"
    using plain assms(2-4) i(2,3) s'(1) by (simp add: ft_step_def ft_do_ordinary_def ft_char_def lower_char_def)
  then show ?thesis using s'(2) by auto
next
  case special
  let ?s = "s\<lparr>t_state := ft_escape, t_tused := t_tused s + 2\<rparr>"
  have i: "ft_inside nmax len pre ?s ls cur" "t_count s = length cur" "\<not> t_done s" using assms(1) by (simp_all add: ft_inside_def [of _ _ _ s])
  obtain s' where s': "ft_put (?s\<lparr>t_count := t_count ?s + 1\<rparr>) c = Some s'" "ft_inside nmax len pre s' ls (cur @ [c])"
    using ft_char_ok [OF i(1), of c] assms(2,3) by auto
  have "ft_loop False (totext_char options c @ rest) s = ft_loop False rest (s'\<lparr>t_state := ft_ordinary\<rparr>)"
    using special assms(2-4) i(2,3) s'(1) by (simp add: ft_step_def ft_do_ordinary_def ft_do_escape_def ft_char_def lower_char_def)
  then show ?thesis using s'(2) by auto
next
  case decimal
  then show ?thesis using read_decimal [OF assms] by simp
qed

lemma ft_inside_nrem: "ft_inside nmax len pre s ls cur \<Longrightarrow> length (name_wire ls) + length cur + 1 + t_nrem s = nmax"
  by (auto simp: ft_inside_def ft_holds_def)

lemma ft_between_nrem: "ft_between nmax len pre s ls \<Longrightarrow> length (name_wire ls) + t_nrem s = nmax"
  by (auto simp: ft_between_def ft_holds_def)

lemma read_chars:
  assumes "ft_inside nmax len pre s ls cur" "length cur + length cs \<le> 63" "length (name_wire ls) + length cur + length cs + 1 < nmax" "t_state s = ft_ordinary"
  shows "\<exists>s'. ft_loop False (label_text options cs @ rest) s = ft_loop False rest s' \<and>
    ft_inside nmax len pre s' ls (cur @ cs) \<and> t_state s' = ft_ordinary"
  using assms
proof (induction cs arbitrary: s cur)
  case (Cons c cs)
  have "0 < t_nrem s" using ft_inside_nrem [OF Cons.prems(1)] Cons.prems(3) by simp
  then obtain s1 where s1: "ft_loop False (totext_char options c @ label_text options cs @ rest) s = ft_loop False (label_text options cs @ rest) s1"
      "ft_inside nmax len pre s1 ls (cur @ [c])" "t_state s1 = ft_ordinary"
    using read_char [OF Cons.prems(1) _ _ Cons.prems(4)] Cons.prems(2) by fastforce
  then show ?case using Cons.IH [OF s1(2) _ _ s1(3)] Cons.prems(2,3) by auto
qed auto

text \<open>At its start a label is read as after its first character.\<close>

definition ft_enter :: "ft \<Rightarrow> ft" where
  "ft_enter s = s\<lparr>t_label := t_pos s + t_nused s, t_nrem := t_nrem s - 1, t_nused := t_nused s + 1, t_count := 0, t_state := ft_ordinary\<rparr>"

lemma ft_update_swap:
  fixes s :: ft
  shows "s\<lparr>t_tused := n, t_state := st\<rparr> = s\<lparr>t_state := st, t_tused := n\<rparr>"
    "s\<lparr>t_tused := n, t_label := k\<rparr> = s\<lparr>t_label := k, t_tused := n\<rparr>"
    "s\<lparr>t_tused := n, t_nrem := k\<rparr> = s\<lparr>t_nrem := k, t_tused := n\<rparr>"
    "s\<lparr>t_tused := n, t_nused := k\<rparr> = s\<lparr>t_nused := k, t_tused := n\<rparr>"
    "s\<lparr>t_tused := n, t_count := k\<rparr> = s\<lparr>t_count := k, t_tused := n\<rparr>"
  by simp_all

lemma read_first:
  assumes "t_state s \<in> {ft_init, ft_start}" "\<not> t_done s" "2 \<le> t_nrem s" "rest \<noteq> []"
  shows "ft_loop False (totext_char options c @ rest) s = ft_loop False (totext_char options c @ rest) (ft_enter s)"
proof -
  have esc: "ft_loop False (0x5c # x # more) s = ft_loop False (0x5c # x # more) (ft_enter s)" if "x \<noteq> 0x5b" for x more
    using assms(1-3) that
    by (auto simp: ft_step_def ft_do_init_def ft_do_start_def ft_do_ordinary_def ft_do_initialescape_def ft_enter_def Let_def ft_update_swap)
  show ?thesis
  proof (cases rule: totext_char_cases [of options c])
    case plain
    then show ?thesis using assms by (auto simp: ft_step_def ft_do_init_def ft_do_start_def ft_enter_def Let_def ft_update_swap)
  next
    case special
    then show ?thesis using esc [of c rest] by simp
  next
    case decimal
    then show ?thesis using esc [OF digit_ok(2) [OF decimal_value(2)]] by simp
  qed
qed

lemma read_label:
  assumes "ft_between nmax len pre s ls" "t_state s \<in> {ft_init, ft_start}" "l \<noteq> []" "length l \<le> 63" "length (name_wire ls) + length l + 1 < nmax"
  shows "\<exists>s'. ft_loop False (label_text options l @ [0x2e] @ rest) s = ft_loop False rest s' \<and>
    (if rest = [] then ft_finished nmax len pre s' (ls @ [l]) else ft_between nmax len pre s' (ls @ [l]) \<and> t_state s' = ft_start)"
proof -
  have r: "2 \<le> t_nrem s" "\<not> t_done s" using ft_between_nrem [OF assms(1)] assms(1,3,5) by (auto simp: ft_between_def neq_Nil_conv)
  have i: "ft_inside nmax len pre (ft_enter s) ls []" using ft_start_inside [OF assms(1)] r(1) by (simp add: ft_enter_def)
  obtain s1 where s1: "ft_loop False (label_text options l @ [0x2e] @ rest) (ft_enter s) = ft_loop False ([0x2e] @ rest) s1"
      "ft_inside nmax len pre s1 ls l" "t_state s1 = ft_ordinary"
    using read_chars [OF i, of l options "[0x2e] @ rest"] assms(4,5) by (auto simp: ft_enter_def)
  have enter: "ft_loop False (label_text options l @ [0x2e] @ rest) s = ft_loop False (label_text options l @ [0x2e] @ rest) (ft_enter s)"
    using assms(3) read_first [OF assms(2) r(2,1), of "label_text options (tl l) @ [0x2e] @ rest" options "hd l"] by (cases l) simp_all
  let ?s1 = "s1\<lparr>t_tused := t_tused s1 + 1\<rparr>"
  have n1: "0 < t_nrem s1" "\<not> t_done s1" "t_count s1 = length l"
    using ft_inside_nrem [OF s1(2)] s1(2) assms(5) by (auto simp: ft_inside_def)
  have "ft_inside nmax len pre ?s1 ls l" using s1(2) by simp
  from ft_endlabel_ok [OF this assms(3)] obtain s2 where
    s2: "ft_endlabel ?s1 = Some s2" "ft_between nmax len pre s2 (ls @ [l])" "t_nrem s2 = t_nrem s1" by auto
  show ?thesis
  proof (cases rest)
    case Nil
    obtain s3 where "ft_put (s2\<lparr>t_labels := t_labels s2 + 1\<rparr>) 0 = Some s3" "ft_finished nmax len pre (s3\<lparr>t_done := True\<rparr>) (ls @ [l])"
      using ft_root_ok [OF s2(2)] n1(1) s2(3) by (auto simp: bind_eq_Some_conv)
    moreover from this have "ft_loop False ([0x2e] @ rest) s1 = ft_loop False rest (s3\<lparr>t_done := True, t_state := ft_start\<rparr>)"
      using Nil s1(3) n1 s2(1) assms(3) by (simp add: ft_step_def ft_do_ordinary_def)
    ultimately show ?thesis using enter s1(1) Nil by (intro exI [of _ "s3\<lparr>t_done := True, t_state := ft_start\<rparr>"]) simp
  next
    case (Cons x xs)
    then have "ft_loop False ([0x2e] @ rest) s1 = ft_loop False rest (s2\<lparr>t_state := ft_start\<rparr>)"
      using s1(3) n1 s2(1) assms(3) by (auto simp: ft_step_def ft_do_ordinary_def)
    then show ?thesis using enter s1(1) s2(2) Cons by (intro exI [of _ "s2\<lparr>t_state := ft_start\<rparr>"]) simp
  qed
qed

lemma read_labels:
  assumes "ft_between nmax len pre s ls" "t_state s \<in> {ft_init, ft_start}" "good_labels ms" "ms \<noteq> []" "length (name_wire ls) + length (name_wire ms) < nmax"
  shows "\<exists>s'. ft_loop False (labels_text options ms) s = Some (None, 0, s') \<and> ft_finished nmax len pre s' (ls @ ms)"
  using assms
proof (induction ms arbitrary: s ls)
  case (Cons l ms)
  have l: "l \<noteq> []" "length l \<le> 63" "good_labels ms" using Cons.prems(3) by (auto simp: good_labels_def)
  have e: "labels_text options ms = [] \<longleftrightarrow> ms = []" by (cases ms) simp_all
  obtain s1 where s1: "ft_loop False (labels_text options (l # ms)) s = ft_loop False (labels_text options ms) s1"
      "if ms = [] then ft_finished nmax len pre s1 (ls @ [l]) else ft_between nmax len pre s1 (ls @ [l]) \<and> t_state s1 = ft_start"
    using read_label [OF Cons.prems(1,2) l(1,2), of options "labels_text options ms"] Cons.prems(5) e by (auto simp: enc_label_def)
  show ?case
  proof (cases "ms = []")
    case True
    then show ?thesis using s1 by simp
  next
    case False
    then show ?thesis using s1 Cons.IH [of s1 "ls @ [l]"] l(3) Cons.prems(5) by simp
  qed
qed simp

text \<open>No text of a name is longer than \<open>DNS_NAME_MAXTEXT\<close>.\<close>

lemma length_totext_char: "length (totext_char options c) \<le> 4"
  by (simp add: totext_char_def)

lemma length_label_text: "length (label_text options l) \<le> 4 * length l"
proof (induction l)
  case (Cons c l)
  then show ?case using length_totext_char [of options c] by simp
qed simp

lemma length_labels_text: "length (labels_text options ls) \<le> 4 * length (name_wire ls)"
proof (induction ls)
  case (Cons l ls)
  then show ?case using length_label_text [of options l] by (simp add: enc_label_def)
qed simp

lemma name_text_fits:
  assumes "wf_labels ls"
  shows "length (name_text options ls) < DNS_NAME_MAXTEXT"
proof (cases ls rule: rev_cases)
  case (snoc ms l)
  then show ?thesis
    using assms length_labels_text [of options ms] by (auto simp: name_text_def wf_labels_def DNS_NAME_MAXTEXT_def DNS_NAME_MAXWIRE_def)
qed (simp add: name_text_def DNS_NAME_MAXTEXT_def)

lemma read_name:
  assumes "buffer_ok target" "wf_labels ls" "abs_labels ls" "length (name_wire ls) \<le> b_length target - b_used target"
  shows "\<exists>s. ft_loop False (name_text options ls) (ft_begin target) = Some (None, 0, s) \<and> t_done s \<and> t_tused s = length (name_text options ls) \<and>
    ft_named (length (b_base target) - b_used target) (contents target) s True ls"
proof -
  let ?nmax = "min 255 (b_length target - b_used target)" and ?len = "length (b_base target) - b_used target" and ?b = "ft_begin target"
  obtain ms where ms: "ls = ms @ [[]]" using assms(3) by (auto simp: abs_labels_def) (metis append_butlast_last_id)
  have good: "good_labels ms" using assms(2) by (auto simp: ms wf_labels_def good_labels_def)
  note inv = ft_begin_inv [OF assms(1)]
  have b: "ft_between ?nmax ?len (contents target) ?b []" "t_state ?b = ft_init" "\<not> t_done ?b" "t_tused ?b = 0"
    using inv [of 0] by (auto simp: ft_inv_def ft_begin_def ft_finished_def)
  have fit: "length (name_wire ms) + 1 \<le> ?nmax" using assms(2,4) by (simp add: ms wf_labels_def DNS_NAME_MAXWIRE_def enc_label_def)
  obtain s where s: "ft_loop False (name_text options ls) ?b = Some (None, 0, s)" "ft_finished ?nmax ?len (contents target) s ms"
  proof (cases "ms = []")
    case True
    let ?s = "?b\<lparr>t_tused := 1\<rparr>"
    have "t_nrem ?b = ?nmax" using ft_between_nrem [OF b(1)] by simp
    then have r: "0 < t_nrem ?b" using fit by linarith
    have "ft_between ?nmax ?len (contents target) ?s []" using b(1) by simp
    from ft_root_ok [OF this] r obtain s where "ft_put (?s\<lparr>t_labels := t_labels ?s + 1\<rparr>) 0 = Some s"
        "ft_finished ?nmax ?len (contents target) (s\<lparr>t_done := True\<rparr>) []"
      by (auto simp: bind_eq_Some_conv)
    then show thesis using True that [of "s\<lparr>t_done := True\<rparr>"] b(2-4) r by (simp add: name_text_def ms ft_step_def ft_do_init_def)
  next
    case False
    then show thesis using read_labels [OF b(1) _ good False, of options] b(2) fit that by (auto simp: name_text_def ms)
  qed
  have "t_tused s = length (name_text options ls)"
    using ft_loop_good [OF _ inv, of "name_text options ls" False] s(1) b(4) by (auto simp: lower_char_def)
  then show ?thesis using s ft_finished_named [OF s(2)] by (auto simp: ms ft_finished_def)
qed

text \<open>
  C33: Writing an absolute name as text and reading the text gives the same name back, byte for byte, whatever characters its labels
  have and whatever the origin is: with \<open>DNS_NAME_MAXTEXT\<close> bytes of room for the text and room for the name both calls succeed.
\<close>

theorem name_text_roundtrip:
  assumes "represents name ls" "abs_labels ls" "options AND DNS_NAME_OMITFINALDOT = 0"
    and "buffer_ok text" "b_current text = b_used text" "DNS_NAME_MAXTEXT \<le> b_length text - b_used text"
    and "nm_magic n0" "BINDABLE n0" "options' AND DNS_NAME_DOWNCASE = 0"
    and "buffer_ok target" "length (name_wire ls) \<le> b_length target - b_used target"
  shows "\<exists>text' text'' n target'. dns_name_totext2 ISC_R_SUCCESS None name options text = Some (ISC_R_SUCCESS, text') \<and>
    dns_name_fromtext n0 text' origin options' target = Some (ISC_R_SUCCESS, n, text'', target') \<and>
    represents n ls \<and> contents target' = contents target @ name_wire ls"
proof -
  let ?t = "name_text options ls"
  have wf: "wf_labels ls" using assms(1) by (simp add: represents_def)
  have fit: "length ?t < b_length text - b_used text" using name_text_fits [OF wf, of options] assms(6) by simp
  note w = totext_ok [OF assms(1,2,4,3) fit]
  have ok: "buffer_ok (appended text ?t)" "remaining (appended text ?t) = ?t"
    using appended_ok [OF assms(4), of ?t] fit length_contents [OF assms(4)] assms(5) by (simp_all add: remaining_def)
  obtain s where s: "ft_loop False ?t (ft_begin target) = Some (None, 0, s)" "t_done s" "t_tused s = length ?t"
      "ft_named (length (b_base target) - b_used target) (contents target) s True ls"
    using read_name [OF assms(10) wf assms(2,11)] by blast
  have "ft_end False origin 0 s = Some (None, True, s)" using s(2) by (simp add: ft_end_def)
  then show ?thesis
    using w fromtext_named [OF assms(7,8) ok(1) assms(10), of options' 0 s origin True s ls] s ok(2) assms(9,11) by auto
qed

theorem name_text_roundtrip_witness:
  "\<exists>text' text'' n target'. dns_name_totext2 ISC_R_SUCCESS None (name_of [[0x61, 0x2e, 0], []]) DNS_NAME_MASTERFILE (isc_buffer_init (replicate 1023 0) 1023) =
      Some (ISC_R_SUCCESS, text') \<and>
    dns_name_fromtext (name_of []) text' None 0 (isc_buffer_init (replicate 5 0) 5) = Some (ISC_R_SUCCESS, n, text'', target') \<and>
    represents n [[0x61, 0x2e, 0], []] \<and> contents target' = contents (isc_buffer_init (replicate 5 0) 5) @ name_wire [[0x61, 0x2e, 0], []]"
proof (rule name_text_roundtrip)
  show "represents (name_of [[0x61, 0x2e, 0], []]) [[0x61, 0x2e, 0], []]"
    by (rule represents_name_of) (simp add: wf_labels_def enc_label_def DNS_NAME_MAXWIRE_def)
qed (simp_all add: abs_labels_def DNS_NAME_MASTERFILE_def DNS_NAME_OMITFINALDOT_def DNS_NAME_MAXTEXT_def buffer_ok_init name_of_def BINDABLE_def
    isc_buffer_init_def [of _ 1023] isc_buffer_init_def [of _ 5] enc_label_def buffer_ok_def)

end
