(* ===== verification/Spec2Isabelle.thy ===== *)
theory Spec2Isabelle
  imports Profiler Slab_Subtract Answer Name_Text
begin

text \<open>
  Verification of lb-bind, a BIND 9.9.0 name server that answers with the addresses of the least
  loaded servers first.

  \<^bold>\<open>The program.\<close>  Worker machines run a script that reports their load.  The server has a profiler
  thread (\<^verbatim>\<open>bin/named/profiler.c\<close>).  At the start it walks over the zones and registers every rdataset
  with more than one record; then, again and again, it asks the worker behind each address for its
  load and sorts the addresses of the rdataset by load.  The records of an rdataset lie in a slab, one
  memory object with a table of offsets and the records in DNSSEC order (\<^verbatim>\<open>lib/dns/rdataslab.c\<close>); sorting
  rewrites the table and the order field of each record, in place.  A query binds a handle to the
  slab (\<^verbatim>\<open>lib/dns/rbtdb.c\<close>), adds it to the answer with the order that the configuration asks for
  (\<^verbatim>\<open>bin/named/query.c\<close>, \<^verbatim>\<open>lib/dns/order.c\<close>), and the answer is rendered into a message with compressed
  names (\<^verbatim>\<open>lib/dns/rdataset.c\<close>, \<^verbatim>\<open>name.c\<close>, \<^verbatim>\<open>compress.c\<close>, \<^verbatim>\<open>lib/isc/buffer.c\<close>).  All paths are below
  \<^verbatim>\<open>src/bind-9.9.0\<close>.

  \<^bold>\<open>The model.\<close>  Every C function is a function on values: structures are records, a memory object is a
  list of bytes, a pointer into it is a position.  Loads and stores that leave the object, failed
  assertions and undefined arithmetic give \<open>None\<close>; result codes are values of \<open>isc_result\<close>.  So a theorem
  that a function gives \<open>Some\<close> says that no access leaves its object and that no assertion fails.
  Unsigned arithmetic wraps around where it can.  Loops are structural recursion on their bound,
  recursion with a termination proof, or \<^theory_text>\<open>partial_function\<close> with a theorem that they end.  The
  build is the one with \<^verbatim>\<open>DNS_RDATASET_FIXED\<close> and without \<^verbatim>\<open>LB_LOCKING\<close>; the cursor of the database is modelled
  with and without \<^verbatim>\<open>LBBIND\<close>, by the argument \<open>lb\<close>.

  Arguments of the model are what is not in these sources or what the platform decides:
  \<^item> \<open>qs\<close> is \<^verbatim>\<open>qsort\<close> with the contract \<open>c_qsort\<close>, which a merge sort satisfies and which promises something only for
    comparison functions that are consistent on the array; the profiler's sort is undefined for others;
  \<^item> \<open>mctx\<close>, \<open>malloc\<close>, \<open>alloc\<close> say what the allocator gives, \<open>we_random\<close> the random numbers;
  \<^item> \<open>sw\<close> (comparison of rdata, contract \<open>switch_ok\<close>) and \<open>we_switch\<close> (rendering, contract \<open>rdata_renderer\<close>) are the
    switches over the types that the build generates; \<open>known_switch\<close> has the modelled cases of the second one
    and takes the other cases as its argument \<open>other\<close>;
  \<^item> \<open>md5sum\<close> is MD5 of OpenSSL and \<open>network\<close> is what \<^verbatim>\<open>connect\<close>, \<^verbatim>\<open>write\<close> and \<^verbatim>\<open>recv\<close> give.

  \<^bold>\<open>The theories.\<close>
  \<^descr> \<open>Prelude\<close>, \<open>Comparators\<close>: result codes, memory, encodings of numbers; comparison functions of the
    C library and the contract of \<^verbatim>\<open>qsort\<close> (locales \<open>cmp_on\<close> and \<open>c_qsort\<close>).
  \<^descr> \<open>Rdata\<close>, \<open>Rdataset\<close>: regions, rdata and their comparison; rdataset handles, lists and questions.  The
    locale \<open>rdataset_cursor\<close> is the contract of a method table: first, next, current and count run
    through the items of an rdataset in order.
  \<^descr> \<open>Slab_Layout\<close>, \<open>Slab_Cursor\<close>: the bytes of a slab (\<open>slab_at\<close>), and its cursors, those of \<^verbatim>\<open>rdataslab.c\<close> and the
    two of \<^verbatim>\<open>rbtdb.c\<close>, which all satisfy the contract.  \<open>stored\<close> is the order in memory, \<open>listed\<close> that of
    the table.
  \<^descr> \<open>Slab_Build\<close>, \<open>Slab_Read\<close>, \<open>Slab_Merge\<close>, \<open>Slab_Subtract\<close>: \<open>dns_rdataslab_fromrdataset\<close>, size, membership and
    equality, \<open>dns_rdataslab_merge\<close>, \<open>dns_rdataslab_subtract\<close>.  On well-formed slabs they return a code that is
    given explicitly and, on success, a well-formed slab in DNSSEC order with exactly the records that
    it is to have; subtracting what was merged gives the old slab byte for byte.
  \<^descr> \<open>Float32\<close>, \<open>Slab_Balance\<close>, \<open>Profiler\<close>: the arithmetic of \<^verbatim>\<open>float\<close>, rewriting and sorting a slab, and the
    profiler.  Polling is safe for every behaviour of the network; the invariant \<open>node_inv\<close> of a registered
    rdataset holds after every round that is defined; a round is defined and sorts when the loads can be
    compared; the comparison function is not transitive in general, which is proved as well.
  \<^descr> \<open>Buffer\<close>: all of \<^verbatim>\<open>buffer.c\<close>, its invariant (but for sizes that make a 32-bit sum wrap around) and the round trips of its numbers (locale \<open>buffer_field\<close>).
  \<^descr> \<open>Name\<close>, \<open>Name_Decode\<close>, \<open>Name_Compress\<close>: names as lists of labels (\<open>represents\<close>), their comparison and
    construction; reading a compressed name as a state machine that ends on any bytes; the hash table
    of the compression context as a refinement of a dictionary; names that are written are read back.
  \<^descr> \<open>Name_Text\<close>: names as text.  Any text is read as a whole into a legal name or refused with one of six codes (in
    lower case only characters below 128 are looked up); an absolute name that is written as text is read back byte for byte.
  \<^descr> \<open>Rdata_Wire\<close>, \<open>Towire\<close>: rendering of rdata (its fields read back from the message, compressed names too)
    and of rdatasets, with the order, the rollback when there is no room, negative cache entries and additional data.
  \<^descr> \<open>Answer\<close>: binding a handle, the table of \<^verbatim>\<open>rrset-order\<close> statements and adding an rdataset to an answer.
  \<^descr> This theory puts them together: \<open>load_order_served\<close> follows the addresses from the registration through a
    round of the profiler to the bytes of the answer, with the methods of the database compiled with
    \<^verbatim>\<open>LBBIND\<close> or without: the attribute \<^verbatim>\<open>DNS_RDATASETATTR_LOADORDER\<close> that \<open>query_addrdataset\<close> sets makes the
    latter follow the table as well.

  \<^bold>\<open>Bounds.\<close>  A slab has less than 65536 records and less than four gigabytes, as its fields require; the
  constructors are shown to refuse what does not fit.  Messages are shorter than 65536 bytes
  (\<open>b_length t < 65536\<close>), as the protocol has it; otherwise \<open>towiresorted\<close> has assertions that fail.  The compression
  context has at most 16639 nodes, and the text of a name less than 1023 characters.  Loads are compared when they are at most \<open>2 ^ 21\<close> in absolute value
  (\<open>sane\<close>; a \<^verbatim>\<open>float\<close> is an integer multiple of \<open>2 ^ - 149\<close>), and sorted when two of them are equal or at
  least one apart (\<open>separated\<close>), since the code casts their difference to \<^verbatim>\<open>int\<close>.  There is no fuel.

  \<^bold>\<open>Not modelled.\<close>
  \<^item> The red-black tree, versions, cleaning and locks of \<^verbatim>\<open>rbt.c\<close> and \<^verbatim>\<open>rbtdb.c\<close>, and zones, views and the
    server around them: concurrent pointer structures and events.  What the profiler's iterators come
    to is a list of rdatasets, and each registered rdataset has a memory object of its own.
  \<^item> Concurrency: the update rewrites a slab while queries read it, with the locks compiled out.  The
    theorems are about queries before or after a round, not during one.
  \<^item> Parsing of messages, TSIG, EDNS, DNSSEC, recursion, zone transfer, dynamic update and the rest of
    \<^verbatim>\<open>query.c\<close>: they do not take part in the ordering of addresses and need sockets, timers and
    cryptography.
  \<^item> Text and files: master files, the text form of rdata, configuration, logging.
  \<^item> The types of rdata beyond those named in \<open>Rdata_Wire\<close>: the code for them is reached by the generated
    switch, which is an argument with a contract.
  \<^item> \<^verbatim>\<open>lib/isc\<close> but for buffers and regions, the other libraries and the tools, which the load balancing
    does not change; the workers and the prototypes of the profiler (Ruby and C outside of the
    server), whose answers are arbitrary in the model.
\<close>

section \<open>From the loads to the answer\<close>

text \<open>A handle that reads the slab of a registered rdataset through the methods of the database.\<close>

definition bound_to :: "dns_rdataset \<Rightarrow> node \<Rightarrow> bool" where
  "bound_to r nd \<longleftrightarrow> rs_magic r \<and> rs_methods r = Some Rbtdb_methods \<and> rs_private3 r = rs_private3 (nd_rdataset nd) \<and>
     rs_type r = dns_rdatatype_a \<and> rs_class r = 1"

lemma bound_same: "same_set (r\<lparr>rs_attributes := a\<rparr>) r' \<Longrightarrow> bound_to r nd \<Longrightarrow> bound_to r' nd"
  by (simp add: bound_to_def same_set_def)

lemma bound_items:
  assumes "node_inv nd tbl its" "bound_to r nd"
  shows "rds_valid (nd_mem nd) r"
    "loadorder r \<Longrightarrow> rds_items lb (nd_mem nd) r = map (rdata_of 1 dns_rdatatype_a) (listed its)"
proof -
  obtain base where b: "rs_private3 r = Some base" "slab_at (nd_mem nd) base dns_rdatatype_a tbl its"
    using assms by (auto simp: node_inv_def bound_to_def)
  then have "slab_valid (nd_mem nd) r" using assms(2) unfolding slab_valid_def bound_to_def by metis
  then show "rds_valid (nd_mem nd) r" using assms(2) by (simp add: rds_valid_def bound_to_def)
  show "loadorder r \<Longrightarrow> rds_items lb (nd_mem nd) r = map (rdata_of 1 dns_rdatatype_a) (listed its)"
    using node_items [OF assms(1), of r lb] assms(2) by (simp add: bound_to_def)
qed

lemma rrs_at_mono:
  assumes "rrs_at cs wrote ls type rdclass ttl msg p xs q" "\<And>x bs. x \<in> set xs \<Longrightarrow> wrote x bs \<Longrightarrow> wrote' x bs"
  shows "rrs_at cs wrote' ls type rdclass ttl msg p xs q"
  using assms
proof (induction rule: rrs_at.induct)
  case (rrs_cons p ls' u bs x xs q)
  have "wrote' x bs" using rrs_cons.prems rrs_cons.hyps by simp
  then show ?case
    using rrs_at.rrs_cons [OF rrs_cons.hyps(1-4), of wrote' x xs q] rrs_cons.IH rrs_cons.prems by simp
qed (rule rrs_at.rrs_nil)

text \<open>The record of an address, and rendering a list of these.\<close>

definition address_rdata :: "a_node \<Rightarrow> dns_rdata" where
  "address_rdata x = rdata_of 1 dns_rdatatype_a (put32 (in_addr x))"

lemma address_rdata_form: "rdata_form (address_rdata x)" "rd_length (address_rdata x) = 4"
    "wire_of (address_rdata x) bs \<Longrightarrow> bs = rd_bytes (address_rdata x)"
  by (simp_all add: address_rdata_def rdata_of_def rdata_form_def modelled_type_def wire_of_def rd_length_def rd_bytes_def put32_def
      dns_rdatatype_a_def dns_rdatatype_rrsig_def dns_rdata_validflags_def)

lemma render_addresses:
  assumes env: "we_switch env = known_switch other (we_alloc env)" "c_qsort (we_qsort env)" and owner: "represents owner ls" "abs_labels ls"
    and set: "rds_valid m r" "rds_items lb m r = map address_rdata stats" "rs_attributes r AND DNS_RDATASETATTR_QUESTION = 0"
      "rs_attributes r AND DNS_RDATASETATTR_NEGATIVE = 0" "rs_attributes r AND DNS_RDATASETATTR_FIXEDORDER \<noteq> 0"
    and start: "writes_ok (c, t) ns" "b_length t < 65536"
    and room: "b_used t + length stats * (length (name_wire ls) + 14) \<le> b_length t"
  shows "\<exists>r' c' t'. towiresorted env lb m r owner c t None part options countp =
      Some (ISC_R_SUCCESS, r', c', t', countp + length stats) \<and> take (b_used t) (contents t') = contents t \<and>
    rrs_at (sensitive c) (\<lambda>x bs. bs = rd_bytes x) ls (rs_type r) (rs_class r) (rs_ttl r) (contents t') (b_used t)
      (map address_rdata stats) (b_used t')"
proof -
  obtain ys out where o: "rendered env r None (rds_items lb m r) ys"
      "towiresorted env lb m r owner c t None part options countp = Some out"
      "towire_outcome wire_of ls r c t ys part countp out"
    using rdata_renderer.towiresorted_ok [OF known_renderer.rdata_renderer_axioms refl env owner set(1) _ _ set(3,4) start,
        of lb None part options countp] set(2) address_rdata_form(1) by (auto simp: order_fits_def)
  have ys: "ys = map address_rdata stats" using o(1) set(2,5) by (simp add: rendered_def WANT_FIXED_def)
  have "(\<Sum>x \<leftarrow> ys. rec_size ls x) = length stats * (length (name_wire ls) + 14)"
    unfolding ys by (induction stats) (simp_all add: rec_size_def address_rdata_form(2))
  then have "\<not> b_length t < b_used t + (\<Sum>x \<leftarrow> ys. rec_size ls x)" using room by simp
  moreover obtain res r' c' t' n where out: "out = (res, r', c', t', n)" by (cases out)
  ultimately have w: "res = ISC_R_SUCCESS" "written (sensitive c) wire_of ls r t t' ys" "n = countp + length ys"
      "take (b_used t) (contents t') = contents t"
    using o(3) by (auto simp: towire_outcome_def)
  have "rrs_at (sensitive c) (\<lambda>x bs. bs = rd_bytes x) ls (rs_type r) (rs_class r) (rs_ttl r) (contents t') (b_used t) ys (b_used t')"
    by (rule rrs_at_mono [where wrote = wire_of]) (use w(2) ys address_rdata_form(3) in \<open>auto simp: written_def\<close>)
  then show ?thesis using o(2) out w ys by auto
qed

text \<open>
  How a query is answered from a header of the database: a handle is bound to it, added to the answer with the order that the
  view asks for, and rendered.
\<close>

definition answer_from :: "bool \<Rightarrow> wire_env \<Rightarrow> (dns_rdata \<Rightarrow> 's \<Rightarrow> (isc_result \<times> 's) option) \<Rightarrow> 's \<Rightarrow> mem \<Rightarrow> nat \<Rightarrow> nat \<Rightarrow> node_refs \<Rightarrow>
    rdatasetheader \<Rightarrow> nat \<Rightarrow> dns_order \<Rightarrow> bool \<Rightarrow> dns_name \<Rightarrow> dns_compress \<Rightarrow> isc_buffer \<Rightarrow> u32 \<Rightarrow> nat \<Rightarrow>
    (isc_result \<times> dns_rdataset \<times> dns_compress \<times> isc_buffer \<times> nat) option" where
  "answer_from lb env add s m sizeof_header hpos refs header now order noadditional owner c t options countp =
     do { (_, _, r) \<leftarrow> bind_rdataset sizeof_header 1 0 hpos refs header now (Some dns_rdataset_init);
          r \<leftarrow> r;
          (l, _) \<leftarrow> query_addrdataset add lb m (Some order) noadditional owner [] r s;
          dns_rdataset_towiresorted env lb m (last l) owner c t None options countp }"

text \<open>
  What a registered rdataset with the addresses of \<open>stats\<close> serves: every answer from its header writes the addresses in the
  order of \<open>stats\<close>, with what is left of the TTL.
\<close>

definition serves :: "bool \<Rightarrow> wire_env \<Rightarrow> (dns_rdata \<Rightarrow> 's \<Rightarrow> (isc_result \<times> 's) option) \<Rightarrow> order_table \<Rightarrow> dns_name \<Rightarrow> label list \<Rightarrow>
    dns_compress \<Rightarrow> isc_buffer \<Rightarrow> node \<Rightarrow> a_node list \<Rightarrow> bool" where
  "serves lb env add es owner ls c t nd stats \<longleftrightarrow>
     (\<forall>s sizeof_header hpos refs header now order noadditional options countp.
        rs_private3 (nd_rdataset nd) = Some (hpos + sizeof_header) \<and> referable refs \<and> hd_type header = dns_rdatatype_a \<and>
        hd_attributes header AND RDATASET_ATTR_NEGATIVE = 0 \<and> order_as order es \<longrightarrow>
      (\<exists>r' c' t'. answer_from lb env add s (nd_mem nd) sizeof_header hpos refs header now order noadditional owner c t options countp =
          Some (ISC_R_SUCCESS, r', c', t', countp + length stats) \<and> take (b_used t) (contents t') = contents t \<and>
        rrs_at (sensitive c) (\<lambda>x bs. bs = rd_bytes x) ls dns_rdatatype_a 1 (u32_sub (hd_ttl header) now) (contents t') (b_used t)
          (map address_rdata stats) (b_used t')))"

lemma node_serves:
  fixes add :: "dns_rdata \<Rightarrow> 's \<Rightarrow> (isc_result \<times> 's) option"
  assumes "we_switch env = known_switch other (we_alloc env)" "c_qsort (we_qsort env)" "represents owner ls" "abs_labels ls"
    and order: "order_mode es ls dns_rdatatype_a 1 = DNS_RDATASETATTR_FIXEDORDER" "\<And>x s. add x s \<noteq> None"
    and inv: "node_inv nd tbl its" "listed its = map (\<lambda>x. put32 (in_addr x)) stats"
    and start: "writes_ok (c, t) ns" "b_length t < 65536" "b_used t + length stats * (length (name_wire ls) + 14) \<le> b_length t"
  shows "serves lb env add es owner ls c t nd stats"
  unfolding serves_def
proof (intro allI impI, elim conjE)
  fix s :: 's and header :: rdatasetheader and order :: dns_order and refs :: node_refs
    and sizeof_header hpos now noadditional options countp
  assume h: "rs_private3 (nd_rdataset nd) = Some (hpos + sizeof_header)" "referable refs" "hd_type header = dns_rdatatype_a"
    "hd_attributes header AND RDATASET_ATTR_NEGATIVE = 0" "order_as order es"
  obtain refs' r where r: "bind_rdataset sizeof_header 1 0 hpos refs header now (Some dns_rdataset_init) =
      Some (refs', header\<lparr>hd_count := hd_count header + 1\<rparr>, Some r)"
      "rs_magic r" "rs_methods r = Some Rbtdb_methods" "rs_class r = 1" "rs_type r = hd_type header mod 65536"
      "rs_ttl r = u32_sub (hd_ttl header) now" "rs_private3 r = Some (hpos + sizeof_header)"
      "rs_attributes r AND DNS_RDATASETATTR_QUESTION = 0" "rs_attributes r AND DNS_RDATASETATTR_NEGATIVE = 0"
    by (rule bind_rdataset_ok [OF h(2,4)])
  have b: "bound_to r nd" using r h(1,3) by (simp add: bound_to_def dns_rdatatype_a_def)
  then have m: "order_mode es ls (rs_type r) (rs_class r) = DNS_RDATASETATTR_FIXEDORDER" using order(1) by (simp add: bound_to_def)
  obtain q s' where q: "query_addrdataset add lb (nd_mem nd) (Some order) noadditional owner [] r s = Some ([] @ [q], s')"
      "same_set (r\<lparr>rs_attributes := rs_attributes r OR DNS_RDATASETATTR_FIXEDORDER OR DNS_RDATASETATTR_LOADORDER\<rparr>) q"
    using query_addrdataset_ok [where add = add, OF order(2) bound_items(1) [OF inv(1) b] r(8) assms(3,4) h(5) m] by blast
  have b': "bound_to q nd" by (rule bound_same [OF q(2) b])
  have a: "rs_attributes q = rs_attributes r OR DNS_RDATASETATTR_FIXEDORDER OR DNS_RDATASETATTR_LOADORDER"
      "rs_ttl q = u32_sub (hd_ttl header) now" using q(2) r(6) by (simp_all add: same_set_def)
  have at: "rs_attributes q AND DNS_RDATASETATTR_QUESTION = 0" "rs_attributes q AND DNS_RDATASETATTR_NEGATIVE = 0"
      "rs_attributes q AND DNS_RDATASETATTR_FIXEDORDER \<noteq> 0"
    unfolding a(1) using r(8,9) by (simp_all add: bit.conj_disj_distrib2) (simp_all add: attr_defs)
  have "loadorder q" unfolding loadorder_def a(1) by (simp add: bit.conj_disj_distrib2) (simp add: attr_defs DNS_RDATASETATTR_LOADORDER_def)
  then have items: "rds_items lb (nd_mem nd) q = map address_rdata stats"
    using bound_items(2) [OF inv(1) b'] inv(2) by (simp add: address_rdata_def [abs_def])
  show "\<exists>r' c' t'. answer_from lb env add s (nd_mem nd) sizeof_header hpos refs header now order noadditional owner c t options countp =
          Some (ISC_R_SUCCESS, r', c', t', countp + length stats) \<and> take (b_used t) (contents t') = contents t \<and>
        rrs_at (sensitive c) (\<lambda>x bs. bs = rd_bytes x) ls dns_rdatatype_a 1 (u32_sub (hd_ttl header) now) (contents t') (b_used t)
          (map address_rdata stats) (b_used t')"
    using render_addresses [OF assms(1-4) bound_items(1) [OF inv(1) b'] items at start, of False options countp] b' a(2) r(1) q(1)
    by (simp add: bound_to_def answer_from_def dns_rdataset_towiresorted_def)
qed

lemma address_records:
  assumes "map (\<lambda>x. put32 (in_addr x)) stats = map rd_bytes xs" "\<forall>d \<in> set xs. \<exists>p. d = rdata_of 1 dns_rdatatype_a p"
  shows "map address_rdata stats = xs"
proof -
  have "map address_rdata stats = map (rdata_of 1 dns_rdatatype_a) (map (\<lambda>x. put32 (in_addr x)) stats)"
    by (simp add: address_rdata_def)
  also have "\<dots> = map (\<lambda>d. rdata_of 1 dns_rdatatype_a (rd_bytes d)) xs" unfolding assms(1) by simp
  also have "\<dots> = xs"
    using assms(2) by (intro map_idI) (auto simp: rdata_of_def rd_bytes_def dns_rdatatype_a_def dns_rdatatype_rrsig_def)
  finally show ?thesis .
qed

text \<open>Polling and sorting keep the addresses.\<close>

lemma poll_addresses:
  assumes "poll_loop md5sum nw malloc 0 n stats = Some (Ran polls)" "mset stats' = mset polls"
  shows "mset (map address_rdata stats') = mset (map address_rdata stats)"
proof -
  have "map in_addr polls = map in_addr stats"
    using arg_cong [OF poll_loop_keeps [OF assms(1)], of "map fst"] by (simp add: comp_def)
  moreover have "map address_rdata l = map (\<lambda>a. rdata_of 1 dns_rdatatype_a (put32 a)) (map in_addr l)" for l
    by (simp add: address_rdata_def)
  ultimately have "map address_rdata polls = map address_rdata stats" by metis
  then show ?thesis using assms(2) by (metis mset_map)
qed

text \<open>
  C1: The answer follows the load, with the methods of the load-balancing build of the database and with its
  own ones (\<open>lb\<close>).  If allocations succeed, registering an rdataset of the database with more than one address
  succeeds.  When a round then polls loads that can be compared, the round finishes.  From then on, if the
  \<^verbatim>\<open>rrset-order\<close> statements give the name the fixed order, every query that binds a handle to the header of
  the rdataset, adds it to the answer and renders it into a message with room writes exactly the
  addresses of the rdataset, each once, in ascending order of the polled loads: each record has the owner
  name, the type, the class and what is left of the TTL, and the four bytes of the address.
\<close>

theorem load_order_served:
  assumes reg: "rds_valid m r" "rs_methods r = Some Rbtdb_methods" "rs_private3 r = Some base" "slab_at m base (rs_type r) tbl its"
      "1 < length its" "\<And>k n. malloc k n \<noteq> None" "rs_type r = dns_rdatatype_a" "rs_class r = 1"
      "\<forall>p \<in> set (stored its). length p = 4"
    and qs: "c_qsort qs"
    and env: "we_switch env = known_switch other (we_alloc env)" "c_qsort (we_qsort env)" and owner: "represents owner ls" "abs_labels ls"
    and order: "order_mode es ls dns_rdatatype_a 1 = DNS_RDATASETATTR_FIXEDORDER" "\<And>x s. add x s \<noteq> None"
    and start: "writes_ok (c, t) ns" "b_length t < 65536" "b_used t + length its * (length (name_wire ls) + 14) \<le> b_length t"
  shows "\<exists>nd. register_rdataset lb malloc sizeof_node m r list_g = Some (nd # list_g) \<and>
    (\<forall>polls. poll_loop md5sum nw malloc' 0 (length its) (nd_stats nd) = Some (Ran polls) \<and>
       (\<forall>x \<in> set polls. sane_node x) \<and> separated (set polls) \<longrightarrow>
     (\<exists>nd'. update_node qs md5sum nw malloc' nd = Some (Ran nd') \<and> mset (nd_stats nd') = mset polls \<and>
        sorted (map load_of (nd_stats nd')) \<and> mset (map address_rdata (nd_stats nd')) = mset (rds_items lb m r) \<and>
        serves lb env add es owner ls c t nd' (nd_stats nd')))"
proof -
  obtain nd tbl1 its1 where nd: "register_rdataset lb malloc sizeof_node m r list_g = Some (nd # list_g)" "node_inv nd tbl1 its1"
      "listed its1 = map rd_bytes (rds_items lb m r)" "nd_rdataset nd = r\<lparr>rs_privateuint4 := 0, rs_private5 := None\<rparr>"
      "map (\<lambda>x. put32 (in_addr x)) (nd_stats nd) = map rd_bytes (rds_items lb m r)"
    by (rule register_addresses [where malloc = malloc, OF reg(1) disjI2 [OF reg(2)] reg(3-9)])
  obtain ps where ps: "rds_items lb m r = map (rdata_of 1 dns_rdatatype_a) ps" "mset ps = mset (stored its)"
    using rds_items_slab [OF reg(1) disjI2 [OF reg(2)] reg(3,4), of lb] reg(7,8) by metis
  have items: "length (rds_items lb m r) = length its" using ps(1) mset_eq_length [OF ps(2)] by (simp add: stored_def)
  have len: "length its1 = length its" "its1 \<noteq> []" using arg_cong [OF nd(3), of length] items reg(5) by auto
  have addrs: "map address_rdata (nd_stats nd) = rds_items lb m r"
    by (rule address_records [OF nd(5)]) (auto simp: ps(1))
  have "\<exists>nd'. update_node qs md5sum nw malloc' nd = Some (Ran nd') \<and> mset (nd_stats nd') = mset polls \<and>
        sorted (map load_of (nd_stats nd')) \<and> mset (map address_rdata (nd_stats nd')) = mset (rds_items lb m r) \<and>
        serves lb env add es owner ls c t nd' (nd_stats nd')"
    if p: "poll_loop md5sum nw malloc' 0 (length its) (nd_stats nd) = Some (Ran polls)"
      "\<forall>x \<in> set polls. sane_node x" "separated (set polls)" for polls
  proof -
    obtain nd' its' where u: "update_node qs md5sum nw malloc' nd = Some (Ran nd')" "node_inv nd' (map offset (nd_stats nd')) its'"
        "mset (nd_stats nd') = mset polls" "sorted (map load_of (nd_stats nd'))" "listed its' = map (\<lambda>x. put32 (in_addr x)) (nd_stats nd')"
      by (rule update_node_sorted [OF nd(2) len(2) p(1) [folded len(1)] p(2,3) qs])
    have same: "mset (map address_rdata (nd_stats nd')) = mset (rds_items lb m r)"
      using poll_addresses [OF p(1) u(3)] addrs by simp
    then have n: "length (nd_stats nd') = length its" using items by (metis length_map size_mset)
    then have "serves lb env add es owner ls c t nd' (nd_stats nd')"
      using node_serves [where add = add, OF env owner order u(2,5) start(1,2)] start(3) by simp
    then show ?thesis using u same by blast
  qed
  then show ?thesis using nd(1) by blast
qed

text \<open>
  The statement \<^verbatim>\<open>order fixed\<close> for all names.
\<close>

definition ex_orders :: order_table where
  "ex_orders = [([[0x2a], []], 255, 255, DNS_RDATASETATTR_FIXEDORDER)]"

lemma ex_orders_mode: "order_mode ex_orders ex_labels dns_rdatatype_a 1 = DNS_RDATASETATTR_FIXEDORDER"
  by (simp add: order_mode_def ex_orders_def fits_def dns_rdatatype_any_def dns_rdataclass_any_def ex_labels_def suffix_def)

text \<open>
  The two addresses of the examples in a database with its own methods, with a network where the first worker is down and the
  second one is idle: after a round the second address is served first.
\<close>

theorem load_order_served_witness:
  "\<exists>nd a b nd'. register_rdataset False ex_mctx 200 ex_slab ex_db_set [] = Some [nd] \<and> nd_stats nd = [a, b] \<and>
     update_node msort ex_md5 ex_nw ex_mctx nd = Some (Ran nd') \<and>
     map in_addr (nd_stats nd') = [in_addr b, in_addr a] \<and>
     mset (map address_rdata (nd_stats nd')) = mset (rds_items False ex_slab ex_db_set) \<and>
     serves False ex_env (\<lambda>x s. Some (ISC_R_SUCCESS, s :: unit)) ex_orders (name_of ex_labels) ex_labels (dns_compress_init 0) (ex_target 512) nd' (nd_stats nd')"
proof -
  have reg: "slab_at ex_slab 3 (rs_type ex_db_set) ex_tbl ex_its" "1 < length ex_its" "\<forall>p \<in> set (stored ex_its). length p = 4"
      "rs_type ex_db_set = dns_rdatatype_a"
    using ex_slab_at ex_db_set_facts by (simp_all add: ex_its_def stored_def dns_rdatatype_a_def)
  have env: "we_switch ex_env = known_switch (\<lambda>_ _. None) (we_alloc ex_env)" "c_qsort (we_qsort ex_env)"
    by (simp_all add: ex_env_def merge_sort.c_qsort_axioms)
  have start: "writes_ok (dns_compress_init 0, ex_target 512) []" "b_length (ex_target 512) < 65536"
      "b_used (ex_target 512) + length ex_its * (length (name_wire ex_labels) + 14) \<le> b_length (ex_target 512)"
    by (simp_all add: ex_target_ok) (simp_all add: ex_target_def isc_buffer_init_def ex_labels_def ex_its_def)
  obtain nd where nd: "register_rdataset False ex_mctx 200 ex_slab ex_db_set [] = Some [nd]" and
    polls: "\<And>polls. poll_loop ex_md5 ex_nw ex_mctx 0 (length ex_its) (nd_stats nd) = Some (Ran polls) \<Longrightarrow>
       (\<forall>x \<in> set polls. sane_node x) \<Longrightarrow> separated (set polls) \<Longrightarrow>
     (\<exists>nd'. update_node msort ex_md5 ex_nw ex_mctx nd = Some (Ran nd') \<and> mset (nd_stats nd') = mset polls \<and>
        sorted (map load_of (nd_stats nd')) \<and> mset (map address_rdata (nd_stats nd')) = mset (rds_items False ex_slab ex_db_set) \<and>
        serves False ex_env (\<lambda>x s. Some (ISC_R_SUCCESS, s :: unit)) ex_orders (name_of ex_labels) ex_labels (dns_compress_init 0) (ex_target 512) nd' (nd_stats nd'))"
    using load_order_served [where lb = False and malloc = ex_mctx and add = "\<lambda>x s. Some (ISC_R_SUCCESS, s :: unit)" and
        sizeof_node = 200 and list_g = "[]" and md5sum = ex_md5 and nw = ex_nw and malloc' = ex_mctx,
        OF ex_db_set_facts(1-3) reg(1,2) _ reg(4) ex_db_set_facts(5) reg(3) merge_sort.c_qsort_axioms env ex_name_ok ex_orders_mode _ start]
      Profiler.ex_env(2) by blast
  obtain nd0 where nd0: "register_rdataset False ex_mctx 200 ex_slab ex_db_set [] = Some [nd0]"
      "map (\<lambda>x. put32 (in_addr x)) (nd_stats nd0) = map rd_bytes (rds_items False ex_slab ex_db_set)"
    by (rule register_addresses [OF ex_db_set_facts(1) disjI2 [OF ex_db_set_facts(2)] ex_db_set_facts(3) reg(1,2) _ reg(4)
        ex_db_set_facts(5) reg(3), of ex_mctx False 200 "[]"]) (simp add: Profiler.ex_env(2))
  obtain ps where ps: "rds_items False ex_slab ex_db_set = map (rdata_of (rs_class ex_db_set) (rs_type ex_db_set)) ps" "mset ps = mset (stored ex_its)"
    using rds_items_slab [OF ex_db_set_facts(1) disjI2 [OF ex_db_set_facts(2)] ex_db_set_facts(3) reg(1)] by metis
  then have "length (nd_stats nd0) = 2" using arg_cong [OF nd0(2), of length] ps(1) mset_eq_length [OF ps(2)] ex_its_facts(1) by (simp add: stored_def)
  then have "length (nd_stats nd) = 2" using nd nd0(1) by simp
  then obtain a b where ab: "nd_stats nd = [a, b]" by (auto simp: numeral_2_eq_2 length_Suc_conv)
  let ?b = "b\<lparr>io_load := Fin 0, cpu_load := Fin 0, net_load := Fin 0\<rparr>"
  obtain nd' where u: "update_node msort ex_md5 ex_nw ex_mctx nd = Some (Ran nd')" "mset (nd_stats nd') = mset [down a, ?b]"
      "sorted (map load_of (nd_stats nd'))" "mset (map address_rdata (nd_stats nd')) = mset (rds_items False ex_slab ex_db_set)"
      "serves False ex_env (\<lambda>x s. Some (ISC_R_SUCCESS, s :: unit)) ex_orders (name_of ex_labels) ex_labels (dns_compress_init 0) (ex_target 512) nd' (nd_stats nd')"
    using polls [of "[down a, ?b]"] ex_poll_two [of a b] ex_loads [of ?b a] ab ex_its_facts(1) by auto
  obtain x y where xy: "nd_stats nd' = [x, y]"
    using mset_eq_length [OF u(2)] by (auto simp: length_Suc_conv)
  then have "(x = down a \<and> y = ?b) \<or> (x = ?b \<and> y = down a)" using u(2) by (auto simp: add_eq_conv_ex)
  moreover have "load_of x \<le> load_of y" using u(3) xy by simp
  moreover have "load_of ?b = 0" using idle_load [of ?b] by simp
  ultimately have "x = ?b" "y = down a" using down_load [of a] by auto
  then show ?thesis using nd ab u xy by (auto simp: down_def)
qed

end
